(* ===== verification/Prelude.thy ===== *)
theory Prelude
  imports Main "HOL-Library.Code_Target_Nat" "HOL-Library.Word" "HOL-Library.Monad_Syntax"
begin

text \<open>
  What every component of the development shares: the 64-bit arithmetic of the program written out on
  \<open>nat\<close>, the \<open>Error\<close> and \<open>Result\<close> types of \<open>include/carta-zarr/error.h\<close> and
  \<open>include/carta-zarr/result.h\<close>, decimal printing for messages, the loop that cuts a range of indices into
  blocks, and the lemmas on lists and on division that the components use.

  A \<open>std::uint64_t\<close> and a \<open>std::size_t\<close> (64 bits on every platform the build supports) are \<open>nat\<close> values
  below \<open>2 ^ 64\<close>; the operations that can leave that range are \<open>add64\<close>, \<open>sub64\<close> and \<open>mul64\<close>, which wrap as
  the language says unsigned arithmetic does.
\<close>

section \<open>Unsigned 64-bit arithmetic\<close>

type_synonym u64 = nat

definition add64 :: "u64 \<Rightarrow> u64 \<Rightarrow> u64" where
  "add64 a b = (a + b) mod 18446744073709551616"

definition sub64 :: "u64 \<Rightarrow> u64 \<Rightarrow> u64" where
  "sub64 a b = (a + 18446744073709551616 - b mod 18446744073709551616) mod 18446744073709551616"

definition mul64 :: "u64 \<Rightarrow> u64 \<Rightarrow> u64" where
  "mul64 a b = (a * b) mod 18446744073709551616"

text \<open>The bound below which an extent fits the signed index the storage layer uses.\<close>

abbreviation max_extent :: nat where
  "max_extent \<equiv> 9223372036854775808"

abbreviation two64 :: nat where
  "two64 \<equiv> 18446744073709551616"

named_theorems u64_exact \<open>operations that do not wrap\<close>

lemma two64_power: "two64 = 2 ^ 64"
  by simp

lemma max_extent_power: "max_extent = 2 ^ 63"
  by simp

lemma add64_exact [u64_exact]: "a + b < two64 \<Longrightarrow> add64 a b = a + b"
  by (simp add: add64_def)

lemma sub64_exact [u64_exact]: "b \<le> a \<Longrightarrow> a < two64 \<Longrightarrow> sub64 a b = a - b"
proof -
  assume le: "b \<le> a" and lt: "a < two64"
  then have b: "b mod two64 = b" by simp
  have eq: "a + two64 - b = two64 + (a - b)" using le by simp
  have "(two64 + (a - b)) mod two64 = (a - b) mod two64" by (rule mod_add_self1)
  also have "\<dots> = a - b" using lt by simp
  finally show ?thesis unfolding sub64_def b eq .
qed

lemma mul64_exact [u64_exact]: "a * b < two64 \<Longrightarrow> mul64 a b = a * b"
  by (simp add: mul64_def)

lemma add64_less [simp]: "add64 a b < two64"
  by (simp add: add64_def)

lemma sub64_less [simp]: "sub64 a b < two64"
  by (simp add: sub64_def)

lemma mul64_less [simp]: "mul64 a b < two64"
  by (simp add: mul64_def)

lemma mul64_commute: "mul64 a b = mul64 b a"
  by (simp add: mul64_def mult.commute)

lemma mul64_assoc: "mul64 (mul64 a b) c = mul64 a (mul64 b c)"
  by (simp add: mul64_def mod_mult_left_eq mod_mult_right_eq mult.assoc)

lemma mul64_one [simp]: "a < two64 \<Longrightarrow> mul64 1 a = a" "a < two64 \<Longrightarrow> mul64 a 1 = a"
  "a < two64 \<Longrightarrow> mul64 (Suc 0) a = a" "a < two64 \<Longrightarrow> mul64 a (Suc 0) = a"
  by (simp_all add: mul64_def)

lemma add64_zero [simp]: "a < two64 \<Longrightarrow> add64 0 a = a" "a < two64 \<Longrightarrow> add64 a 0 = a"
  by (simp_all add: add64_def)

lemma mul64_zero [simp]: "mul64 0 a = 0" "mul64 a 0 = 0"
  by (simp_all add: mul64_def)

section \<open>Division rounded up\<close>

text \<open>The program rounds up as \<open>(a / b) + (a % b != 0)\<close>, which cannot wrap.\<close>

definition ceil_div :: "nat \<Rightarrow> nat \<Rightarrow> nat" where
  "ceil_div a b = a div b + of_bool (a mod b \<noteq> 0)"

lemma ceil_div_le_iff: "0 < b \<Longrightarrow> ceil_div a b \<le> k \<longleftrightarrow> a \<le> k * b"
proof -
  assume b: "0 < b"
  have d: "a = a div b * b + a mod b" by simp
  show ?thesis
  proof (cases "a mod b = 0")
    case True
    then have "a = a div b * b" using d by simp
    then show ?thesis using b by (metis True add.right_neutral ceil_div_def mult_le_cancel2 of_bool_eq(1))
  next
    case False
    have "a div b + 1 \<le> k \<longleftrightarrow> a div b < k" by linarith
    also have "\<dots> \<longleftrightarrow> a < k * b" using b by (simp add: div_less_iff_less_mult)
    also have "\<dots> \<longleftrightarrow> a \<le> k * b"
    proof -
      have "a \<noteq> k * b" using False by auto
      then show ?thesis by auto
    qed
    finally show ?thesis using False by (simp add: ceil_div_def)
  qed
qed

lemma less_ceil_div_iff: "0 < b \<Longrightarrow> k < ceil_div a b \<longleftrightarrow> k * b < a"
  by (metis ceil_div_le_iff not_le)

lemma ceil_div_mult_ge: "0 < b \<Longrightarrow> a \<le> ceil_div a b * b"
  using ceil_div_le_iff [of b a "ceil_div a b"] by simp

lemma ceil_div_le_self: "0 < b \<Longrightarrow> ceil_div a b \<le> a"
  by (simp add: ceil_div_le_iff)

lemma ceil_div_zero [simp]: "ceil_div 0 b = 0"
  by (simp add: ceil_div_def)

lemma ceil_div_mono: "0 < b \<Longrightarrow> a \<le> a' \<Longrightarrow> ceil_div a b \<le> ceil_div a' b"
  using ceil_div_le_iff [of b a "ceil_div a' b"] ceil_div_mult_ge [of b a'] by simp

lemma div_add_chunk: "0 < (c::nat) \<Longrightarrow> (a + c) div c = a div c + 1"
  by (rule div_add_self2) simp

lemma div_eq_iff_between: "0 < (c::nat) \<Longrightarrow> x div c = k \<longleftrightarrow> k * c \<le> x \<and> x < (k + 1) * c"
  by (metis Suc_eq_plus1 div_less_iff_less_mult less_Suc_eq_le less_eq_div_iff_mult_less_eq order_antisym_conv
      order_refl)

section \<open>Cutting a range of indices into blocks\<close>

text \<open>
  The loop \<open>for (begin = 0; begin < limit;) { end = next_end(begin); ...; begin = end; }\<close>, which piece planning,
  slab walking and block emission all are. It returns the blocks in order; a loop whose \<open>next_end\<close> makes no
  progress does not return, which is \<open>None\<close>.
\<close>

partial_function (option) block_loop :: "(nat \<Rightarrow> nat) \<Rightarrow> nat \<Rightarrow> nat \<Rightarrow> (nat \<times> nat) list option" where
  "block_loop next_end begin limit =
     (if begin < limit
      then Option.bind (block_loop next_end (next_end begin) limit)
             (\<lambda>rest. Some ((begin, next_end begin) # rest))
      else Some [])"

declare block_loop.simps [code]

fun tiles :: "(nat \<times> nat) list \<Rightarrow> nat \<Rightarrow> nat \<Rightarrow> bool" where
  "tiles [] a c \<longleftrightarrow> a = c"
| "tiles ((x, y) # bs) a c \<longleftrightarrow> x = a \<and> x < y \<and> y \<le> c \<and> tiles bs y c"

lemma tiles_bounds: "tiles bs a c \<Longrightarrow> a \<le> c \<and> (\<forall>(x, y) \<in> set bs. a \<le> x \<and> x < y \<and> y \<le> c)"
  by (induction bs a c rule: tiles.induct) fastforce+

lemma tiles_concat: "tiles bs a c \<Longrightarrow> concat (map (\<lambda>(x, y). [x..<y]) bs) = [a..<c]"
proof (induction bs a c rule: tiles.induct)
  case (2 x y bs a c)
  then have le: "a \<le> y" "y \<le> c" and rest: "concat (map (\<lambda>(x, y). [x..<y]) bs) = [y..<c]"
    by auto
  from 2 have "concat (map (\<lambda>(x, y). [x..<y]) ((x, y) # bs)) = [a..<y] @ [y..<c]"
    using rest by simp
  also have "\<dots> = [a..<c]" using le by (metis upt_add_eq_append le_add_diff_inverse)
  finally show ?case .
qed simp

lemma tiles_sum: "tiles bs a c \<Longrightarrow> sum_list (map (\<lambda>(x, y). y - x) bs) = c - a"
proof (induction bs a c rule: tiles.induct)
  case (2 x y bs a c)
  then have "c - y + (y - a) = c - a" and "sum_list (map (\<lambda>(x, y). y - x) bs) = c - y"
    by (auto dest: tiles_bounds)
  with 2 show ?case by simp
qed simp

text \<open>What a client needs of the function that ends a block, and what it gets back.\<close>

locale block_cutter =
  fixes next_end :: "nat \<Rightarrow> nat" and limit :: nat and ok :: "nat \<Rightarrow> bool"
  assumes progress: "ok b \<Longrightarrow> b < limit \<Longrightarrow> b < next_end b"
    and bounded: "ok b \<Longrightarrow> b < limit \<Longrightarrow> next_end b \<le> limit"
    and stays_ok: "ok b \<Longrightarrow> b < limit \<Longrightarrow> next_end b < limit \<Longrightarrow> ok (next_end b)"
begin

lemma block_loop_returns:
  assumes "ok b" and "b \<le> limit"
  shows "\<exists>bs. block_loop next_end b limit = Some bs \<and> tiles bs b limit \<and>
           (\<forall>(x, y) \<in> set bs. y = next_end x \<and> ok x)"
  using assms
proof (induction "limit - b" arbitrary: b rule: less_induct)
  case less
  show ?case
  proof (cases "b < limit")
    case False
    with less.prems have "b = limit" by simp
    then show ?thesis by (simp add: block_loop.simps)
  next
    case True
    have b: "b < next_end b" "next_end b \<le> limit" using less.prems True progress bounded by auto
    have "\<exists>bs. block_loop next_end (next_end b) limit = Some bs \<and> tiles bs (next_end b) limit \<and>
            (\<forall>(x, y) \<in> set bs. y = next_end x \<and> ok x)"
    proof (cases "next_end b < limit")
      case True
      then have "ok (next_end b)" using less.prems \<open>b < limit\<close> stays_ok by blast
      then show ?thesis using less.hyps [of "next_end b"] b \<open>b < limit\<close> by simp
    next
      case False
      with b have "next_end b = limit" by simp
      then show ?thesis by (simp add: block_loop.simps)
    qed
    then obtain bs where "block_loop next_end (next_end b) limit = Some bs" and
      "tiles bs (next_end b) limit" and "\<forall>(x, y) \<in> set bs. y = next_end x \<and> ok x" by blast
    then show ?thesis using True b less.prems
      by (subst block_loop.simps) auto
  qed
qed

end

section \<open>Writing a list of values at a list of positions\<close>

definition upd_all :: "'a list \<Rightarrow> (nat \<times> 'a) list \<Rightarrow> 'a list" where
  "upd_all xs kvs = foldl (\<lambda>acc (k, v). acc[k := v]) xs kvs"

lemma upd_all_Nil [simp]: "upd_all xs [] = xs"
  by (simp add: upd_all_def)

lemma upd_all_Cons [simp]: "upd_all xs ((k, v) # kvs) = upd_all (xs[k := v]) kvs"
  by (simp add: upd_all_def)

lemma length_upd_all [simp]: "length (upd_all xs kvs) = length xs"
  by (induction kvs arbitrary: xs) auto

lemma upd_all_notin: "k \<notin> fst ` set kvs \<Longrightarrow> upd_all xs kvs ! k = xs ! k"
  by (induction kvs arbitrary: xs) (auto simp: nth_list_update_neq)

lemma upd_all_in:
  "distinct (map fst kvs) \<Longrightarrow> (k, v) \<in> set kvs \<Longrightarrow> k < length xs \<Longrightarrow> upd_all xs kvs ! k = v"
proof (induction kvs arbitrary: xs)
  case (Cons kv kvs)
  obtain k' v' where kv: "kv = (k', v')" by (cases kv)
  show ?case
  proof (cases "(k, v) = (k', v')")
    case True
    with Cons.prems kv have "k \<notin> fst ` set kvs" by auto
    then show ?thesis using True Cons.prems kv by (simp add: upd_all_notin)
  next
    case False
    then show ?thesis using Cons kv by auto
  qed
qed simp

lemma upd_all_cong_values:
  "map fst kvs = map fst kvs' \<Longrightarrow> list_all2 (\<lambda>(k, v) (k', v'). v = v') kvs kvs' \<Longrightarrow> upd_all xs kvs = upd_all xs kvs'"
  by (induction kvs arbitrary: kvs' xs) (auto simp: list_all2_Cons1 split: prod.splits)

section \<open>Enumerating multi-indices, the first axis fastest\<close>

fun index_lists :: "nat list \<Rightarrow> nat list list" where
  "index_lists [] = [[]]"
| "index_lists (c # cs) = concat (map (\<lambda>rest. map (\<lambda>i. i # rest) [0..<c]) (index_lists cs))"

lemma length_index_lists: "length (index_lists cs) = prod_list cs"
  by (induction cs) (simp_all add: length_concat comp_def sum_list_triv mult.commute)

lemma index_lists_bound: "mi \<in> set (index_lists cs) \<Longrightarrow> length mi = length cs \<and> (\<forall>i < length cs. mi ! i < cs ! i)"
  by (induction cs arbitrary: mi) (auto simp: nth_Cons split: nat.splits)

lemma index_lists_ones: "\<forall>c \<in> set cs. c = 1 \<Longrightarrow> index_lists cs = [replicate (length cs) 0]"
  by (induction cs) auto

text \<open>
  Cutting the last axis of more than one element: the multi-indices of the whole are those of the parts, one part
  after another, with the cut axis counted from where its part begins.
\<close>

lemma index_lists_append:
  "index_lists (cs @ ds) = concat (map (\<lambda>tail. map (\<lambda>mi. mi @ tail) (index_lists cs)) (index_lists ds))"
proof (induction cs)
  case Nil
  have "concat (map (\<lambda>x. [x]) xs) = xs" for xs :: "nat list list" by (induction xs) auto
  then show ?case by simp
next
  case (Cons c cs)
  have nest: "concat (map f (concat (map g ts))) = concat (map (\<lambda>t. concat (map f (g t))) ts)"
    for f :: "nat list \<Rightarrow> nat list list" and g :: "nat list \<Rightarrow> nat list list" and ts
    by (induction ts) auto
  have inner: "concat (map (\<lambda>rest. map (\<lambda>i. i # rest) is) (map (\<lambda>mi. mi @ tail) X)) =
      map (\<lambda>mi. mi @ tail) (concat (map (\<lambda>rest. map (\<lambda>i. i # rest) is) X))" for "is" :: "nat list" and tail X
    by (induction X) auto
  show ?case unfolding append_Cons index_lists.simps Cons.IH nest inner ..
qed

text \<open>The position of a multi-index in the enumeration: each axis counts the elements of the faster ones.\<close>

lemma nth_concat_blocks:
  "\<forall>xs \<in> set xss. length xs = c \<Longrightarrow> k < c * length xss \<Longrightarrow> concat xss ! k = xss ! (k div c) ! (k mod c)"
proof (induction xss arbitrary: k)
  case (Cons xs xss)
  show ?case
  proof (cases "k < c")
    case True
    then show ?thesis using Cons.prems by (simp add: nth_append)
  next
    case False
    have c: "0 < c" using Cons.prems(2) by (cases c) auto
    have "k div c = Suc ((k - c) div c)" "k mod c = (k - c) mod c"
      using False c by (simp_all add: le_div_geq le_mod_geq)
    then show ?thesis using Cons.IH [of "k - c"] Cons.prems False by (simp add: nth_append)
  qed
qed simp

lemma index_lists_nth_Cons:
  assumes "k < c * prod_list cs"
  shows "index_lists (c # cs) ! k = (k mod c) # index_lists cs ! (k div c)"
proof -
  have c: "0 < c" using assms by (cases c) auto
  have "k div c < prod_list cs" using assms c by (simp add: div_less_iff_less_mult mult.commute)
  then show ?thesis using assms c
    by (simp add: nth_concat_blocks [where c = c] length_index_lists)
qed

lemma index_lists_position:
  "k < prod_list cs \<Longrightarrow> (\<Sum>i < length cs. index_lists cs ! k ! i * prod_list (take i cs)) = k"
proof (induction cs arbitrary: k)
  case (Cons c cs)
  have c: "0 < c" using Cons.prems by (cases c) auto
  have q: "k div c < prod_list cs" using Cons.prems c by (simp add: div_less_iff_less_mult mult.commute)
  have at: "index_lists (c # cs) ! k = (k mod c) # index_lists cs ! (k div c)"
    using Cons.prems by (intro index_lists_nth_Cons) simp
  have "(\<Sum>i < length (c # cs). index_lists (c # cs) ! k ! i * prod_list (take i (c # cs))) =
      k mod c + (\<Sum>i < length cs. c * (index_lists cs ! (k div c) ! i * prod_list (take i cs)))"
    unfolding at by (simp add: sum.lessThan_Suc_shift mult.left_commute del: index_lists.simps sum.lessThan_Suc)
  also have "\<dots> = k mod c + c * (k div c)" using Cons.IH [OF q] by (simp flip: sum_distrib_left)
  finally show ?case by simp
qed simp

end
