(* ===== verification/Types.thy ===== *)
theory Types
  imports Prelude
begin

text \<open>
  The data the components exchange, with the constructors and fields of the public headers
  \<open>include/carta-zarr/error.h\<close>, \<open>result.h\<close>, \<open>descriptor.h\<close>, \<open>read.h\<close> and \<open>reduce.h\<close>, the data type table of
  \<open>src/zarr/data_type.h\<close>, the world that callbacks act on, and \<open>AxisIndex\<close> and \<open>MapAxes\<close>, which find the
  axes of an image by their role. Record fields carry a prefix because a field is a constant of the theory.
\<close>

section \<open>Errors and results\<close>

datatype ErrorCode =
    not_found | not_zarr | unsupported_transport | unsupported_zarr_version | unsupported_schema
  | unsupported_schema_version | ambiguous_schema | invalid_argument | invalid_metadata
  | unsupported_data_type | unsupported_codec | invalid_slice | buffer_too_small | io_error
  | decode_error | cancelled | not_implemented

record Error =
  err_code :: ErrorCode
  err_message :: string
  err_node_path :: string

type_synonym 'a result = "Error + 'a"

definition mk_error :: "ErrorCode \<Rightarrow> string \<Rightarrow> string \<Rightarrow> Error" where
  "mk_error code message node = \<lparr>err_code = code, err_message = message, err_node_path = node\<rparr>"

lemma err_code_mk_error [simp]: "err_code (mk_error c m n) = c"
  by (simp add: mk_error_def)

lemma err_node_path_mk_error [simp]: "err_node_path (mk_error c m n) = n"
  by (simp add: mk_error_def)

definition ErrorCodeName :: "ErrorCode \<Rightarrow> string" where
  "ErrorCodeName code = (case code of
     not_found \<Rightarrow> ''not_found''
   | not_zarr \<Rightarrow> ''not_zarr''
   | unsupported_transport \<Rightarrow> ''unsupported_transport''
   | unsupported_zarr_version \<Rightarrow> ''unsupported_zarr_version''
   | unsupported_schema \<Rightarrow> ''unsupported_schema''
   | unsupported_schema_version \<Rightarrow> ''unsupported_schema_version''
   | ambiguous_schema \<Rightarrow> ''ambiguous_schema''
   | invalid_argument \<Rightarrow> ''invalid_argument''
   | invalid_metadata \<Rightarrow> ''invalid_metadata''
   | unsupported_data_type \<Rightarrow> ''unsupported_data_type''
   | unsupported_codec \<Rightarrow> ''unsupported_codec''
   | invalid_slice \<Rightarrow> ''invalid_slice''
   | buffer_too_small \<Rightarrow> ''buffer_too_small''
   | io_error \<Rightarrow> ''io_error''
   | decode_error \<Rightarrow> ''decode_error''
   | cancelled \<Rightarrow> ''cancelled''
   | not_implemented \<Rightarrow> ''not_implemented'')"

text \<open>Decimal printing, which \<open>std::to_string\<close> does for the numbers in messages.\<close>

fun to_string :: "nat \<Rightarrow> string" where
  "to_string n = (if n < 10 then [char_of (48 + n)] else to_string (n div 10) @ [char_of (48 + n mod 10)])"

declare to_string.simps [simp del]

section \<open>Images\<close>

datatype AxisRole = spatial_x | spatial_y | spectral | polarization | time | other

record AxisDescriptor =
  ax_name :: string
  ax_role :: AxisRole
  ax_length :: u64
  ax_unit :: string
  ax_storage_index :: nat

datatype DataType =
    unknown | boolean | int8 | uint8 | int16 | uint16 | int32 | uint32 | int64 | uint64
  | float16 | float32 | float64 | complex64 | complex128

record ChunkGeometry =
  fastest_spatial_axis :: AxisRole
  chunk_shape :: "u64 list"
  shard_shape :: "u64 list"
  grid_shape :: "u64 list"
  sharded :: bool
  compressor :: string

record ImageDescriptor =
  img_id :: string
  img_role :: string
  img_data_groups :: "string list"
  stored_type :: DataType
  img_axes :: "AxisDescriptor list"
  img_unit :: string
  has_pixel_mask :: bool
  pixel_mask_id :: string

text \<open>The first axis playing a role, if one does.\<close>

definition AxisIndex :: "AxisDescriptor list \<Rightarrow> AxisRole \<Rightarrow> nat option" where
  "AxisIndex axes role = List.find (\<lambda>i. ax_role (axes ! i) = role) [0..<length axes]"

lemma AxisIndex_Some_iff:
  "AxisIndex axes role = Some i \<longleftrightarrow>
     i < length axes \<and> ax_role (axes ! i) = role \<and> (\<forall>j < i. ax_role (axes ! j) \<noteq> role)"
  by (auto simp: AxisIndex_def find_Some_iff)

lemma AxisIndex_None_iff: "AxisIndex axes role = None \<longleftrightarrow> role \<notin> ax_role ` set axes"
  unfolding AxisIndex_def find_None_iff image_iff
  by (metis atLeastLessThan_iff in_set_conv_nth less_nat_zero_code not_less nth_mem set_upt zero_le)

section \<open>The data type table\<close>

record DataTypeInfo =
  dt_name :: string
  dt_kind :: DataType
  dt_element_bytes :: u64
  dt_real :: bool

definition data_type_info :: "string \<Rightarrow> DataType \<Rightarrow> u64 \<Rightarrow> bool \<Rightarrow> DataTypeInfo" where
  "data_type_info n k b r = \<lparr>dt_name = n, dt_kind = k, dt_element_bytes = b, dt_real = r\<rparr>"

definition kDataTypes :: "DataTypeInfo list" where
  "kDataTypes =
     [data_type_info ''bool'' boolean 1 False,
      data_type_info ''int8'' int8 1 True,
      data_type_info ''uint8'' uint8 1 True,
      data_type_info ''int16'' int16 2 True,
      data_type_info ''uint16'' uint16 2 True,
      data_type_info ''int32'' int32 4 True,
      data_type_info ''uint32'' uint32 4 True,
      data_type_info ''int64'' int64 8 True,
      data_type_info ''uint64'' uint64 8 True,
      data_type_info ''float16'' float16 2 True,
      data_type_info ''float32'' float32 4 True,
      data_type_info ''float64'' float64 8 True,
      data_type_info ''complex64'' complex64 8 False,
      data_type_info ''complex128'' complex128 16 False]"

definition FindDataTypeByName :: "string \<Rightarrow> DataTypeInfo option" where
  "FindDataTypeByName name = List.find (\<lambda>info. dt_name info = name) kDataTypes"

definition FindDataType :: "DataType \<Rightarrow> DataTypeInfo option" where
  "FindDataType kind = List.find (\<lambda>info. dt_kind info = kind) kDataTypes"

lemma FindDataType_bytes:
  "FindDataType kind = Some info \<Longrightarrow> 1 \<le> dt_element_bytes info \<and> dt_element_bytes info \<le> 16"
  by (auto simp: FindDataType_def kDataTypes_def data_type_info_def split: if_splits)

section \<open>Reads and reductions\<close>

record Range =
  rg_start :: u64
  rg_count :: u64
  rg_stride :: u64

definition mk_range :: "u64 \<Rightarrow> u64 \<Rightarrow> u64 \<Rightarrow> Range" where
  "mk_range s c t = \<lparr>rg_start = s, rg_count = c, rg_stride = t\<rparr>"

lemma mk_range_sel [simp]:
  "rg_start (mk_range s c t) = s" "rg_count (mk_range s c t) = c" "rg_stride (mk_range s c t) = t"
  by (simp_all add: mk_range_def)

text \<open>One range for each logical axis.\<close>

type_synonym ReadRequest = "Range list"

text \<open>The index along its axis of the element number \<open>k\<close> of a range, and the last one selected.\<close>

definition range_at :: "Range \<Rightarrow> nat \<Rightarrow> nat" where
  "range_at r k = rg_start r + k * rg_stride r"

definition range_fits :: "Range \<Rightarrow> nat \<Rightarrow> bool" where
  "range_fits r len \<longleftrightarrow> 0 < rg_stride r \<and> 0 < rg_count r \<and> range_at r (rg_count r - 1) < len"

record PlaneSelection =
  pl_spectral :: Range
  pl_polarization :: u64
  pl_time :: u64

text \<open>
  A caller's callbacks and the clock are what a read can observe of the rest of the process, and each call may
  change what the next one sees. Both act on a world of type \<open>'w\<close>.
\<close>

record 'w ReadControl =
  ctl_cancellation_requested :: "('w \<Rightarrow> bool \<times> 'w) option"
  ctl_now :: "'w \<Rightarrow> nat \<times> 'w"
  ctl_deadline :: nat

record 'w ReadOptions =
  opt_control :: "'w ReadControl"
  opt_apply_pixel_mask :: bool
  opt_read_budget_bytes :: u64

text \<open>A pixel is the bit pattern of an IEEE 754 single; a byte of a mask is an octet.\<close>

type_synonym f32 = "32 word"
type_synonym u8 = "8 word"

definition f32_quiet_NaN :: f32 where
  "f32_quiet_NaN = 0x7FC00000"

section \<open>Where each role sits among the logical axes\<close>

record AxisMap =
  am_x :: nat
  am_y :: nat
  am_spectral :: nat
  am_has_polarization :: bool
  am_polarization :: nat
  am_has_time :: bool
  am_time :: nat

definition empty_axis_map :: AxisMap where
  "empty_axis_map = \<lparr>am_x = 0, am_y = 0, am_spectral = 0, am_has_polarization = False, am_polarization = 0,
     am_has_time = False, am_time = 0\<rparr>"

text \<open>The flags say whether an x, a y and a spectral axis have been seen.\<close>

fun MapAxes_loop ::
  "string \<Rightarrow> nat \<Rightarrow> AxisDescriptor list \<Rightarrow> AxisMap \<Rightarrow> bool \<Rightarrow> bool \<Rightarrow> bool \<Rightarrow> (AxisMap \<times> bool \<times> bool \<times> bool) result"
where
  "MapAxes_loop node i [] am has_x has_y has_spectral = Inr (am, has_x, has_y, has_spectral)"
| "MapAxes_loop node i (axis # axes) am has_x has_y has_spectral =
     (case ax_role axis of
        spatial_x \<Rightarrow> MapAxes_loop node (i + 1) axes (am\<lparr>am_x := i\<rparr>) True has_y has_spectral
      | spatial_y \<Rightarrow> MapAxes_loop node (i + 1) axes (am\<lparr>am_y := i\<rparr>) has_x True has_spectral
      | spectral \<Rightarrow> MapAxes_loop node (i + 1) axes (am\<lparr>am_spectral := i\<rparr>) has_x has_y True
      | polarization \<Rightarrow>
          MapAxes_loop node (i + 1) axes (am\<lparr>am_polarization := i, am_has_polarization := True\<rparr>) has_x has_y has_spectral
      | time \<Rightarrow> MapAxes_loop node (i + 1) axes (am\<lparr>am_time := i, am_has_time := True\<rparr>) has_x has_y has_spectral
      | other \<Rightarrow>
          if ax_length axis \<noteq> 1
          then Inl (mk_error not_implemented
                 (''Axis '' @ [CHR 0x27] @ ax_name axis @ [CHR 0x27] @ '' has no known role and is not degenerate'') node)
          else MapAxes_loop node (i + 1) axes am has_x has_y has_spectral)"

definition MapAxes :: "ImageDescriptor \<Rightarrow> AxisMap result" where
  "MapAxes descriptor =
     (case MapAxes_loop (img_id descriptor) 0 (img_axes descriptor) empty_axis_map False False False of
        Inl e \<Rightarrow> Inl e
      | Inr (am, has_x, has_y, has_spectral) \<Rightarrow>
          if \<not> has_x \<or> \<not> has_y \<or> \<not> has_spectral
          then Inl (mk_error not_implemented ''A plane walk needs both spatial axes and a spectral axis'' (img_id descriptor))
          else Inr am)"

text \<open>
  What the loop keeps: a flag is set exactly when its role has been seen, and an index recorded for a role is an
  axis of that role.
\<close>

definition role_seen :: "AxisDescriptor list \<Rightarrow> AxisRole \<Rightarrow> bool \<Rightarrow> nat \<Rightarrow> bool" where
  "role_seen seen role has i \<longleftrightarrow>
     (has \<longleftrightarrow> role \<in> ax_role ` set seen) \<and> (has \<longrightarrow> i < length seen \<and> ax_role (seen ! i) = role)"

lemma role_seen_hit: "ax_role axis = role \<Longrightarrow> role_seen (seen @ [axis]) role True (length seen)"
  by (simp add: role_seen_def)

lemma role_seen_miss: "ax_role axis \<noteq> role \<Longrightarrow> role_seen seen role has i \<Longrightarrow> role_seen (seen @ [axis]) role has i"
  by (auto simp: role_seen_def nth_append)

definition axis_map_inv :: "AxisDescriptor list \<Rightarrow> AxisMap \<Rightarrow> bool \<Rightarrow> bool \<Rightarrow> bool \<Rightarrow> bool" where
  "axis_map_inv seen am hx hy hs \<longleftrightarrow>
     role_seen seen spatial_x hx (am_x am) \<and> role_seen seen spatial_y hy (am_y am) \<and>
     role_seen seen spectral hs (am_spectral am) \<and>
     role_seen seen polarization (am_has_polarization am) (am_polarization am) \<and>
     role_seen seen time (am_has_time am) (am_time am) \<and>
     (\<forall>axis \<in> set seen. ax_role axis = other \<longrightarrow> ax_length axis = 1)"

lemma axis_map_inv_empty: "axis_map_inv [] empty_axis_map False False False"
  by (simp add: axis_map_inv_def role_seen_def empty_axis_map_def)

text \<open>What one turn of the loop does to the map and the flags, for an axis that does not stop it.\<close>

fun MapAxes_step :: "nat \<Rightarrow> AxisRole \<Rightarrow> AxisMap \<times> bool \<times> bool \<times> bool \<Rightarrow> AxisMap \<times> bool \<times> bool \<times> bool" where
  "MapAxes_step i spatial_x (am, hx, hy, hs) = (am\<lparr>am_x := i\<rparr>, True, hy, hs)"
| "MapAxes_step i spatial_y (am, hx, hy, hs) = (am\<lparr>am_y := i\<rparr>, hx, True, hs)"
| "MapAxes_step i spectral (am, hx, hy, hs) = (am\<lparr>am_spectral := i\<rparr>, hx, hy, True)"
| "MapAxes_step i polarization (am, hx, hy, hs) =
     (am\<lparr>am_polarization := i, am_has_polarization := True\<rparr>, hx, hy, hs)"
| "MapAxes_step i time (am, hx, hy, hs) = (am\<lparr>am_time := i, am_has_time := True\<rparr>, hx, hy, hs)"
| "MapAxes_step i other (am, hx, hy, hs) = (am, hx, hy, hs)"

lemma MapAxes_loop_step:
  assumes "ax_role axis = other \<longrightarrow> ax_length axis = 1"
    and "MapAxes_step i (ax_role axis) (am, hx, hy, hs) = (am', hx', hy', hs')"
  shows "MapAxes_loop node i (axis # axes) am hx hy hs = MapAxes_loop node (Suc i) axes am' hx' hy' hs'"
  using assms by (cases "ax_role axis") auto

lemma axis_map_inv_step:
  assumes "axis_map_inv seen am hx hy hs" and "ax_role axis = other \<longrightarrow> ax_length axis = 1"
    and "MapAxes_step (length seen) (ax_role axis) (am, hx, hy, hs) = (am', hx', hy', hs')"
  shows "axis_map_inv (seen @ [axis]) am' hx' hy' hs'"
  using assms by (cases "ax_role axis") (auto simp: axis_map_inv_def role_seen_hit intro: role_seen_miss)

lemma MapAxes_loop_inv:
  "axis_map_inv seen am hx hy hs \<Longrightarrow>
   MapAxes_loop node (length seen) axes am hx hy hs = Inr (am', hx', hy', hs') \<Longrightarrow>
   axis_map_inv (seen @ axes) am' hx' hy' hs'"
proof (induction axes arbitrary: seen am hx hy hs)
  case Nil
  then show ?case by simp
next
  case (Cons axis axes)
  have deg: "ax_role axis = other \<longrightarrow> ax_length axis = 1" using Cons.prems(2) by (auto split: if_splits)
  obtain am1 hx1 hy1 hs1 where
    st: "MapAxes_step (length seen) (ax_role axis) (am, hx, hy, hs) = (am1, hx1, hy1, hs1)"
    by (metis prod_cases4)
  have inv: "axis_map_inv (seen @ [axis]) am1 hx1 hy1 hs1"
    using axis_map_inv_step [OF Cons.prems(1) deg st] .
  have "MapAxes_loop node (length (seen @ [axis])) axes am1 hx1 hy1 hs1 = Inr (am', hx', hy', hs')"
    using Cons.prems(2) MapAxes_loop_step [OF deg st] by simp
  from Cons.IH [OF inv this] show ?case by simp
qed

lemma MapAxes_loop_succeeds:
  "\<forall>axis \<in> set axes. ax_role axis = other \<longrightarrow> ax_length axis = 1 \<Longrightarrow>
   \<exists>r. MapAxes_loop node i axes am hx hy hs = Inr r"
  by (induction axes arbitrary: i am hx hy hs) (auto split: AxisRole.splits)

lemma MapAxes_Inr_inv:
  assumes "MapAxes d = Inr am"
  shows "axis_map_inv (img_axes d) am True True True"
  using assms MapAxes_loop_inv [OF axis_map_inv_empty, of "img_id d" "img_axes d"]
  by (auto simp: MapAxes_def split: sum.splits if_splits prod.splits)

lemma MapAxes_succeeds_iff:
  "(\<exists>am. MapAxes d = Inr am) \<longleftrightarrow>
     (\<forall>axis \<in> set (img_axes d). ax_role axis = other \<longrightarrow> ax_length axis = 1) \<and>
     {spatial_x, spatial_y, spectral} \<subseteq> ax_role ` set (img_axes d)" (is "?ok \<longleftrightarrow> ?unnamed \<and> ?roles")
proof
  assume ?ok
  then show "?unnamed \<and> ?roles"
    using MapAxes_Inr_inv by (force simp: axis_map_inv_def role_seen_def)
next
  assume h: "?unnamed \<and> ?roles"
  then obtain am hx hy hs where
    l: "MapAxes_loop (img_id d) 0 (img_axes d) empty_axis_map False False False = Inr (am, hx, hy, hs)"
    using MapAxes_loop_succeeds by (metis prod_cases4)
  then have "axis_map_inv (img_axes d) am hx hy hs"
    using MapAxes_loop_inv [OF axis_map_inv_empty, of "img_id d" "img_axes d"] by simp
  with h l show ?ok by (auto simp: MapAxes_def axis_map_inv_def role_seen_def)
qed

end
