(* ===== verification/Chunk_Blocks.thy ===== *)
theory Chunk_Blocks
  imports Types
begin

text \<open>
  The arithmetic of \<open>src/chunk_blocks.h\<close>, with the pixel mask rules of \<open>src/pixel_mask.h\<close> it asks: what one read
  may decode, what a chunk decodes to, where a block of selected indices ends so that no chunk is split between
  two blocks, how many chunks a strided selection touches, and the chunks a sample touches. The lemmas relate each
  routine to what it counts: sets of chunk indices.
\<close>

section \<open>Pixel masks\<close>

definition AppliesPixelMask :: "'w ReadOptions \<Rightarrow> ImageDescriptor \<Rightarrow> bool" where
  "AppliesPixelMask options descriptor \<longleftrightarrow> opt_apply_pixel_mask options \<and> has_pixel_mask descriptor"

text \<open>
  The first \<open>count\<close> pixels of the buffer, each replaced by NaN where its mask byte is not zero. The caller's
  buffers hold at least \<open>count\<close> elements; the pixels past them are left alone.
\<close>

fun ApplyPixelMask :: "f32 list \<Rightarrow> u8 list \<Rightarrow> nat \<Rightarrow> f32 list" where
  "ApplyPixelMask pixels flags 0 = pixels"
| "ApplyPixelMask (p # pixels) (m # flags) (Suc count) =
     (if m \<noteq> 0 then f32_quiet_NaN else p) # ApplyPixelMask pixels flags count"
| "ApplyPixelMask pixels flags (Suc count) = pixels"

section \<open>Budgets\<close>

definition kDecodedBytesPerRead :: u64 where "kDecodedBytesPerRead = 67108864"
definition kMinChunksPerRead :: u64 where "kMinChunksPerRead = 8"
definition kMaxDecodedBytesPerRead :: u64 where "kMaxDecodedBytesPerRead = 268435456"

definition DefaultReadBytes :: "u64 \<Rightarrow> u64" where
  "DefaultReadBytes chunk_bytes =
     (let wanted = mul64 (max 1 chunk_bytes) kMinChunksPerRead
      in min kMaxDecodedBytesPerRead (max kDecodedBytesPerRead wanted))"

definition UnitsAffordable :: "u64 \<Rightarrow> u64 \<Rightarrow> u64" where
  "UnitsAffordable chunks_per_read chunks_per_unit = max 1 (chunks_per_read div max 1 chunks_per_unit)"

definition ChunkElements :: "ChunkGeometry \<Rightarrow> u64" where
  "ChunkElements geometry = foldl (\<lambda>elements len. mul64 elements (max 1 len)) 1 (chunk_shape geometry)"

definition DecodedChunkBytes :: "ImageDescriptor \<Rightarrow> ChunkGeometry \<Rightarrow> u64" where
  "DecodedChunkBytes descriptor geometry =
     (let elements = ChunkElements geometry;
          element_bytes = (case FindDataType (stored_type descriptor) of Some info \<Rightarrow> dt_element_bytes info | None \<Rightarrow> 4)
      in max 1 (mul64 elements element_bytes))"

text \<open>
  The loop over the pixel chunks of an axis. Its counter steps to \<open>len\<close>, an axis length, and \<open>step\<close> is never
  zero: a pixel chunk of zero steps the whole axis, whose length is not zero.
\<close>

function FlagChunksAcross_loop :: "u64 \<Rightarrow> u64 \<Rightarrow> u64 \<Rightarrow> u64 \<Rightarrow> u64 \<Rightarrow> u64" where
  "FlagChunksAcross_loop first len step flag_chunk most =
     (if first < len \<and> 0 < step
      then let last = min (first + step) len - 1
           in FlagChunksAcross_loop (first + step) len step flag_chunk
                (max most (last div flag_chunk - first div flag_chunk + 1))
      else most)"
  by pat_completeness auto
termination by (relation "measure (\<lambda>(first, len, step, flag_chunk, most). len - first)") auto

declare FlagChunksAcross_loop.simps [simp del]

definition FlagChunksAcross :: "u64 \<Rightarrow> u64 \<Rightarrow> u64 \<Rightarrow> u64" where
  "FlagChunksAcross len pixel_chunk flag_chunk =
     (if flag_chunk = 0 \<or> len = 0 \<or> flag_chunk = pixel_chunk then 1
      else FlagChunksAcross_loop 0 len (if pixel_chunk = 0 then len else pixel_chunk) flag_chunk 1)"

text \<open>The chunk extent along an axis, zero for an axis the shape does not have.\<close>

definition extent_at :: "ChunkGeometry \<Rightarrow> nat \<Rightarrow> u64" where
  "extent_at geometry axis = (if axis < length (chunk_shape geometry) then chunk_shape geometry ! axis else 0)"

definition DecodedFlagBytes :: "ImageDescriptor \<Rightarrow> ChunkGeometry \<Rightarrow> ChunkGeometry \<Rightarrow> u64" where
  "DecodedFlagBytes descriptor geometry flag_geometry =
     (let flag = (if chunk_shape flag_geometry = [] then geometry else flag_geometry)
      in foldl (\<lambda>bytes axis. mul64 bytes
             (mul64 (FlagChunksAcross (ax_length (img_axes descriptor ! axis)) (extent_at geometry axis) (extent_at flag axis))
                (max 1 (extent_at flag axis))))
           1 [0..<length (img_axes descriptor)])"

record ReadCost =
  cost_apply_mask :: bool
  cost_chunk_bytes :: u64
  cost_budget_bytes :: u64

definition ReadCost_Of :: "ImageDescriptor \<Rightarrow> ChunkGeometry \<Rightarrow> ChunkGeometry \<Rightarrow> 'w ReadOptions \<Rightarrow> ReadCost" where
  "ReadCost_Of descriptor geometry flag_geometry options =
     (let apply_mask = AppliesPixelMask options descriptor;
          chunk_bytes = add64 (DecodedChunkBytes descriptor geometry)
                          (if apply_mask then DecodedFlagBytes descriptor geometry flag_geometry else 0)
      in \<lparr>cost_apply_mask = apply_mask, cost_chunk_bytes = chunk_bytes,
          cost_budget_bytes = (if opt_read_budget_bytes options \<noteq> 0 then opt_read_budget_bytes options
                               else DefaultReadBytes chunk_bytes)\<rparr>)"

section \<open>Blocks that end on a chunk boundary\<close>

definition AlignedBlockEnd :: "u64 \<Rightarrow> u64 \<Rightarrow> u64 \<Rightarrow> u64 \<Rightarrow> u64 \<Rightarrow> u64 \<Rightarrow> u64" where
  "AlignedBlockEnd begin desired limit axis_start stride chunk =
     (let desired = (if desired = 0 then 1 else desired);
          target = min (add64 begin desired) limit
      in if limit \<le> target \<or> chunk = 0 \<or> stride = 0 then target
         else
           let chunk_of = (\<lambda>index. add64 axis_start (mul64 index stride) div chunk);
               first_at = (\<lambda>absolute. if absolute \<le> axis_start then 0
                            else let offset = sub64 absolute axis_start
                                 in add64 (offset div stride) (of_bool (offset mod stride \<noteq> 0)));
               chunk_index = chunk_of target
           in if chunk_of (sub64 target 1) \<noteq> chunk_index then target
              else
                let chunk_first = first_at (mul64 chunk_index chunk)
                in if begin < chunk_first then chunk_first
                   else min (first_at (mul64 (add64 chunk_index 1) chunk)) limit)"

section \<open>Chunks a selection touches\<close>

definition ChunksTouched :: "u64 \<Rightarrow> u64 \<Rightarrow> u64 \<Rightarrow> u64 \<Rightarrow> u64" where
  "ChunksTouched start count stride chunk =
     (if count = 0 then 0
      else if chunk = 0 \<or> chunk \<le> stride then count
      else let last = add64 start (mul64 (sub64 count 1) (if stride = 0 then 1 else stride))
           in add64 (sub64 (last div chunk) (start div chunk)) 1)"

record SampledChunks =
  sc_chunk :: u64
  sc_stride :: u64
  sc_size :: u64
  sc_every :: bool

definition ChunksSampled :: "u64 \<Rightarrow> u64 \<Rightarrow> u64 \<Rightarrow> SampledChunks" where
  "ChunksSampled len chunk stride =
     (let chunk = max 1 chunk; stride = max 1 stride
      in if len = 0 then \<lparr>sc_chunk = chunk, sc_stride = stride, sc_size = 0, sc_every = True\<rparr>
         else let samples = (len - 1) div stride + 1;
                  every = stride < chunk
              in \<lparr>sc_chunk = chunk, sc_stride = stride,
                  sc_size = (if every then mul64 (samples - 1) stride div chunk + 1 else samples), sc_every = every\<rparr>)"

definition sampled_chunk :: "SampledChunks \<Rightarrow> u64 \<Rightarrow> u64" where
  "sampled_chunk s index = (if sc_every s then index else mul64 index (sc_stride s) div sc_chunk s)"

section \<open>Lemmas\<close>

subsection \<open>Masks and budgets\<close>

lemma ApplyPixelMask_code [code]:
  "ApplyPixelMask pixels flags count =
     (if count = 0 then pixels
      else case (pixels, flags) of
             (p # pixels, m # flags) \<Rightarrow> (if m \<noteq> 0 then f32_quiet_NaN else p) # ApplyPixelMask pixels flags (count - 1)
           | _ \<Rightarrow> pixels)"
  by (cases count; cases pixels; cases flags) auto

lemma length_ApplyPixelMask [simp]: "length (ApplyPixelMask pixels flags n) = length pixels"
  by (induction pixels flags n rule: ApplyPixelMask.induct) auto

lemma ApplyPixelMask_nth:
  "n \<le> length pixels \<Longrightarrow> n \<le> length flags \<Longrightarrow> i < length pixels \<Longrightarrow>
   ApplyPixelMask pixels flags n ! i = (if i < n \<and> flags ! i \<noteq> 0 then f32_quiet_NaN else pixels ! i)"
  by (induction pixels flags n arbitrary: i rule: ApplyPixelMask.induct) (auto simp: nth_Cons split: nat.splits)

lemma DefaultReadBytes_bounds:
  "kDecodedBytesPerRead \<le> DefaultReadBytes b \<and> DefaultReadBytes b \<le> kMaxDecodedBytesPerRead"
  by (simp add: DefaultReadBytes_def kDecodedBytesPerRead_def kMaxDecodedBytesPerRead_def Let_def)

lemma UnitsAffordable_pos: "1 \<le> UnitsAffordable r u"
  by (simp add: UnitsAffordable_def)

lemma UnitsAffordable_fits: "UnitsAffordable r u = 1 \<or> UnitsAffordable r u * max 1 u \<le> r"
proof (cases "r div max 1 u \<le> 1")
  case False
  then have "UnitsAffordable r u = r div max 1 u" by (simp add: UnitsAffordable_def)
  then show ?thesis by (simp add: div_times_less_eq_dividend)
qed (auto simp: UnitsAffordable_def max_def)

subsection \<open>Chunks touched\<close>

text \<open>The chunk of each of \<open>count\<close> elements, \<open>stride\<close> apart.\<close>

definition chunks_of :: "nat \<Rightarrow> nat \<Rightarrow> nat \<Rightarrow> nat \<Rightarrow> nat set" where
  "chunks_of start count stride chunk = (\<lambda>k. (start + k * stride) div chunk) ` {..<count}"

lemma step_below_chunk:
  assumes "0 < chunk" and "stride \<le> (chunk::nat)"
  shows "(start + Suc k * stride) div chunk \<le> (start + k * stride) div chunk + 1"
proof -
  have "start + Suc k * stride \<le> (start + k * stride) + chunk" using assms by simp
  then have "(start + Suc k * stride) div chunk \<le> ((start + k * stride) + chunk) div chunk" by (rule div_le_mono)
  then show ?thesis using assms(1) by (simp only: div_add_chunk)
qed

lemma chunks_of_fine:
  assumes "0 < chunk" and "stride \<le> chunk" and "0 < count"
  shows "chunks_of start count stride chunk = {start div chunk .. (start + (count - 1) * stride) div chunk}"
  using assms(3)
proof (induction count rule: nat_induct_non_zero)
  case 1
  then show ?case by (auto simp: chunks_of_def)
next
  case (Suc n)
  let ?f = "\<lambda>k. (start + k * stride) div chunk"
  have "?f (n - 1) \<le> ?f n" and "?f n \<le> ?f (n - 1) + 1" and "start div chunk \<le> ?f (n - 1)"
    using step_below_chunk [OF assms(1,2), of start "n - 1"] Suc.hyps by (auto intro!: div_le_mono)
  moreover have "chunks_of start (Suc n) stride chunk = insert (?f n) (chunks_of start n stride chunk)"
    by (simp add: chunks_of_def lessThan_Suc)
  ultimately show ?case using Suc.IH by auto
qed

lemma chunks_of_coarse_inj:
  fixes start stride chunk count :: nat
  assumes "0 < chunk" and "chunk \<le> stride"
  shows "inj_on (\<lambda>k. (start + k * stride) div chunk) {..<count}"
proof -
  have "(start + j * stride) div chunk < (start + k * stride) div chunk" if "j < k" for j k
  proof -
  from that have "Suc j * stride \<le> k * stride" by (intro mult_le_mono1) simp
  then have "start + j * stride + chunk \<le> start + k * stride" using assms by simp
  then have "(start + j * stride + chunk) div chunk \<le> (start + k * stride) div chunk" by (rule div_le_mono)
  then show ?thesis using assms by (simp add: div_add_chunk)
  qed
  then show ?thesis by (intro inj_onI) (metis less_irrefl linorder_neqE_nat)
qed

lemma card_chunks_of:
  assumes "0 < chunk" and "0 < count"
  shows "card (chunks_of start count stride chunk) =
    (if chunk \<le> stride then count else (start + (count - 1) * stride) div chunk - start div chunk + 1)"
proof (cases "chunk \<le> stride")
  case True
  then show ?thesis using chunks_of_coarse_inj [OF assms(1) True] by (simp add: chunks_of_def card_image)
next
  case False
  have "start div chunk \<le> (start + (count - 1) * stride) div chunk" by (intro div_le_mono) simp
  then show ?thesis using False assms chunks_of_fine [of chunk stride count start] by simp
qed

lemma ChunksTouched_card:
  assumes "0 < stride" and "0 < chunk" and fit: "start + (count - 1) * stride < two64"
    and "count < two64"
  shows "ChunksTouched start count stride chunk = card (chunks_of start count stride chunk)"
proof (cases "count = 0")
  case True
  then show ?thesis by (simp add: ChunksTouched_def chunks_of_def)
next
  case False
  have last: "add64 start (mul64 (sub64 count 1) stride) = start + (count - 1) * stride"
    using fit False assms by (simp add: u64_exact)
  have "start div chunk \<le> (start + (count - 1) * stride) div chunk" by (intro div_le_mono) simp
  moreover have "(start + (count - 1) * stride) div chunk < two64 - 1 \<or> stride \<ge> chunk"
  proof (cases "chunk = 1")
    case False
    then have "(start + (count - 1) * stride) div chunk \<le> (start + (count - 1) * stride) div 2"
      using assms by (intro div_le_mono2) auto
    then show ?thesis using fit by linarith
  qed (use assms in simp)
  ultimately show ?thesis using False assms last fit
    by (auto simp: ChunksTouched_def card_chunks_of Let_def add64_exact sub64_exact)
qed

subsection \<open>Aligned block ends\<close>

text \<open>
  The chunk of a selected element, and the first selected index at or after an absolute coordinate, both over the
  unbounded naturals.
\<close>

definition chunk_at :: "nat \<Rightarrow> nat \<Rightarrow> nat \<Rightarrow> nat \<Rightarrow> nat" where
  "chunk_at start stride chunk index = (start + index * stride) div chunk"

definition first_index_at :: "nat \<Rightarrow> nat \<Rightarrow> nat \<Rightarrow> nat" where
  "first_index_at start stride absolute = ceil_div (absolute - start) stride"

lemma chunk_at_mono: "i \<le> j \<Longrightarrow> chunk_at start stride chunk i \<le> chunk_at start stride chunk j"
  by (simp add: chunk_at_def div_le_mono)

lemma first_index_at_le_iff:
  "0 < stride \<Longrightarrow> first_index_at start stride absolute \<le> k \<longleftrightarrow> absolute \<le> start + k * stride"
  by (auto simp: first_index_at_def ceil_div_le_iff)

lemma first_index_of_chunk:
  "0 < stride \<Longrightarrow> 0 < chunk \<Longrightarrow>
   first_index_at start stride (c * chunk) \<le> k \<longleftrightarrow> c \<le> chunk_at start stride chunk k"
  by (simp add: first_index_at_le_iff chunk_at_def less_eq_div_iff_mult_less_eq)

definition aligned_end :: "nat \<Rightarrow> nat \<Rightarrow> nat \<Rightarrow> nat \<Rightarrow> nat \<Rightarrow> nat \<Rightarrow> nat" where
  "aligned_end begin desired limit start stride chunk =
     (let target = min (begin + max 1 desired) limit; c = chunk_at start stride chunk target
      in if limit \<le> target \<or> chunk_at start stride chunk (target - 1) \<noteq> c then target
         else if begin < first_index_at start stride (c * chunk) then first_index_at start stride (c * chunk)
         else min (first_index_at start stride ((c + 1) * chunk)) limit)"

lemma first_at_exact:
  assumes "0 < stride" and "a < two64"
  shows "(if a \<le> start then 0
          else let offset = sub64 a start in add64 (offset div stride) (of_bool (offset mod stride \<noteq> 0)))
         = first_index_at start stride a"
proof (cases "a \<le> start")
  case False
  let ?o = "a - start"
  have o: "sub64 a start = ?o" using False assms by (simp add: sub64_exact)
  have "?o div stride + of_bool (?o mod stride \<noteq> 0) \<le> ?o"
    using ceil_div_le_self [OF assms(1), of ?o] by (simp add: ceil_div_def)
  then have "add64 (?o div stride) (of_bool (?o mod stride \<noteq> 0)) = ceil_div ?o stride"
    using assms by (simp add: add64_exact ceil_div_def)
  then show ?thesis using False by (simp add: o first_index_at_def)
qed (simp add: first_index_at_def)

lemma next_chunk_start_exact:
  assumes "x < max_extent" and "chunk < two64"
  shows "mul64 (add64 (x div chunk) 1) chunk = (x div chunk + 1) * chunk" and
    "(x div chunk + 1) * chunk < two64"
proof -
  have le: "x div chunk * chunk \<le> x" by (rule div_times_less_eq_dividend)
  show lt: "(x div chunk + 1) * chunk < two64"
  proof (cases "x div chunk = 0")
    case False
    then have "chunk \<le> x div chunk * chunk" by simp
    moreover have "(x div chunk + 1) * chunk = x div chunk * chunk + chunk" by simp
    ultimately show ?thesis using le assms by linarith
  qed (use assms in simp)
  have "x div chunk \<le> x" by simp
  then have "add64 (x div chunk) 1 = x div chunk + 1" using assms by (intro add64_exact) linarith
  then show "mul64 (add64 (x div chunk) 1) chunk = (x div chunk + 1) * chunk"
    using lt by (simp only: mul64_exact)
qed

lemma AlignedBlockEnd_exact:
  assumes "0 < stride" and "0 < chunk" and "chunk < two64" and "begin < limit"
    and fit: "start + (limit - 1) * stride < max_extent" and "limit \<le> max_extent"
    and room: "begin = 0 \<or> desired < limit" and "desired < two64"
  shows "AlignedBlockEnd begin desired limit start stride chunk = aligned_end begin desired limit start stride chunk"
proof -
  let ?d = "if desired = 0 then 1 else desired"
  define target where "target = min (begin + max 1 desired) limit"
  have t: "min (add64 begin ?d) limit = target"
  proof -
    have "begin + ?d < two64" using assms by (auto split: if_splits)
    then show ?thesis by (auto simp: target_def add64_exact max_def)
  qed
  show ?thesis
  proof (cases "limit \<le> target")
    case True
    then have "limit \<le> target \<or> P" for P by blast
    then show ?thesis
      by (simp only: AlignedBlockEnd_def aligned_end_def Let_def t target_def [symmetric] if_True)
  next
    case False
    have "1 \<le> target" and "target \<le> limit - 1" using False assms by (auto simp: target_def)
    have coord: "start + k * stride < max_extent" if "k \<le> target" for k
    proof -
      have "k * stride \<le> (limit - 1) * stride" using that \<open>target \<le> limit - 1\<close> by (intro mult_le_mono1) simp
      then show ?thesis using fit by linarith
    qed
    have ch: "add64 start (mul64 k stride) div chunk = chunk_at start stride chunk k" if "k \<le> target" for k
      using coord [OF that] by (simp add: u64_exact chunk_at_def)
    let ?c = "chunk_at start stride chunk target"
    have t1: "sub64 target 1 = target - 1" using \<open>1 \<le> target\<close> \<open>target \<le> limit - 1\<close> assms by (simp add: sub64_exact)
    note c2 = next_chunk_start_exact [OF coord [OF order_refl] assms(3), folded chunk_at_def]
    have c1lt: "?c * chunk < two64" using c2(2) by simp
    have c1: "mul64 ?c chunk = ?c * chunk" using c1lt by (rule mul64_exact)
    have guards: "(chunk = 0 \<or> stride = 0) = False" "(limit \<le> target \<or> P) = P" for P
      using False assms by auto
    note f1 = first_at_exact [OF assms(1) c1lt, unfolded Let_def]
    note f2 = first_at_exact [OF assms(1) c2(2), unfolded Let_def]
    show ?thesis
      by (simp only: AlignedBlockEnd_def aligned_end_def Let_def t target_def [symmetric] guards if_False
            ch [OF order_refl] t1 ch [of "target - 1", OF diff_le_self] c1 c2(1) f1 f2)
  qed
qed

text \<open>
  A block makes progress, stays in range, splits no chunk with the next one, and is longer than it was asked to be
  only when all of it lies in one chunk.
\<close>

lemma aligned_end_spec:
  fixes start desired :: nat
  assumes "0 < stride" and "0 < chunk" and "begin < limit"
  defines "e \<equiv> aligned_end begin desired limit start stride chunk"
  shows "begin < e \<and> e \<le> limit \<and>
     (e = limit \<or> chunk_at start stride chunk (e - 1) \<noteq> chunk_at start stride chunk e) \<and>
     (e \<le> begin + max 1 desired \<or> chunk_at start stride chunk begin = chunk_at start stride chunk (e - 1))"
proof -
  define target where "target = min (begin + max 1 desired) limit"
  let ?f = "chunk_at start stride chunk"
  let ?c = "?f target"
  let ?first = "first_index_at start stride (?c * chunk)"
  let ?next = "first_index_at start stride ((?c + 1) * chunk)"
  note idx = first_index_of_chunk [OF assms(1,2)]
  have bt: "begin < target" "target \<le> limit" "target \<le> begin + max 1 desired"
    using assms(3) by (auto simp: target_def)
  have e_eq: "e = (if limit \<le> target \<or> ?f (target - 1) \<noteq> ?c then target
      else if begin < ?first then ?first else min ?next limit)"
    by (simp only: e_def aligned_end_def Let_def target_def)
  consider (reached) "limit \<le> target \<or> ?f (target - 1) \<noteq> ?c" | (earlier) "\<not> (limit \<le> target \<or> ?f (target - 1) \<noteq> ?c)" and "begin < ?first"
    | (inside) "\<not> (limit \<le> target \<or> ?f (target - 1) \<noteq> ?c)" and "\<not> begin < ?first" by blast
  then show ?thesis
  proof cases
    case reached
    then have "e = target" by (simp add: e_eq)
    with reached bt show ?thesis by auto
  next
    case earlier
    then have e: "e = ?first" using e_eq by simp
    have "?first \<le> target - 1" using earlier by (simp add: idx)
    then have "e < limit" "e \<le> begin + max 1 desired" using e bt by linarith+
    moreover have "?f (e - 1) < ?c"
    proof -
      have "\<not> ?first \<le> e - 1" using e earlier(2) by linarith
      then show ?thesis using idx [of start ?c "e - 1"] by linarith
    qed
    moreover have "?c \<le> ?f e" using idx [of start ?c e] e by simp
    ultimately show ?thesis using earlier e by auto
  next
    case inside
    then have e: "e = min ?next limit" using e_eq by simp
    have "?c \<le> ?f begin" using inside by (simp add: idx not_less)
    then have fb: "?f begin = ?c" using chunk_at_mono [of "begin" target start stride chunk] bt by (simp add: order_antisym)
    have nt: "target < ?next" using idx [of start "?c + 1" target] by linarith
    have te: "target < e" using nt inside e by simp
    have "e - 1 < ?next" using e te by linarith
    then have "?f (e - 1) < ?c + 1" using idx [of start "?c + 1" "e - 1"] by linarith
    moreover have "?c \<le> ?f (e - 1)" using te by (intro chunk_at_mono) simp
    ultimately have fe: "?f (e - 1) = ?c" by simp
    have "e = limit \<or> ?c < ?f e" using idx [of start "?c + 1" e] e by auto
    then show ?thesis using te bt e fb fe by auto
  qed
qed

text \<open>
  The block loop over \<open>AlignedBlockEnd\<close>. The last conjunct of \<open>block_ok\<close> says why a long block cannot wrap: one that
  wants everything ends the loop at its first turn.
\<close>

definition block_ok :: "nat \<Rightarrow> nat \<Rightarrow> nat \<Rightarrow> nat \<Rightarrow> nat \<Rightarrow> nat \<Rightarrow> bool" where
  "block_ok desired limit start stride chunk b \<longleftrightarrow>
     0 < stride \<and> chunk < two64 \<and> desired < two64 \<and> limit \<le> max_extent \<and> start + (limit - 1) * stride < max_extent \<and>
     (b = 0 \<or> desired < limit)"

lemma AlignedBlockEnd_progress:
  assumes "block_ok desired limit start stride chunk b" and "b < limit"
  shows "b < AlignedBlockEnd b desired limit start stride chunk \<and> AlignedBlockEnd b desired limit start stride chunk \<le> limit"
proof (cases "chunk = 0")
  case True
  have "b + (if desired = 0 then 1 else desired) < two64" using assms by (auto simp: block_ok_def split: if_splits)
  then show ?thesis using True assms by (auto simp: AlignedBlockEnd_def add64_exact Let_def)
next
  case False
  then show ?thesis using AlignedBlockEnd_exact [of stride chunk b limit start desired]
      aligned_end_spec [of stride chunk b limit desired start] assms by (auto simp: block_ok_def)
qed

lemma AlignedBlockEnd_all:
  assumes "block_ok desired limit start stride chunk 0" and "0 < limit" and "limit \<le> desired"
  shows "AlignedBlockEnd 0 desired limit start stride chunk = limit"
  using assms by (simp add: AlignedBlockEnd_def block_ok_def Let_def)

interpretation aligned: block_cutter
  "\<lambda>b. AlignedBlockEnd b desired limit start stride chunk" limit "block_ok desired limit start stride chunk"
  for desired limit start stride chunk
proof
  fix b assume ok: "block_ok desired limit start stride chunk b" and b: "b < limit"
  show "b < AlignedBlockEnd b desired limit start stride chunk"
    and "AlignedBlockEnd b desired limit start stride chunk \<le> limit"
    using AlignedBlockEnd_progress [OF ok b] by auto
  assume less: "AlignedBlockEnd b desired limit start stride chunk < limit"
  have "desired < limit"
  proof (cases "b = 0")
    case True
    then show ?thesis using AlignedBlockEnd_all ok less b by (metis less_irrefl not_le)
  qed (use ok in \<open>simp add: block_ok_def\<close>)
  then show "block_ok desired limit start stride chunk (AlignedBlockEnd b desired limit start stride chunk)"
    using ok by (simp add: block_ok_def)
qed

text \<open>The blocks of a range, when the loop is over its chunk-aligned ends.\<close>

definition aligned_blocks :: "nat \<Rightarrow> nat \<Rightarrow> nat \<Rightarrow> nat \<Rightarrow> nat \<Rightarrow> (nat \<times> nat) list option" where
  "aligned_blocks desired limit start stride chunk =
     block_loop (\<lambda>b. AlignedBlockEnd b desired limit start stride chunk) 0 limit"

lemma aligned_blocks_tile:
  assumes "block_ok desired limit start stride chunk 0"
  shows "\<exists>bs. aligned_blocks desired limit start stride chunk = Some bs \<and> tiles bs 0 limit"
  using aligned.block_loop_returns [OF assms] unfolding aligned_blocks_def by blast

lemma aligned_blocks_no_shared_chunk:
  assumes ok: "block_ok desired limit start stride chunk 0" and "0 < chunk"
    and bs: "aligned_blocks desired limit start stride chunk = Some bs"
    and "(x, y) \<in> set bs" and "i < y" and "y \<le> j" and "j < limit"
  shows "chunk_at start stride chunk i < chunk_at start stride chunk j"
proof -
  have all: "tiles bs 0 limit" "\<forall>(x, y) \<in> set bs. y = AlignedBlockEnd x desired limit start stride chunk \<and>
      block_ok desired limit start stride chunk x"
    using aligned.block_loop_returns [OF ok] bs by (auto simp: aligned_blocks_def)
  then have y: "y = AlignedBlockEnd x desired limit start stride chunk"
    and okx: "block_ok desired limit start stride chunk x" and x: "x < limit" "y \<le> limit"
    using assms(4) tiles_bounds [OF all(1)] by fastforce+
  have "chunk_at start stride chunk (y - 1) \<noteq> chunk_at start stride chunk y"
    using aligned_end_spec [of stride chunk x limit desired start] AlignedBlockEnd_exact [of stride chunk x limit start desired]
      y okx x assms(2,6,7) by (auto simp: block_ok_def)
  then have "chunk_at start stride chunk (y - 1) < chunk_at start stride chunk y"
    using chunk_at_mono [of "y - 1" y start stride chunk] by simp
  moreover have "chunk_at start stride chunk i \<le> chunk_at start stride chunk (y - 1)"
    using assms(5) by (intro chunk_at_mono) simp
  moreover have "chunk_at start stride chunk y \<le> chunk_at start stride chunk j"
    using assms(6) by (rule chunk_at_mono)
  ultimately show ?thesis by simp
qed

subsection \<open>Sampled chunks\<close>

lemma samples_exact: "0 < stride \<Longrightarrow> 0 < len \<Longrightarrow> len < two64 \<Longrightarrow> mul64 ((len - 1) div stride) stride = (len - 1) div stride * stride"
  using div_times_less_eq_dividend [of "len - 1" stride] by (intro mul64_exact) linarith

lemma sampled_chunks_list:
  fixes len chunk stride :: nat
  assumes "0 < stride" and "0 < chunk" and "0 < len" and "len < two64"
  defines "s \<equiv> ChunksSampled len chunk stride" and "samples \<equiv> (len - 1) div stride + 1"
  shows "sc_size s = ChunksTouched 0 samples stride chunk"
    and "sampled_chunk s ` {..<sc_size s} = chunks_of 0 samples stride chunk"
    and "strict_mono_on {..<sc_size s} (sampled_chunk s)"
proof -
  have s: "sc_chunk s = chunk" "sc_stride s = stride" "sc_every s = (stride < chunk)"
    "sc_size s = (if stride < chunk then (len - 1) div stride * stride div chunk + 1 else samples)"
    using assms samples_exact [of stride len] by (auto simp: s_def ChunksSampled_def samples_def Let_def max_def)
  have le: "(len - 1) div stride * stride \<le> len - 1" by (rule div_times_less_eq_dividend)
  have lt: "(len - 1) div stride * stride < two64" using le assms(3,4) by linarith
  have sle: "samples \<le> len" using div_le_dividend [of "len - 1" stride] assms(3) unfolding samples_def by linarith
  have "ChunksTouched 0 samples stride chunk = card (chunks_of 0 samples stride chunk)"
    using assms(1,2,4) lt sle by (intro ChunksTouched_card) (simp_all add: samples_def)
  then show "sc_size s = ChunksTouched 0 samples stride chunk"
    using s card_chunks_of [OF assms(2), of samples 0 stride] by (auto simp: samples_def)
  have at: "sampled_chunk s k = (if stride < chunk then k else k * stride div chunk)" if "k < sc_size s" for k
  proof (cases "stride < chunk")
    case False
    then have "k \<le> (len - 1) div stride" using that s by (simp add: samples_def)
    then have "k * stride \<le> (len - 1) div stride * stride" by simp
    then have "mul64 k stride = k * stride" using lt by (intro mul64_exact) linarith
    then show ?thesis using False s by (simp add: sampled_chunk_def)
  qed (simp add: sampled_chunk_def s)
  show "sampled_chunk s ` {..<sc_size s} = chunks_of 0 samples stride chunk"
  proof (cases "stride < chunk")
    case True
    then have "sampled_chunk s ` {..<sc_size s} = {..<sc_size s}" using at by (auto simp: image_iff)
    also have "\<dots> = {0 .. (samples - 1) * stride div chunk}" using True s by (auto simp: samples_def)
    finally show ?thesis using chunks_of_fine [of chunk stride samples 0] True assms by (simp add: samples_def)
  next
    case False
    then show ?thesis using at s by (auto simp: chunks_of_def intro!: image_cong)
  qed
  show "strict_mono_on {..<sc_size s} (sampled_chunk s)"
  proof (cases "stride < chunk")
    case True
    then show ?thesis using at by (auto intro!: strict_mono_onI)
  next
    case False
    have "i * stride div chunk < j * stride div chunk" if "i < j" for i j :: nat
    proof -
      have "Suc i * stride \<le> j * stride" using that by (intro mult_le_mono1) simp
      then have "(i * stride + chunk) div chunk \<le> j * stride div chunk" using False by (intro div_le_mono) simp
      then show ?thesis using assms(2) by (simp add: div_add_chunk)
    qed
    then show ?thesis using at False by (auto intro!: strict_mono_onI)
  qed
qed

subsection \<open>Flag chunks across a pixel chunk\<close>

text \<open>The flag chunks that the pixel chunk starting at \<open>first\<close> lies across.\<close>

definition flag_chunks_at :: "nat \<Rightarrow> nat \<Rightarrow> nat \<Rightarrow> nat \<Rightarrow> nat set" where
  "flag_chunks_at len step flag_chunk first = (\<lambda>x. x div flag_chunk) ` {first ..< min (first + step) len}"

lemma flag_chunks_at_card:
  assumes "0 < flag_chunk" and "0 < step" and "first < len"
  shows "card (flag_chunks_at len step flag_chunk first) =
    (min (first + step) len - 1) div flag_chunk - first div flag_chunk + 1"
proof -
  let ?n = "min (first + step) len - first"
  have n: "0 < ?n" using assms by auto
  have "{first ..< min (first + step) len} = (\<lambda>k. first + k * 1) ` {..<?n}"
  proof (intro set_eqI iffI)
    fix x assume "x \<in> {first ..< min (first + step) len}"
    then show "x \<in> (\<lambda>k. first + k * 1) ` {..<?n}" by (intro image_eqI [of _ _ "x - first"]) auto
  qed auto
  then have "flag_chunks_at len step flag_chunk first = chunks_of first ?n 1 flag_chunk"
    by (simp add: flag_chunks_at_def chunks_of_def image_image)
  moreover have "first + (?n - 1) * 1 = min (first + step) len - 1" using n by simp
  ultimately show ?thesis using card_chunks_of [OF assms(1) n, of first 1] assms(1) n
    by (cases "flag_chunk = 1") auto
qed

lemma finite_multiples:
  assumes "0 < (step::nat)"
  shows "finite {j. a + j * step < len}"
proof (rule finite_subset)
  have "j < len" if "a + j * step < len" for j
  proof -
    have "j * 1 \<le> j * step" using assms by (intro mult_le_mono2) simp
    then show ?thesis using that by linarith
  qed
  then show "{j. a + j * step < len} \<subseteq> {..<len}" by blast
qed simp

lemma FlagChunksAcross_loop_Max:
  assumes "0 < flag_chunk" and "0 < step"
  shows "FlagChunksAcross_loop first len step flag_chunk most =
    Max (insert most ((\<lambda>j. card (flag_chunks_at len step flag_chunk (first + j * step))) ` {j. first + j * step < len}))"
proof (induction "len - first" arbitrary: first most rule: less_induct)
  case less
  let ?g = "\<lambda>a. card (flag_chunks_at len step flag_chunk a)"
  note fin = finite_multiples [OF assms(2)]
  show ?case
  proof (cases "first < len")
    case False
    then have "{j. first + j * step < len} = {}" by auto
    then show ?thesis using False by (simp add: FlagChunksAcross_loop.simps)
  next
    case True
    have split: "{j. first + j * step < len} = insert 0 (Suc ` {j. (first + step) + j * step < len})"
      (is "?L = ?R")
    proof (intro set_eqI iffI)
      fix j assume "j \<in> ?L" then show "j \<in> ?R" by (cases j) (auto simp: algebra_simps)
    next
      fix j assume "j \<in> ?R" then show "j \<in> ?L" using True by (auto simp: algebra_simps)
    qed
    have "FlagChunksAcross_loop first len step flag_chunk most =
        FlagChunksAcross_loop (first + step) len step flag_chunk (max most (?g first))"
      using True assms by (subst FlagChunksAcross_loop.simps) (simp add: flag_chunks_at_card Let_def)
    also have "\<dots> = Max (insert (max most (?g first)) ((\<lambda>j. ?g (first + step + j * step)) ` {j. first + step + j * step < len}))"
      using less True assms(2) by simp
    also have "\<dots> = Max (insert most (insert (?g first) ((\<lambda>j. ?g (first + step + j * step)) ` {j. first + step + j * step < len})))"
      using fin [of "first + step"] by (cases "{j. first + step + j * step < len} = {}") (auto simp: Max_insert max.assoc)
    also have "insert (?g first) ((\<lambda>j. ?g (first + step + j * step)) ` {j. first + step + j * step < len})
        = (\<lambda>j. ?g (first + j * step)) ` {j. first + j * step < len}"
      unfolding split by (auto simp: image_image add.assoc)
    finally show ?thesis .
  qed
qed

lemma flag_chunks_alike:
  assumes "0 < chunk" and "j * chunk < len"
  shows "card (flag_chunks_at len chunk chunk (j * chunk)) = 1"
proof -
  have "(min (j * chunk + chunk) len - 1) div chunk = j"
    using assms by (intro div_eq_iff_between [THEN iffD2]) (auto simp: min_def)
  then show ?thesis using flag_chunks_at_card [OF assms(1,1,2)] assms by simp
qed

text \<open>The length of a pixel chunk along an axis: an axis with no chunk shape is one chunk.\<close>

definition pixel_step :: "nat \<Rightarrow> nat \<Rightarrow> nat" where
  "pixel_step len pixel_chunk = (if pixel_chunk = 0 then len else pixel_chunk)"

text \<open>
  \<open>FlagChunksAcross\<close> is the most flag chunks that any one pixel chunk of an axis lies across, whatever the
  two chunk shapes are: both the shortcut for equal shapes and the loop compute that maximum.
\<close>

theorem FlagChunksAcross_is_maximum:
  assumes "0 < len" and "0 < flag_chunk"
  shows "FlagChunksAcross len pixel_chunk flag_chunk =
    Max ((\<lambda>j. card (flag_chunks_at len (pixel_step len pixel_chunk) flag_chunk (j * pixel_step len pixel_chunk)))
      ` {j. j * pixel_step len pixel_chunk < len})"
proof -
  define step where "step = pixel_step len pixel_chunk"
  note step_def = step_def [unfolded pixel_step_def]
  let ?g = "\<lambda>j. card (flag_chunks_at len step flag_chunk (j * step))"
  let ?J = "{j. j * step < len}"
  have step: "0 < step" using assms by (simp add: step_def)
  have fin: "finite ?J" using finite_multiples [OF step, of 0] by simp
  have zero: "0 \<in> ?J" using assms by simp
  have ge: "1 \<le> ?g 0" using flag_chunks_at_card [OF assms(2) step, of 0 len] assms by simp
  have "FlagChunksAcross len pixel_chunk flag_chunk = Max (?g ` ?J)"
  proof (cases "flag_chunk = pixel_chunk")
    case True
    then have "step = flag_chunk" using assms by (simp add: step_def)
    then have "?g j = 1" if "j \<in> ?J" for j using flag_chunks_alike [OF assms(2), of j len] that by simp
    then have "?g ` ?J = (\<lambda>_. 1) ` ?J" by (intro image_cong) auto
    also have "\<dots> = {1}" using zero by blast
    finally show ?thesis using True by (simp add: FlagChunksAcross_def)
  next
    case False
    then have "FlagChunksAcross len pixel_chunk flag_chunk = Max (insert 1 (?g ` ?J))"
      using FlagChunksAcross_loop_Max [OF assms(2) step, of 0 len 1] assms by (simp add: FlagChunksAcross_def step_def)
    also have "\<dots> = max 1 (Max (?g ` ?J))" using Max_insert [OF finite_imageI [OF fin], of ?g 1] zero by blast
    also have "\<dots> = Max (?g ` ?J)" using ge Max_ge [OF finite_imageI [OF fin] imageI [OF zero], of ?g] by simp
    finally show ?thesis .
  qed
  then show ?thesis by (simp add: step_def pixel_step_def)
qed

theorem FlagChunksAcross_is_maximum_witness:
  "FlagChunksAcross 10 4 3 = Max ((\<lambda>j. card (flag_chunks_at 10 4 3 (j * 4))) ` {j. j * 4 < 10}) \<and>
   FlagChunksAcross 10 4 3 = 2"
  using FlagChunksAcross_is_maximum [of 10 3 4]
  by (simp add: pixel_step_def FlagChunksAcross_def FlagChunksAcross_loop.simps)

subsection \<open>Properties\<close>

text \<open>
  Cutting a valid selection of an axis into chunk-aligned blocks ends; the blocks tile the selected indices
  in order; and no chunk holds elements of two blocks, so no decode serves two blocks.
\<close>

theorem aligned_blocks_partition_chunks:
  assumes "0 < stride" and "0 < chunk" and "chunk < two64" and "desired < two64"
    and "limit \<le> max_extent" and "start + (limit - 1) * stride < max_extent"
  shows "\<exists>bs. block_loop (\<lambda>b. AlignedBlockEnd b desired limit start stride chunk) 0 limit = Some bs \<and>
     concat (map (\<lambda>(x, y). [x..<y]) bs) = [0..<limit] \<and>
     (\<forall>(x, y) \<in> set bs. x < y) \<and>
     (\<forall>(x, y) \<in> set bs. \<forall>i < y. \<forall>j < limit. y \<le> j \<longrightarrow>
        (start + i * stride) div chunk \<noteq> (start + j * stride) div chunk)"
proof -
  have ok: "block_ok desired limit start stride chunk 0" using assms by (simp add: block_ok_def)
  obtain bs where bs: "aligned_blocks desired limit start stride chunk = Some bs" and t: "tiles bs 0 limit"
    using aligned_blocks_tile [OF ok] by blast
  have "(start + i * stride) div chunk \<noteq> (start + j * stride) div chunk"
    if "(x, y) \<in> set bs" "i < y" "y \<le> j" "j < limit" for x y i j
    using aligned_blocks_no_shared_chunk [OF ok assms(2) bs that] by (simp add: chunk_at_def)
  then show ?thesis using bs tiles_concat [OF t] tiles_bounds [OF t] unfolding aligned_blocks_def by fastforce
qed

theorem aligned_blocks_partition_chunks_witness:
  "block_loop (\<lambda>b. AlignedBlockEnd b 4 10 3 2 5) 0 10 = Some [(0, 4), (4, 6), (6, 10)] \<and>
   (\<exists>bs. block_loop (\<lambda>b. AlignedBlockEnd b 4 10 3 2 5) 0 10 = Some bs \<and>
     concat (map (\<lambda>(x, y). [x..<y]) bs) = [0..<10] \<and> (\<forall>(x, y) \<in> set bs. x < y) \<and>
     (\<forall>(x, y) \<in> set bs. \<forall>i < y. \<forall>j < 10. y \<le> j \<longrightarrow> (3 + i * 2) div 5 \<noteq> (3 + j * 2) div (5::nat)))"
proof
  show "block_loop (\<lambda>b. AlignedBlockEnd b 4 10 3 2 5) 0 10 = Some [(0, 4), (4, 6), (6, 10)]" by code_simp
qed (rule aligned_blocks_partition_chunks; simp)

text \<open>
  \<open>ChunksTouched\<close> is the number of distinct chunks that hold a selected element, at every stride: the
  shortcut for strides of a chunk or more and the span below one agree with the count.
\<close>

theorem ChunksTouched_counts_chunks:
  assumes "0 < stride" and "0 < chunk" and "start + (count - 1) * stride < two64" and "count < two64"
  shows "ChunksTouched start count stride chunk = card ((\<lambda>k. (start + k * stride) div chunk) ` {..<count})"
  using ChunksTouched_card [OF assms] by (simp add: chunks_of_def)

theorem ChunksTouched_counts_chunks_witness:
  "ChunksTouched 3 4 7 5 = card ((\<lambda>k. (3 + k * 7) div (5::nat)) ` {..<4}) \<and> ChunksTouched 3 4 7 5 = 4 \<and>
   ChunksTouched 3 4 2 5 = card ((\<lambda>k. (3 + k * 2) div (5::nat)) ` {..<4}) \<and> ChunksTouched 3 4 2 5 = 2"
  using ChunksTouched_counts_chunks [of 7 5 3 4] ChunksTouched_counts_chunks [of 2 5 3 4]
  by (simp add: ChunksTouched_def add64_def sub64_def mul64_def)

text \<open>
  The chunks a whole-plane walk visits are the chunks that hold a sample, each once and in ascending order,
  and there are as many of them as \<open>ChunksTouched\<close> counts for the same samples.
\<close>

theorem ChunksSampled_names_touched:
  assumes "0 < stride" and "0 < chunk" and "0 < len" and "len < two64"
  shows "map (sampled_chunk (ChunksSampled len chunk stride)) [0..<sc_size (ChunksSampled len chunk stride)] =
      sorted_list_of_set ((\<lambda>k. k * stride div chunk) ` {..(len - 1) div stride}) \<and>
    sc_size (ChunksSampled len chunk stride) = ChunksTouched 0 ((len - 1) div stride + 1) stride chunk"
proof -
  let ?s = "ChunksSampled len chunk stride"
  let ?xs = "map (sampled_chunk ?s) [0..<sc_size ?s]"
  note l = sampled_chunks_list [OF assms]
  have set: "set ?xs = (\<lambda>k. k * stride div chunk) ` {..(len - 1) div stride}"
    using l(2) by (simp add: chunks_of_def atLeast0LessThan lessThan_Suc_atMost)
  have "sorted_wrt (<) ?xs"
    unfolding sorted_wrt_map using strict_mono_onD [OF l(3)] by (intro sorted_wrt_mono_rel [OF _ sorted_wrt_upt]) auto
  then have "?xs = sorted_list_of_set (set ?xs)"
    by (metis sorted_list_of_set.idem_if_sorted_distinct strict_sorted_iff)
  then show ?thesis using set l(1) by (simp del: map_upt_eqI)
qed

theorem ChunksSampled_names_touched_witness:
  "map (sampled_chunk (ChunksSampled 20 3 7)) [0..<sc_size (ChunksSampled 20 3 7)] =
     sorted_list_of_set ((\<lambda>k. k * 7 div (3::nat)) ` {..(20 - 1) div 7}) \<and>
   sc_size (ChunksSampled 20 3 7) = ChunksTouched 0 ((20 - 1) div 7 + 1) 7 3 \<and>
   sc_size (ChunksSampled 20 3 7) = 3"
  using ChunksSampled_names_touched [of 7 3 20] by (simp add: ChunksSampled_def)

end
