(* ===== verification/Pixel_Selection.thy ===== *)
theory Pixel_Selection
  imports Chunk_Blocks
begin

text \<open>
  \<open>src/zarr/pixel_selection.h\<close> and \<open>pixel_selection.cc\<close>: a request over the logical axes checked against the
  descriptor and translated into a hyperslab in stored axis order, the strides of its destination, and the check of
  a caller's cancellation and deadline; with the \<open>PixelSource\<close> seam of \<open>src/pixel_source.h\<close> that serves a selection.
\<close>

section \<open>Selections\<close>

datatype DestinationOrder = logical | stored

record PixelSelection =
  sel_start :: "u64 list"
  sel_count :: "u64 list"
  sel_stride :: "u64 list"
  sel_destination_to_stored :: "nat list"
  sel_elements :: u64

definition quoted_axis :: "AxisDescriptor \<Rightarrow> string" where
  "quoted_axis axis = ''Axis '' @ [CHR 0x27] @ ax_name axis @ [CHR 0x27]"

text \<open>
  The loop over the logical axes. The room left along an axis, \<open>length - 1 - start\<close>, is taken only after
  \<open>start < length\<close> is known, and \<open>count - 1\<close> only after \<open>count \<noteq> 0\<close> is, so neither wraps.
\<close>

fun BuildSelection_axes ::
  "string \<Rightarrow> nat \<Rightarrow> nat \<Rightarrow> AxisDescriptor list \<Rightarrow> ReadRequest \<Rightarrow> PixelSelection \<Rightarrow> PixelSelection result"
where
  "BuildSelection_axes node rank i (axis # axes) (rng # ranges) selection =
     (if rg_stride rng = 0
      then Inl (mk_error invalid_argument (quoted_axis axis @ '' has a zero stride'') node)
      else if rg_count rng = 0
      then Inl (mk_error invalid_argument (quoted_axis axis @ '' selects no elements'') node)
      else if ax_length axis \<le> rg_start rng \<or>
              (ax_length axis - 1 - rg_start rng) div rg_stride rng < rg_count rng - 1
      then Inl (mk_error invalid_argument
             (quoted_axis axis @ '' request exceeds its length of '' @ to_string (ax_length axis)) node)
      else if rank \<le> ax_storage_index axis
      then Inl (mk_error invalid_metadata (quoted_axis axis @ '' has an out-of-range storage index'') node)
      else BuildSelection_axes node rank (i + 1) axes ranges
             (selection\<lparr>sel_start := (sel_start selection)[ax_storage_index axis := rg_start rng],
                        sel_count := (sel_count selection)[ax_storage_index axis := rg_count rng],
                        sel_stride := (sel_stride selection)[ax_storage_index axis :=
                           (if rg_count rng = 1 then 1 else rg_stride rng)],
                        sel_destination_to_stored :=
                          (sel_destination_to_stored selection)[i := ax_storage_index axis]\<rparr>))"
| "BuildSelection_axes node rank i axes ranges selection = Inr selection"

fun BuildSelection_count :: "string \<Rightarrow> u64 list \<Rightarrow> u64 \<Rightarrow> u64 result" where
  "BuildSelection_count node [] elements = Inr elements"
| "BuildSelection_count node (c # counts) elements =
     (if (two64 - 1) div c < elements
      then Inl (mk_error invalid_argument ''Request selects more elements than can be counted'' node)
      else BuildSelection_count node counts (mul64 elements c))"

definition BuildSelection :: "ImageDescriptor \<Rightarrow> ReadRequest \<Rightarrow> DestinationOrder \<Rightarrow> PixelSelection result" where
  "BuildSelection descriptor request order =
     (let rank = length (img_axes descriptor); node = img_id descriptor
      in if length request \<noteq> rank
         then Inl (mk_error invalid_argument
                (''Request has '' @ to_string (length request) @ '' axes but the image has '' @ to_string rank) node)
         else
           case BuildSelection_axes node rank 0 (img_axes descriptor) request
                  \<lparr>sel_start = replicate rank 0, sel_count = replicate rank 0, sel_stride = replicate rank 1,
                   sel_destination_to_stored = replicate rank 0, sel_elements = 0\<rparr> of
             Inl e \<Rightarrow> Inl e
           | Inr selection \<Rightarrow>
               let selection = (if order = stored
                     then selection\<lparr>sel_destination_to_stored := map (\<lambda>axis. rank - 1 - axis) [0..<rank]\<rparr>
                     else selection)
               in case BuildSelection_count node (sel_count selection) 1 of
                    Inl e \<Rightarrow> Inl e
                  | Inr elements \<Rightarrow> Inr (selection\<lparr>sel_elements := elements\<rparr>))"

fun DestinationStrides_loop :: "u64 list \<Rightarrow> nat list \<Rightarrow> u64 \<Rightarrow> u64 list \<Rightarrow> u64 list" where
  "DestinationStrides_loop counts [] running strides = strides"
| "DestinationStrides_loop counts (d # ds) running strides =
     DestinationStrides_loop counts ds (mul64 running (counts ! d)) (strides[d := running])"

definition DestinationStrides :: "PixelSelection \<Rightarrow> u64 list" where
  "DestinationStrides selection =
     DestinationStrides_loop (sel_count selection) (sel_destination_to_stored selection) 1
       (replicate (length (sel_count selection)) 1)"

definition CheckReadControl :: "'w ReadControl \<Rightarrow> string \<Rightarrow> 'w \<Rightarrow> unit result \<times> 'w" where
  "CheckReadControl control node w =
     (let (requested, w) = (case ctl_cancellation_requested control of None \<Rightarrow> (False, w) | Some ask \<Rightarrow> ask w)
      in if requested then (Inl (mk_error cancelled ''Pixel read was cancelled'' node), w)
         else let (now, w) = ctl_now control w
              in if ctl_deadline control \<le> now
                 then (Inl (mk_error cancelled ''Pixel read deadline expired'' node), w)
                 else (Inr (), w))"

section \<open>The pixel source seam\<close>

text \<open>
  A source is given the selection, what it may write into and the control, and leaves the destination in some state
  whether it succeeds or not; reading acts on the world, because the control's callbacks do.
\<close>

record 'w PixelSource =
  ReadPixels :: "PixelSelection \<Rightarrow> f32 list \<Rightarrow> 'w ReadControl \<Rightarrow> 'w \<Rightarrow> (unit result \<times> f32 list) \<times> 'w"
  ReadMask :: "PixelSelection \<Rightarrow> u8 list \<Rightarrow> 'w ReadControl \<Rightarrow> 'w \<Rightarrow> (unit result \<times> u8 list) \<times> 'w"

section \<open>What a request and a selection stand for\<close>

text \<open>
  The elements of a request in the order of a dense destination whose axis 0 varies fastest, as logical coordinates;
  the stored coordinates of a logical one; and the elements of a selection in the order of its destination, as
  stored coordinates.
\<close>

definition request_coords :: "ReadRequest \<Rightarrow> nat list list" where
  "request_coords request = map (\<lambda>mi. map2 range_at request mi) (index_lists (map rg_count request))"

definition to_stored :: "ImageDescriptor \<Rightarrow> nat list \<Rightarrow> nat list" where
  "to_stored descriptor coord =
     upd_all (replicate (length (img_axes descriptor)) 0) (zip (map ax_storage_index (img_axes descriptor)) coord)"

definition selection_coords :: "PixelSelection \<Rightarrow> nat list list" where
  "selection_coords sel =
     map (\<lambda>mi. upd_all (replicate (length (sel_count sel)) 0)
                 (map (\<lambda>(d, i). (d, sel_start sel ! d + i * sel_stride sel ! d)) (zip (sel_destination_to_stored sel) mi)))
       (index_lists (map (\<lambda>d. sel_count sel ! d) (sel_destination_to_stored sel)))"

text \<open>A descriptor as the schema profile makes it: its storage indices are a permutation of the stored dimensions.\<close>

definition descriptor_ok :: "ImageDescriptor \<Rightarrow> bool" where
  "descriptor_ok descriptor \<longleftrightarrow>
     distinct (map ax_storage_index (img_axes descriptor)) \<and>
     set (map ax_storage_index (img_axes descriptor)) = {..<length (img_axes descriptor)} \<and>
     length (img_axes descriptor) < max_extent \<and>
     (\<forall>axis \<in> set (img_axes descriptor). ax_length axis < max_extent)"

section \<open>Lemmas\<close>

lemma range_check_iff:
  assumes "0 < rg_stride r" and "0 < rg_count r"
  shows "\<not> (len \<le> rg_start r \<or> (len - 1 - rg_start r) div rg_stride r < rg_count r - 1) \<longleftrightarrow> range_fits r len"
proof (cases "rg_start r < len")
  case True
  have "rg_count r - 1 \<le> (len - 1 - rg_start r) div rg_stride r \<longleftrightarrow> (rg_count r - 1) * rg_stride r \<le> len - 1 - rg_start r"
    using assms by (simp add: less_eq_div_iff_mult_less_eq)
  also have "\<dots> \<longleftrightarrow> rg_start r + (rg_count r - 1) * rg_stride r < len" using True by linarith
  finally show ?thesis using True assms by (simp add: range_fits_def range_at_def not_less)
qed (simp add: range_fits_def range_at_def)

definition axes_ok :: "nat \<Rightarrow> AxisDescriptor list \<Rightarrow> ReadRequest \<Rightarrow> bool" where
  "axes_ok rank axes ranges \<longleftrightarrow>
     (\<forall>(axis, rng) \<in> set (zip axes ranges). range_fits rng (ax_length axis) \<and> ax_storage_index axis < rank)"

definition axis_stride :: "Range \<Rightarrow> u64" where
  "axis_stride r = (if rg_count r = 1 then 1 else rg_stride r)"

definition stored_pairs :: "(Range \<Rightarrow> nat) \<Rightarrow> AxisDescriptor list \<Rightarrow> ReadRequest \<Rightarrow> (nat \<times> nat) list" where
  "stored_pairs f axes ranges = map (\<lambda>(axis, rng). (ax_storage_index axis, f rng)) (zip axes ranges)"

lemma stored_pairs_simps [simp]:
  "stored_pairs f [] ranges = []" "stored_pairs f axes [] = []"
  "stored_pairs f (a # axes) (r # ranges) = (ax_storage_index a, f r) # stored_pairs f axes ranges"
  by (simp_all add: stored_pairs_def)

lemma BuildSelection_axes_step:
  "BuildSelection_axes node rank i (axis # axes) (rng # ranges) sel = Inr sel' \<longleftrightarrow>
     range_fits rng (ax_length axis) \<and> ax_storage_index axis < rank \<and>
     BuildSelection_axes node rank (i + 1) axes ranges
       (sel\<lparr>sel_start := (sel_start sel)[ax_storage_index axis := rg_start rng],
            sel_count := (sel_count sel)[ax_storage_index axis := rg_count rng],
            sel_stride := (sel_stride sel)[ax_storage_index axis := axis_stride rng],
            sel_destination_to_stored := (sel_destination_to_stored sel)[i := ax_storage_index axis]\<rparr>) = Inr sel'"
proof (cases "rg_stride rng = 0 \<or> rg_count rng = 0")
  case True
  then show ?thesis by (auto simp: range_fits_def)
next
  case False
  then have "\<not> (ax_length axis \<le> rg_start rng \<or> (ax_length axis - 1 - rg_start rng) div rg_stride rng < rg_count rng - 1)
      \<longleftrightarrow> range_fits rng (ax_length axis)" by (intro range_check_iff) auto
  then show ?thesis using False unfolding BuildSelection_axes.simps(1) axis_stride_def
    by (cases "range_fits rng (ax_length axis)"; cases "ax_storage_index axis < rank") auto
qed

lemma BuildSelection_axes_Inr:
  "length axes = length ranges \<Longrightarrow>
   BuildSelection_axes node rank i axes ranges sel = Inr sel' \<longleftrightarrow>
     axes_ok rank axes ranges \<and>
     sel' = sel\<lparr>sel_start := upd_all (sel_start sel) (stored_pairs rg_start axes ranges),
                sel_count := upd_all (sel_count sel) (stored_pairs rg_count axes ranges),
                sel_stride := upd_all (sel_stride sel) (stored_pairs axis_stride axes ranges),
                sel_destination_to_stored :=
                  upd_all (sel_destination_to_stored sel) (zip [i..<i + length axes] (map ax_storage_index axes))\<rparr>"
proof (induction axes ranges arbitrary: i sel rule: list_induct2')
  case 1
  then show ?case by (auto simp: axes_ok_def)
next
  case (4 axis axes rng ranges)
  have up: "[i..<i + length (axis # axes)] = i # [i + 1..<i + 1 + length axes]"
    using upt_conv_Cons [of i "i + length (axis # axes)"] by (simp del: upt_Suc)
  show ?case using 4 unfolding BuildSelection_axes_step up by (auto simp: axes_ok_def)
qed auto

lemma BuildSelection_axes_code:
  "BuildSelection_axes node rank i axes ranges sel = Inl e \<Longrightarrow>
   err_code e \<in> {invalid_argument, invalid_metadata} \<and> err_node_path e = node"
  by (induction node rank i axes ranges sel rule: BuildSelection_axes.induct) (auto split: if_splits)

lemma BuildSelection_count_Inr:
  "0 \<notin> set counts \<Longrightarrow> 0 < elements \<Longrightarrow> elements < two64 \<Longrightarrow>
   BuildSelection_count node counts elements = Inr n \<longleftrightarrow> elements * prod_list counts < two64 \<and> n = elements * prod_list counts"
proof (induction counts arbitrary: elements)
  case (Cons c counts)
  have c: "0 < c" and rest: "0 \<notin> set counts" using Cons.prems by auto
  have "(two64 - 1) div c < elements \<longleftrightarrow> two64 - 1 < elements * c" using c by (rule div_less_iff_less_mult)
  also have "\<dots> \<longleftrightarrow> \<not> elements * c < two64" by linarith
  finally have g: "(two64 - 1) div c < elements \<longleftrightarrow> \<not> elements * c < two64" .
  have big: "elements * c \<le> elements * (c * prod_list counts)"
  proof -
    have "1 \<le> prod_list counts" using rest prod_list_zero_iff [of counts] by (simp add: Suc_le_eq)
    then have "elements * c * 1 \<le> elements * c * prod_list counts" by (rule mult_le_mono2)
    then show ?thesis by (simp add: mult.assoc)
  qed
  show ?case
  proof (cases "elements * c < two64")
    case True
    then show ?thesis using g Cons.IH [OF rest, of "elements * c"] Cons.prems c by (simp add: mul64_exact mult.assoc)
  next
    case False
    then have "\<not> elements * (c * prod_list counts) < two64" using big by linarith
    then show ?thesis using False g by simp
  qed
qed auto

lemma BuildSelection_count_code:
  "BuildSelection_count node counts elements = Inl e \<Longrightarrow> err_code e = invalid_argument \<and> err_node_path e = node"
  by (induction node counts elements rule: BuildSelection_count.induct) (auto split: if_splits)

subsection \<open>Storage order is a permutation\<close>

lemma descriptor_ok_storage:
  assumes "descriptor_ok d" and "axis \<in> set (img_axes d)"
  shows "ax_storage_index axis < length (img_axes d)"
  using assms by (auto simp: descriptor_ok_def)

lemma map_fst_stored_pairs:
  "length axes = length ranges \<Longrightarrow> map fst (stored_pairs f axes ranges) = map ax_storage_index axes"
  by (induction axes ranges rule: list_induct2) auto

lemma stored_at:
  assumes "descriptor_ok d" and "length req = length (img_axes d)" and "i < length req"
    and "length xs = length (img_axes d)"
  shows "upd_all xs (stored_pairs f (img_axes d) req) ! ax_storage_index (img_axes d ! i) = f (req ! i)"
proof (rule upd_all_in)
  show "distinct (map fst (stored_pairs f (img_axes d) req))"
    using assms by (simp add: map_fst_stored_pairs descriptor_ok_def)
  show "(ax_storage_index (img_axes d ! i), f (req ! i)) \<in> set (stored_pairs f (img_axes d) req)"
    unfolding stored_pairs_def using assms by (force simp: in_set_zip)
  show "ax_storage_index (img_axes d ! i) < length xs"
    using assms descriptor_ok_storage [OF assms(1), of "img_axes d ! i"] by simp
qed

lemma prod_list_stored:
  assumes "descriptor_ok d" and "length xs = length (img_axes d)"
  shows "prod_list (map (\<lambda>axis. xs ! ax_storage_index axis) (img_axes d)) = (prod_list xs :: nat)"
proof -
  let ?st = "map ax_storage_index (img_axes d)"
  have "prod_list (map ((!) xs) ?st) = prod ((!) xs) (set ?st)"
    using assms by (intro prod.distinct_set_conv_list [symmetric]) (simp add: descriptor_ok_def)
  also have "\<dots> = prod ((!) xs) (set [0..<length xs])" using assms by (simp add: descriptor_ok_def atLeast0LessThan)
  also have "\<dots> = prod_list (map ((!) xs) [0..<length xs])" by (rule prod.distinct_set_conv_list) simp
  finally show ?thesis by (simp add: map_nth comp_def)
qed

definition request_ok :: "ImageDescriptor \<Rightarrow> ReadRequest \<Rightarrow> bool" where
  "request_ok d req \<longleftrightarrow> length req = length (img_axes d) \<and>
     (\<forall>i < length req. range_fits (req ! i) (ax_length (img_axes d ! i))) \<and> prod_list (map rg_count req) < two64"

definition selection_of :: "ImageDescriptor \<Rightarrow> ReadRequest \<Rightarrow> DestinationOrder \<Rightarrow> PixelSelection" where
  "selection_of d req order =
     (let n = length (img_axes d)
      in \<lparr>sel_start = upd_all (replicate n 0) (stored_pairs rg_start (img_axes d) req),
          sel_count = upd_all (replicate n 0) (stored_pairs rg_count (img_axes d) req),
          sel_stride = upd_all (replicate n 1) (stored_pairs axis_stride (img_axes d) req),
          sel_destination_to_stored =
            (if order = stored then map (\<lambda>axis. n - 1 - axis) [0..<n] else map ax_storage_index (img_axes d)),
          sel_elements = prod_list (map rg_count req)\<rparr>)"

lemma axes_ok_iff:
  assumes "descriptor_ok d" and "length req = length (img_axes d)"
  shows "axes_ok (length (img_axes d)) (img_axes d) req \<longleftrightarrow>
    (\<forall>i < length req. range_fits (req ! i) (ax_length (img_axes d ! i)))"
  using assms descriptor_ok_storage [OF assms(1)]
  by (fastforce simp: axes_ok_def set_zip)

lemma upd_all_identity: "length vs = length xs \<Longrightarrow> upd_all xs (zip [0..<length xs] vs) = vs"
proof (rule nth_equalityI)
  fix k assume len: "length vs = length xs" and "k < length (upd_all xs (zip [0..<length xs] vs))"
  then have k: "k < length xs" by simp
  show "upd_all xs (zip [0..<length xs] vs) ! k = vs ! k"
    using k len by (intro upd_all_in) (auto simp: in_set_zip intro!: exI [of _ k])
qed simp

lemma BuildSelection_Inr_iff:
  assumes d: "descriptor_ok d"
  shows "BuildSelection d req order = Inr sel \<longleftrightarrow> request_ok d req \<and> sel = selection_of d req order"
proof (cases "length req = length (img_axes d)")
  case False
  then show ?thesis by (simp add: BuildSelection_def request_ok_def Let_def)
next
  case len: True
  let ?n = "length (img_axes d)"
  let ?counts = "upd_all (replicate ?n 0) (stored_pairs rg_count (img_axes d) req)"
  have counts: "map (\<lambda>axis. ?counts ! ax_storage_index axis) (img_axes d) = map rg_count req"
    using stored_at [OF d len, of _ "replicate ?n 0" rg_count] len by (intro nth_equalityI) auto
  have prod: "prod_list ?counts = prod_list (map rg_count req)"
    using prod_list_stored [OF d, of ?counts] counts by simp
  have dest: "upd_all (replicate ?n 0) (zip [0..<?n] (map ax_storage_index (img_axes d))) = map ax_storage_index (img_axes d)"
    using upd_all_identity [of "map ax_storage_index (img_axes d)" "replicate ?n 0"] by simp
  show ?thesis
  proof (cases "\<forall>i < length req. range_fits (req ! i) (ax_length (img_axes d ! i))")
    case False
    then have "\<not> axes_ok ?n (img_axes d) req" by (simp add: axes_ok_iff [OF d len])
    then show ?thesis using BuildSelection_axes_Inr [OF len [symmetric]] False len
      by (auto simp: BuildSelection_def request_ok_def Let_def split: sum.splits)
  next
    case fits: True
    then have "\<forall>c \<in> set (map rg_count req). 0 < c" by (auto simp: range_fits_def in_set_conv_nth)
    then have "prod_list (map rg_count req) \<noteq> 0" by (metis less_irrefl prod_list_zero_iff)
    then have pos: "0 \<notin> set ?counts" using prod by (metis prod_list_zero_iff)
    note cnt = BuildSelection_count_Inr [OF pos, of 1, unfolded prod mult_1]
    let ?ax = "BuildSelection_axes (img_id d) ?n 0 (img_axes d) req
       \<lparr>sel_start = replicate ?n 0, sel_count = replicate ?n 0, sel_stride = replicate ?n 1,
        sel_destination_to_stored = replicate ?n 0, sel_elements = 0\<rparr>"
    have ax: "?ax = Inr (selection_of d req logical\<lparr>sel_elements := 0\<rparr>)"
      using BuildSelection_axes_Inr [OF len [symmetric]] fits axes_ok_iff [OF d len] dest
      by (simp add: selection_of_def Let_def)
    have B: "BuildSelection d req order =
        (case BuildSelection_count (img_id d) ?counts 1 of Inl e \<Rightarrow> Inl e
         | Inr elements \<Rightarrow> Inr (selection_of d req order\<lparr>sel_elements := elements\<rparr>))"
      unfolding BuildSelection_def Let_def using len ax
      by (cases order) (simp_all add: selection_of_def Let_def split: sum.split)
    show ?thesis
    proof (cases "BuildSelection_count (img_id d) ?counts 1")
      case (Inl e)
      then have "\<not> prod_list (map rg_count req) < two64" using cnt [of "img_id d" "prod_list (map rg_count req)"] by simp
      then show ?thesis using B Inl by (simp add: request_ok_def)
    next
      case (Inr m)
      then have "prod_list (map rg_count req) < two64" "m = prod_list (map rg_count req)"
        using cnt [of "img_id d" m] by simp_all
      then show ?thesis using B Inr len fits by (auto simp: request_ok_def selection_of_def Let_def)
    qed
  qed
qed

lemma BuildSelection_Inl_code:
  assumes d: "descriptor_ok d" and e: "BuildSelection d req order = Inl e"
  shows "err_code e = invalid_argument \<and> err_node_path e = img_id d"
proof (cases "length req = length (img_axes d)")
  case False
  then show ?thesis using e by (auto simp: BuildSelection_def Let_def)
next
  case len: True
  have axes: "err_code e = invalid_argument \<and> err_node_path e = node"
    if "BuildSelection_axes node rank i axes ranges sel = Inl e" "\<forall>a \<in> set axes. ax_storage_index a < rank"
    for node rank i axes ranges sel
    using that by (induction node rank i axes ranges sel rule: BuildSelection_axes.induct) (auto split: if_splits)
  show ?thesis using e len axes descriptor_ok_storage [OF d]
    by (auto simp: BuildSelection_def Let_def BuildSelection_count_code split: sum.splits)
qed

subsection \<open>What a selection selects\<close>

lemma selection_of_sel [simp]:
  "sel_start (selection_of d req order) = upd_all (replicate (length (img_axes d)) 0) (stored_pairs rg_start (img_axes d) req)"
  "sel_count (selection_of d req order) = upd_all (replicate (length (img_axes d)) 0) (stored_pairs rg_count (img_axes d) req)"
  "sel_stride (selection_of d req order) = upd_all (replicate (length (img_axes d)) 1) (stored_pairs axis_stride (img_axes d) req)"
  "sel_elements (selection_of d req order) = prod_list (map rg_count req)"
  by (simp_all add: selection_of_def Let_def)

lemma selection_of_destination [simp]:
  "sel_destination_to_stored (selection_of d req logical) = map ax_storage_index (img_axes d)"
  "sel_destination_to_stored (selection_of d req stored) = map (\<lambda>axis. length (img_axes d) - 1 - axis) [0..<length (img_axes d)]"
  by (simp_all add: selection_of_def Let_def)

lemma selection_of_at:
  assumes "descriptor_ok d" and "length req = length (img_axes d)" and "i < length req"
  shows "sel_start (selection_of d req order) ! ax_storage_index (img_axes d ! i) = rg_start (req ! i)"
    and "sel_count (selection_of d req order) ! ax_storage_index (img_axes d ! i) = rg_count (req ! i)"
    and "sel_stride (selection_of d req order) ! ax_storage_index (img_axes d ! i) = axis_stride (req ! i)"
  using stored_at [OF assms] by simp_all

lemma selection_of_counts:
  assumes "descriptor_ok d" and "length req = length (img_axes d)"
  shows "map (\<lambda>axis. sel_count (selection_of d req order) ! ax_storage_index axis) (img_axes d) = map rg_count req"
  using selection_of_at(2) [OF assms] assms by (intro nth_equalityI) auto

lemma axis_stride_at:
  "i < rg_count r \<Longrightarrow> rg_start r + i * axis_stride r = range_at r i"
  by (auto simp: axis_stride_def range_at_def)

lemma selection_of_logical_coords:
  assumes d: "descriptor_ok d" and len: "length req = length (img_axes d)"
  shows "selection_coords (selection_of d req logical) = map (to_stored d) (request_coords req)"
proof -
  let ?sel = "selection_of d req logical"
  let ?st = "map ax_storage_index (img_axes d)"
  have counts: "map (\<lambda>k. sel_count ?sel ! k) ?st = map rg_count req"
    using selection_of_counts [OF d len] by (simp add: comp_def)
  have point: "map (\<lambda>(k, i). (k, sel_start ?sel ! k + i * sel_stride ?sel ! k)) (zip ?st mi) = zip ?st (map2 range_at req mi)"
    if "mi \<in> set (index_lists (map rg_count req))" for mi
  proof (rule nth_equalityI)
    show "length (map (\<lambda>(k, i). (k, sel_start ?sel ! k + i * sel_stride ?sel ! k)) (zip ?st mi)) =
        length (zip ?st (map2 range_at req mi))" using len by simp
    fix j assume "j < length (map (\<lambda>(k, i). (k, sel_start ?sel ! k + i * sel_stride ?sel ! k)) (zip ?st mi))"
    then have j: "j < length req" "j < length mi" using len by auto
    then have "mi ! j < rg_count (req ! j)" using index_lists_bound [OF that] by simp
    then show "map (\<lambda>(k, i). (k, sel_start ?sel ! k + i * sel_stride ?sel ! k)) (zip ?st mi) ! j =
        zip ?st (map2 range_at req mi) ! j"
      using j len selection_of_at [OF d len j(1), of logical] axis_stride_at [of "mi ! j" "req ! j"]
      by (simp del: selection_of_sel)
  qed
  have "selection_coords ?sel =
      map (\<lambda>mi. upd_all (replicate (length (img_axes d)) 0) (zip ?st (map2 range_at req mi))) (index_lists (map rg_count req))"
    unfolding selection_coords_def selection_of_destination counts
    using point by (intro map_cong) (simp_all del: selection_of_sel(1,3))
  then show ?thesis by (simp add: request_coords_def to_stored_def)
qed

subsection \<open>Where an element lands\<close>

text \<open>What every selection \<open>BuildSelection\<close> returns satisfies: the shape a source relies on.\<close>

definition selection_ok :: "PixelSelection \<Rightarrow> bool" where
  "selection_ok sel \<longleftrightarrow>
     (let n = length (sel_count sel)
      in n < max_extent \<and> length (sel_start sel) = n \<and> length (sel_stride sel) = n \<and> length (sel_destination_to_stored sel) = n \<and>
         distinct (sel_destination_to_stored sel) \<and> set (sel_destination_to_stored sel) = {..<n} \<and>
         (\<forall>k < n. 0 < sel_stride sel ! k \<and> sel_start sel ! k < max_extent \<and> sel_count sel ! k < max_extent \<and>
            sel_stride sel ! k < max_extent) \<and>
         prod_list (map (\<lambda>k. sel_count sel ! k) (sel_destination_to_stored sel)) = sel_elements sel \<and>
         0 < sel_elements sel \<and> sel_elements sel < two64)"

lemma prod_list_permuted:
  assumes "distinct ds" and "set ds = {..<length xs}"
  shows "prod_list (map (\<lambda>k. xs ! k) ds) = (prod_list xs :: nat)"
proof -
  have "prod_list (map ((!) xs) ds) = prod ((!) xs) (set ds)"
    using assms by (intro prod.distinct_set_conv_list [symmetric])
  also have "\<dots> = prod ((!) xs) (set [0..<length xs])" using assms by (simp add: atLeast0LessThan)
  also have "\<dots> = prod_list (map ((!) xs) [0..<length xs])" by (rule prod.distinct_set_conv_list) simp
  finally show ?thesis by (simp add: map_nth)
qed

lemma set_reversed: "set (map (\<lambda>a. n - 1 - a) [0..<n]) = {..<n}"
proof (intro set_eqI iffI)
  fix k assume "k \<in> {..<n}"
  then show "k \<in> set (map (\<lambda>a. n - 1 - a) [0..<n])" by (auto intro!: image_eqI [of _ _ "n - 1 - k"])
qed auto

lemma request_ok_pos: "request_ok d req \<Longrightarrow> c \<in> set (map rg_count req) \<Longrightarrow> 0 < c"
  by (auto simp: request_ok_def range_fits_def in_set_conv_nth)

lemma range_fits_small:
  assumes "range_fits r len" and "len < max_extent"
  shows "0 < axis_stride r \<and> rg_start r < max_extent \<and> rg_count r < max_extent \<and> axis_stride r < max_extent"
proof -
  have r: "0 < rg_stride r" "0 < rg_count r" and last: "rg_start r + (rg_count r - 1) * rg_stride r < len"
    using assms by (auto simp: range_fits_def range_at_def)
  have "(rg_count r - 1) * 1 \<le> (rg_count r - 1) * rg_stride r" using r by (intro mult_le_mono2) simp
  then have c: "rg_start r < max_extent" "rg_count r < max_extent" using last r assms(2) by linarith+
  have "axis_stride r < max_extent"
  proof (cases "rg_count r = 1")
    case False
    then have "1 * rg_stride r \<le> (rg_count r - 1) * rg_stride r" using r by (intro mult_le_mono1) simp
    then have "rg_stride r < max_extent" using last assms(2) by linarith
    then show ?thesis using False by (simp add: axis_stride_def)
  qed (simp add: axis_stride_def)
  then show ?thesis using c r by (simp add: axis_stride_def)
qed

lemma BuildSelection_selection_ok:
  assumes d: "descriptor_ok d" and b: "BuildSelection d req order = Inr sel"
  shows "selection_ok sel"
proof -
  let ?n = "length (img_axes d)"
  have ok: "request_ok d req" and sel: "sel = selection_of d req order"
    using b BuildSelection_Inr_iff [OF d] by auto
  then have len: "length req = ?n" by (simp add: request_ok_def)
  have dest: "distinct (sel_destination_to_stored sel) \<and> set (sel_destination_to_stored sel) = {..<?n} \<and>
      length (sel_destination_to_stored sel) = ?n"
    using d set_reversed [of ?n] unfolding sel
    by (cases order) (auto simp: descriptor_ok_def distinct_map inj_on_def)
  have fits: "\<forall>i < ?n. range_fits (req ! i) (ax_length (img_axes d ! i))" using ok by (simp add: request_ok_def)
  have "prod_list (sel_count sel) = prod_list (map rg_count req)"
    using prod_list_stored [OF d, of "sel_count sel"] selection_of_counts [OF d len, of order] sel by simp
  moreover have "prod_list (map (\<lambda>k. sel_count sel ! k) (sel_destination_to_stored sel)) = prod_list (sel_count sel)"
    using dest sel by (intro prod_list_permuted) simp_all
  moreover have "prod_list (map rg_count req) \<noteq> 0"
    using request_ok_pos [OF ok] by (metis less_irrefl prod_list_zero_iff)
  moreover have "0 < sel_stride sel ! k \<and> sel_start sel ! k < max_extent \<and> sel_count sel ! k < max_extent \<and>
      sel_stride sel ! k < max_extent" if k: "k < ?n" for k
  proof -
    have "k \<in> set (map ax_storage_index (img_axes d))" using d k by (simp add: descriptor_ok_def)
    then obtain i where i: "i < ?n" "k = ax_storage_index (img_axes d ! i)" by (auto simp: in_set_conv_nth)
    have "ax_length (img_axes d ! i) < max_extent" using d i by (simp add: descriptor_ok_def)
    then have "0 < axis_stride (req ! i) \<and> rg_start (req ! i) < max_extent \<and> rg_count (req ! i) < max_extent \<and>
        axis_stride (req ! i) < max_extent"
      using fits i range_fits_small by blast
    then show ?thesis using selection_of_at [OF d len, of i order] len i sel by simp
  qed
  moreover have "?n < max_extent" using d by (simp add: descriptor_ok_def)
  ultimately show ?thesis using dest ok sel by (simp add: selection_ok_def request_ok_def Let_def)
qed

lemma DestinationStrides_loop_at:
  "distinct ds \<Longrightarrow> \<forall>d \<in> set ds. d < length strides \<Longrightarrow> 0 \<notin> set (map ((!) counts) ds) \<Longrightarrow>
   running * prod_list (map ((!) counts) ds) < two64 \<Longrightarrow>
   (\<forall>j < length ds. DestinationStrides_loop counts ds running strides ! (ds ! j) =
      running * prod_list (take j (map ((!) counts) ds))) \<and>
   (\<forall>k. k \<notin> set ds \<longrightarrow> DestinationStrides_loop counts ds running strides ! k = strides ! k)"
proof (induction ds arbitrary: running strides)
  case (Cons d ds)
  have "running * counts ! d * 1 \<le> running * counts ! d * prod_list (map ((!) counts) ds)"
    using Cons.prems(3) prod_list_zero_iff [of "map ((!) counts) ds"] by (intro mult_le_mono2) (auto simp: Suc_le_eq)
  then have m: "mul64 running (counts ! d) = running * counts ! d"
    using Cons.prems(4) by (intro mul64_exact) (simp only: list.map prod_list.Cons mult.assoc [symmetric] mult_1_right)
  note IH = Cons.IH [of "strides[d := running]" "running * counts ! d"]
  have IH': "(\<forall>j < length ds. DestinationStrides_loop counts ds (running * counts ! d) (strides[d := running]) ! (ds ! j) =
        running * counts ! d * prod_list (take j (map ((!) counts) ds))) \<and>
      (\<forall>k. k \<notin> set ds \<longrightarrow>
        DestinationStrides_loop counts ds (running * counts ! d) (strides[d := running]) ! k = strides[d := running] ! k)"
    using Cons.prems by (intro IH) (auto simp: mult.assoc)
  show ?case
  proof (intro conjI allI impI)
    fix j assume "j < length (d # ds)"
    then show "DestinationStrides_loop counts (d # ds) running strides ! ((d # ds) ! j) =
        running * prod_list (take j (map ((!) counts) (d # ds)))"
      using IH' m Cons.prems by (cases j) (simp_all add: mult.assoc)
  next
    fix k assume "k \<notin> set (d # ds)"
    then show "DestinationStrides_loop counts (d # ds) running strides ! k = strides ! k" using IH' m by simp
  qed
qed simp

lemma DestinationStrides_at:
  assumes "selection_ok sel" and "j < length (sel_count sel)"
  shows "DestinationStrides sel ! (sel_destination_to_stored sel ! j) =
    prod_list (take j (map (\<lambda>k. sel_count sel ! k) (sel_destination_to_stored sel)))"
proof -
  let ?cs = "map ((!) (sel_count sel)) (sel_destination_to_stored sel)"
  have p: "prod_list ?cs = sel_elements sel" "0 < sel_elements sel" "sel_elements sel < two64"
    using assms(1) by (simp_all add: selection_ok_def Let_def)
  then have "0 \<notin> set ?cs" by (metis less_irrefl prod_list_zero_iff)
  then show ?thesis
    using DestinationStrides_loop_at [of "sel_destination_to_stored sel" "replicate (length (sel_count sel)) 1" "sel_count sel" 1]
      assms p by (simp add: DestinationStrides_def selection_ok_def Let_def)
qed

lemma DestinationStrides_position:
  assumes ok: "selection_ok sel" and k: "k < sel_elements sel"
  shows "(\<Sum>d < length (sel_count sel).
      (selection_coords sel ! k ! d - sel_start sel ! d) div sel_stride sel ! d * DestinationStrides sel ! d) = k"
proof -
  let ?n = "length (sel_count sel)" and ?ds = "sel_destination_to_stored sel"
  let ?cs = "map (\<lambda>k. sel_count sel ! k) ?ds"
  let ?mi = "index_lists ?cs ! k"
  let ?kvs = "map (\<lambda>(d, i). (d, sel_start sel ! d + i * sel_stride sel ! d)) (zip ?ds ?mi)"
  have ds: "distinct ?ds" "set ?ds = {..<?n}" "length ?ds = ?n" and st: "\<forall>d < ?n. 0 < sel_stride sel ! d"
    and p: "k < prod_list ?cs" using ok k by (simp_all add: selection_ok_def Let_def)
  have mi: "length ?mi = ?n"
    using index_lists_bound [of ?mi ?cs] p ds by (simp add: nth_mem length_index_lists)
  have fst: "map fst ?kvs = ?ds" using mi ds by (intro nth_equalityI) (auto simp: split_beta)
  have at: "(selection_coords sel ! k ! (?ds ! j) - sel_start sel ! (?ds ! j)) div sel_stride sel ! (?ds ! j) = ?mi ! j"
    if j: "j < ?n" for j
  proof -
    have dj: "?ds ! j < ?n" using ds j by (metis lessThan_iff nth_mem)
    have "upd_all (replicate ?n 0) ?kvs ! (?ds ! j) = sel_start sel ! (?ds ! j) + ?mi ! j * sel_stride sel ! (?ds ! j)"
    proof (rule upd_all_in)
      show "distinct (map fst ?kvs)" unfolding fst by (rule ds)
      show "(?ds ! j, sel_start sel ! (?ds ! j) + ?mi ! j * sel_stride sel ! (?ds ! j)) \<in> set ?kvs"
        using j mi ds by (force simp: in_set_zip)
    qed (use dj in simp)
    then show ?thesis using st dj p by (simp add: selection_coords_def length_index_lists)
  qed
  have bij: "bij_betw ((!) ?ds) {..<?n} {..<?n}" by (rule bij_betw_nth [OF ds(1)]) (simp_all only: ds)
  have "(\<Sum>d < ?n. (selection_coords sel ! k ! d - sel_start sel ! d) div sel_stride sel ! d * DestinationStrides sel ! d)
      = (\<Sum>j < ?n. ?mi ! j * prod_list (take j ?cs))"
    using at DestinationStrides_at [OF ok] by (subst sum.reindex_bij_betw [OF bij, symmetric]) simp
  also have "\<dots> = k" using index_lists_position [OF p] ds by simp
  finally show ?thesis .
qed

section \<open>Properties\<close>

text \<open>A cube of 10 by 8 pixels and 4 channels stored channel first, for the examples.\<close>

definition example_axis :: "string \<Rightarrow> AxisRole \<Rightarrow> u64 \<Rightarrow> nat \<Rightarrow> AxisDescriptor" where
  "example_axis n r len st = \<lparr>ax_name = n, ax_role = r, ax_length = len, ax_unit = [], ax_storage_index = st\<rparr>"

definition example_image :: ImageDescriptor where
  "example_image =
     \<lparr>img_id = ''SKY'', img_role = ''sky'', img_data_groups = [''base''], stored_type = float32,
      img_axes = [example_axis ''l'' spatial_x 10 2, example_axis ''m'' spatial_y 8 1, example_axis ''frequency'' spectral 4 0],
      img_unit = ''Jy'', has_pixel_mask = True, pixel_mask_id = ''FLAG''\<rparr>"

lemma example_image_ok [simp]: "descriptor_ok example_image"
  by (auto simp: descriptor_ok_def example_image_def example_axis_def)

definition example_request :: ReadRequest where
  "example_request = [mk_range 1 3 4, mk_range 7 1 9, mk_range 0 2 1]"

lemma example_request_ok: "request_ok example_image example_request"
  by (simp add: request_ok_def example_image_def example_request_def example_axis_def range_fits_def range_at_def
      numeral_3_eq_3 less_Suc_eq all_conj_distrib)

text \<open>
  Claim C4. \<open>BuildSelection\<close> accepts a request exactly when it names every axis, each range selects at least one
  element at a positive stride and its last element lies inside its axis, and the elements can be counted in 64
  bits; none of its checks is fooled by wrap-around. What it accepts is a well-formed selection of that many
  elements, and what it refuses is an \<open>invalid_argument\<close> naming the image.
\<close>

theorem BuildSelection_accepts_exactly:
  assumes "descriptor_ok d"
  shows "case BuildSelection d req order of
      Inr sel \<Rightarrow> request_ok d req \<and> selection_ok sel \<and> sel_elements sel = prod_list (map rg_count req)
    | Inl e \<Rightarrow> \<not> request_ok d req \<and> err_code e = invalid_argument \<and> err_node_path e = img_id d"
proof (cases "BuildSelection d req order")
  case (Inl e)
  then have "\<not> request_ok d req" using BuildSelection_Inr_iff [OF assms, of req order] by auto
  then show ?thesis using Inl BuildSelection_Inl_code [OF assms Inl] by simp
next
  case (Inr sel)
  then have "request_ok d req" "sel = selection_of d req order" using BuildSelection_Inr_iff [OF assms] by auto
  then show ?thesis using Inr BuildSelection_selection_ok [OF assms Inr] by simp
qed

theorem BuildSelection_accepts_exactly_witness:
  "(case BuildSelection example_image example_request logical of
      Inr sel \<Rightarrow> request_ok example_image example_request \<and> selection_ok sel \<and>
        sel_elements sel = prod_list (map rg_count example_request)
    | Inl e \<Rightarrow> \<not> request_ok example_image example_request \<and> err_code e = invalid_argument \<and>
        err_node_path e = img_id example_image) \<and>
   BuildSelection example_image example_request logical =
     Inr \<lparr>sel_start = [0, 7, 1], sel_count = [2, 1, 3], sel_stride = [1, 1, 4],
          sel_destination_to_stored = [2, 1, 0], sel_elements = 6\<rparr>"
proof
  show "BuildSelection example_image example_request logical =
     Inr \<lparr>sel_start = [0, 7, 1], sel_count = [2, 1, 3], sel_stride = [1, 1, 4],
          sel_destination_to_stored = [2, 1, 0], sel_elements = 6\<rparr>" by code_simp
qed (rule BuildSelection_accepts_exactly [OF example_image_ok])

text \<open>
  Claim C5. The selection \<open>BuildSelection\<close> makes in logical order selects the requested elements and no others: read in
  the order of its destination, the stored coordinates it names are those of the request's elements, the first
  logical axis fastest, wherever each axis is stored.
\<close>

theorem BuildSelection_selects_request:
  assumes "descriptor_ok d" and "BuildSelection d req logical = Inr sel"
  shows "selection_coords sel = map (to_stored d) (request_coords req) \<and>
    length (selection_coords sel) = sel_elements sel"
  using assms BuildSelection_Inr_iff [OF assms(1), of req logical]
  by (simp add: selection_of_logical_coords request_ok_def request_coords_def length_index_lists)

theorem BuildSelection_selects_request_witness:
  "let sel = selection_of example_image example_request logical
   in selection_coords sel = map (to_stored example_image) (request_coords example_request) \<and>
      length (selection_coords sel) = sel_elements sel \<and>
      selection_coords sel = [[0, 7, 1], [0, 7, 5], [0, 7, 9], [1, 7, 1], [1, 7, 5], [1, 7, 9]]"
proof -
  have "BuildSelection example_image example_request logical = Inr (selection_of example_image example_request logical)"
    using BuildSelection_Inr_iff [OF example_image_ok] example_request_ok by simp
  note BuildSelection_selects_request [OF example_image_ok this]
  moreover have "selection_coords (selection_of example_image example_request logical) =
      [[0, 7, 1], [0, 7, 5], [0, 7, 9], [1, 7, 1], [1, 7, 5], [1, 7, 9]]" by code_simp
  ultimately show ?thesis unfolding Let_def by (intro conjI) blast+
qed

text \<open>
  In either destination order, \<open>DestinationStrides\<close> places the elements of a selection densely and in the
  order of its destination: counting, along each stored dimension, how many selected elements precede an element
  and weighing the count with the stride of the dimension gives the element's position, for every element, without
  wrapping.
\<close>

theorem DestinationStrides_places_elements:
  assumes "descriptor_ok d" and "BuildSelection d req order = Inr sel" and "k < sel_elements sel"
  shows "(\<Sum>i < length (sel_count sel).
      (selection_coords sel ! k ! i - sel_start sel ! i) div sel_stride sel ! i * DestinationStrides sel ! i) = k"
  by (rule DestinationStrides_position [OF BuildSelection_selection_ok [OF assms(1,2)] assms(3)])

theorem DestinationStrides_places_elements_witness:
  "(\<Sum>i < length (sel_count (selection_of example_image example_request stored)).
      (selection_coords (selection_of example_image example_request stored) ! 4 ! i -
         sel_start (selection_of example_image example_request stored) ! i) div
       sel_stride (selection_of example_image example_request stored) ! i *
       DestinationStrides (selection_of example_image example_request stored) ! i) = 4 \<and>
   DestinationStrides (selection_of example_image example_request stored) = [3, 3, 1]"
proof
  have b: "BuildSelection example_image example_request stored = Inr (selection_of example_image example_request stored)"
    using BuildSelection_Inr_iff [OF example_image_ok] example_request_ok by simp
  show "(\<Sum>i < length (sel_count (selection_of example_image example_request stored)).
      (selection_coords (selection_of example_image example_request stored) ! 4 ! i -
         sel_start (selection_of example_image example_request stored) ! i) div
       sel_stride (selection_of example_image example_request stored) ! i *
       DestinationStrides (selection_of example_image example_request stored) ! i) = 4"
    by (rule DestinationStrides_places_elements [OF example_image_ok b]) (simp add: example_request_def)
qed code_simp

end
