(* ===== verification/Pieces.thy ===== *)
theory Pieces
  imports Pixel_Selection
begin

text \<open>
  Ordinary reads, \<open>src/read/pieces.h\<close>, \<open>pieces.cc\<close> and \<open>pieces_read.cc\<close>: how a read is cut into pieces, the loop that
  reads each piece's flag and pixels, the sample that decodes every chunk of a request, and the prefetch that reads
  it. A cut is proved to be a partition of the request's elements, and a read in pieces to fill the destination as
  one read of the whole would, whatever the cut.
\<close>

section \<open>Planning\<close>

record Piece =
  pc_request :: ReadRequest
  pc_first_element :: u64

definition SlowestSelectedAxis :: "ReadRequest \<Rightarrow> nat option" where
  "SlowestSelectedAxis request = List.find (\<lambda>i. 1 < rg_count (request ! i)) (rev [0..<length request])"

text \<open>The chunks an axis other than the cut one decodes.\<close>

definition chunks_along :: "ReadRequest \<Rightarrow> ChunkGeometry \<Rightarrow> nat \<Rightarrow> u64" where
  "chunks_along request geometry i =
     (let chunk = extent_at geometry i; rng = request ! i
      in if chunk = 0 then 1 else max 1 (ChunksTouched (rg_start rng) (rg_count rng) (rg_stride rng) chunk))"

definition UnitsPerPiece :: "ReadRequest \<Rightarrow> ChunkGeometry \<Rightarrow> nat \<Rightarrow> ReadCost \<Rightarrow> u64" where
  "UnitsPerPiece request geometry axis cost =
     (let other_chunks = foldl (\<lambda>acc i. if i = axis then acc else mul64 acc (chunks_along request geometry i))
                           1 [0..<length request];
          row_bytes = mul64 (cost_chunk_bytes cost) other_chunks;
          chunks = max 1 (cost_budget_bytes cost div max 1 row_bytes);
          chunk = extent_at geometry axis;
          stride = max 1 (rg_stride (request ! axis))
      in if chunk \<noteq> 0 \<and> chunk \<le> stride then chunks
         else max 1 (mul64 chunks (max 1 chunk) div stride))"

definition elements_per_unit :: "ReadRequest \<Rightarrow> nat \<Rightarrow> u64" where
  "elements_per_unit request axis = foldl (\<lambda>acc i. mul64 acc (rg_count (request ! i))) 1 [0..<axis]"

text \<open>The piece that covers the units from \<open>begin\<close> to \<open>end\<close> of the cut axis.\<close>

definition cut_piece :: "ReadRequest \<Rightarrow> nat \<Rightarrow> u64 \<Rightarrow> u64 \<times> u64 \<Rightarrow> Piece" where
  "cut_piece request axis per_unit = (\<lambda>(first, last).
     let whole = request ! axis
     in \<lparr>pc_request = request[axis := whole\<lparr>rg_start := add64 (rg_start whole) (mul64 first (rg_stride whole)),
                                         rg_count := sub64 last first\<rparr>],
         pc_first_element = mul64 first per_unit\<rparr>)"

definition PlanPieces ::
  "ImageDescriptor \<Rightarrow> ChunkGeometry \<Rightarrow> ChunkGeometry \<Rightarrow> ReadRequest \<Rightarrow> 'w ReadOptions \<Rightarrow> bool \<Rightarrow> Piece list option"
where
  "PlanPieces descriptor geometry flag_geometry request options watching =
     (case SlowestSelectedAxis request of
        None \<Rightarrow> Some [\<lparr>pc_request = request, pc_first_element = 0\<rparr>]
      | Some axis \<Rightarrow>
          if \<not> watching \<and> opt_read_budget_bytes options = 0
          then Some [\<lparr>pc_request = request, pc_first_element = 0\<rparr>]
          else
            let units_per_piece = UnitsPerPiece request geometry axis (ReadCost_Of descriptor geometry flag_geometry options);
                chunk = extent_at geometry axis;
                per_unit = elements_per_unit request axis;
                whole = request ! axis
            in map_option (map (cut_piece request axis per_unit))
                 (block_loop (\<lambda>begin. AlignedBlockEnd begin units_per_piece (rg_count whole) (rg_start whole) (rg_stride whole) chunk)
                    0 (rg_count whole)))"

definition OneElementPerChunk :: "ChunkGeometry \<Rightarrow> ReadRequest \<Rightarrow> ReadRequest" where
  "OneElementPerChunk geometry request =
     map (\<lambda>axis.
            let chunk = extent_at geometry axis; rng = request ! axis
            in if chunk = 0 \<or> chunk \<le> rg_stride rng then rng
               else let first = rg_start rng div chunk;
                        last = add64 (rg_start rng) (mul64 (sub64 (rg_count rng) 1) (rg_stride rng)) div chunk
                    in mk_range (mul64 first chunk) (add64 (sub64 last first) 1) chunk)
       [0..<length request]"

section \<open>Reading\<close>

definition CheckRead ::
  "ImageDescriptor \<Rightarrow> ReadRequest \<Rightarrow> u64 \<Rightarrow> 'w ReadControl \<Rightarrow> 'w \<Rightarrow> PixelSelection result \<times> 'w"
where
  "CheckRead descriptor request destination_size control w =
     (case BuildSelection descriptor request logical of
        Inl e \<Rightarrow> (Inl e, w)
      | Inr selection \<Rightarrow>
          if destination_size < sel_elements selection
          then (Inl (mk_error invalid_argument ''Destination buffer is too small for the request'' (img_id descriptor)), w)
          else case CheckReadControl control (img_id descriptor) w of
                 (Inl e, w) \<Rightarrow> (Inl e, w)
               | (Inr _, w) \<Rightarrow> (Inr selection, w))"

type_synonym 'w ProgressCallback = "(u64 \<Rightarrow> u64 \<Rightarrow> 'w \<Rightarrow> bool \<times> 'w) option"

text \<open>
  What one piece does to the caller's destination. The piece is handed the rest of the buffer from where it lands;
  the flag is read first, into a buffer of zeroes as long as the piece, so that a flag that cannot be read leaves
  the piece alone.
\<close>

definition ReadPiece ::
  "'w PixelSource \<Rightarrow> ImageDescriptor \<Rightarrow> 'w ReadOptions \<Rightarrow> bool \<Rightarrow> Piece \<Rightarrow> f32 list \<Rightarrow> 'w \<Rightarrow> (u64 result \<times> f32 list) \<times> 'w"
where
  "ReadPiece source descriptor options apply_mask piece destination w =
     (case BuildSelection descriptor (pc_request piece) logical of
        Inl e \<Rightarrow> ((Inl e, destination), w)
      | Inr selection \<Rightarrow>
          let piece_elements = sel_elements selection;
              first = pc_first_element piece;
              (flag_read, flags, w) =
                (if \<not> apply_mask then (Inr (), [], w)
                 else if opt_read_budget_bytes options \<noteq> 0 \<and> opt_read_budget_bytes options < piece_elements
                 then (Inl (mk_error buffer_too_small ''Pixel mask temporary buffer exceeds the read budget''
                         (img_id descriptor)), [], w)
                 else case ReadMask source selection (replicate piece_elements 0) (opt_control options) w of
                        ((r, flags), w) \<Rightarrow> (r, flags, w))
          in case flag_read of
               Inl e \<Rightarrow> ((Inl e, destination), w)
             | Inr _ \<Rightarrow>
                 case ReadPixels source selection (drop first destination) (opt_control options) w of
                   ((Inl e, rest), w) \<Rightarrow> ((Inl e, take first destination @ rest), w)
                 | ((Inr _, rest), w) \<Rightarrow>
                     ((Inr piece_elements, take first destination @
                        (if apply_mask then ApplyPixelMask rest flags piece_elements else rest)), w))"

fun ReadInPieces_loop ::
  "'w PixelSource \<Rightarrow> ImageDescriptor \<Rightarrow> 'w ReadOptions \<Rightarrow> bool \<Rightarrow> u64 \<Rightarrow> 'w ProgressCallback \<Rightarrow> Piece list \<Rightarrow>
   f32 list \<Rightarrow> 'w \<Rightarrow> (u64 result \<times> f32 list) \<times> 'w"
where
  "ReadInPieces_loop source descriptor options apply_mask elements progress [] destination w =
     ((Inr elements, destination), w)"
| "ReadInPieces_loop source descriptor options apply_mask elements progress (piece # pieces) destination w =
     (case ReadPiece source descriptor options apply_mask piece destination w of
        ((Inl e, destination), w) \<Rightarrow> ((Inl e, destination), w)
      | ((Inr piece_elements, destination), w) \<Rightarrow>
          let (go_on, w) = (case progress of
                None \<Rightarrow> (True, w)
              | Some report \<Rightarrow> report (add64 (pc_first_element piece) piece_elements) elements w)
          in if \<not> go_on
             then ((Inl (mk_error cancelled ''The read was cancelled by its progress callback'' (img_id descriptor)),
                    destination), w)
             else ReadInPieces_loop source descriptor options apply_mask elements progress pieces destination w)"

definition ReadInPieces ::
  "'w PixelSource \<Rightarrow> ImageDescriptor \<Rightarrow> ChunkGeometry \<Rightarrow> ChunkGeometry \<Rightarrow> ReadRequest \<Rightarrow> f32 list \<Rightarrow> 'w ReadOptions \<Rightarrow>
   'w ProgressCallback \<Rightarrow> 'w \<Rightarrow> ((u64 result \<times> f32 list) \<times> 'w) option"
where
  "ReadInPieces source descriptor geometry flag_geometry request destination options progress w =
     (case CheckRead descriptor request (length destination) (opt_control options) w of
        (Inl e, w) \<Rightarrow> Some ((Inl e, destination), w)
      | (Inr checked, w) \<Rightarrow>
          map_option
            (\<lambda>pieces. ReadInPieces_loop source descriptor options (AppliesPixelMask options descriptor)
               (sel_elements checked) progress pieces destination w)
            (PlanPieces descriptor geometry flag_geometry request options (progress \<noteq> None)))"

section \<open>Prefetching\<close>

definition Elements :: "ReadRequest \<Rightarrow> u64" where
  "Elements request = foldl (\<lambda>acc rng. mul64 acc (rg_count rng)) 1 request"

definition kSampleElements :: u64 where "kSampleElements = 65536"

definition SampleElements :: "'w ReadOptions \<Rightarrow> u64 \<Rightarrow> u64" where
  "SampleElements options element_bytes =
     (if opt_read_budget_bytes options = 0 then kSampleElements
      else max 1 (opt_read_budget_bytes options div element_bytes))"

text \<open>
  The pieces of a sample: the axis that is cut and the elements of the ones after it; the odometer over the axes
  before it, the last of them fastest; and the requests in the order they are read.
\<close>

fun find_cut :: "ReadRequest \<Rightarrow> u64 \<Rightarrow> nat \<Rightarrow> u64 \<Rightarrow> nat \<times> u64" where
  "find_cut [] most split inner = (split, inner)"
| "find_cut (rng # ranges) most split inner =
     (let inner = inner div max 1 (rg_count rng)
      in if inner \<le> most then (split, inner) else find_cut ranges most (split + 1) inner)"

fun advance :: "ReadRequest \<Rightarrow> u64 list \<Rightarrow> nat \<Rightarrow> u64 list option" where
  "advance request pos 0 = None"
| "advance request pos (Suc axis) =
     (let pos = pos[axis := add64 (pos ! axis) 1]
      in if pos ! axis < rg_count (request ! axis) then Some pos
         else let pos = pos[axis := 0] in if axis = 0 then None else advance request pos axis)"

definition runs_at :: "ReadRequest \<Rightarrow> nat \<Rightarrow> u64 \<Rightarrow> u64 list \<Rightarrow> ReadRequest list option" where
  "runs_at request split run pos =
     (let before = map (\<lambda>axis. let rng = request ! axis
                               in mk_range (add64 (rg_start rng) (mul64 (pos ! axis) (rg_stride rng))) 1 (rg_stride rng))
                     [0..<split];
          along = request ! split
      in map_option
           (map (\<lambda>(first, _). before @ mk_range (add64 (rg_start along) (mul64 first (rg_stride along)))
                                (min run (sub64 (rg_count along) first)) (rg_stride along) # drop (split + 1) request))
           (block_loop (\<lambda>first. add64 first run) 0 (rg_count along)))"

partial_function (option) ForEachPiece_from :: "ReadRequest \<Rightarrow> nat \<Rightarrow> u64 \<Rightarrow> u64 list \<Rightarrow> ReadRequest list option" where
  "ForEachPiece_from request split run pos =
     Option.bind (runs_at request split run pos) (\<lambda>here.
       case advance request pos split of
         None \<Rightarrow> Some here
       | Some pos \<Rightarrow> Option.bind (ForEachPiece_from request split run pos) (\<lambda>rest. Some (here @ rest)))"

declare ForEachPiece_from.simps [code]

definition ForEachPiece_requests :: "ReadRequest \<Rightarrow> u64 \<Rightarrow> ReadRequest list option" where
  "ForEachPiece_requests request most =
     (let (split, inner) = find_cut request most 0 (Elements request)
      in if split = length request then Some [request]
         else ForEachPiece_from request split (max 1 (most div max 1 inner)) (replicate split 0))"

fun read_each ::
  "(ReadRequest \<Rightarrow> 's \<Rightarrow> (unit result \<times> 's) option) \<Rightarrow> ReadRequest list \<Rightarrow> 's \<Rightarrow> (unit result \<times> 's) option"
where
  "read_each read [] s = Some (Inr (), s)"
| "read_each read (r # rs) s =
     Option.bind (read r s) (\<lambda>(done, s). case done of Inl e \<Rightarrow> Some (Inl e, s) | Inr _ \<Rightarrow> read_each read rs s)"

definition ForEachPiece ::
  "ReadRequest \<Rightarrow> u64 \<Rightarrow> (ReadRequest \<Rightarrow> 's \<Rightarrow> (unit result \<times> 's) option) \<Rightarrow> 's \<Rightarrow> (unit result \<times> 's) option"
where
  "ForEachPiece request most read s =
     Option.bind (ForEachPiece_requests request most) (\<lambda>rs. read_each read rs s)"

text \<open>
  The buffer the sample is read into is the state the reads thread, with the world; what it ends up holding is
  discarded. The flags are sampled by their own layout, and their pieces are held to the chunks the budget affords.
\<close>

definition PrefetchFlags ::
  "'w PixelSource \<Rightarrow> ImageDescriptor \<Rightarrow> ChunkGeometry \<Rightarrow> ChunkGeometry \<Rightarrow> ReadRequest \<Rightarrow> 'w ReadOptions \<Rightarrow> u64 \<Rightarrow> 'w \<Rightarrow>
   (u64 result \<times> 'w) option"
where
  "PrefetchFlags source descriptor geometry flag_geometry request options chunks w =
     (let flag_sample = OneElementPerChunk flag_geometry request;
          flag_chunks = Elements flag_sample;
          discarded = replicate (min flag_chunks (SampleElements options 1)) 0;
          flag_chunk_bytes = ChunkElements (if chunk_shape flag_geometry = [] then geometry else flag_geometry);
          flag_budget = (if opt_read_budget_bytes options \<noteq> 0 then opt_read_budget_bytes options
                         else DefaultReadBytes flag_chunk_bytes);
          flag_piece = min (length discarded) (max 1 (flag_budget div flag_chunk_bytes))
      in Option.bind
           (ForEachPiece flag_sample flag_piece
              (\<lambda>piece (flags, w). case BuildSelection descriptor piece logical of
                   Inl e \<Rightarrow> Some (Inl e, (flags, w))
                 | Inr selection \<Rightarrow>
                     (case ReadMask source selection flags (opt_control options) w of ((r, flags), w) \<Rightarrow> Some (r, (flags, w))))
              (discarded, w))
           (\<lambda>(done, (_, w)). case done of Inl e \<Rightarrow> Some (Inl e, w) | Inr _ \<Rightarrow> Some (Inr (add64 chunks flag_chunks), w)))"

definition PrefetchChunks ::
  "'w PixelSource \<Rightarrow> ImageDescriptor \<Rightarrow> ChunkGeometry \<Rightarrow> ChunkGeometry \<Rightarrow> ReadRequest \<Rightarrow> 'w ReadOptions \<Rightarrow> 'w \<Rightarrow>
   (u64 result \<times> 'w) option"
where
  "PrefetchChunks source descriptor geometry flag_geometry request options w =
     (case BuildSelection descriptor request logical of
        Inl e \<Rightarrow> Some (Inl e, w)
      | Inr _ \<Rightarrow>
          case CheckReadControl (opt_control options) (img_id descriptor) w of
            (Inl e, w) \<Rightarrow> Some (Inl e, w)
          | (Inr _, w) \<Rightarrow>
              let sample = OneElementPerChunk geometry request;
                  chunks = Elements sample;
                  pixels_only = options\<lparr>opt_apply_pixel_mask := False\<rparr>;
                  discarded = replicate (min chunks (SampleElements options 4)) 0
              in Option.bind
                   (ForEachPiece sample (length discarded)
                      (\<lambda>piece (pixels, w).
                         Option.bind (ReadInPieces source descriptor geometry flag_geometry piece pixels pixels_only None w)
                           (\<lambda>((r, pixels), w). case r of Inl e \<Rightarrow> Some (Inl e, (pixels, w)) | Inr _ \<Rightarrow> Some (Inr (), (pixels, w))))
                      (discarded, w))
                   (\<lambda>(done, (_, w)). case done of
                        Inl e \<Rightarrow> Some (Inl e, w)
                      | Inr _ \<Rightarrow>
                          if \<not> AppliesPixelMask options descriptor then Some (Inr chunks, w)
                          else PrefetchFlags source descriptor geometry flag_geometry request options chunks w))"

section \<open>The elements of a cut request\<close>

lemma foldl_mul64: "a < two64 \<Longrightarrow> foldl (\<lambda>acc x. mul64 acc (f x)) a xs = a * prod_list (map f xs) mod two64"
proof (induction xs arbitrary: a)
  case (Cons x xs)
  have "foldl (\<lambda>acc x. mul64 acc (f x)) (mul64 a (f x)) xs = mul64 a (f x) * prod_list (map f xs) mod two64"
    by (rule Cons.IH) simp
  then show ?case by (simp add: mul64_def mod_mult_left_eq mult.assoc)
qed simp

definition range_list :: "Range \<Rightarrow> nat list" where
  "range_list r = map (range_at r) [0..<rg_count r]"

lemma length_range_list [simp]: "length (range_list r) = rg_count r"
  by (simp add: range_list_def)

lemma request_coords_Nil [simp]: "request_coords [] = [[]]"
  by (simp add: request_coords_def)

lemma request_coords_Cons:
  "request_coords (r # req) = concat (map (\<lambda>rest. map (\<lambda>x. x # rest) (range_list r)) (request_coords req))"
  by (simp add: request_coords_def range_list_def map_concat comp_def)

lemma length_request_coords: "length (request_coords req) = prod_list (map rg_count req)"
  by (simp add: request_coords_def length_index_lists)

lemma request_coords_append:
  "request_coords (a @ b) = concat (map (\<lambda>tail. map (\<lambda>p. p @ tail) (request_coords a)) (request_coords b))"
proof (induction a)
  case Nil
  have "concat (map (\<lambda>x. [x]) xs) = xs" for xs :: "nat list list" by (induction xs) auto
  then show ?case by simp
next
  case (Cons r a)
  have nest: "concat (map f (concat (map g ts))) = concat (map (\<lambda>t. concat (map f (g t))) ts)"
    for f :: "nat list \<Rightarrow> nat list list" and g :: "nat list \<Rightarrow> nat list list" and ts
    by (induction ts) auto
  have inner: "concat (map (\<lambda>rest. map (\<lambda>x. x # rest) xs) (map (\<lambda>p. p @ tail) ps)) =
      map (\<lambda>p. p @ tail) (concat (map (\<lambda>rest. map (\<lambda>x. x # rest) xs) ps))" for xs :: "nat list" and tail ps
    by (induction ps) auto
  show ?case unfolding append_Cons request_coords_Cons Cons.IH nest inner ..
qed

lemma request_coords_single:
  "\<forall>r \<in> set req. rg_count r = 1 \<Longrightarrow> request_coords req = [map rg_start req]"
  by (induction req) (auto simp: request_coords_Cons range_list_def range_at_def)

text \<open>A request whose axes after the cut select one element each lists its elements along the cut axis last.\<close>

lemma request_coords_cut:
  assumes "\<forall>r \<in> set suf. rg_count r = 1"
  shows "request_coords (pre @ r # suf) =
    concat (map (\<lambda>x. map (\<lambda>p. p @ x # map rg_start suf) (request_coords pre)) (range_list r))"
proof -
  have "request_coords (r # suf) = map (\<lambda>x. x # map rg_start suf) (range_list r)"
    by (simp add: request_coords_Cons request_coords_single [OF assms])
  then show ?thesis by (simp add: request_coords_append comp_def)
qed

lemma range_list_block:
  assumes "x \<le> y"
  shows "range_list (mk_range (rg_start r + x * rg_stride r) (y - x) (rg_stride r)) = map (range_at r) [x..<y]"
  using assms by (intro nth_equalityI) (auto simp: range_list_def range_at_def algebra_simps)

section \<open>What a plan promises\<close>

text \<open>Each piece lands where the one before it ends.\<close>

fun contiguous :: "nat \<Rightarrow> Piece list \<Rightarrow> bool" where
  "contiguous n [] \<longleftrightarrow> True"
| "contiguous n (p # ps) \<longleftrightarrow> pc_first_element p = n \<and> contiguous (n + length (request_coords (pc_request p))) ps"

definition plan_ok :: "ImageDescriptor \<Rightarrow> ReadRequest \<Rightarrow> Piece list \<Rightarrow> bool" where
  "plan_ok d req ps \<longleftrightarrow> (\<forall>p \<in> set ps. request_ok d (pc_request p)) \<and> contiguous 0 ps \<and>
     concat (map (\<lambda>p. request_coords (pc_request p)) ps) = request_coords req"

text \<open>The chunk that holds an element; an axis with no chunk shape is one chunk.\<close>

definition chunk_of :: "ChunkGeometry \<Rightarrow> nat list \<Rightarrow> nat list" where
  "chunk_of geometry coord = map (\<lambda>i. coord ! i div extent_at geometry i) [0..<length coord]"

lemma SlowestSelectedAxis_Some:
  assumes "SlowestSelectedAxis req = Some k"
  shows "k < length req" and "1 < rg_count (req ! k)" and "\<forall>i. k < i \<and> i < length req \<longrightarrow> rg_count (req ! i) \<le> 1"
proof -
  obtain j where j: "j < length req" "k = rev [0..<length req] ! j" "1 < rg_count (req ! (rev [0..<length req] ! j))"
    and before: "\<forall>i < j. \<not> 1 < rg_count (req ! (rev [0..<length req] ! i))"
    using assms by (auto simp: SlowestSelectedAxis_def find_Some_iff)
  have rev: "rev [0..<length req] ! i = length req - 1 - i" if "i < length req" for i
    using that by (simp add: rev_nth)
  show "k < length req" "1 < rg_count (req ! k)" using j rev by auto
  show "\<forall>i. k < i \<and> i < length req \<longrightarrow> rg_count (req ! i) \<le> 1"
  proof (intro allI impI)
    fix i assume i: "k < i \<and> i < length req"
    then have "length req - 1 - i < j" using j rev by auto
    then have "\<not> 1 < rg_count (req ! (rev [0..<length req] ! (length req - 1 - i)))" using before by blast
    moreover have "rev [0..<length req] ! (length req - 1 - i) = i"
    proof -
      have "length req - 1 - i < length req" using i by linarith
      then show ?thesis using rev i by simp
    qed
    ultimately show "rg_count (req ! i) \<le> 1" by simp
  qed
qed

text \<open>What the checks on a request leave for the arithmetic on one of its ranges.\<close>

lemma range_fits_bounds:
  assumes "range_fits r len" and "len < max_extent"
  shows "0 < rg_stride r" and "0 < rg_count r" and "rg_count r \<le> len"
    and "rg_start r + (rg_count r - 1) * rg_stride r < max_extent"
    and "x < rg_count r \<Longrightarrow> rg_start r + x * rg_stride r \<le> rg_start r + (rg_count r - 1) * rg_stride r"
proof -
  show s: "0 < rg_stride r" and c: "0 < rg_count r" using assms by (auto simp: range_fits_def)
  have at: "rg_start r + (rg_count r - 1) * rg_stride r < len" using assms by (simp add: range_fits_def range_at_def)
  have "(rg_count r - 1) * 1 \<le> (rg_count r - 1) * rg_stride r" using s by (intro mult_le_mono2) simp
  then show "rg_count r \<le> len" using at c by linarith
  show "rg_start r + (rg_count r - 1) * rg_stride r < max_extent" using at assms(2) by linarith
  show "rg_start r + x * rg_stride r \<le> rg_start r + (rg_count r - 1) * rg_stride r" if "x < rg_count r"
    using that by (intro add_left_mono mult_le_mono1) simp
qed

lemma request_ok_fits:
  assumes "descriptor_ok d" and "request_ok d req" and "i < length req"
  shows "range_fits (req ! i) (ax_length (img_axes d ! i))" and "ax_length (img_axes d ! i) < max_extent"
  using assms by (auto simp: request_ok_def descriptor_ok_def)

lemma prod_list_split_at:
  "k < length req \<Longrightarrow> prod_list (map f req) = prod_list (map f (take k req)) * f (req ! k) * (prod_list (map f (drop (Suc k) req)) :: nat)"
proof -
  assume "k < length req"
  then have "map f req = map f (take k req) @ f (req ! k) # map f (drop (Suc k) req)"
    using arg_cong [OF id_take_nth_drop, of k req "map f"] by simp
  then show ?thesis by (simp add: mult.assoc)
qed

lemma elements_per_unit_exact:
  assumes "request_ok d req" and "k < length req"
  shows "elements_per_unit req k = prod_list (map rg_count (take k req))"
    and "prod_list (map rg_count (take k req)) * rg_count (req ! k) < two64"
proof -
  let ?p = "prod_list (map rg_count (take k req))" and ?s = "prod_list (map rg_count (drop (Suc k) req))"
  have "0 \<notin> rg_count ` set (drop (Suc k) req)"
    using request_ok_pos [OF assms(1)] by (fastforce dest: in_set_dropD)
  then have "1 \<le> ?s" using prod_list_zero_iff [of "map rg_count (drop (Suc k) req)"] by (simp add: Suc_le_eq)
  then have "?p * rg_count (req ! k) * 1 \<le> ?p * rg_count (req ! k) * ?s" by (rule mult_le_mono2)
  moreover have "?p * rg_count (req ! k) * ?s < two64"
    using assms prod_list_split_at [of k req rg_count] by (simp add: request_ok_def)
  ultimately show lt: "?p * rg_count (req ! k) < two64" by linarith
  have "0 < rg_count (req ! k)" using request_ok_pos [OF assms(1)] assms(2) by simp
  then have "?p * 1 \<le> ?p * rg_count (req ! k)" by (intro mult_le_mono2) simp
  then have "?p < two64" using lt by linarith
  moreover have "map (\<lambda>i. rg_count (req ! i)) [0..<k] = map rg_count (take k req)"
    using assms(2) by (intro nth_equalityI) auto
  ultimately show "elements_per_unit req k = ?p"
    using foldl_mul64 [of 1 "\<lambda>i. rg_count (req ! i)" "[0..<k]"] by (simp add: elements_per_unit_def)
qed

lemma cut_piece_exact:
  assumes d: "descriptor_ok d" and ok: "request_ok d req" and k: "k < length req"
    and xy: "x < y" "y \<le> rg_count (req ! k)"
  shows "pc_request (cut_piece req k (elements_per_unit req k) (x, y)) =
      take k req @ mk_range (rg_start (req ! k) + x * rg_stride (req ! k)) (y - x) (rg_stride (req ! k)) # drop (Suc k) req"
    and "pc_first_element (cut_piece req k (elements_per_unit req k) (x, y)) = x * prod_list (map rg_count (take k req))"
    and "request_ok d (pc_request (cut_piece req k (elements_per_unit req k) (x, y)))"
proof -
  let ?r = "req ! k" and ?p = "prod_list (map rg_count (take k req))"
  let ?r' = "mk_range (rg_start ?r + x * rg_stride ?r) (y - x) (rg_stride ?r)"
  note fit = request_ok_fits [OF d ok k]
  note b = range_fits_bounds [OF fit]
  have at: "rg_start ?r + x * rg_stride ?r < max_extent" using b(4) b(5) [of x] xy by linarith
  have m: "mul64 x (rg_stride ?r) = x * rg_stride ?r" using at by (intro mul64_exact) linarith
  have a: "add64 (rg_start ?r) (x * rg_stride ?r) = rg_start ?r + x * rg_stride ?r"
    using at by (intro add64_exact) linarith
  have s: "sub64 y x = y - x" using xy b(3) fit(2) by (intro sub64_exact) linarith+
  have "x * ?p \<le> ?p * rg_count ?r" using xy by (simp add: mult.commute)
  then have f: "mul64 x ?p = x * ?p" using elements_per_unit_exact(2) [OF ok k] by (intro mul64_exact) linarith
  have req': "pc_request (cut_piece req k (elements_per_unit req k) (x, y)) = req[k := ?r']"
    using m a s by (cases "req ! k") (simp add: cut_piece_def Let_def mk_range_def)
  then show cut: "pc_request (cut_piece req k (elements_per_unit req k) (x, y)) = take k req @ ?r' # drop (Suc k) req"
    using k by (simp add: upd_conv_take_nth_drop)
  show "pc_first_element (cut_piece req k (elements_per_unit req k) (x, y)) = x * ?p"
    using f elements_per_unit_exact(1) [OF ok k] by (simp add: cut_piece_def Let_def)
  have "range_fits ?r' (ax_length (img_axes d ! k))"
  proof -
    have "rg_start ?r + x * rg_stride ?r + (y - x - 1) * rg_stride ?r = rg_start ?r + (y - 1) * rg_stride ?r"
    proof -
      have e: "y - 1 = x + (y - x - 1)" using xy by linarith
      show ?thesis by (subst e) (simp only: add_mult_distrib add.assoc)
    qed
    also have "\<dots> \<le> rg_start ?r + (rg_count ?r - 1) * rg_stride ?r" using xy by (intro add_left_mono mult_le_mono1) simp
    finally show ?thesis using fit(1) xy by (simp add: range_fits_def range_at_def)
  qed
  moreover have "prod_list (map rg_count (req[k := ?r'])) \<le> prod_list (map rg_count req)"
    using prod_list_split_at [OF k, of rg_count] xy k by (simp add: upd_conv_take_nth_drop le_diff_conv)
  ultimately show "request_ok d (pc_request (cut_piece req k (elements_per_unit req k) (x, y)))"
    unfolding req' using ok k by (auto simp: request_ok_def nth_list_update)
qed

lemma prod_list_ones: "\<forall>c \<in> set cs. c = 1 \<Longrightarrow> prod_list cs = (1::nat)"
  by (induction cs) auto

lemma rest_counts_one:
  assumes "request_ok d req" and "\<forall>i. k < i \<and> i < length req \<longrightarrow> rg_count (req ! i) \<le> 1"
  shows "\<forall>r \<in> set (drop (Suc k) req). rg_count r = 1"
proof
  fix r assume "r \<in> set (drop (Suc k) req)"
  then obtain i where "i < length req - Suc k" and r: "r = req ! (Suc k + i)" by (auto simp: in_set_conv_nth)
  then have i: "Suc k + i < length req" "r = req ! (Suc k + i)" by linarith+
  have "0 < rg_count r" using request_ok_pos [OF assms(1)] i by simp
  moreover have "rg_count r \<le> 1" using assms(2) i by simp
  ultimately show "rg_count r = 1" by linarith
qed

lemma cut_pieces_contiguous:
  assumes "descriptor_ok d" and "request_ok d req" and "k < length req"
    and "\<forall>i. k < i \<and> i < length req \<longrightarrow> rg_count (req ! i) \<le> 1"
  shows "tiles bs a (rg_count (req ! k)) \<Longrightarrow>
    contiguous (a * prod_list (map rg_count (take k req))) (map (cut_piece req k (elements_per_unit req k)) bs)"
proof (induction bs arbitrary: a)
  case (Cons b bs)
  obtain x y where b: "b = (x, y)" by (cases b)
  have xy: "x = a" "x < y" "y \<le> rg_count (req ! k)" "tiles bs y (rg_count (req ! k))" using Cons.prems b by auto
  note piece = cut_piece_exact [OF assms(1-3) xy(2,3)]
  have "\<forall>c \<in> set (map rg_count (drop (Suc k) req)). c = 1"
    using rest_counts_one [OF assms(2,4)] by simp
  then have "prod_list (map rg_count (drop (Suc k) req)) = 1" by (rule prod_list_ones)
  then have "length (request_coords (pc_request (cut_piece req k (elements_per_unit req k) (x, y)))) =
      prod_list (map rg_count (take k req)) * (y - x)"
    by (simp add: piece(1) length_request_coords)
  moreover have "a * p + p * (y - x) = y * p" for p using xy by (simp add: algebra_simps)
  ultimately show ?case using Cons.IH [OF xy(4)] piece(2) xy(1) b by simp
qed simp

lemma concat_blocks:
  "tiles bs a c \<Longrightarrow> concat (map (\<lambda>(x, y). concat (map f [x..<y])) bs) = concat (map f [a..<c])"
proof (induction bs a c rule: tiles.induct)
  case (2 x y bs a c)
  then have "[a..<c] = [a..<y] @ [y..<c]" by (metis less_imp_le le_add_diff_inverse tiles.simps(2) upt_add_eq_append)
  then show ?case using 2 by simp
qed simp

lemma cut_pieces_plan_ok:
  assumes d: "descriptor_ok d" and ok: "request_ok d req" and k: "k < length req"
    and after: "\<forall>i. k < i \<and> i < length req \<longrightarrow> rg_count (req ! i) \<le> 1"
    and t: "tiles bs 0 (rg_count (req ! k))"
  shows "plan_ok d req (map (cut_piece req k (elements_per_unit req k)) bs)"
proof -
  let ?cut = "cut_piece req k (elements_per_unit req k)" and ?r = "req ! k"
  let ?f = "\<lambda>n. map (\<lambda>p. p @ range_at ?r n # map rg_start (drop (Suc k) req)) (request_coords (take k req))"
  have one: "\<forall>r \<in> set (drop (Suc k) req). rg_count r = 1" by (rule rest_counts_one [OF ok after])
  have in_bs: "x < y" "y \<le> rg_count ?r" if "(x, y) \<in> set bs" for x y using tiles_bounds [OF t] that by auto
  have piece: "request_coords (pc_request (?cut (x, y))) = concat (map ?f [x..<y])" if "(x, y) \<in> set bs" for x y
    unfolding cut_piece_exact(1) [OF d ok k in_bs [OF that]] request_coords_cut [OF one]
    using range_list_block [of x y ?r] in_bs [OF that] by (simp add: comp_def)
  have "concat (map (\<lambda>p. request_coords (pc_request p)) (map ?cut bs)) = concat (map (\<lambda>(x, y). concat (map ?f [x..<y])) bs)"
    using piece by (intro arg_cong [of _ _ concat]) (auto simp: comp_def)
  also have "\<dots> = concat (map ?f [0..<rg_count ?r])" by (rule concat_blocks [OF t])
  also have "\<dots> = request_coords (take k req @ ?r # drop (Suc k) req)"
    unfolding request_coords_cut [OF one] by (simp add: range_list_def comp_def)
  also have "\<dots> = request_coords req" using k by (simp add: id_take_nth_drop [symmetric])
  finally have coords: "concat (map (\<lambda>p. request_coords (pc_request p)) (map ?cut bs)) = request_coords req" .
  have "\<forall>p \<in> set (map ?cut bs). request_ok d (pc_request p)"
    using cut_piece_exact(3) [OF d ok k] in_bs by auto
  then show ?thesis using coords cut_pieces_contiguous [OF d ok k after t] by (simp add: plan_ok_def)
qed

lemma whole_piece_plan_ok: "request_ok d req \<Longrightarrow> plan_ok d req [\<lparr>pc_request = req, pc_first_element = 0\<rparr>]"
  by (simp add: plan_ok_def)

lemma UnitsPerPiece_less: "cost_budget_bytes cost < two64 \<Longrightarrow> UnitsPerPiece req geometry axis cost < two64"
proof -
  assume c: "cost_budget_bytes cost < two64"
  have "max 1 (a div b) < two64" if "a < two64" for a b :: nat
    using that div_le_dividend [of a b] by linarith
  then show ?thesis using c mul64_less unfolding UnitsPerPiece_def Let_def by (auto split: if_splits)
qed

lemma ReadCost_Of_budget_less:
  assumes "opt_read_budget_bytes options < two64"
  shows "cost_budget_bytes (ReadCost_Of d geometry flag_geometry options) < two64"
  using assms by (auto simp: ReadCost_Of_def Let_def DefaultReadBytes_def kMaxDecodedBytesPerRead_def)

lemma cut_block_ok:
  assumes "range_fits r len" and "len < max_extent" and "desired < two64" and "chunk < two64"
  shows "block_ok desired (rg_count r) (rg_start r) (rg_stride r) chunk 0"
  using range_fits_bounds [OF assms(1,2)] assms by (auto simp: block_ok_def)

text \<open>A geometry whose chunk extents fit 64 bits, and options whose budget does.\<close>

definition geometry_fits :: "ChunkGeometry \<Rightarrow> bool" where
  "geometry_fits geometry \<longleftrightarrow> (\<forall>c \<in> set (chunk_shape geometry). c < two64)"

lemma extent_at_less: "geometry_fits geometry \<Longrightarrow> extent_at geometry i < two64"
  by (auto simp: extent_at_def geometry_fits_def)

lemma PlanPieces_cases:
  assumes d: "descriptor_ok d" and ok: "request_ok d req" and g: "geometry_fits geometry"
    and o: "opt_read_budget_bytes options < two64"
  obtains (whole) "PlanPieces d geometry flag_geometry req options watching = Some [\<lparr>pc_request = req, pc_first_element = 0\<rparr>]"
  | (cut) k desired bs where "k < length req" and "\<forall>i. k < i \<and> i < length req \<longrightarrow> rg_count (req ! i) \<le> 1"
      and "tiles bs 0 (rg_count (req ! k))"
      and "block_ok desired (rg_count (req ! k)) (rg_start (req ! k)) (rg_stride (req ! k)) (extent_at geometry k) 0"
      and "aligned_blocks desired (rg_count (req ! k)) (rg_start (req ! k)) (rg_stride (req ! k)) (extent_at geometry k) = Some bs"
      and "PlanPieces d geometry flag_geometry req options watching = Some (map (cut_piece req k (elements_per_unit req k)) bs)"
proof (cases "SlowestSelectedAxis req")
  case None
  then show ?thesis by (intro whole) (simp add: PlanPieces_def)
next
  case (Some k)
  show ?thesis
  proof (cases "\<not> watching \<and> opt_read_budget_bytes options = 0")
    case True
    then show ?thesis using Some by (intro whole) (simp add: PlanPieces_def)
  next
    case False
    let ?u = "UnitsPerPiece req geometry k (ReadCost_Of d geometry flag_geometry options)" and ?r = "req ! k"
    note ax = SlowestSelectedAxis_Some [OF Some]
    have "?u < two64" by (intro UnitsPerPiece_less ReadCost_Of_budget_less o)
    then have b: "block_ok ?u (rg_count ?r) (rg_start ?r) (rg_stride ?r) (extent_at geometry k) 0"
      using cut_block_ok [OF request_ok_fits [OF d ok ax(1)]] extent_at_less [OF g] by blast
    obtain bs where bs: "aligned_blocks ?u (rg_count ?r) (rg_start ?r) (rg_stride ?r) (extent_at geometry k) = Some bs"
      and t: "tiles bs 0 (rg_count ?r)" using aligned_blocks_tile [OF b] by blast
    have "PlanPieces d geometry flag_geometry req options watching = Some (map (cut_piece req k (elements_per_unit req k)) bs)"
      using bs Some False by (auto simp: PlanPieces_def aligned_blocks_def Let_def)
    then show ?thesis using cut [OF ax(1) ax(3) t b bs] by blast
  qed
qed

lemma PlanPieces_plan_ok:
  assumes "descriptor_ok d" and "request_ok d req" and "geometry_fits geometry" and "opt_read_budget_bytes options < two64"
  shows "\<exists>ps. PlanPieces d geometry flag_geometry req options watching = Some ps \<and> plan_ok d req ps"
proof -
  from assms show ?thesis
  proof (cases rule: PlanPieces_cases [of d req geometry options flag_geometry watching])
    case whole
    then show ?thesis using whole_piece_plan_ok [OF assms(2)] by blast
  next
    case (cut k desired bs)
    then show ?thesis using cut_pieces_plan_ok [OF assms(1,2) cut(1-3)] by blast
  qed
qed

subsection \<open>No chunk is decoded twice\<close>

lemma request_coords_length: "c \<in> set (request_coords req) \<Longrightarrow> length c = length req"
  by (auto simp: request_coords_def dest: index_lists_bound)

lemma tiles_ordered:
  "tiles bs a c \<Longrightarrow> i < j \<Longrightarrow> j < length bs \<Longrightarrow> snd (bs ! i) \<le> fst (bs ! j)"
proof (induction bs a c arbitrary: i j rule: tiles.induct)
  case (2 x y bs a c)
  show ?case
  proof (cases i)
    case 0
    then obtain j' where j: "j = Suc j'" "j' < length bs" using 2 by (cases j) auto
    obtain u v where uv: "bs ! j' = (u, v)" by (cases "bs ! j'")
    then have "(u, v) \<in> set bs" using j by (metis nth_mem)
    then have "y \<le> u" using tiles_bounds [of bs y c] 2 by auto
    then show ?thesis using 0 j uv by simp
  next
    case (Suc i')
    then show ?thesis using 2 by (cases j) auto
  qed
qed simp

lemma cut_piece_coord:
  assumes "descriptor_ok d" and "request_ok d req" and "k < length req" and "x < y" and "y \<le> rg_count (req ! k)"
    and "\<forall>i. k < i \<and> i < length req \<longrightarrow> rg_count (req ! i) \<le> 1"
    and "c \<in> set (request_coords (pc_request (cut_piece req k (elements_per_unit req k) (x, y))))"
  shows "length c = length req" and "\<exists>n. x \<le> n \<and> n < y \<and> c ! k = range_at (req ! k) n"
proof -
  have one: "\<forall>r \<in> set (drop (Suc k) req). rg_count r = 1" by (rule rest_counts_one [OF assms(2,6)])
  note c = assms(7) [unfolded cut_piece_exact(1) [OF assms(1-5)]]
  show "length c = length req" using request_coords_length [OF c] assms(3) by simp
  from c obtain n p where "x \<le> n" "n < y" "p \<in> set (request_coords (take k req))"
    "c = p @ range_at (req ! k) n # map rg_start (drop (Suc k) req)"
    unfolding request_coords_cut [OF one] using range_list_block [of x y "req ! k"] assms(4) by auto
  then show "\<exists>n. x \<le> n \<and> n < y \<and> c ! k = range_at (req ! k) n"
    using request_coords_length [of p "take k req"] assms(3) by (intro exI [of _ n]) (simp add: nth_append)
qed

lemma PlanPieces_no_shared_chunk:
  assumes d: "descriptor_ok d" and ok: "request_ok d req" and g: "geometry_fits geometry"
    and o: "opt_read_budget_bytes options < two64" and pos: "\<forall>i < length req. 0 < extent_at geometry i"
    and ps: "PlanPieces d geometry flag_geometry req options watching = Some ps"
    and ij: "i < j" "j < length ps"
    and ci: "ci \<in> set (request_coords (pc_request (ps ! i)))" and cj: "cj \<in> set (request_coords (pc_request (ps ! j)))"
  shows "chunk_of geometry ci \<noteq> chunk_of geometry cj"
  using d ok g o
proof (cases rule: PlanPieces_cases [of d req geometry options flag_geometry watching])
  case whole
  then show ?thesis using ps ij by simp
next
  case (cut k desired bs)
  have ps': "ps = map (cut_piece req k (elements_per_unit req k)) bs" using ps cut(6) by simp
  then have len: "i < length bs" "j < length bs" using ij by simp_all
  obtain xi yi where bi: "bs ! i = (xi, yi)" by (cases "bs ! i")
  obtain xj yj where bj: "bs ! j = (xj, yj)" by (cases "bs ! j")
  have mem: "(xi, yi) \<in> set bs" "(xj, yj) \<in> set bs" using bi bj len by (metis nth_mem)+
  then have bnd: "xi < yi" "yi \<le> rg_count (req ! k)" "xj < yj" "yj \<le> rg_count (req ! k)"
    using tiles_bounds [OF cut(3)] by auto
  have le: "yi \<le> xj" using tiles_ordered [OF cut(3) ij(1) len(2)] bi bj by simp
  have pi: "ps ! i = cut_piece req k (elements_per_unit req k) (xi, yi)"
    and pj: "ps ! j = cut_piece req k (elements_per_unit req k) (xj, yj)" using ps' len bi bj by simp_all
  note Ci = cut_piece_coord [OF d ok cut(1) bnd(1,2) cut(2) ci [unfolded pi]]
  note Cj = cut_piece_coord [OF d ok cut(1) bnd(3,4) cut(2) cj [unfolded pj]]
  obtain ni nj where n: "ni < yi" "ci ! k = range_at (req ! k) ni" "xj \<le> nj" "nj < yj" "cj ! k = range_at (req ! k) nj"
    using Ci(2) Cj(2) by blast
  have "chunk_at (rg_start (req ! k)) (rg_stride (req ! k)) (extent_at geometry k) ni <
      chunk_at (rg_start (req ! k)) (rg_stride (req ! k)) (extent_at geometry k) nj"
    using aligned_blocks_no_shared_chunk [OF cut(4) _ cut(5) mem(1) n(1), of nj] pos cut(1) le n bnd by simp
  then have "chunk_of geometry ci ! k \<noteq> chunk_of geometry cj ! k"
    using n Ci(1) Cj(1) cut(1) by (simp add: chunk_of_def chunk_at_def range_at_def)
  then show ?thesis by metis
qed

section \<open>What a source promises, and what a read makes of it\<close>

text \<open>
  The contract of \<open>PixelSource\<close>. A read that succeeds writes the selection's elements to the front of the
  destination, in the order of the selection, and nothing past them, and had room for them; one that fails leaves
  what is past them. \<open>pixels\<close> and \<open>flags\<close> say what is stored at each stored coordinate.
\<close>

locale pixel_source =
  fixes source :: "'w PixelSource" and pixels :: "nat list \<Rightarrow> f32" and flags :: "nat list \<Rightarrow> u8"
  assumes pixels_served:
      "selection_ok sel \<Longrightarrow> ReadPixels source sel dest control w = ((Inr (), dest'), w') \<Longrightarrow>
       sel_elements sel \<le> length dest \<and> dest' = map pixels (selection_coords sel) @ drop (sel_elements sel) dest"
    and pixels_refused:
      "selection_ok sel \<Longrightarrow> ReadPixels source sel dest control w = ((Inl e, dest'), w') \<Longrightarrow>
       length dest' = length dest \<and> drop (sel_elements sel) dest' = drop (sel_elements sel) dest"
    and flags_served:
      "selection_ok sel \<Longrightarrow> ReadMask source sel bytes control w = ((Inr (), bytes'), w') \<Longrightarrow>
       sel_elements sel \<le> length bytes \<and> bytes' = map flags (selection_coords sel) @ drop (sel_elements sel) bytes"

text \<open>What a read that applies the flag, or does not, delivers for the element at a logical coordinate.\<close>

definition delivered_pixel ::
  "(nat list \<Rightarrow> f32) \<Rightarrow> (nat list \<Rightarrow> u8) \<Rightarrow> ImageDescriptor \<Rightarrow> bool \<Rightarrow> nat list \<Rightarrow> f32" where
  "delivered_pixel pixels flags d apply_mask c =
     (if apply_mask \<and> flags (to_stored d c) \<noteq> 0 then f32_quiet_NaN else pixels (to_stored d c))"

lemma ApplyPixelMask_map:
  "ApplyPixelMask (map p cs @ rest) (map f cs @ spare) (length cs) = map (\<lambda>c. if f c \<noteq> 0 then f32_quiet_NaN else p c) cs @ rest"
  by (induction cs) auto

text \<open>A destination with some of its elements replaced, from a position on.\<close>

definition overlay :: "'a list \<Rightarrow> nat \<Rightarrow> 'a list \<Rightarrow> 'a list" where
  "overlay dest n xs = take n dest @ xs @ drop (n + length xs) dest"

lemma overlay_Nil [simp]: "overlay dest n [] = dest"
  by (simp add: overlay_def)

lemma length_overlay: "n + length xs \<le> length dest \<Longrightarrow> length (overlay dest n xs) = length dest"
  by (simp add: overlay_def)

lemma overlay_overlay:
  "n + length xs \<le> length dest \<Longrightarrow> overlay (overlay dest n xs) (n + length xs) ys = overlay dest n (xs @ ys)"
  by (simp add: overlay_def ac_simps)

lemma take_overlay: "n + length xs \<le> length dest \<Longrightarrow> take (n + length xs) (overlay dest n xs) = take n dest @ xs"
  by (simp add: overlay_def)

lemma drop_overlay: "n + length xs \<le> length dest \<Longrightarrow> n + length xs \<le> m \<Longrightarrow> drop m (overlay dest n xs) = drop m dest"
  by (simp add: overlay_def)

abbreviation piece_coords :: "Piece list \<Rightarrow> nat list list" where
  "piece_coords ps \<equiv> concat (map (\<lambda>p. request_coords (pc_request p)) ps)"

lemma BuildSelection_request_ok:
  assumes "descriptor_ok d" and "request_ok d req"
  obtains sel where "BuildSelection d req logical = Inr sel" and "selection_ok sel"
    and "selection_coords sel = map (to_stored d) (request_coords req)" and "sel_elements sel = length (request_coords req)"
proof -
  have b: "BuildSelection d req logical = Inr (selection_of d req logical)"
    using BuildSelection_Inr_iff [OF assms(1)] assms(2) by blast
  show ?thesis using that [OF b BuildSelection_selection_ok [OF assms(1) b]] assms
    by (simp add: selection_of_logical_coords request_ok_def length_request_coords)
qed

context pixel_source
begin

text \<open>One piece: it fills its part of the destination, or leaves everything outside its part alone.\<close>

lemma ReadPiece_Inr:
  assumes d: "descriptor_ok d" and ok: "request_ok d (pc_request p)"
    and r: "ReadPiece source d options apply_mask p dest w = ((Inr n, dest'), w')"
  shows "n = length (request_coords (pc_request p)) \<and>
    dest' = overlay dest (pc_first_element p) (map (delivered_pixel pixels flags d apply_mask) (request_coords (pc_request p)))"
proof -
  obtain sel where sel: "BuildSelection d (pc_request p) logical = Inr sel" "selection_ok sel"
    "selection_coords sel = map (to_stored d) (request_coords (pc_request p))"
    "sel_elements sel = length (request_coords (pc_request p))" using BuildSelection_request_ok [OF d ok] .
  let ?cs = "request_coords (pc_request p)" and ?at = "pc_first_element p"
  have served: "n = length ?cs \<and> drop (length ?cs) (drop ?at dest) = drop (?at + n) dest"
    if "ReadPixels source sel (drop ?at dest) ctl u = ((Inr (), rest), w')" and "n = sel_elements sel" for ctl u rest
    using pixels_served [OF sel(2) that(1)] that(2) sel(4) by (auto simp: add.commute)
  show ?thesis
  proof (cases apply_mask)
    case False
    then obtain rest where read: "ReadPixels source sel (drop ?at dest) (opt_control options) w = ((Inr (), rest), w')"
      and res: "n = sel_elements sel" "dest' = take ?at dest @ rest"
      using r sel(1) by (auto simp: ReadPiece_def Let_def split: prod.splits sum.splits)
    then show ?thesis using served [OF read res(1)] pixels_served [OF sel(2) read] sel(3,4) False
      by (simp add: delivered_pixel_def comp_def overlay_def)
  next
    case True
    then obtain bytes w1 rest where
      mk: "ReadMask source sel (replicate (sel_elements sel) 0) (opt_control options) w = ((Inr (), bytes), w1)"
      and read: "ReadPixels source sel (drop ?at dest) (opt_control options) w1 = ((Inr (), rest), w')"
      and res: "n = sel_elements sel" "dest' = take ?at dest @ ApplyPixelMask rest bytes (sel_elements sel)"
      using r sel(1) by (auto simp: ReadPiece_def Let_def split: prod.splits sum.splits if_splits)
    have bytes: "bytes = map (\<lambda>c. flags (to_stored d c)) ?cs @ []"
      using flags_served [OF sel(2) mk] sel(3,4) by (simp add: comp_def)
    have rest: "rest = map (\<lambda>c. pixels (to_stored d c)) ?cs @ drop (?at + n) dest"
      using pixels_served [OF sel(2) read] served [OF read res(1)] sel(3,4) by (simp add: comp_def)
    show ?thesis using served [OF read res(1)] res True
      unfolding res(2) rest bytes sel(4) ApplyPixelMask_map by (simp add: delivered_pixel_def overlay_def)
  qed
qed

lemma ReadPiece_Inl:
  assumes d: "descriptor_ok d" and ok: "request_ok d (pc_request p)"
    and at: "pc_first_element p \<le> length dest"
    and r: "ReadPiece source d options apply_mask p dest w = ((Inl e, dest'), w')"
  shows "length dest' = length dest \<and> take (pc_first_element p) dest' = take (pc_first_element p) dest \<and>
    drop (pc_first_element p + length (request_coords (pc_request p))) dest' =
      drop (pc_first_element p + length (request_coords (pc_request p))) dest"
proof -
  obtain sel where sel: "BuildSelection d (pc_request p) logical = Inr sel" "selection_ok sel"
    "sel_elements sel = length (request_coords (pc_request p))" using BuildSelection_request_ok [OF d ok] .
  let ?at = "pc_first_element p"
  have "dest' = dest \<or> (\<exists>u rest. dest' = take ?at dest @ rest \<and>
      ReadPixels source sel (drop ?at dest) (opt_control options) u = ((Inl e, rest), w'))"
    using r sel(1) by (auto simp: ReadPiece_def Let_def split: prod.splits sum.splits if_splits)
  then show ?thesis
  proof (elim disjE exE conjE)
    fix u rest assume dest': "dest' = take ?at dest @ rest"
      and read: "ReadPixels source sel (drop ?at dest) (opt_control options) u = ((Inl e, rest), w')"
    have "length rest = length dest - ?at" "drop (sel_elements sel) rest = drop (sel_elements sel) (drop ?at dest)"
      using pixels_refused [OF sel(2) read] by auto
    then show ?thesis using dest' at sel(3) by (simp add: add.commute)
  qed simp
qed

end

context pixel_source
begin

lemma ReadInPieces_loop_Inr:
  assumes d: "descriptor_ok d"
  shows "contiguous a ps \<Longrightarrow> \<forall>p \<in> set ps. request_ok d (pc_request p) \<Longrightarrow> a + length (piece_coords ps) \<le> length dest \<Longrightarrow>
    ReadInPieces_loop source d options apply_mask elements progress ps dest w = ((Inr n, dest'), w') \<Longrightarrow>
    n = elements \<and> dest' = overlay dest a (map (delivered_pixel pixels flags d apply_mask) (piece_coords ps))"
proof (induction ps arbitrary: a dest w)
  case (Cons p ps)
  let ?cs = "request_coords (pc_request p)" and ?v = "delivered_pixel pixels flags d apply_mask"
  obtain n1 dest1 w1 where r: "ReadPiece source d options apply_mask p dest w = ((Inr n1, dest1), w1)"
    using Cons.prems(4) by (auto split: prod.splits sum.splits)
  then have d1: "dest1 = overlay dest a (map ?v ?cs)"
    using ReadPiece_Inr [OF d _ r] Cons.prems(1,2) by simp
  obtain u where rest: "ReadInPieces_loop source d options apply_mask elements progress ps dest1 u = ((Inr n, dest'), w')"
    using Cons.prems(4) r by (auto simp: Let_def split: prod.splits if_splits)
  have len: "length dest1 = length dest" using Cons.prems(3) by (simp add: d1 length_overlay)
  have "n = elements \<and> dest' = overlay dest1 (a + length ?cs) (map ?v (piece_coords ps))"
    using Cons.prems len by (intro Cons.IH [OF _ _ _ rest]) simp_all
  then show ?case using overlay_overlay [of a "map ?v ?cs" dest] Cons.prems(3) by (simp add: d1)
qed simp

lemma ReadInPieces_loop_Inl:
  assumes d: "descriptor_ok d"
  shows "contiguous a ps \<Longrightarrow> \<forall>p \<in> set ps. request_ok d (pc_request p) \<Longrightarrow> a + length (piece_coords ps) \<le> length dest \<Longrightarrow>
    ReadInPieces_loop source d options apply_mask elements progress ps dest w = ((Inl e, dest'), w') \<Longrightarrow>
    length dest' = length dest \<and>
    (\<exists>m \<le> length ps.
       take (a + length (piece_coords (take m ps))) dest' =
         take a dest @ map (delivered_pixel pixels flags d apply_mask) (piece_coords (take m ps)) \<and>
       drop (a + length (piece_coords (take (Suc m) ps))) dest' = drop (a + length (piece_coords (take (Suc m) ps))) dest)"
proof (induction ps arbitrary: a dest w)
  case (Cons p ps)
  let ?cs = "request_coords (pc_request p)" and ?v = "delivered_pixel pixels flags d apply_mask"
  have ok: "request_ok d (pc_request p)" and at: "pc_first_element p = a" using Cons.prems by auto
  obtain r1 dest1 w1 where r: "ReadPiece source d options apply_mask p dest w = ((r1, dest1), w1)"
    by (metis prod.collapse)
  show ?case
  proof (cases r1)
    case (Inl e1)
    then have "dest' = dest1" using Cons.prems(4) r by simp
    then show ?thesis using ReadPiece_Inl [OF d ok _ r [unfolded Inl]] at Cons.prems(3) by (intro conjI exI [of _ 0]) auto
  next
    case (Inr n1)
    have d1: "dest1 = overlay dest a (map ?v ?cs)" using ReadPiece_Inr [OF d ok r [unfolded Inr]] at by simp
    have room: "a + length (map ?v ?cs) \<le> length dest" using Cons.prems(3) by simp
    have len: "length dest1 = length dest" using room by (simp only: d1 length_overlay)
    have stopped: "take (a + length ?cs) dest1 = take a dest @ map ?v ?cs"
      "\<And>m. a + length ?cs \<le> m \<Longrightarrow> drop m dest1 = drop m dest"
      using take_overlay [OF room] drop_overlay [OF room] by (simp_all add: d1)
    from Cons.prems(4) r Inr consider (stop) "dest' = dest1"
      | (go) u where "ReadInPieces_loop source d options apply_mask elements progress ps dest1 u = ((Inl e, dest'), w')"
      by (auto simp: Let_def split: prod.splits if_splits)
    then show ?thesis
    proof cases
      case stop
      then show ?thesis using stopped len by (intro conjI exI [of _ 1]) auto
    next
      case go
      have pre: "contiguous (a + length ?cs) ps" "\<forall>q \<in> set ps. request_ok d (pc_request q)"
        "a + length ?cs + length (piece_coords ps) \<le> length dest1" using Cons.prems(1-3) len by auto
      obtain m where m: "m \<le> length ps" "length dest' = length dest1"
        "take (a + length ?cs + length (piece_coords (take m ps))) dest' =
           take (a + length ?cs) dest1 @ map ?v (piece_coords (take m ps))"
        "drop (a + length ?cs + length (piece_coords (take (Suc m) ps))) dest' =
           drop (a + length ?cs + length (piece_coords (take (Suc m) ps))) dest1"
        using Cons.IH [OF pre go] by blast
      then show ?thesis using stopped len by (intro conjI exI [of _ "Suc m"]) (auto simp: add.assoc)
    qed
  qed
qed simp

end

text \<open>A source that serves, under a control that lets it, every read it has room for.\<close>

locale serving_source = pixel_source +
  fixes allowed :: "'a ReadControl"
  assumes pixels_always:
      "selection_ok sel \<Longrightarrow> sel_elements sel \<le> length dest \<Longrightarrow> \<exists>dest' w'. ReadPixels source sel dest allowed w = ((Inr (), dest'), w')"
    and flags_always:
      "selection_ok sel \<Longrightarrow> sel_elements sel \<le> length bytes \<Longrightarrow> \<exists>bytes' w'. ReadMask source sel bytes allowed w = ((Inr (), bytes'), w')"
begin

lemma ReadPiece_serves:
  assumes d: "descriptor_ok d" and ok: "request_ok d (pc_request p)"
    and room: "pc_first_element p + length (request_coords (pc_request p)) \<le> length dest"
    and budget: "apply_mask \<longrightarrow> opt_read_budget_bytes options = 0 \<or>
      length (request_coords (pc_request p)) \<le> opt_read_budget_bytes options"
    and control: "opt_control options = allowed"
  shows "\<exists>n dest' w'. ReadPiece source d options apply_mask p dest w = ((Inr n, dest'), w')"
proof -
  obtain sel where sel: "BuildSelection d (pc_request p) logical = Inr sel" "selection_ok sel"
    "sel_elements sel = length (request_coords (pc_request p))" using BuildSelection_request_ok [OF d ok] .
  let ?at = "pc_first_element p"
  have px: "\<exists>rest w'. ReadPixels source sel (drop ?at dest) (opt_control options) u = ((Inr (), rest), w')" for u
    unfolding control using room sel(3) by (intro pixels_always [OF sel(2)]) simp
  show ?thesis
  proof (cases apply_mask)
    case False
    then show ?thesis using px [of w] sel(1) by (auto simp: ReadPiece_def Let_def)
  next
    case True
    obtain bytes w1 where "ReadMask source sel (replicate (sel_elements sel) 0) (opt_control options) w = ((Inr (), bytes), w1)"
      unfolding control using flags_always [OF sel(2)] by fastforce
    then show ?thesis using True px [of w1] sel(1,3) budget by (auto simp: ReadPiece_def Let_def)
  qed
qed

lemma ReadInPieces_loop_serves:
  assumes d: "descriptor_ok d" and progress: "\<forall>report. progress = Some report \<longrightarrow> (\<forall>n m w. fst (report n m w))"
    and control: "opt_control options = allowed"
  shows "contiguous a ps \<Longrightarrow> \<forall>p \<in> set ps. request_ok d (pc_request p) \<Longrightarrow> a + length (piece_coords ps) \<le> length dest \<Longrightarrow>
    apply_mask \<longrightarrow> opt_read_budget_bytes options = 0 \<or>
      (\<forall>p \<in> set ps. length (request_coords (pc_request p)) \<le> opt_read_budget_bytes options) \<Longrightarrow>
    \<exists>n dest' w'. ReadInPieces_loop source d options apply_mask elements progress ps dest w = ((Inr n, dest'), w')"
proof (induction ps arbitrary: a dest w)
  case (Cons p ps)
  have ok: "request_ok d (pc_request p)" and at: "pc_first_element p = a" using Cons.prems by auto
  have "\<exists>n dest' w'. ReadPiece source d options apply_mask p dest w = ((Inr n, dest'), w')"
    using Cons.prems(3,4) at control by (intro ReadPiece_serves [OF d ok]) auto
  then obtain n1 dest1 w1 where r: "ReadPiece source d options apply_mask p dest w = ((Inr n1, dest1), w1)" by blast
  have len: "length dest1 = length dest"
    using ReadPiece_Inr [OF d ok r] at Cons.prems(3) by (simp add: length_overlay)
  let ?said = "case progress of None \<Rightarrow> (True, w1) | Some report \<Rightarrow> report (add64 (pc_first_element p) n1) elements w1"
  have go: "fst ?said" using progress by (auto split: option.splits)
  have "\<exists>n dest' w'. ReadInPieces_loop source d options apply_mask elements progress ps dest1 (snd ?said) = ((Inr n, dest'), w')"
    using Cons.prems len by (intro Cons.IH [of "a + length (request_coords (pc_request p))"]) auto
  then show ?case using r go by (simp add: Let_def split_beta)
qed simp

end

text \<open>The whole read, apart from what the source makes of it: it is refused, or it runs its plan.\<close>

lemma ReadInPieces_outcome:
  assumes d: "descriptor_ok d" and g: "geometry_fits geometry" and o: "opt_read_budget_bytes options < two64"
  obtains (refused) e w' where
      "ReadInPieces source d geometry flag_geometry req dest options progress w = Some ((Inl e, dest), w')"
  | (ran) ps w1 r dest' w' where "request_ok d req" and "length (request_coords req) \<le> length dest"
      and "PlanPieces d geometry flag_geometry req options (progress \<noteq> None) = Some ps" and "plan_ok d req ps"
      and "CheckReadControl (opt_control options) (img_id d) w = (Inr (), w1)"
      and "ReadInPieces_loop source d options (AppliesPixelMask options d) (length (request_coords req)) progress ps dest w1 =
        ((r, dest'), w')"
      and "ReadInPieces source d geometry flag_geometry req dest options progress w = Some ((r, dest'), w')"
proof (cases "CheckRead d req (length dest) (opt_control options) w")
  case (Pair c w1)
  show ?thesis
  proof (cases c)
    case (Inl e)
    then show ?thesis using Pair by (intro refused) (simp add: ReadInPieces_def)
  next
    case (Inr sel)
    then have b: "BuildSelection d req logical = Inr sel" and room: "sel_elements sel \<le> length dest"
      and ctl: "CheckReadControl (opt_control options) (img_id d) w = (Inr (), w1)"
      using Pair by (auto simp: CheckRead_def split: sum.splits if_splits prod.splits)
    then have ok: "request_ok d req" and n: "sel_elements sel = length (request_coords req)"
      using BuildSelection_Inr_iff [OF d] by (auto simp: length_request_coords)
    obtain ps where ps: "PlanPieces d geometry flag_geometry req options (progress \<noteq> None) = Some ps" "plan_ok d req ps"
      using PlanPieces_plan_ok [OF d ok g o] by blast
    obtain r dest' w' where run:
      "ReadInPieces_loop source d options (AppliesPixelMask options d) (length (request_coords req)) progress ps dest w1 =
        ((r, dest'), w')" by (metis prod.collapse)
    have "ReadInPieces source d geometry flag_geometry req dest options progress w = Some ((r, dest'), w')"
      using run ps(1) Pair Inr n by (simp add: ReadInPieces_def)
    then show ?thesis using ran ok room n ps ctl run by simp
  qed
qed

context pixel_source
begin

lemma ReadInPieces_delivers:
  assumes "descriptor_ok d" and "geometry_fits geometry" and "opt_read_budget_bytes options < two64"
    and "ReadInPieces source d geometry flag_geometry req dest options progress w = Some ((Inr n, dest'), w')"
  shows "request_ok d req \<and> n = length (request_coords req) \<and> n \<le> length dest \<and>
    dest' = map (delivered_pixel pixels flags d (AppliesPixelMask options d)) (request_coords req) @ drop n dest"
  using assms(1-3)
proof (cases rule: ReadInPieces_outcome [of d geometry options source flag_geometry req dest progress w])
  case (refused e w')
  then show ?thesis using assms(4) by simp
next
  case (ran ps w1 r dest1 w1')
  then have run: "ReadInPieces_loop source d options (AppliesPixelMask options d) (length (request_coords req)) progress ps dest w1 =
      ((Inr n, dest'), w')" using assms(4) by simp
  have plan: "contiguous 0 ps" "\<forall>p \<in> set ps. request_ok d (pc_request p)" "piece_coords ps = request_coords req"
    using ran(4) by (auto simp: plan_ok_def)
  then show ?thesis using ReadInPieces_loop_Inr [OF assms(1) plan(1,2) _ run] ran(1,2) by (simp add: overlay_def)
qed

lemma ReadInPieces_failure:
  assumes "descriptor_ok d" and "geometry_fits geometry" and "opt_read_budget_bytes options < two64"
    and "ReadInPieces source d geometry flag_geometry req dest options progress w = Some ((Inl e, dest'), w')"
  shows "dest' = dest \<or>
    (\<exists>ps m. PlanPieces d geometry flag_geometry req options (progress \<noteq> None) = Some ps \<and> m \<le> length ps \<and>
       length dest' = length dest \<and>
       take (length (piece_coords (take m ps))) dest' =
         map (delivered_pixel pixels flags d (AppliesPixelMask options d)) (piece_coords (take m ps)) \<and>
       drop (length (piece_coords (take (Suc m) ps))) dest' = drop (length (piece_coords (take (Suc m) ps))) dest)"
  using assms(1-3)
proof (cases rule: ReadInPieces_outcome [of d geometry options source flag_geometry req dest progress w])
  case (refused e w')
  then show ?thesis using assms(4) by simp
next
  case (ran ps w1 r dest1 w1')
  then have run: "ReadInPieces_loop source d options (AppliesPixelMask options d) (length (request_coords req)) progress ps dest w1 =
      ((Inl e, dest'), w')" using assms(4) by simp
  have plan: "contiguous 0 ps" "\<forall>p \<in> set ps. request_ok d (pc_request p)" "piece_coords ps = request_coords req"
    using ran(4) by (auto simp: plan_ok_def)
  then show ?thesis using ReadInPieces_loop_Inl [OF assms(1) plan(1,2) _ run] ran(2,3) by auto
qed

end

context serving_source
begin

lemma ReadInPieces_serves:
  assumes d: "descriptor_ok d" and g: "geometry_fits geometry" and o: "opt_read_budget_bytes options < two64"
    and ok: "request_ok d req" and room: "length (request_coords req) \<le> length dest"
    and ctl: "fst (CheckReadControl (opt_control options) (img_id d) w) = Inr ()"
    and progress: "\<forall>report. progress = Some report \<longrightarrow> (\<forall>n m w. fst (report n m w))"
    and budget: "AppliesPixelMask options d \<longrightarrow> opt_read_budget_bytes options = 0"
    and control: "opt_control options = allowed"
  shows "\<exists>w'. ReadInPieces source d geometry flag_geometry req dest options progress w =
    Some ((Inr (length (request_coords req)),
           map (delivered_pixel pixels flags d (AppliesPixelMask options d)) (request_coords req) @
           drop (length (request_coords req)) dest), w')"
proof -
  obtain sel where sel: "BuildSelection d req logical = Inr sel" "sel_elements sel = length (request_coords req)"
    using BuildSelection_request_ok [OF d ok] .
  obtain w1 where c: "CheckReadControl (opt_control options) (img_id d) w = (Inr (), w1)" using ctl by (metis prod.collapse)
  obtain ps where ps: "PlanPieces d geometry flag_geometry req options (progress \<noteq> None) = Some ps" "plan_ok d req ps"
    using PlanPieces_plan_ok [OF d ok g o] by blast
  have plan: "contiguous 0 ps" "\<forall>p \<in> set ps. request_ok d (pc_request p)" "piece_coords ps = request_coords req"
    using ps(2) by (auto simp: plan_ok_def)
  have "\<exists>n dest' w'. ReadInPieces_loop source d options (AppliesPixelMask options d) (sel_elements sel) progress ps dest w1 =
      ((Inr n, dest'), w')"
    using room plan budget by (intro ReadInPieces_loop_serves [OF d progress control plan(1,2)]) auto
  then obtain n dest' w' where "ReadInPieces source d geometry flag_geometry req dest options progress w = Some ((Inr n, dest'), w')"
    using sel c room ps(1) by (auto simp: ReadInPieces_def CheckRead_def)
  then show ?thesis using ReadInPieces_delivers [OF d g o] by metis
qed

end

section \<open>Properties\<close>

definition example_geometry :: ChunkGeometry where
  "example_geometry =
     \<lparr>fastest_spatial_axis = spatial_x, chunk_shape = [4, 4, 1], shard_shape = [], grid_shape = [3, 2, 4], sharded = False,
      compressor = ''zstd''\<rparr>"

definition example_control :: "unit ReadControl" where
  "example_control = \<lparr>ctl_cancellation_requested = None, ctl_now = (\<lambda>w. (0, w)), ctl_deadline = 10\<rparr>"

definition example_options :: "u64 \<Rightarrow> unit ReadOptions" where
  "example_options budget =
     \<lparr>opt_control = example_control, opt_apply_pixel_mask = True, opt_read_budget_bytes = budget\<rparr>"

lemma example_geometry_fits [simp]: "geometry_fits example_geometry"
  by (simp add: geometry_fits_def example_geometry_def)

lemma example_extents: "\<forall>i < length example_request. 0 < extent_at example_geometry i"
  by (simp add: example_request_def extent_at_def example_geometry_def less_Suc_eq numeral_3_eq_3 all_conj_distrib)

text \<open>
  Claim C2. Planning the pieces of a valid read always returns. Each piece is itself a valid request; the pieces land
  end to end from the first element of the destination; and the elements of the pieces, one piece after another, are
  the elements of the request in the order of its destination, so the finished part of a read is always a prefix.
\<close>

theorem PlanPieces_partitions_request:
  assumes "descriptor_ok d" and "request_ok d req" and "geometry_fits geometry" and "opt_read_budget_bytes options < two64"
  shows "\<exists>ps. PlanPieces d geometry flag_geometry req options watching = Some ps \<and>
    (\<forall>p \<in> set ps. request_ok d (pc_request p)) \<and> contiguous 0 ps \<and>
    concat (map (\<lambda>p. request_coords (pc_request p)) ps) = request_coords req"
  using PlanPieces_plan_ok [OF assms] by (auto simp: plan_ok_def)

theorem PlanPieces_partitions_request_witness:
  "(\<exists>ps. PlanPieces example_image example_geometry example_geometry example_request (example_options 64) False = Some ps \<and>
    (\<forall>p \<in> set ps. request_ok example_image (pc_request p)) \<and> contiguous 0 ps \<and>
    concat (map (\<lambda>p. request_coords (pc_request p)) ps) = request_coords example_request) \<and>
   map_option (map pc_first_element)
     (PlanPieces example_image example_geometry example_geometry example_request (example_options 64) False) = Some [0, 3]"
proof
  show "map_option (map pc_first_element)
     (PlanPieces example_image example_geometry example_geometry example_request (example_options 64) False) = Some [0, 3]"
    by code_simp
qed (rule PlanPieces_partitions_request [OF example_image_ok example_request_ok example_geometry_fits],
  simp add: example_options_def)

text \<open>
  Claim C3. No chunk is decoded by two pieces of a read: elements that two pieces of one plan select lie in different
  chunks, whatever the budget, the strides and the chunk shape.
\<close>

theorem PlanPieces_decodes_no_chunk_twice:
  assumes "descriptor_ok d" and "request_ok d req" and "geometry_fits geometry" and "opt_read_budget_bytes options < two64"
    and "\<forall>i < length req. 0 < extent_at geometry i"
    and "PlanPieces d geometry flag_geometry req options watching = Some ps" and "i < j" and "j < length ps"
  shows "chunk_of geometry ` set (request_coords (pc_request (ps ! i))) \<inter>
    chunk_of geometry ` set (request_coords (pc_request (ps ! j))) = {}"
  using PlanPieces_no_shared_chunk [OF assms] by blast

theorem PlanPieces_decodes_no_chunk_twice_witness:
  "let ps = the (PlanPieces example_image example_geometry example_geometry example_request (example_options 64) False)
   in chunk_of example_geometry ` set (request_coords (pc_request (ps ! 0))) \<inter>
      chunk_of example_geometry ` set (request_coords (pc_request (ps ! 1))) = {} \<and> length ps = 2"
proof -
  let ?plan = "PlanPieces example_image example_geometry example_geometry example_request (example_options 64) False"
  have len: "map_option length ?plan = Some 2" by code_simp
  then obtain ps where ps: "?plan = Some ps" "length ps = 2" by auto
  have "chunk_of example_geometry ` set (request_coords (pc_request (ps ! 0))) \<inter>
      chunk_of example_geometry ` set (request_coords (pc_request (ps ! 1))) = {}"
    by (rule PlanPieces_decodes_no_chunk_twice [OF example_image_ok example_request_ok example_geometry_fits _ example_extents ps(1)])
      (simp_all add: example_options_def ps(2))
  then show ?thesis using ps by simp
qed

section \<open>One element in every chunk\<close>

text \<open>The product of lists, the first fastest, of which the elements of a request and their chunks are instances.\<close>

fun grid :: "'a list list \<Rightarrow> 'a list list" where
  "grid [] = [[]]"
| "grid (xs # xss) = concat (map (\<lambda>rest. map (\<lambda>x. x # rest) xs) (grid xss))"

lemma request_coords_grid: "request_coords req = grid (map range_list req)"
  by (induction req) (simp_all add: request_coords_Cons)

lemma set_grid: "c \<in> set (grid xss) \<longleftrightarrow> list_all2 (\<lambda>x xs. x \<in> set xs) c xss"
  by (induction xss arbitrary: c) (auto simp: list_all2_Cons2)

lemma distinct_grid: "\<forall>xs \<in> set xss. distinct xs \<Longrightarrow> distinct (grid xss)"
proof (induction xss)
  case (Cons xs xss)
  then have d: "distinct (grid xss)" "distinct xs" by auto
  have "distinct (concat (map (\<lambda>rest. map (\<lambda>x. x # rest) xs) ys))" if "distinct ys" for ys :: "'a list list"
    using that d(2) by (induction ys) (auto simp: distinct_map inj_on_def)
  then show ?case using d(1) by simp
qed simp

lemma map_grid: "length es = length xss \<Longrightarrow> map (\<lambda>c. map2 h es c) (grid xss) = grid (map2 (\<lambda>e. map (h e)) es xss)"
proof (induction es xss rule: list_induct2)
  case (Cons e es xs xss)
  have gen: "map (\<lambda>c. map2 h (e # es) c) (concat (map (\<lambda>rest. map (\<lambda>x. x # rest) xs) ys)) =
      concat (map (\<lambda>rest. map (\<lambda>x. x # rest) (map (h e) xs)) (map (\<lambda>c. map2 h es c) ys))" for ys
    by (induction ys) auto
  show ?case by (simp only: zip_Cons_Cons list.map prod.case grid.simps gen Cons.IH)
qed simp

definition axis_chunks :: "nat \<Rightarrow> Range \<Rightarrow> nat list" where
  "axis_chunks e r = map (\<lambda>x. x div e) (range_list r)"

lemma chunk_of_map2: "chunk_of geometry c = map2 (\<lambda>e x. x div e) (map (extent_at geometry) [0..<length c]) c"
  by (intro nth_equalityI) (auto simp: chunk_of_def)

lemma request_chunks_grid:
  "map (chunk_of geometry) (request_coords req) = grid (map2 axis_chunks (map (extent_at geometry) [0..<length req]) req)"
proof -
  let ?es = "map (extent_at geometry) [0..<length req]"
  have "map (chunk_of geometry) (request_coords req) = map (\<lambda>c. map2 (\<lambda>e x. x div e) ?es c) (request_coords req)"
    using request_coords_length [of _ req] by (intro map_cong) (simp_all add: chunk_of_map2)
  also have "\<dots> = grid (map2 (\<lambda>e. map (\<lambda>x. x div e)) ?es (map range_list req))"
    unfolding request_coords_grid by (rule map_grid) simp
  also have "map2 (\<lambda>e. map (\<lambda>x. x div e)) ?es (map range_list req) = map2 axis_chunks ?es req"
    by (intro nth_equalityI) (auto simp: axis_chunks_def)
  finally show ?thesis .
qed

text \<open>The range that samples one axis.\<close>

definition sample_range :: "nat \<Rightarrow> Range \<Rightarrow> Range" where
  "sample_range chunk r =
     (if chunk \<le> rg_stride r then r
      else mk_range (rg_start r div chunk * chunk)
             (range_at r (rg_count r - 1) div chunk - rg_start r div chunk + 1) chunk)"

lemma OneElementPerChunk_nth:
  assumes "range_fits (req ! i) len" and "len < max_extent" and "i < length req" and "0 < extent_at geometry i"
  shows "OneElementPerChunk geometry req ! i = sample_range (extent_at geometry i) (req ! i)"
proof -
  let ?r = "req ! i" and ?e = "extent_at geometry i"
  note b = range_fits_bounds [OF assms(1,2)]
  have s: "sub64 (rg_count ?r) 1 = rg_count ?r - 1" using b(2,3) assms(2) by (intro sub64_exact) linarith+
  have m: "mul64 (rg_count ?r - 1) (rg_stride ?r) = (rg_count ?r - 1) * rg_stride ?r"
    using b(4) by (intro mul64_exact) linarith
  have a: "add64 (rg_start ?r) ((rg_count ?r - 1) * rg_stride ?r) = rg_start ?r + (rg_count ?r - 1) * rg_stride ?r"
    using b(4) by (intro add64_exact) linarith
  let ?l = "(rg_start ?r + (rg_count ?r - 1) * rg_stride ?r) div ?e" and ?f = "rg_start ?r div ?e"
  have lf: "?f \<le> ?l" by (rule div_le_mono) simp
  have l: "?l < max_extent" using b(4) div_le_dividend [of "rg_start ?r + (rg_count ?r - 1) * rg_stride ?r" ?e] by linarith
  have d: "sub64 ?l ?f = ?l - ?f" using lf l by (intro sub64_exact) linarith+
  have p: "add64 (?l - ?f) 1 = ?l - ?f + 1" using l by (intro add64_exact) linarith
  have "?f * ?e \<le> rg_start ?r" by (rule div_times_less_eq_dividend)
  then have q: "mul64 ?f ?e = ?f * ?e" using b(4) by (intro mul64_exact) linarith
  have "OneElementPerChunk geometry req ! i =
      (if ?e = 0 \<or> ?e \<le> rg_stride ?r then ?r
       else mk_range (mul64 ?f ?e)
              (add64 (sub64 (add64 (rg_start ?r) (mul64 (sub64 (rg_count ?r) 1) (rg_stride ?r)) div ?e) ?f) 1) ?e)"
    using assms(3) by (simp add: OneElementPerChunk_def Let_def)
  then show ?thesis unfolding s m a d p q sample_range_def range_at_def using assms(4) by simp
qed

lemma range_list_mono_chunks:
  assumes "0 < chunk" and "chunk \<le> rg_stride r"
  shows "distinct (axis_chunks chunk r)"
proof -
  have "range_at r i div chunk < range_at r j div chunk" if "i < j" for i j
  proof -
    have "Suc i * rg_stride r \<le> j * rg_stride r" using that by (intro mult_le_mono1) simp
    then have "range_at r i + chunk \<le> range_at r j" using assms by (simp add: range_at_def)
    then have "(range_at r i + chunk) div chunk \<le> range_at r j div chunk" by (rule div_le_mono)
    then show ?thesis using assms(1) by (simp add: div_add_chunk)
  qed
  then have "inj (\<lambda>n. range_at r n div chunk)" by (intro linorder_injI) (simp add: nat_neq_iff)
  then have "inj_on (\<lambda>n. range_at r n div chunk) (set [0..<rg_count r])" by (rule inj_on_subset) simp
  then show ?thesis unfolding axis_chunks_def range_list_def map_map comp_def distinct_map by simp
qed

lemma sample_range_chunks:
  assumes "range_fits r len" and "0 < chunk"
  shows "distinct (axis_chunks chunk (sample_range chunk r))"
    and "set (axis_chunks chunk (sample_range chunk r)) = set (axis_chunks chunk r)"
    and "range_fits (sample_range chunk r) len"
proof -
  show "distinct (axis_chunks chunk (sample_range chunk r))"
    using assms by (intro range_list_mono_chunks) (auto simp: sample_range_def)
  have set: "set (axis_chunks chunk r) = chunks_of (rg_start r) (rg_count r) (rg_stride r) chunk" for r
    by (auto simp: axis_chunks_def range_list_def range_at_def chunks_of_def atLeast0LessThan)
  show "set (axis_chunks chunk (sample_range chunk r)) = set (axis_chunks chunk r)"
  proof (cases "chunk \<le> rg_stride r")
    case False
    let ?f = "rg_start r div chunk" and ?l = "range_at r (rg_count r - 1) div chunk"
    have le: "?f \<le> ?l" by (intro div_le_mono) (simp add: range_at_def)
    have "set (axis_chunks chunk r) = {?f .. ?l}"
      unfolding set range_at_def using False assms by (intro chunks_of_fine) (auto simp: range_fits_def)
    moreover have "set (axis_chunks chunk (sample_range chunk r)) = (\<lambda>k. ?f + k) ` {..<?l - ?f + 1}"
      unfolding set using False assms(2) by (simp add: sample_range_def chunks_of_def image_image flip: add_mult_distrib)
    moreover have "(\<lambda>k. ?f + k) ` {..<?l - ?f + 1} = {?f .. ?l}"
      using le by (simp add: lessThan_Suc_atMost atMost_atLeast0)
    ultimately show ?thesis by simp
  qed (simp add: sample_range_def)
  show "range_fits (sample_range chunk r) len"
  proof (cases "chunk \<le> rg_stride r")
    case False
    let ?f = "rg_start r div chunk" and ?l = "range_at r (rg_count r - 1) div chunk"
    have le: "?f \<le> ?l" by (intro div_le_mono) (simp add: range_at_def)
    have "?f * chunk + (?l - ?f) * chunk = ?l * chunk" using le by (simp flip: add_mult_distrib)
    also have "\<dots> \<le> range_at r (rg_count r - 1)" by (rule div_times_less_eq_dividend)
    finally show ?thesis using False assms by (simp add: sample_range_def range_fits_def range_at_def)
  qed (use assms in \<open>simp add: sample_range_def\<close>)
qed

lemma sample_axis_chunks:
  assumes d: "descriptor_ok d" and ok: "request_ok d req" and pos: "\<forall>i < length req. 0 < extent_at geometry i"
    and i: "i < length req"
  shows "distinct (axis_chunks (extent_at geometry i) (OneElementPerChunk geometry req ! i))"
    and "set (axis_chunks (extent_at geometry i) (OneElementPerChunk geometry req ! i)) = set (axis_chunks (extent_at geometry i) (req ! i))"
    and "range_fits (OneElementPerChunk geometry req ! i) (ax_length (img_axes d ! i))"
  using sample_range_chunks [OF request_ok_fits(1) [OF d ok i], of "extent_at geometry i"] pos i
    OneElementPerChunk_nth [OF request_ok_fits [OF d ok i] i, of geometry] by simp_all

lemma length_OneElementPerChunk [simp]: "length (OneElementPerChunk geometry req) = length req"
  by (simp add: OneElementPerChunk_def)

text \<open>
  \<open>OneElementPerChunk\<close> selects, for a valid request of a chunked image, exactly one element in every chunk
  the request touches and none in any other, and stays inside the image, so reading it decodes the chunks a read of
  the request would and the number of its elements is the number of those chunks.
\<close>

theorem OneElementPerChunk_samples_chunks:
  assumes "descriptor_ok d" and "request_ok d req" and "\<forall>i < length req. 0 < extent_at geometry i"
  shows "distinct (map (chunk_of geometry) (request_coords (OneElementPerChunk geometry req))) \<and>
    set (map (chunk_of geometry) (request_coords (OneElementPerChunk geometry req))) =
      chunk_of geometry ` set (request_coords req) \<and>
    (\<forall>i < length req. range_fits (OneElementPerChunk geometry req ! i) (ax_length (img_axes d ! i)))"
proof (intro conjI)
  let ?es = "map (extent_at geometry) [0..<length req]" and ?s = "OneElementPerChunk geometry req"
  note axis = sample_axis_chunks [OF assms]
  show "distinct (map (chunk_of geometry) (request_coords ?s))"
    unfolding request_chunks_grid using axis(1) by (intro distinct_grid) (auto simp: set_zip)
  have "set (map (chunk_of geometry) (request_coords ?s)) = set (map (chunk_of geometry) (request_coords req))"
    unfolding request_chunks_grid using axis(2)
    by (intro set_eqI) (auto simp: set_grid list_all2_conv_all_nth)
  then show "set (map (chunk_of geometry) (request_coords ?s)) = chunk_of geometry ` set (request_coords req)" by simp
  show "\<forall>i < length req. range_fits (?s ! i) (ax_length (img_axes d ! i))" using axis(3) by blast
qed

theorem OneElementPerChunk_samples_chunks_witness:
  "distinct (map (chunk_of example_geometry) (request_coords (OneElementPerChunk example_geometry example_request))) \<and>
   set (map (chunk_of example_geometry) (request_coords (OneElementPerChunk example_geometry example_request))) =
     chunk_of example_geometry ` set (request_coords example_request) \<and>
   map (chunk_of example_geometry) (request_coords (OneElementPerChunk example_geometry example_request)) =
     [[0, 1, 0], [1, 1, 0], [2, 1, 0], [0, 1, 1], [1, 1, 1], [2, 1, 1]]"
proof -
  have "map (chunk_of example_geometry) (request_coords (OneElementPerChunk example_geometry example_request)) =
     [[0, 1, 0], [1, 1, 0], [2, 1, 0], [0, 1, 1], [1, 1, 1], [2, 1, 1]]" by code_simp
  then show ?thesis
    using OneElementPerChunk_samples_chunks [OF example_image_ok example_request_ok example_extents] by blast
qed

end
