(* ===== verification/Pixel_Reader.thy ===== *)
theory Pixel_Reader
  imports Pieces
begin

text \<open>
  \<open>src/zarr/pixel_reader.cc\<close>, the one routine through which pixels leave storage, and the production
  \<open>PixelSource\<close> of \<open>src/store_pixel_source.h\<close> built on it. TensorStore is not part of the repository: its operations
  are the fields of a record the routine takes, and what the routine relies on is the locale \<open>tensorstore_laws\<close>,
  which states the documented meaning of slicing, transposing, converting and reading. Under those laws the adapter
  keeps the contract every read of the library is proved from, and the properties of \<open>ReadInPieces\<close> follow here.
\<close>

section \<open>TensorStore as the routine sees it\<close>

text \<open>
  A TensorStore operation succeeds, reports a status, or throws. Indices are signed 64-bit integers, to which the
  routine casts its unsigned ones. A cache pool only says where decoded chunks are kept, which no result depends on,
  and does not appear.
\<close>

datatype 'a ts_outcome = ts_ok 'a | ts_failed string | ts_threw string

record ('h, 'w) TensorStore =
  ts_OpenArray :: "string \<Rightarrow> string \<Rightarrow> 'w \<Rightarrow> 'h result ts_outcome \<times> 'w"
  ts_TranslateSizedInterval :: "'h \<Rightarrow> int list \<Rightarrow> int list \<Rightarrow> int list \<Rightarrow> 'h ts_outcome"
  ts_Transpose :: "'h \<Rightarrow> int list \<Rightarrow> 'h ts_outcome"
  ts_Cast :: "'h \<Rightarrow> 'h ts_outcome"

definition to_index :: "u64 \<Rightarrow> int" where
  "to_index n = (if n < max_extent then int n else int n - int two64)"

text \<open>
  \<open>destination\<close> is \<open>None\<close> when the view's pointer is null and \<open>context\<close> is false when the context's is. The last
  argument is TensorStore's read into a Fortran-ordered array of the given shape.
\<close>

definition ReadInto_store ::
  "('h, 'w) TensorStore \<Rightarrow> ('h \<Rightarrow> int list \<Rightarrow> 'e list \<Rightarrow> 'w \<Rightarrow> (unit ts_outcome \<times> 'e list) \<times> 'w) \<Rightarrow>
   string \<Rightarrow> PixelSelection \<Rightarrow> 'e list \<Rightarrow> 'w ReadControl \<Rightarrow> 'h \<Rightarrow> 'w \<Rightarrow> (unit result \<times> 'e list) \<times> 'w"
where
  "ReadInto_store ts read node selection data control store w =
     (let start = map to_index (sel_start selection);
          count = map to_index (sel_count selection);
          stride = map to_index (sel_stride selection);
          order = map to_index (sel_destination_to_stored selection)
      in case ts_TranslateSizedInterval ts store start count stride of
           ts_threw what \<Rightarrow> ((Inl (mk_error io_error what node), data), w)
         | ts_failed status \<Rightarrow>
             ((Inl (mk_error invalid_argument (''Requested region is outside the array: '' @ status) node), data), w)
         | ts_ok sliced \<Rightarrow>
             case ts_Transpose ts sliced order of
               ts_threw what \<Rightarrow> ((Inl (mk_error io_error what node), data), w)
             | ts_failed status \<Rightarrow>
                 ((Inl (mk_error invalid_argument (''Failed to reorder axes: '' @ status) node), data), w)
             | ts_ok transposed \<Rightarrow>
                 case ts_Cast ts transposed of
                   ts_threw what \<Rightarrow> ((Inl (mk_error io_error what node), data), w)
                 | ts_failed status \<Rightarrow>
                     ((Inl (mk_error unsupported_data_type
                         (''Array cannot be converted to the requested output type: '' @ status) node), data), w)
                 | ts_ok converted \<Rightarrow>
                     let shape = map (\<lambda>i. count ! nat i) order
                     in case read converted shape data w of
                          ((ts_threw what, data), w) \<Rightarrow> ((Inl (mk_error io_error what node), data), w)
                        | ((ts_failed status, data), w) \<Rightarrow>
                            ((Inl (mk_error io_error (''TensorStore read failed: '' @ status) node), data), w)
                        | ((ts_ok _, data), w) \<Rightarrow>
                            case CheckReadControl control node w of (r, w) \<Rightarrow> ((r, data), w))"

definition ReadInto ::
  "('h, 'w) TensorStore \<Rightarrow> ('h \<Rightarrow> int list \<Rightarrow> 'e list \<Rightarrow> 'w \<Rightarrow> (unit ts_outcome \<times> 'e list) \<times> 'w) \<Rightarrow> bool \<Rightarrow>
   string \<Rightarrow> string \<Rightarrow> PixelSelection \<Rightarrow> 'e list option \<Rightarrow> 'w ReadControl \<Rightarrow> 'w \<Rightarrow> (unit result \<times> 'e list option) \<times> 'w"
where
  "ReadInto ts read context_set array_path node selection destination control w =
     (case destination of
        None \<Rightarrow> ((Inl (mk_error invalid_argument ''Destination buffer is null'' node), None), w)
      | Some data \<Rightarrow>
          if length data < sel_elements selection
          then ((Inl (mk_error invalid_argument ''Destination buffer is too small'' node), Some data), w)
          else if \<not> context_set
          then ((Inl (mk_error invalid_argument ''Pixel reads require a context'' node), Some data), w)
          else
            case CheckReadControl control node w of
              (Inl e, w) \<Rightarrow> ((Inl e, Some data), w)
            | (Inr _, w) \<Rightarrow>
                case ts_OpenArray ts array_path node w of
                  (ts_threw what, w) \<Rightarrow> ((Inl (mk_error io_error what node), Some data), w)
                | (ts_failed what, w) \<Rightarrow> ((Inl (mk_error io_error what node), Some data), w)
                | (ts_ok (Inl e), w) \<Rightarrow> ((Inl e, Some data), w)
                | (ts_ok (Inr store), w) \<Rightarrow>
                    case CheckReadControl control node w of
                      (Inl e, w) \<Rightarrow> ((Inl e, Some data), w)
                    | (Inr _, w) \<Rightarrow>
                        case ReadInto_store ts read node selection data control store w of
                          ((r, data), w) \<Rightarrow> ((r, Some data), w))"

text \<open>The production adapter: the image's data variable and the flag that masks it, each at its own directory.\<close>

definition from_buffer ::
  "('e list option \<Rightarrow> (unit result \<times> 'e list option) \<times> 'w) \<Rightarrow> 'e list \<Rightarrow> (unit result \<times> 'e list) \<times> 'w"
where
  "from_buffer read data =
     (case read (Some data) of ((r, Some data), w) \<Rightarrow> ((r, data), w) | ((r, None), w) \<Rightarrow> ((r, data), w))"

definition StorePixelSource ::
  "('h, 'w) TensorStore \<Rightarrow> ('h \<Rightarrow> int list \<Rightarrow> f32 list \<Rightarrow> 'w \<Rightarrow> (unit ts_outcome \<times> f32 list) \<times> 'w) \<Rightarrow>
   ('h \<Rightarrow> int list \<Rightarrow> u8 list \<Rightarrow> 'w \<Rightarrow> (unit ts_outcome \<times> u8 list) \<times> 'w) \<Rightarrow> (string \<Rightarrow> string) \<Rightarrow>
   ImageDescriptor \<Rightarrow> 'w PixelSource"
where
  "StorePixelSource ts read_f32 read_u8 directory_of descriptor =
     \<lparr>ReadPixels = (\<lambda>selection data control w.
        from_buffer (\<lambda>b. ReadInto ts read_f32 True (directory_of (img_id descriptor)) (img_id descriptor) selection b control w) data),
      ReadMask = (\<lambda>selection data control w.
        from_buffer (\<lambda>b. ReadInto ts read_u8 True (directory_of (pixel_mask_id descriptor)) (pixel_mask_id descriptor)
                          selection b control w) data)\<rparr>"

section \<open>What TensorStore promises\<close>

text \<open>
  \<open>element h\<close> is the element of the array \<open>h\<close> at an index, converted to the type the read asks for. Taking an
  interval moves its first element to the origin; transposing puts dimension \<open>order ! i\<close> at \<open>i\<close>; and a read fills the
  target in Fortran order, nothing past it, and leaves what is past it alone when it fails.
\<close>

locale tensorstore_laws =
  fixes ts :: "('h, 'w) TensorStore"
    and read :: "'h \<Rightarrow> int list \<Rightarrow> 'e list \<Rightarrow> 'w \<Rightarrow> (unit ts_outcome \<times> 'e list) \<times> 'w"
    and element :: "'h \<Rightarrow> nat list \<Rightarrow> 'e"
    and stored_at :: "string \<Rightarrow> nat list \<Rightarrow> 'e"
  assumes open_law: "ts_OpenArray ts path node w = (ts_ok (Inr h), w') \<Longrightarrow> element h = stored_at path"
    and slice_law:
      "ts_TranslateSizedInterval ts h (map int start) (map int count) (map int stride) = ts_ok h' \<Longrightarrow>
       length start = length count \<Longrightarrow> length stride = length count \<Longrightarrow> length idx = length count \<Longrightarrow>
       element h' idx = element h (map (\<lambda>k. start ! k + idx ! k * stride ! k) [0..<length count])"
    and transpose_law:
      "ts_Transpose ts h (map int order) = ts_ok h' \<Longrightarrow> length idx = length order \<Longrightarrow>
       element h' idx = element h (upd_all (replicate (length order) 0) (zip order idx))"
    and cast_law: "ts_Cast ts h = ts_ok h' \<Longrightarrow> element h' = element h"
    and read_ok_law:
      "read h (map int shape) data w = ((ts_ok (), data'), w') \<Longrightarrow> prod_list shape \<le> length data \<Longrightarrow>
       data' = map (element h) (index_lists shape) @ drop (prod_list shape) data"
    and read_length_law: "fst (read h shape' data w) = (oc, data') \<Longrightarrow> length data' = length data"
    and read_past_law:
      "fst (read h (map int shape) data w) = (oc, data') \<Longrightarrow> drop (prod_list shape) data' = drop (prod_list shape) data"

section \<open>The reader under those laws\<close>

lemma to_index_int: "n < max_extent \<Longrightarrow> to_index n = int n"
  by (simp add: to_index_def)

lemma map_to_index: "\<forall>x \<in> set xs. x < max_extent \<Longrightarrow> map to_index xs = map int xs"
  by (simp add: to_index_int)

lemma selection_ok_indices:
  assumes "selection_ok sel"
  shows "map to_index (sel_start sel) = map int (sel_start sel)" and "map to_index (sel_count sel) = map int (sel_count sel)"
    and "map to_index (sel_stride sel) = map int (sel_stride sel)"
    and "map to_index (sel_destination_to_stored sel) = map int (sel_destination_to_stored sel)"
proof -
  let ?n = "length (sel_count sel)"
  have lens: "length (sel_start sel) = ?n" "length (sel_stride sel) = ?n" "set (sel_destination_to_stored sel) = {..<?n}" "?n < max_extent"
    using assms unfolding selection_ok_def Let_def by blast+
  have "\<forall>k < ?n. 0 < sel_stride sel ! k \<and> sel_start sel ! k < max_extent \<and> sel_count sel ! k < max_extent \<and> sel_stride sel ! k < max_extent"
    using assms unfolding selection_ok_def Let_def by blast
  then have small: "k < ?n \<Longrightarrow> sel_start sel ! k < max_extent" "k < ?n \<Longrightarrow> sel_count sel ! k < max_extent"
    "k < ?n \<Longrightarrow> sel_stride sel ! k < max_extent" for k by blast+
  show "map to_index (sel_start sel) = map int (sel_start sel)" using small lens by (intro map_to_index) (metis in_set_conv_nth)
  show "map to_index (sel_count sel) = map int (sel_count sel)" using small by (intro map_to_index) (metis in_set_conv_nth)
  show "map to_index (sel_stride sel) = map int (sel_stride sel)" using small lens by (intro map_to_index) (metis in_set_conv_nth)
  show "map to_index (sel_destination_to_stored sel) = map int (sel_destination_to_stored sel)" using lens by (intro map_to_index) auto
qed

lemma selection_ok_shape:
  assumes "selection_ok sel"
  shows "map (\<lambda>i. map int (sel_count sel) ! nat i) (map int (sel_destination_to_stored sel)) =
    map int (map (\<lambda>k. sel_count sel ! k) (sel_destination_to_stored sel))"
  using assms by (auto simp: selection_ok_def Let_def)

lemma map_over_upd_all:
  assumes "distinct ds" and "set ds = {..<n}" and "length ds = n" and "length idx = n"
  shows "map (\<lambda>k. f k (upd_all (replicate n 0) (zip ds idx) ! k)) [0..<n] =
    upd_all (replicate n z) (map (\<lambda>(d, i). (d, f d i)) (zip ds idx))"
proof (rule nth_equalityI)
  fix k assume "k < length (map (\<lambda>k. f k (upd_all (replicate n 0) (zip ds idx) ! k)) [0..<n])"
  then have k: "k < n" by simp
  then obtain j where j: "j < n" "ds ! j = k" using assms by (metis in_set_conv_nth lessThan_iff)
  have mem: "(k, idx ! j) \<in> set (zip ds idx)" using j assms by (auto simp: in_set_zip)
  have fst: "map fst (map (\<lambda>(d, i). (d, f d i)) (zip ds idx)) = ds"
    using assms by (intro nth_equalityI) (auto simp: split_beta)
  have "upd_all (replicate n 0) (zip ds idx) ! k = idx ! j" using mem assms k by (intro upd_all_in) simp_all
  moreover have "upd_all (replicate n z) (map (\<lambda>(d, i). (d, f d i)) (zip ds idx)) ! k = f k (idx ! j)"
  proof (rule upd_all_in)
    show "distinct (map fst (map (\<lambda>(d, i). (d, f d i)) (zip ds idx)))" unfolding fst by (rule assms)
    show "(k, f k (idx ! j)) \<in> set (map (\<lambda>(d, i). (d, f d i)) (zip ds idx))" using mem by force
  qed (use k in simp)
  ultimately show "map (\<lambda>k. f k (upd_all (replicate n 0) (zip ds idx) ! k)) [0..<n] ! k =
      upd_all (replicate n z) (map (\<lambda>(d, i). (d, f d i)) (zip ds idx)) ! k" using k by simp
qed simp

context tensorstore_laws
begin

lemma elements_of_selection:
  assumes sel: "selection_ok sel"
    and sl: "ts_TranslateSizedInterval ts h (map int (sel_start sel)) (map int (sel_count sel)) (map int (sel_stride sel)) = ts_ok h1"
    and tr: "ts_Transpose ts h1 (map int (sel_destination_to_stored sel)) = ts_ok h2"
    and ca: "ts_Cast ts h2 = ts_ok h3"
  shows "map (element h3) (index_lists (map (\<lambda>k. sel_count sel ! k) (sel_destination_to_stored sel))) =
    map (element h) (selection_coords sel)"
proof -
  let ?n = "length (sel_count sel)" and ?ds = "sel_destination_to_stored sel"
  have n: "length (sel_start sel) = ?n" "length (sel_stride sel) = ?n" and ds: "length ?ds = ?n" "distinct ?ds" "set ?ds = {..<?n}"
    using sel by (simp_all add: selection_ok_def Let_def)
  have "element h3 idx = element h (upd_all (replicate ?n 0)
      (map (\<lambda>(d, i). (d, sel_start sel ! d + i * sel_stride sel ! d)) (zip ?ds idx)))"
    if "idx \<in> set (index_lists (map (\<lambda>k. sel_count sel ! k) ?ds))" for idx
  proof -
    have len: "length idx = ?n" using index_lists_bound [OF that] ds by simp
    have "element h3 idx = element h1 (upd_all (replicate ?n 0) (zip ?ds idx))"
      using transpose_law [OF tr, of idx] cast_law [OF ca] len ds by simp
    also have "\<dots> = element h (map (\<lambda>k. sel_start sel ! k + upd_all (replicate ?n 0) (zip ?ds idx) ! k * sel_stride sel ! k) [0..<?n])"
      using slice_law [OF sl, of "upd_all (replicate ?n 0) (zip ?ds idx)"] n by simp
    also have "\<dots> = element h (upd_all (replicate ?n 0)
        (map (\<lambda>(d, i). (d, sel_start sel ! d + i * sel_stride sel ! d)) (zip ?ds idx)))"
      using map_over_upd_all [OF ds(2,3,1) len, of "\<lambda>k i. sel_start sel ! k + i * sel_stride sel ! k" 0] by simp
    finally show ?thesis .
  qed
  then show ?thesis by (simp add: selection_coords_def)
qed

lemma ReadInto_store_ok:
  assumes sel: "selection_ok sel" and room: "sel_elements sel \<le> length data"
    and r: "ReadInto_store ts read node sel data control h w = ((Inr (), data'), w')"
  shows "data' = map (element h) (selection_coords sel) @ drop (sel_elements sel) data"
proof -
  let ?cs = "map (\<lambda>k. sel_count sel ! k) (sel_destination_to_stored sel)"
  note ix = selection_ok_indices [OF sel] selection_ok_shape [OF sel]
  from r obtain h1 h2 h3 w1 where
    sl: "ts_TranslateSizedInterval ts h (map int (sel_start sel)) (map int (sel_count sel)) (map int (sel_stride sel)) = ts_ok h1"
    and tr: "ts_Transpose ts h1 (map int (sel_destination_to_stored sel)) = ts_ok h2" and ca: "ts_Cast ts h2 = ts_ok h3"
    and rd: "read h3 (map int ?cs) data w = ((ts_ok (), data'), w1)"
    unfolding ReadInto_store_def Let_def ix by (auto split: ts_outcome.splits prod.splits)
  have n: "prod_list ?cs = sel_elements sel" using sel by (simp add: selection_ok_def Let_def)
  then show ?thesis using read_ok_law [OF rd] room elements_of_selection [OF sel sl tr ca] by simp
qed

lemma ReadInto_store_past:
  assumes sel: "selection_ok sel" and r: "ReadInto_store ts read node sel data control h w = ((res, data'), w')"
  shows "length data' = length data \<and> drop (sel_elements sel) data' = drop (sel_elements sel) data"
proof -
  let ?cs = "map (\<lambda>k. sel_count sel ! k) (sel_destination_to_stored sel)"
  note ix = selection_ok_indices [OF sel] selection_ok_shape [OF sel]
  from r have "data' = data \<or> (\<exists>h3 oc w1. read h3 (map int ?cs) data w = ((oc, data'), w1))"
    unfolding ReadInto_store_def Let_def ix by (auto split: ts_outcome.splits prod.splits)
  moreover have "prod_list ?cs = sel_elements sel" using sel by (simp add: selection_ok_def Let_def)
  ultimately show ?thesis using read_length_law read_past_law by (metis fst_conv)
qed

lemma ReadInto_served:
  assumes sel: "selection_ok sel"
    and r: "from_buffer (\<lambda>b. ReadInto ts read True path node sel b control w) data = ((Inr (), data'), w')"
  shows "sel_elements sel \<le> length data \<and> data' = map (stored_at path) (selection_coords sel) @ drop (sel_elements sel) data"
proof -
  from r obtain h w1 w2 w3 where op: "ts_OpenArray ts path node w1 = (ts_ok (Inr h), w2)" and room: "sel_elements sel \<le> length data"
    and run: "ReadInto_store ts read node sel data control h w3 = ((Inr (), data'), w')"
    by (auto simp: from_buffer_def ReadInto_def split: prod.splits sum.splits ts_outcome.splits if_splits)
  show ?thesis using room ReadInto_store_ok [OF sel room run] open_law [OF op] by simp
qed

lemma ReadInto_refused:
  assumes sel: "selection_ok sel"
    and r: "from_buffer (\<lambda>b. ReadInto ts read True path node sel b control w) data = ((Inl e, data'), w')"
  shows "length data' = length data \<and> drop (sel_elements sel) data' = drop (sel_elements sel) data"
proof -
  from r have "data' = data \<or> (\<exists>h w3. ReadInto_store ts read node sel data control h w3 = ((Inl e, data'), w'))"
    by (auto simp: from_buffer_def ReadInto_def split: prod.splits sum.splits ts_outcome.splits if_splits)
  then show ?thesis using ReadInto_store_past [OF sel] by metis
qed

end

section \<open>The production adapter keeps the contract of a pixel source\<close>

locale store_source =
  px: tensorstore_laws ts read_f32 element_f32 stored_f32 +
  fl: tensorstore_laws ts read_u8 element_u8 stored_u8
  for ts :: "('h, 'w) TensorStore"
    and read_f32 :: "'h \<Rightarrow> int list \<Rightarrow> f32 list \<Rightarrow> 'w \<Rightarrow> (unit ts_outcome \<times> f32 list) \<times> 'w" and element_f32 stored_f32
    and read_u8 :: "'h \<Rightarrow> int list \<Rightarrow> u8 list \<Rightarrow> 'w \<Rightarrow> (unit ts_outcome \<times> u8 list) \<times> 'w" and element_u8 stored_u8 +
  fixes directory_of :: "string \<Rightarrow> string" and descriptor :: ImageDescriptor

sublocale store_source \<subseteq> pixel_source "StorePixelSource ts read_f32 read_u8 directory_of descriptor"
    "stored_f32 (directory_of (img_id descriptor))" "stored_u8 (directory_of (pixel_mask_id descriptor))"
  by unfold_locales (auto simp: StorePixelSource_def dest: px.ReadInto_served px.ReadInto_refused fl.ReadInto_served)

context store_source
begin

lemma keeps_contract:
  "pixel_source (StorePixelSource ts read_f32 read_u8 directory_of descriptor)
    (stored_f32 (directory_of (img_id descriptor))) (stored_u8 (directory_of (pixel_mask_id descriptor)))"
  by unfold_locales

end

text \<open>
  An array held in memory, which satisfies the laws: a handle is the directory it was opened from and what the views
  taken of it do to an index.
\<close>

type_synonym memory_handle = "string \<times> (nat list \<Rightarrow> nat list)"

definition memory_ts :: "(memory_handle, 'w) TensorStore" where
  "memory_ts =
     \<lparr>ts_OpenArray = (\<lambda>path node w. (ts_ok (Inr (path, \<lambda>idx. idx)), w)),
      ts_TranslateSizedInterval = (\<lambda>(path, view) start count stride.
        ts_ok (path, \<lambda>idx. view (map (\<lambda>k. nat (start ! k) + idx ! k * nat (stride ! k)) [0..<length count]))),
      ts_Transpose = (\<lambda>(path, view) order.
        ts_ok (path, \<lambda>idx. view (upd_all (replicate (length order) 0) (zip (map nat order) idx)))),
      ts_Cast = ts_ok\<rparr>"

definition memory_read ::
  "(string \<Rightarrow> nat list \<Rightarrow> 'e) \<Rightarrow> memory_handle \<Rightarrow> int list \<Rightarrow> 'e list \<Rightarrow> 'w \<Rightarrow> (unit ts_outcome \<times> 'e list) \<times> 'w"
where
  "memory_read stored_at h shape data w =
     (let n = prod_list (map nat shape)
      in ((ts_ok (), if n \<le> length data
                     then map (\<lambda>idx. stored_at (fst h) (snd h idx)) (index_lists (map nat shape)) @ drop n data
                     else data), w))"

lemma memory_interval:
  "length start = n \<Longrightarrow> length stride = n \<Longrightarrow>
   map (\<lambda>k. nat (map int start ! k) + idx ! k * nat (map int stride ! k)) [0..<n] =
   map (\<lambda>k. start ! k + idx ! k * stride ! k) [0..<n]"
  by (intro map_cong) auto

lemma memory_laws: "tensorstore_laws memory_ts (memory_read stored_at) (\<lambda>h idx. stored_at (fst h) (snd h idx)) stored_at"
  by unfold_locales
    (auto simp: memory_ts_def memory_read_def Let_def comp_def length_index_lists memory_interval split: if_splits)

interpretation memory: store_source memory_ts
  "memory_read stored_f32" "\<lambda>h idx. stored_f32 (fst h) (snd h idx)" stored_f32
  "memory_read stored_u8" "\<lambda>h idx. stored_u8 (fst h) (snd h idx)" stored_u8 directory_of descriptor
  for stored_f32 stored_u8 directory_of descriptor
  by (intro store_source.intro memory_laws)

section \<open>Properties\<close>

text \<open>The example image served from memory: a pixel is the number of its first stored coordinate, and channel 1 is flagged.\<close>

definition example_source :: "unit PixelSource" where
  "example_source =
     StorePixelSource memory_ts (memory_read (\<lambda>_ c. word_of_nat (c ! 2))) (memory_read (\<lambda>_ c. of_bool (c ! 0 = 1)))
       (\<lambda>node. node) example_image"

lemma example_control_allows: "CheckReadControl example_control node w = (Inr (), w)"
  by (simp add: CheckReadControl_def example_control_def)

lemma memory_read_serves:
  assumes "sel_elements sel \<le> length data"
  shows "\<exists>data'. from_buffer (\<lambda>b. ReadInto memory_ts (memory_read stored_at) True path node sel b example_control ()) data =
    ((Inr (), data'), ())"
  using assms by (simp add: from_buffer_def ReadInto_def ReadInto_store_def memory_ts_def memory_read_def example_control_allows Let_def)

interpretation memory_serving: serving_source
  "StorePixelSource memory_ts (memory_read stored_f32) (memory_read stored_u8) directory_of descriptor"
  "stored_f32 (directory_of (img_id descriptor))" "stored_u8 (directory_of (pixel_mask_id descriptor))" example_control
  for stored_f32 stored_u8 directory_of descriptor
  by unfold_locales (auto simp: StorePixelSource_def intro: memory_read_serves)

lemma example_source_ok:
  "serving_source example_source (\<lambda>c. word_of_nat (c ! 2)) (\<lambda>c. of_bool (c ! 0 = 1)) example_control"
  unfolding example_source_def by (rule memory_serving.serving_source_axioms)

lemma example_source_pixels: "pixel_source example_source (\<lambda>c. word_of_nat (c ! 2)) (\<lambda>c. of_bool (c ! 0 = 1))"
  using example_source_ok by (rule serving_source.axioms)

definition example_destination :: "f32 list" where
  "example_destination = replicate 8 99"

definition example_read :: "u64 \<Rightarrow> ((u64 result \<times> f32 list) \<times> unit) option" where
  "example_read budget =
     ReadInPieces example_source example_image example_geometry example_geometry example_request example_destination
       (example_options budget) None ()"



text \<open>
  Claim C1. A read in pieces always returns, and when it succeeds the request was valid, the destination had room, and
  its front holds the requested pixels in logical order, NaN where the flag is applied and excludes one, with the rest
  of the destination untouched: what a single read of the whole request would deliver, whatever the budget, the
  progress callback and the chunk shapes made of the cut.
\<close>

theorem ReadInPieces_delivers_request:
  assumes "pixel_source source pixels flags" and "descriptor_ok d" and "geometry_fits geometry"
    and "opt_read_budget_bytes options < two64"
  shows "\<exists>r dest' w'. ReadInPieces source d geometry flag_geometry req dest options progress w = Some ((r, dest'), w') \<and>
    (\<forall>n. r = Inr n \<longrightarrow> request_ok d req \<and> n = prod_list (map rg_count req) \<and> n \<le> length dest \<and>
       dest' = map (delivered_pixel pixels flags d (AppliesPixelMask options d)) (request_coords req) @ drop n dest)"
  using assms(2-4)
proof (cases rule: ReadInPieces_outcome [of d geometry options source flag_geometry req dest progress w])
  case (ran ps w1 r dest' w')
  then show ?thesis using pixel_source.ReadInPieces_delivers [OF assms] by (auto simp: length_request_coords)
qed auto

theorem ReadInPieces_delivers_request_witness:
  "(\<exists>r dest' w'. example_read 64 = Some ((r, dest'), w') \<and>
    (\<forall>n. r = Inr n \<longrightarrow> request_ok example_image example_request \<and> n = prod_list (map rg_count example_request) \<and>
       n \<le> length example_destination \<and>
       dest' = map (delivered_pixel (\<lambda>c. word_of_nat (c ! 2)) (\<lambda>c. of_bool (c ! 0 = 1)) example_image
         (AppliesPixelMask (example_options 64) example_image)) (request_coords example_request) @ drop n example_destination)) \<and>
   example_read 64 = Some ((Inr 6, [1, 5, 9, f32_quiet_NaN, f32_quiet_NaN, f32_quiet_NaN, 99, 99]), ())"
proof
  show "example_read 64 = Some ((Inr 6, [1, 5, 9, f32_quiet_NaN, f32_quiet_NaN, f32_quiet_NaN, 99, 99]), ())" by code_simp
qed (unfold example_read_def, rule ReadInPieces_delivers_request [OF example_source_pixels example_image_ok example_geometry_fits],
  simp add: example_options_def)

text \<open>
  Claim C8. A read in pieces that fails, whether a flag or pixels could not be read or the caller cancelled it, leaves
  the destination either untouched or finished up to a piece: the pieces before the failure are delivered, and
  everything past the piece it failed in is as the caller left it.
\<close>

theorem ReadInPieces_failure_leaves_prefix:
  assumes "pixel_source source pixels flags" and "descriptor_ok d" and "geometry_fits geometry"
    and "opt_read_budget_bytes options < two64"
    and "ReadInPieces source d geometry flag_geometry req dest options progress w = Some ((Inl e, dest'), w')"
  shows "dest' = dest \<or>
    (\<exists>ps m. PlanPieces d geometry flag_geometry req options (progress \<noteq> None) = Some ps \<and> m \<le> length ps \<and>
       length dest' = length dest \<and>
       take (length (piece_coords (take m ps))) dest' =
         map (delivered_pixel pixels flags d (AppliesPixelMask options d)) (piece_coords (take m ps)) \<and>
       drop (length (piece_coords (take (Suc m) ps))) dest' = drop (length (piece_coords (take (Suc m) ps))) dest)"
  by (rule pixel_source.ReadInPieces_failure [OF assms])

definition example_cancelled :: "((u64 result \<times> f32 list) \<times> unit) option" where
  "example_cancelled =
     ReadInPieces example_source example_image example_geometry example_geometry example_request example_destination
       (example_options 64) (Some (\<lambda>_ _ w. (False, w))) ()"

theorem ReadInPieces_failure_leaves_prefix_witness:
  "example_cancelled = Some ((Inl (mk_error cancelled ''The read was cancelled by its progress callback'' ''SKY''),
     [1, 5, 9, 99, 99, 99, 99, 99]), ()) \<and>
   ([1, 5, 9, 99, 99, 99, 99, 99] = example_destination \<or>
    (\<exists>ps m. PlanPieces example_image example_geometry example_geometry example_request (example_options 64) True = Some ps \<and>
       m \<le> length ps \<and> length [1, 5, 9, 99, 99, 99, 99, 99 :: f32] = length example_destination \<and>
       take (length (piece_coords (take m ps))) [1, 5, 9, 99, 99, 99, 99, 99] =
         map (delivered_pixel (\<lambda>c. word_of_nat (c ! 2)) (\<lambda>c. of_bool (c ! 0 = 1)) example_image
           (AppliesPixelMask (example_options 64) example_image)) (piece_coords (take m ps)) \<and>
       drop (length (piece_coords (take (Suc m) ps))) [1, 5, 9, 99, 99, 99, 99, 99] =
         drop (length (piece_coords (take (Suc m) ps))) example_destination))"
proof -
  have run: "example_cancelled = Some ((Inl (mk_error cancelled ''The read was cancelled by its progress callback'' ''SKY''),
     [1, 5, 9, 99, 99, 99, 99, 99]), ())" by code_simp
  show ?thesis
    using ReadInPieces_failure_leaves_prefix [OF example_source_pixels example_image_ok example_geometry_fits _
        run [unfolded example_cancelled_def]] run
    by (simp add: example_options_def)
qed



end
