(* ===== verification/Pass_Plan.thy ===== *)
theory Pass_Plan
  imports Pieces
begin

text \<open>
  What a pass over an image decides before it reads anything: \<open>CheckedPlanes\<close> of \<open>src/reduce/plane_selection.h\<close>, and
  \<open>PassPlan\<close> with \<open>PlanPass\<close> of \<open>src/reduce/pass_plan.h\<close> and \<open>src/reduce/pass.cc\<close>. The lemmas show which plane
  selections are accepted, that a plan made for one is well formed, what its layer counts, and what its reads and
  blocks may cost.
\<close>

section \<open>Planes an image has agreed to serve\<close>

text \<open>
  The room left along the spectral axis is compared by dividing, once the start is known to be inside the axis. The
  axis map is the image's own, so its indices are axes of the descriptor.
\<close>

definition CheckedPlanes_Of :: "ImageDescriptor \<Rightarrow> AxisMap \<Rightarrow> PlaneSelection \<Rightarrow> PlaneSelection result" where
  "CheckedPlanes_Of descriptor am planes =
     (let node = img_id descriptor;
          channels = ax_length (img_axes descriptor ! am_spectral am);
          sel = pl_spectral planes
      in if rg_stride sel = 0 \<or> rg_count sel = 0 \<or> channels \<le> rg_start sel \<or>
            (channels - 1 - rg_start sel) div rg_stride sel < rg_count sel - 1
         then Inl (mk_error invalid_argument ''The spectral range falls outside the image'' node)
         else if \<not> am_has_polarization am \<and> pl_polarization planes \<noteq> 0
         then Inl (mk_error invalid_argument
                ''The image has no polarization axis, so only polarization 0 selects a plane'' node)
         else if am_has_polarization am \<and> ax_length (img_axes descriptor ! am_polarization am) \<le> pl_polarization planes
         then Inl (mk_error invalid_argument ''The polarization index falls outside the image'' node)
         else if \<not> am_has_time am \<and> pl_time planes \<noteq> 0
         then Inl (mk_error invalid_argument ''The image has no time axis, so only time 0 selects a plane'' node)
         else if am_has_time am \<and> ax_length (img_axes descriptor ! am_time am) \<le> pl_time planes
         then Inl (mk_error invalid_argument ''The time index falls outside the image'' node)
         else Inr planes)"

section \<open>The plan\<close>

definition kSpectralEmitBudgetBytes :: u64 where "kSpectralEmitBudgetBytes = 67108864"

text \<open>An index into the pass's own spectral selection, and one into the channels a single walk covers.\<close>

type_synonym SelectionChannel = u64

datatype BlockChannel = BlockChannel u64

record PassPlan =
  pp_descriptor :: ImageDescriptor
  pp_map :: AxisMap
  pp_axis_u :: nat
  pp_axis_v :: nat
  pp_u_length :: u64
  pp_v_length :: u64
  pp_chunk_u :: u64
  pp_chunk_v :: u64
  pp_chunk_bytes :: u64
  pp_slab_budget_bytes :: u64
  pp_band_rows :: u64
  pp_layer_chunks :: u64
  pp_planes :: PlaneSelection
  pp_sample :: u64
  pp_apply_mask :: bool
  pp_chunk_depth :: u64
  pp_least_channels :: u64

definition SwapsSpatial :: "PassPlan \<Rightarrow> bool" where
  "SwapsSpatial plan \<longleftrightarrow> pp_axis_u plan = am_y (pp_map plan)"

definition plan_ChunksTouched :: "PassPlan \<Rightarrow> SelectionChannel \<Rightarrow> SelectionChannel \<Rightarrow> u64" where
  "plan_ChunksTouched plan begin end' =
     (let sel = pl_spectral (pp_planes plan)
      in ChunksTouched (add64 (rg_start sel) (mul64 begin (rg_stride sel))) (sub64 end' begin) (rg_stride sel) (pp_chunk_depth plan))"

definition ChunksCovering :: "PassPlan \<Rightarrow> u64 \<Rightarrow> SelectionChannel \<Rightarrow> SelectionChannel \<Rightarrow> u64" where
  "ChunksCovering plan layer_chunks begin end' = max 1 (mul64 layer_chunks (plan_ChunksTouched plan begin end'))"

definition ChunksPerRead :: "PassPlan \<Rightarrow> u64" where
  "ChunksPerRead plan = pp_slab_budget_bytes plan div max 1 (pp_chunk_bytes plan)"

definition plan_UnitsAffordable :: "PassPlan \<Rightarrow> u64 \<Rightarrow> u64" where
  "plan_UnitsAffordable plan chunks_per_unit = UnitsAffordable (ChunksPerRead plan) chunks_per_unit"

definition SlabChannels :: "PassPlan \<Rightarrow> u64 \<Rightarrow> u64" where
  "SlabChannels plan footprint_chunks = max 1 (mul64 (plan_UnitsAffordable plan footprint_chunks) (pp_least_channels plan))"

definition AlignedSlabEnd :: "PassPlan \<Rightarrow> SelectionChannel \<Rightarrow> u64 \<Rightarrow> SelectionChannel \<Rightarrow> SelectionChannel" where
  "AlignedSlabEnd plan begin desired end' =
     (let sel = pl_spectral (pp_planes plan)
      in AlignedBlockEnd begin desired end' (rg_start sel) (rg_stride sel) (pp_chunk_depth plan))"

definition EmitChannels :: "PassPlan \<Rightarrow> u64 \<Rightarrow> u64 \<Rightarrow> u64 \<Rightarrow> u64" where
  "EmitChannels plan layer_chunks bytes_per_channel hint =
     (let budget_channels = max 1 (kSpectralEmitBudgetBytes div max 1 bytes_per_channel);
          channels = rg_count (pl_spectral (pp_planes plan));
          spatial_channels =
            (if layer_chunks = 0 then channels
             else mul64 (min channels (plan_UnitsAffordable plan layer_chunks)) (pp_least_channels plan))
      in min (if hint = 0 then spatial_channels else hint) (min budget_channels channels))"

text \<open>The chunks of an axis the sample has a pixel in.\<close>

definition touched_along :: "u64 \<Rightarrow> u64 \<Rightarrow> u64 \<Rightarrow> u64" where
  "touched_along sample len chunk =
     (if len = 0 then 0 else ChunksTouched 0 (add64 ((len - 1) div sample) 1) sample chunk)"

definition PlanPass ::
  "ImageDescriptor \<Rightarrow> ChunkGeometry \<Rightarrow> ChunkGeometry \<Rightarrow> AxisMap \<Rightarrow> PlaneSelection \<Rightarrow> u64 \<Rightarrow> 'w ReadOptions \<Rightarrow> PassPlan"
where
  "PlanPass descriptor geometry flag_geometry am planes sample options =
     (let swap_spatial = (fastest_spatial_axis geometry = spatial_y);
          axis_u = (if swap_spatial then am_y am else am_x am);
          axis_v = (if swap_spatial then am_x am else am_y am);
          u_length = ax_length (img_axes descriptor ! axis_u);
          v_length = ax_length (img_axes descriptor ! axis_v);
          chunk_u = max 1 (chunk_shape geometry ! axis_u);
          chunk_v = max 1 (chunk_shape geometry ! axis_v);
          depth = max 1 (chunk_shape geometry ! am_spectral am);
          cost = ReadCost_Of descriptor geometry flag_geometry options;
          stride = rg_stride (pl_spectral planes);
          least = add64 (depth div stride) (of_bool (depth mod stride \<noteq> 0));
          sample = max 1 sample;
          row_chunks = max 1 (touched_along sample u_length chunk_u);
          column_chunks = max 1 (touched_along sample v_length chunk_v);
          chunks_per_read = cost_budget_bytes cost div max 1 (cost_chunk_bytes cost)
      in \<lparr>pp_descriptor = descriptor, pp_map = am, pp_axis_u = axis_u, pp_axis_v = axis_v,
          pp_u_length = u_length, pp_v_length = v_length, pp_chunk_u = chunk_u, pp_chunk_v = chunk_v,
          pp_chunk_bytes = cost_chunk_bytes cost, pp_slab_budget_bytes = cost_budget_bytes cost,
          pp_band_rows = UnitsAffordable chunks_per_read row_chunks,
          pp_layer_chunks = max 1 (mul64 row_chunks column_chunks), pp_planes = planes, pp_sample = sample,
          pp_apply_mask = cost_apply_mask cost, pp_chunk_depth = depth, pp_least_channels = least\<rparr>)"

section \<open>What a plan is\<close>

text \<open>The planes a selection names, as the image has them.\<close>

definition planes_ok :: "ImageDescriptor \<Rightarrow> AxisMap \<Rightarrow> PlaneSelection \<Rightarrow> bool" where
  "planes_ok d am planes \<longleftrightarrow>
     range_fits (pl_spectral planes) (ax_length (img_axes d ! am_spectral am)) \<and>
     (if am_has_polarization am then pl_polarization planes < ax_length (img_axes d ! am_polarization am)
      else pl_polarization planes = 0) \<and>
     (if am_has_time am then pl_time planes < ax_length (img_axes d ! am_time am) else pl_time planes = 0)"

lemma CheckedPlanes_iff: "CheckedPlanes_Of d am planes = Inr planes' \<longleftrightarrow> planes' = planes \<and> planes_ok d am planes"
proof (cases "rg_stride (pl_spectral planes) = 0 \<or> rg_count (pl_spectral planes) = 0")
  case True
  then show ?thesis by (auto simp: CheckedPlanes_Of_def planes_ok_def range_fits_def Let_def)
next
  case False
  note fit = range_check_iff [of "pl_spectral planes" "ax_length (img_axes d ! am_spectral am)"]
  show ?thesis
  proof (cases "range_fits (pl_spectral planes) (ax_length (img_axes d ! am_spectral am))")
    case True
    then show ?thesis using False fit by (simp add: CheckedPlanes_Of_def planes_ok_def Let_def) auto
  next
    case no: False
    then show ?thesis using False fit by (simp add: CheckedPlanes_Of_def planes_ok_def Let_def)
  qed
qed

lemma CheckedPlanes_code: "CheckedPlanes_Of d am planes = Inl e \<Longrightarrow> err_code e = invalid_argument \<and> err_node_path e = img_id d"
  by (auto simp: CheckedPlanes_Of_def Let_def split: if_splits)

text \<open>
  A well-formed plan: its axes are distinct axes of the image, its lengths are theirs, every divisor is positive, and
  the planes are the image's.
\<close>

definition plan_axes :: "PassPlan \<Rightarrow> nat list" where
  "plan_axes plan =
     [pp_axis_u plan, pp_axis_v plan, am_spectral (pp_map plan)] @
     (if am_has_polarization (pp_map plan) then [am_polarization (pp_map plan)] else []) @
     (if am_has_time (pp_map plan) then [am_time (pp_map plan)] else [])"

definition plan_ok :: "PassPlan \<Rightarrow> bool" where
  "plan_ok plan \<longleftrightarrow>
     (let d = pp_descriptor plan; axes = img_axes d
      in descriptor_ok d \<and> distinct (plan_axes plan) \<and> (\<forall>i \<in> set (plan_axes plan). i < length axes) \<and>
         pp_u_length plan = ax_length (axes ! pp_axis_u plan) \<and> pp_v_length plan = ax_length (axes ! pp_axis_v plan) \<and>
         0 < pp_chunk_u plan \<and> pp_chunk_u plan < two64 \<and> 0 < pp_chunk_v plan \<and> pp_chunk_v plan < two64 \<and>
         0 < pp_chunk_depth plan \<and> pp_chunk_depth plan < two64 \<and> 0 < pp_sample plan \<and> pp_sample plan < two64 \<and>
         0 < pp_band_rows plan \<and> planes_ok d (pp_map plan) (pp_planes plan))"

lemma MapAxes_axes:
  assumes "MapAxes d = Inr am"
  shows "am_x am < length (img_axes d) \<and> am_y am < length (img_axes d) \<and> am_spectral am < length (img_axes d) \<and>
      ax_role (img_axes d ! am_x am) = spatial_x \<and> ax_role (img_axes d ! am_y am) = spatial_y \<and>
      ax_role (img_axes d ! am_spectral am) = spectral"
    and "am_has_polarization am \<Longrightarrow> am_polarization am < length (img_axes d) \<and> ax_role (img_axes d ! am_polarization am) = polarization"
    and "am_has_time am \<Longrightarrow> am_time am < length (img_axes d) \<and> ax_role (img_axes d ! am_time am) = time"
  using MapAxes_Inr_inv [OF assms] by (auto simp: axis_map_inv_def role_seen_def)

lemma PlanPass_sel:
  "pp_descriptor (PlanPass d g fg am planes sample options) = d"
  "pp_map (PlanPass d g fg am planes sample options) = am"
  "pp_axis_u (PlanPass d g fg am planes sample options) = (if fastest_spatial_axis g = spatial_y then am_y am else am_x am)"
  "pp_axis_v (PlanPass d g fg am planes sample options) = (if fastest_spatial_axis g = spatial_y then am_x am else am_y am)"
  "pp_planes (PlanPass d g fg am planes sample options) = planes"
  "pp_sample (PlanPass d g fg am planes sample options) = max 1 sample"
  "pp_u_length (PlanPass d g fg am planes sample options) = ax_length (img_axes d ! pp_axis_u (PlanPass d g fg am planes sample options))"
  "pp_v_length (PlanPass d g fg am planes sample options) = ax_length (img_axes d ! pp_axis_v (PlanPass d g fg am planes sample options))"
  "pp_chunk_u (PlanPass d g fg am planes sample options) = max 1 (chunk_shape g ! pp_axis_u (PlanPass d g fg am planes sample options))"
  "pp_chunk_v (PlanPass d g fg am planes sample options) = max 1 (chunk_shape g ! pp_axis_v (PlanPass d g fg am planes sample options))"
  "pp_chunk_depth (PlanPass d g fg am planes sample options) = max 1 (chunk_shape g ! am_spectral am)"
  by (simp_all only: PlanPass_def Let_def PassPlan.select_convs)

lemma PlanPass_derived:
  assumes "plan = PlanPass d g fg am planes sample options"
  shows "0 < pp_band_rows plan"
    and "pp_layer_chunks plan = max 1 (mul64 (max 1 (touched_along (pp_sample plan) (pp_u_length plan) (pp_chunk_u plan)))
           (max 1 (touched_along (pp_sample plan) (pp_v_length plan) (pp_chunk_v plan))))"
    and "pp_least_channels plan = add64 (pp_chunk_depth plan div rg_stride (pl_spectral planes))
           (of_bool (pp_chunk_depth plan mod rg_stride (pl_spectral planes) \<noteq> 0))"
    and "pp_apply_mask plan = AppliesPixelMask options d"
  unfolding assms by (simp_all only: PlanPass_def UnitsAffordable_def ReadCost_Of_def Let_def PassPlan.select_convs ReadCost.select_convs)

lemma distinct_roles: "distinct (map f xs) \<Longrightarrow> distinct xs"
  by (simp add: distinct_map)

lemma PlanPass_axes:
  assumes "MapAxes d = Inr am" and plan_def: "plan = PlanPass d geometry flag_geometry am planes sample options"
  shows "distinct (plan_axes plan) \<and> (\<forall>i \<in> set (plan_axes plan). i < length (img_axes d))"
proof -
  note roles = MapAxes_axes [OF assms(1)]
  have am: "pp_map plan = am" by (simp only: plan_def PlanPass_sel)
  have uv: "pp_axis_u plan = am_x am \<and> pp_axis_v plan = am_y am \<or> pp_axis_u plan = am_y am \<and> pp_axis_v plan = am_x am"
    by (simp add: plan_def PlanPass_sel)
  have "distinct (map (\<lambda>i. ax_role (img_axes d ! i)) (plan_axes plan))"
    using uv roles by (elim disjE) (simp_all add: plan_axes_def am)
  then have "distinct (plan_axes plan)" by (rule distinct_roles)
  moreover have "\<forall>i \<in> set (plan_axes plan). i < length (img_axes d)"
    using uv roles by (elim disjE) (auto simp add: plan_axes_def am split: if_splits)
  ultimately show ?thesis by blast
qed

lemma PlanPass_ok:
  fixes options :: "'w ReadOptions"
  assumes "descriptor_ok d" and "MapAxes d = Inr am" and "geometry_fits geometry"
    and "length (chunk_shape geometry) = length (img_axes d)" and "CheckedPlanes_Of d am planes = Inr planes'" and "sample < two64"
  shows "plan_ok (PlanPass d geometry flag_geometry am planes' sample options)" (is "plan_ok ?plan")
proof -
  note axes = PlanPass_axes [OF assms(2) refl, of geometry flag_geometry planes' sample options]
  have chunk: "max 1 (chunk_shape geometry ! i) < two64" if "i < length (img_axes d)" for i
    using that assms(3,4) by (simp add: geometry_fits_def)
  have planes: "planes_ok d am planes'" using CheckedPlanes_iff [of d am planes planes'] assms(5) by simp
  have fields: "pp_descriptor ?plan = d" "pp_map ?plan = am" "pp_planes ?plan = planes'" "pp_sample ?plan = max 1 sample"
    "pp_u_length ?plan = ax_length (img_axes d ! pp_axis_u ?plan)" "pp_v_length ?plan = ax_length (img_axes d ! pp_axis_v ?plan)"
    "pp_chunk_u ?plan = max 1 (chunk_shape geometry ! pp_axis_u ?plan)" "pp_chunk_v ?plan = max 1 (chunk_shape geometry ! pp_axis_v ?plan)"
    "pp_chunk_depth ?plan = max 1 (chunk_shape geometry ! am_spectral am)"
    by (rule PlanPass_sel)+
  have "pp_axis_u ?plan \<in> set (plan_axes ?plan)" "pp_axis_v ?plan \<in> set (plan_axes ?plan)" "am_spectral am \<in> set (plan_axes ?plan)"
    by (simp_all only: plan_axes_def fields(2) set_append list.set insert_iff Un_iff simp_thms)
  then have in_range: "pp_axis_u ?plan < length (img_axes d)" "pp_axis_v ?plan < length (img_axes d)" "am_spectral am < length (img_axes d)"
    using axes by blast+
  have chunks: "0 < pp_chunk_u ?plan" "pp_chunk_u ?plan < two64" "0 < pp_chunk_v ?plan" "pp_chunk_v ?plan < two64"
    "0 < pp_chunk_depth ?plan" "pp_chunk_depth ?plan < two64" "0 < max 1 sample" "max 1 sample < two64"
    using in_range [THEN chunk] assms(6) by (simp_all only: fields)
  note band = PlanPass_derived(1) [OF refl, of d geometry flag_geometry am planes' sample options]
  show ?thesis unfolding plan_ok_def Let_def fields(1-4)
    by (intro conjI) (fact assms(1) axes [THEN conjunct1] axes [THEN conjunct2] fields chunks band planes)+
qed

section \<open>Channels of a pass\<close>

text \<open>A channel range inside the pass's selection.\<close>

definition channels_ok :: "PassPlan \<Rightarrow> nat \<Rightarrow> nat \<Rightarrow> bool" where
  "channels_ok plan begin end' \<longleftrightarrow> plan_ok plan \<and> begin \<le> end' \<and> end' \<le> rg_count (pl_spectral (pp_planes plan))"

abbreviation spectral_start :: "PassPlan \<Rightarrow> nat" where "spectral_start plan \<equiv> rg_start (pl_spectral (pp_planes plan))"
abbreviation spectral_stride :: "PassPlan \<Rightarrow> nat" where "spectral_stride plan \<equiv> rg_stride (pl_spectral (pp_planes plan))"
abbreviation channel_chunk :: "PassPlan \<Rightarrow> nat \<Rightarrow> nat" where
  "channel_chunk plan \<equiv> chunk_at (spectral_start plan) (spectral_stride plan) (pp_chunk_depth plan)"

lemma channels_ok_bounds:
  assumes "channels_ok plan begin end'"
  shows "0 < spectral_stride plan" and "0 < pp_chunk_depth plan" and "pp_chunk_depth plan < two64"
    and "end' \<le> max_extent" and "spectral_start plan + (end' - 1) * spectral_stride plan < max_extent"
proof -
  let ?r = "pl_spectral (pp_planes plan)" and ?d = "pp_descriptor plan"
  have len: "ax_length (img_axes ?d ! am_spectral (pp_map plan)) < max_extent"
    using assms by (simp add: channels_ok_def plan_ok_def plan_axes_def descriptor_ok_def Let_def)
  have fit: "range_fits ?r (ax_length (img_axes ?d ! am_spectral (pp_map plan)))"
    using assms by (simp add: channels_ok_def plan_ok_def planes_ok_def Let_def)
  then have last: "spectral_start plan + (rg_count ?r - 1) * spectral_stride plan < max_extent" and pos: "0 < spectral_stride plan"
    using len by (auto simp: range_fits_def range_at_def)
  show "0 < spectral_stride plan" by (rule pos)
  show "0 < pp_chunk_depth plan" "pp_chunk_depth plan < two64" using assms by (auto simp: channels_ok_def plan_ok_def Let_def)
  have le: "end' \<le> rg_count ?r" using assms by (simp add: channels_ok_def)
  have "rg_count ?r < max_extent" using range_fits_small [OF fit len] by blast
  then show "end' \<le> max_extent" using le by linarith
  have "(end' - 1) * spectral_stride plan \<le> (rg_count ?r - 1) * spectral_stride plan" using le by (intro mult_right_mono) auto
  then show "spectral_start plan + (end' - 1) * spectral_stride plan < max_extent" using last by linarith
qed

lemma channels_ok_sub: "channels_ok plan a c \<Longrightarrow> a \<le> x \<Longrightarrow> x \<le> y \<Longrightarrow> y \<le> c \<Longrightarrow> channels_ok plan x y"
  by (simp add: channels_ok_def)

lemma AlignedSlabEnd_exact:
  assumes "channels_ok plan begin end'" and "begin < end'" and "begin = 0 \<or> desired < end'" and "desired < two64"
  shows "AlignedSlabEnd plan begin desired end' =
    aligned_end begin desired end' (spectral_start plan) (spectral_stride plan) (pp_chunk_depth plan)"
  using AlignedBlockEnd_exact [of "spectral_stride plan" "pp_chunk_depth plan" "begin" end' "spectral_start plan" desired]
    channels_ok_bounds [OF assms(1)] assms(2-4) by (simp add: AlignedSlabEnd_def Let_def)

text \<open>The chunks along the spectrum that a run of channels touches, counted without wrapping.\<close>

lemma plan_ChunksTouched_card:
  assumes "channels_ok plan begin end'"
  shows "plan_ChunksTouched plan begin end' = card (channel_chunk plan ` {begin..<end'})"
proof (cases "begin = end'")
  case True
  have "end' < two64" using channels_ok_bounds(4) [OF assms] by linarith
  then show ?thesis using True by (simp add: plan_ChunksTouched_def ChunksTouched_def sub64_exact Let_def)
next
  case False
  let ?s = "spectral_start plan" and ?t = "spectral_stride plan" and ?c = "pp_chunk_depth plan"
  note b = channels_ok_bounds [OF assms]
  have be: "begin < end'" using assms False by (simp add: channels_ok_def)
  then have "begin * ?t \<le> (end' - 1) * ?t" by (intro mult_right_mono) auto
  then have small: "?s + begin * ?t < max_extent" using b(5) by linarith
  then have "mul64 begin ?t = begin * ?t" by (intro mul64_exact) linarith
  then have start: "add64 ?s (mul64 begin ?t) = ?s + begin * ?t" using small by (simp add: add64_exact)
  have n: "sub64 end' begin = end' - begin" using be b(4) by (intro sub64_exact) auto
  have "begin * ?t + (end' - begin - 1) * ?t = (end' - 1) * ?t"
    using be by (simp flip: distrib_right)
  then have "?s + begin * ?t + (end' - begin - 1) * ?t < two64" using b(5) by linarith
  then have "plan_ChunksTouched plan begin end' = card (chunks_of (?s + begin * ?t) (end' - begin) ?t ?c)"
    using b be n start by (simp add: plan_ChunksTouched_def ChunksTouched_card Let_def)
  moreover have "chunks_of (?s + begin * ?t) (end' - begin) ?t ?c = channel_chunk plan ` {begin..<end'}"
  proof -
    have "channel_chunk plan ` {begin..<end'} = channel_chunk plan ` ((+) begin ` {..<end' - begin})"
      using be by (simp add: lessThan_atLeast0 image_add_atLeastLessThan)
    then show ?thesis by (simp add: chunks_of_def chunk_at_def image_image algebra_simps)
  qed
  ultimately show ?thesis by simp
qed

section \<open>What a slab and a block cost\<close>

lemma chunk_at_span:
  assumes "0 < chunk" and "i \<le> j" and "(j - i) * stride < k * chunk"
  shows "chunk_at start stride chunk j \<le> chunk_at start stride chunk i + k"
proof -
  have "start + j * stride = start + i * stride + (j - i) * stride"
    using assms(2) by (metis add.assoc add_mult_distrib le_add_diff_inverse)
  also have "\<dots> \<le> start + i * stride + k * chunk" using assms(3) by simp
  finally have "(start + j * stride) div chunk \<le> (start + i * stride + k * chunk) div chunk" by (rule div_le_mono)
  then show ?thesis using assms(1) by (simp add: chunk_at_def)
qed

lemma card_channel_chunks:
  assumes "begin < end'"
  shows "card (channel_chunk plan ` {begin..<end'}) \<le> channel_chunk plan (end' - 1) - channel_chunk plan begin + 1"
proof -
  have "channel_chunk plan ` {begin..<end'} \<subseteq> {channel_chunk plan begin..channel_chunk plan (end' - 1)}"
    using chunk_at_mono by fastforce
  from card_mono [OF _ this] show ?thesis using assms by simp
qed

text \<open>
  The channels that fill one chunk take at least the chunk, and less than two of it unless each is a chunk apart.
\<close>

lemma least_channels_span:
  assumes "0 < stride" and "stride < depth"
  shows "ceil_div depth stride * stride < 2 * depth"
proof -
  have "ceil_div depth stride * stride \<le> depth div stride * stride + stride" by (simp add: ceil_div_def)
  also have "\<dots> \<le> depth + stride" using div_times_less_eq_dividend [of depth stride] by linarith
  finally show ?thesis using assms(2) by linarith
qed

definition slab_desired :: "PassPlan \<Rightarrow> u64 \<Rightarrow> SelectionChannel \<Rightarrow> SelectionChannel \<Rightarrow> u64" where
  "slab_desired plan footprint_chunks begin end' = min (SlabChannels plan footprint_chunks) (sub64 end' begin)"

lemma slab_desired_bounds:
  assumes "channels_ok plan begin end'" and "begin < end'"
  shows "1 \<le> slab_desired plan chunks begin end'" and "slab_desired plan chunks begin end' \<le> end' - begin"
    and "pp_least_channels plan = ceil_div (pp_chunk_depth plan) (spectral_stride plan) \<Longrightarrow>
      slab_desired plan chunks begin end' \<le>
        plan_UnitsAffordable plan chunks * ceil_div (pp_chunk_depth plan) (spectral_stride plan)"
proof -
  have "end' < two64" using channels_ok_bounds(4) [OF assms(1)] by linarith
  then have sub: "sub64 end' begin = end' - begin" using assms(2) by (intro sub64_exact) auto
  show "1 \<le> slab_desired plan chunks begin end'" "slab_desired plan chunks begin end' \<le> end' - begin"
    using assms(2) by (auto simp: slab_desired_def SlabChannels_def sub)
  assume least: "pp_least_channels plan = ceil_div (pp_chunk_depth plan) (spectral_stride plan)"
  have "mul64 a b \<le> a * b" for a b by (simp add: mul64_def)
  moreover have "1 \<le> plan_UnitsAffordable plan chunks" by (simp add: plan_UnitsAffordable_def UnitsAffordable_def)
  moreover have "1 \<le> ceil_div (pp_chunk_depth plan) (spectral_stride plan)"
    using less_ceil_div_iff [of "spectral_stride plan" 0 "pp_chunk_depth plan"] channels_ok_bounds [OF assms(1)] by simp
  ultimately have "SlabChannels plan chunks \<le> plan_UnitsAffordable plan chunks * ceil_div (pp_chunk_depth plan) (spectral_stride plan)"
    unfolding SlabChannels_def least by (metis max.boundedI mult_le_mono mult_1)
  then show "slab_desired plan chunks begin end' \<le> plan_UnitsAffordable plan chunks * ceil_div (pp_chunk_depth plan) (spectral_stride plan)"
    by (simp add: slab_desired_def)
qed

text \<open>One slab: it makes progress, ends on a chunk boundary or at the end, and touches few chunks of the spectrum.\<close>

lemma slab_end_spec:
  fixes chunks :: u64
  assumes "channels_ok plan begin end'" and "begin < end'"
  defines "e \<equiv> AlignedSlabEnd plan begin (slab_desired plan chunks begin end') end'"
  shows "begin < e" and "e \<le> end'" and "e = end' \<or> channel_chunk plan (e - 1) \<noteq> channel_chunk plan e"
    and "e \<le> begin + slab_desired plan chunks begin end' \<or> channel_chunk plan begin = channel_chunk plan (e - 1)"
proof -
  note d = slab_desired_bounds [OF assms(1,2), of chunks]
  have "e = aligned_end begin (slab_desired plan chunks begin end') end' (spectral_start plan) (spectral_stride plan) (pp_chunk_depth plan)"
    unfolding e_def using d channels_ok_bounds(4) [OF assms(1)] assms(2) by (intro AlignedSlabEnd_exact [OF assms(1,2)]) auto
  then have spec: "begin < e \<and> e \<le> end' \<and> (e = end' \<or> channel_chunk plan (e - 1) \<noteq> channel_chunk plan e) \<and>
     (e \<le> begin + max 1 (slab_desired plan chunks begin end') \<or> channel_chunk plan begin = channel_chunk plan (e - 1))"
    using aligned_end_spec channels_ok_bounds(1,2) [OF assms(1)] assms(2) by simp
  then show "begin < e" "e \<le> end'" "e = end' \<or> channel_chunk plan (e - 1) \<noteq> channel_chunk plan e"
    "e \<le> begin + slab_desired plan chunks begin end' \<or> channel_chunk plan begin = channel_chunk plan (e - 1)"
    using d(1) by (auto simp: max_def split: if_splits)
qed

lemma slab_touches_few:
  fixes chunks :: u64
  assumes "channels_ok plan begin end'" and "begin < end'" and "pp_least_channels plan = ceil_div (pp_chunk_depth plan) (spectral_stride plan)"
  defines "e \<equiv> AlignedSlabEnd plan begin (slab_desired plan chunks begin end') end'" and "n \<equiv> plan_UnitsAffordable plan chunks"
  shows "plan_ChunksTouched plan begin e \<le> (if pp_chunk_depth plan \<le> spectral_stride plan then n else 2 * n + 1)"
    and "spectral_stride plan dvd pp_chunk_depth plan \<Longrightarrow> plan_ChunksTouched plan begin e \<le> n + 1"
proof -
  let ?t = "spectral_stride plan" and ?c = "pp_chunk_depth plan"
  note e = slab_end_spec [OF assms(1,2), of chunks, folded e_def] and b = channels_ok_bounds [OF assms(1)]
  have n: "1 \<le> n" by (simp add: n_def plan_UnitsAffordable_def UnitsAffordable_def)
  have ok: "channels_ok plan begin e" using channels_ok_sub [OF assms(1)] e(1,2) by simp
  have span: "plan_ChunksTouched plan begin e \<le> channel_chunk plan (e - 1) - channel_chunk plan begin + 1"
    using plan_ChunksTouched_card [OF ok] card_channel_chunks [OF e(1)] by simp
  have few: "plan_ChunksTouched plan begin e \<le> k + 1" if "ceil_div ?c ?t * ?t \<le> m" "n * m \<le> k * ?c" for k m
  proof (cases "channel_chunk plan begin = channel_chunk plan (e - 1)")
    case False
    then have "e \<le> begin + n * ceil_div ?c ?t" using e(4) slab_desired_bounds(3) [OF assms(1,2,3), of chunks] unfolding n_def by linarith
    then have "e - 1 - begin + 1 \<le> n * ceil_div ?c ?t" using e(1) by linarith
    then have "(e - 1 - begin + 1) * ?t \<le> n * ceil_div ?c ?t * ?t" by (rule mult_right_mono) simp
    then have "(e - 1 - begin) * ?t + ?t \<le> n * ceil_div ?c ?t * ?t" by (simp only: distrib_right mult_1)
    also have "\<dots> \<le> n * m" using that(1) by (simp add: mult.assoc)
    finally have "(e - 1 - begin) * ?t < k * ?c" using that(2) b(1) by linarith
    then have "channel_chunk plan (e - 1) \<le> channel_chunk plan begin + k" using e(1) b(2) by (intro chunk_at_span) auto
    then show ?thesis using span by linarith
  qed (use span in simp)
  show "plan_ChunksTouched plan begin e \<le> n + 1" if "?t dvd ?c"
  proof (rule few [of ?c n])
    show "ceil_div ?c ?t * ?t \<le> ?c" using that by (simp add: ceil_div_def)
  qed simp
  show "plan_ChunksTouched plan begin e \<le> (if ?c \<le> ?t then n else 2 * n + 1)"
  proof (cases "?c \<le> ?t")
    case True
    then have one: "ceil_div ?c ?t = 1" using b(1,2) ceil_div_le_iff [of ?t ?c 1] less_ceil_div_iff [of ?t 0 ?c] by simp
    have "plan_ChunksTouched plan begin e \<le> e - begin"
      using plan_ChunksTouched_card [OF ok] card_image_le [of "{begin..<e}" "channel_chunk plan"] by simp
    moreover have "e - begin \<le> n \<or> channel_chunk plan begin = channel_chunk plan (e - 1)"
      using e(4) slab_desired_bounds(3) [OF assms(1,2,3), of chunks] n_def one by auto
    ultimately show ?thesis using True span n by auto
  next
    case False
    then have "ceil_div ?c ?t * ?t \<le> 2 * ?c" using least_channels_span [of ?t ?c] b(1) by simp
    then show ?thesis using few [of "2 * ?c" "2 * n"] False by simp
  qed
qed

lemma EmitChannels_bounds:
  assumes "0 < rg_count (pl_spectral (pp_planes plan))"
  shows "EmitChannels plan layer bytes hint \<le> rg_count (pl_spectral (pp_planes plan))"
    and "EmitChannels plan layer bytes hint * bytes \<le> max bytes kSpectralEmitBudgetBytes"
    and "hint \<noteq> 0 \<Longrightarrow> EmitChannels plan layer bytes hint \<le> hint"
proof -
  show "EmitChannels plan layer bytes hint \<le> rg_count (pl_spectral (pp_planes plan))"
    and "hint \<noteq> 0 \<Longrightarrow> EmitChannels plan layer bytes hint \<le> hint" by (simp_all add: EmitChannels_def Let_def)
  have "EmitChannels plan layer bytes hint \<le> max 1 (kSpectralEmitBudgetBytes div max 1 bytes)" by (simp add: EmitChannels_def Let_def)
  then have "EmitChannels plan layer bytes hint * bytes \<le> max 1 (kSpectralEmitBudgetBytes div max 1 bytes) * bytes" by (rule mult_right_mono) simp
  also have "\<dots> \<le> max bytes kSpectralEmitBudgetBytes"
  proof (cases "kSpectralEmitBudgetBytes div max 1 bytes \<le> 1")
    case False
    have "kSpectralEmitBudgetBytes div max 1 bytes * bytes \<le> kSpectralEmitBudgetBytes div max 1 bytes * max 1 bytes" by simp
    also have "\<dots> \<le> kSpectralEmitBudgetBytes" by (rule div_times_less_eq_dividend)
    finally show ?thesis using False by (simp add: max_def)
  qed (simp add: max_def)
  finally show "EmitChannels plan layer bytes hint * bytes \<le> max bytes kSpectralEmitBudgetBytes" .
qed

section \<open>Properties\<close>

text \<open>The example image with its axes mapped, and a selection of every other channel of it.\<close>

definition example_map :: AxisMap where
  "example_map = \<lparr>am_x = 0, am_y = 1, am_spectral = 2, am_has_polarization = False, am_polarization = 0, am_has_time = False, am_time = 0\<rparr>"

definition example_planes :: PlaneSelection where
  "example_planes = \<lparr>pl_spectral = mk_range 1 2 2, pl_polarization = 0, pl_time = 0\<rparr>"

definition example_plan :: "u64 \<Rightarrow> u64 \<Rightarrow> PassPlan" where
  "example_plan sample budget =
     PlanPass example_image example_geometry example_geometry example_map example_planes sample (example_options budget)"

lemma example_map_eq: "MapAxes example_image = Inr example_map"
  by (simp add: MapAxes_def example_image_def example_axis_def example_map_def empty_axis_map_def)

lemma example_planes_ok: "CheckedPlanes_Of example_image example_map example_planes = Inr example_planes"
  by (simp add: CheckedPlanes_Of_def example_image_def example_axis_def example_map_def example_planes_def mk_range_def)

lemma example_shape: "length (chunk_shape example_geometry) = length (img_axes example_image)"
  by (simp add: example_geometry_def example_image_def)

lemma example_plan_ok: "sample < two64 \<Longrightarrow> plan_ok (example_plan sample budget)"
  unfolding example_plan_def
  by (rule PlanPass_ok [OF example_image_ok example_map_eq example_geometry_fits example_shape example_planes_ok])

text \<open>
  A plane selection is accepted exactly when its spectral range lies inside the spectral axis, computed
  without wrapping, and its polarization and time name a plane of the image, zero on an axis the image does not have;
  anything else is refused as invalid_argument at the image.
\<close>

theorem CheckedPlanes_accepts_exactly:
  "case CheckedPlanes_Of d am planes of
     Inr planes' \<Rightarrow> planes' = planes \<and> planes_ok d am planes
   | Inl e \<Rightarrow> \<not> planes_ok d am planes \<and> err_code e = invalid_argument \<and> err_node_path e = img_id d"
proof (cases "CheckedPlanes_Of d am planes")
  case (Inl e)
  then show ?thesis using CheckedPlanes_iff [of d am planes planes] CheckedPlanes_code [OF Inl] by simp
next
  case (Inr planes')
  then show ?thesis using CheckedPlanes_iff [of d am planes planes'] by simp
qed



text \<open>
  What one read of a pass may decode: a slab makes progress, ends at a chunk boundary of the spectrum or at
  the end of the walk, and touches no more chunks along the spectrum than the read budget affords and one more when the
  stride divides the chunk, never more than twice that and one at any stride.
\<close>

theorem slab_cost_bounded:
  assumes "plan = PlanPass d geometry flag_geometry am planes sample options" and "channels_ok plan begin end'" and "begin < end'"
    and "e = AlignedSlabEnd plan begin (min (SlabChannels plan chunks) (sub64 end' begin)) end'"
    and "n = plan_UnitsAffordable plan chunks"
  shows "begin < e \<and> e \<le> end' \<and> (e = end' \<or> channel_chunk plan (e - 1) \<noteq> channel_chunk plan e) \<and>
    plan_ChunksTouched plan begin e \<le> 2 * n + 1 \<and>
    (spectral_stride plan dvd pp_chunk_depth plan \<longrightarrow> plan_ChunksTouched plan begin e \<le> n + 1) \<and>
    (n = 1 \<or> n * chunks * pp_chunk_bytes plan \<le> pp_slab_budget_bytes plan)"
proof -
  let ?c = "pp_chunk_depth plan" and ?t = "spectral_stride plan"
  have e: "e = AlignedSlabEnd plan begin (slab_desired plan chunks begin end') end'" by (simp add: assms(4) slab_desired_def)
  have fields: "pp_least_channels plan = add64 (?c div ?t) (of_bool (?c mod ?t \<noteq> 0))"
    unfolding PlanPass_derived(3) [OF assms(1)] by (simp only: assms(1) PlanPass_sel)
  have "ceil_div ?c ?t < two64" using ceil_div_le_self [of ?t ?c] channels_ok_bounds [OF assms(2)] by linarith
  then have least: "pp_least_channels plan = ceil_div ?c ?t" using fields by (simp add: add64_exact ceil_div_def)
  note few = slab_touches_few [OF assms(2,3) least, of chunks, folded e assms(5)]
  note spec = slab_end_spec [OF assms(2,3), of chunks, folded e]
  have cost: "n = 1 \<or> n * chunks * pp_chunk_bytes plan \<le> pp_slab_budget_bytes plan"
  proof (cases "n = 1")
    case False
    then have "n * max 1 chunks \<le> ChunksPerRead plan"
      using UnitsAffordable_fits [of "ChunksPerRead plan" chunks] by (simp add: assms(5) plan_UnitsAffordable_def)
    then have "n * chunks \<le> ChunksPerRead plan" using mult_le_mono2 [of chunks "max 1 chunks" n] by linarith
    then have "n * chunks * pp_chunk_bytes plan \<le> ChunksPerRead plan * max 1 (pp_chunk_bytes plan)" by (intro mult_mono) auto
    also have "\<dots> \<le> pp_slab_budget_bytes plan" unfolding ChunksPerRead_def by (rule div_times_less_eq_dividend)
    finally show ?thesis by simp
  qed simp
  have "plan_ChunksTouched plan begin e \<le> 2 * n + 1" using few(1) by (simp split: if_splits)
  then show ?thesis using few(2) spec cost by auto
qed

theorem slab_cost_bounded_witness:
  "AlignedSlabEnd (example_plan 1 160) 0 (min (SlabChannels (example_plan 1 160) 1) (sub64 2 0)) 2 = 2 \<and>
   plan_UnitsAffordable (example_plan 1 160) 1 = 2 \<and> plan_ChunksTouched (example_plan 1 160) 0 2 \<le> 2 * 2 + 1"
proof -
  have run: "channels_ok (example_plan 1 160) 0 2" using example_plan_ok [of 1 160]
    by (simp add: channels_ok_def) (simp add: example_plan_def PlanPass_sel example_planes_def)
  have e: "AlignedSlabEnd (example_plan 1 160) 0 (min (SlabChannels (example_plan 1 160) 1) (sub64 2 0)) 2 = 2"
    and n: "plan_UnitsAffordable (example_plan 1 160) 1 = 2" by code_simp+
  from slab_cost_bounded [OF example_plan_def run _ e [symmetric] n [symmetric]] show ?thesis using e n by simp
qed

text \<open>
  A stride that does not divide the chunk spends more than the budget affords, though no chunk is larger than it: of
  chunks four channels deep, a read of every third channel that affords three of them touches four.
\<close>

definition strided_plan :: PassPlan where
  "strided_plan =
     PlanPass (example_image \<lparr>img_axes := [example_axis ''l'' spatial_x 4 2, example_axis ''m'' spatial_y 4 1, example_axis ''frequency'' spectral 64 0]\<rparr>)
       (example_geometry \<lparr>chunk_shape := [4, 4, 4]\<rparr>) (example_geometry \<lparr>chunk_shape := [4, 4, 4]\<rparr>) example_map
       \<lparr>pl_spectral = mk_range 0 20 3, pl_polarization = 0, pl_time = 0\<rparr> 1 (example_options 1000)"

lemma strided_slab_exceeds_budget:
  "plan_UnitsAffordable strided_plan 1 = 3 \<and>
   AlignedSlabEnd strided_plan 0 (SlabChannels strided_plan 1) 20 = 6 \<and> plan_ChunksTouched strided_plan 0 6 = 4 \<and>
   plan_ChunksTouched strided_plan 0 6 * pp_chunk_bytes strided_plan = 1280 \<and> pp_slab_budget_bytes strided_plan = 1000"
  by code_simp

end
