(* ===== verification/Counting_Sort.thy ===== *)
theory Counting_Sort
  imports Prelude
begin

text \<open>
  The counting sort that \<open>AlongY\<close> of \<open>src/reduce/region_runs.cc\<close> puts edges into runs with and \<open>Occupancy::Of\<close> of
  \<open>src/reduce/occupancy.cc\<close> groups regions by chunk with: counts shifted by one, a running sum, and a cursor for each
  key. It is proved to be the stable grouping of the values by their keys.
\<close>

section \<open>The three loops\<close>

text \<open>
  A counting sort by key: how many of each key, where each key's values start, and each value put at the next place
  of its key. The order of the values with one key is kept.
\<close>

definition count_keys :: "nat \<Rightarrow> nat list \<Rightarrow> nat list" where
  "count_keys n keys = foldl (\<lambda>offsets key. offsets[key + 1 := offsets ! (key + 1) + 1]) (replicate (n + 1) 0) keys"

definition prefix_sums :: "nat \<Rightarrow> nat list \<Rightarrow> nat list" where
  "prefix_sums n offsets = foldl (\<lambda>offsets i. offsets[i + 1 := offsets ! (i + 1) + offsets ! i]) offsets [0..<n]"

fun place_values :: "(nat \<times> 'a) list \<Rightarrow> nat list \<Rightarrow> 'a list \<Rightarrow> 'a list" where
  "place_values [] cursor placed = placed"
| "place_values ((key, v) # rest) cursor placed =
     place_values rest (cursor[key := cursor ! key + 1]) (placed[cursor ! key := v])"

section \<open>What they compute\<close>

text \<open>The values with one key, in order.\<close>

definition bucket :: "(nat \<times> 'a) list \<Rightarrow> nat \<Rightarrow> 'a list" where
  "bucket kvs b = map snd (filter (\<lambda>(k, v). k = b) kvs)"

definition bucket_start :: "(nat \<times> 'a) list \<Rightarrow> nat \<Rightarrow> nat" where
  "bucket_start kvs b = (\<Sum>c < b. length (bucket kvs c))"

lemma bucket_Nil [simp]: "bucket [] b = []"
  by (simp add: bucket_def)

lemma bucket_snoc: "bucket (kvs @ [(k, v)]) b = (if k = b then bucket kvs b @ [v] else bucket kvs b)"
  by (simp add: bucket_def)

lemma bucket_append: "bucket (xs @ ys) b = bucket xs b @ bucket ys b"
  by (simp add: bucket_def)

lemma bucket_start_Suc [simp]: "bucket_start kvs (Suc b) = bucket_start kvs b + length (bucket kvs b)"
  by (simp add: bucket_start_def)

lemma bucket_start_0 [simp]: "bucket_start kvs 0 = 0"
  by (simp add: bucket_start_def)

lemma bucket_start_mono: "a \<le> b \<Longrightarrow> bucket_start kvs a \<le> bucket_start kvs b"
  unfolding bucket_start_def by (intro sum_mono2) auto

lemma count_keys_snoc:
  "count_keys n (keys @ [k]) = (count_keys n keys)[k + 1 := count_keys n keys ! (k + 1) + 1]"
  by (simp add: count_keys_def)

lemma length_count_keys [simp]: "length (count_keys n keys) = n + 1"
  by (induction keys rule: rev_induct) (simp_all add: count_keys_snoc, simp add: count_keys_def)

lemma count_keys_nth:
  "\<forall>k \<in> set (map fst kvs). k < n \<Longrightarrow> i \<le> n \<Longrightarrow>
   count_keys n (map fst kvs) ! i = (case i of 0 \<Rightarrow> 0 | Suc b \<Rightarrow> length (bucket kvs b))"
proof (induction kvs rule: rev_induct)
  case Nil
  then show ?case by (simp add: count_keys_def split: nat.split)
next
  case (snoc kv kvs)
  obtain k v where kv: "kv = (k, v)" by (cases kv)
  then show ?case using snoc by (auto simp: count_keys_snoc bucket_snoc nth_list_update split: nat.split)
qed

lemma prefix_sums_nth:
  "m \<le> n \<Longrightarrow> length xs = n + 1 \<Longrightarrow>
   length (prefix_sums m xs) = n + 1 \<and> (\<forall>i \<le> n. prefix_sums m xs ! i = (if i \<le> m then \<Sum>j \<le> i. xs ! j else xs ! i))"
proof (induction m)
  case 0
  then show ?case by (simp add: prefix_sums_def)
next
  case (Suc m)
  then have IH: "length (prefix_sums m xs) = n + 1"
    "\<forall>i \<le> n. prefix_sums m xs ! i = (if i \<le> m then \<Sum>j \<le> i. xs ! j else xs ! i)" by auto
  have "prefix_sums (Suc m) xs = (prefix_sums m xs)[m + 1 := prefix_sums m xs ! (m + 1) + prefix_sums m xs ! m]"
    by (simp add: prefix_sums_def)
  then show ?case using IH Suc.prems by (auto simp: nth_list_update le_Suc_eq)
qed

lemma offsets_nth:
  assumes "\<forall>k \<in> set (map fst kvs). k < n" and "i \<le> n"
  shows "prefix_sums n (count_keys n (map fst kvs)) ! i = bucket_start kvs i"
    and "length (prefix_sums n (count_keys n (map fst kvs))) = n + 1"
proof -
  have "(\<Sum>j \<le> i. count_keys n (map fst kvs) ! j) = bucket_start kvs i"
    using assms(2)
  proof (induction i)
    case 0
    then show ?case using count_keys_nth [OF assms(1), of 0] by simp
  next
    case (Suc i)
    then show ?case using count_keys_nth [OF assms(1), of "Suc i"] by simp
  qed
  then show "prefix_sums n (count_keys n (map fst kvs)) ! i = bucket_start kvs i"
    and "length (prefix_sums n (count_keys n (map fst kvs))) = n + 1"
    using prefix_sums_nth [of n n "count_keys n (map fst kvs)"] assms(2) by simp_all
qed

lemma offsets_eq:
  assumes "\<forall>k \<in> set (map fst kvs). k < n"
  shows "prefix_sums n (count_keys n (map fst kvs)) = map (bucket_start kvs) [0..<n + 1]"
proof (rule nth_equalityI)
  show len: "length (prefix_sums n (count_keys n (map fst kvs))) = length (map (bucket_start kvs) [0..<n + 1])"
    using offsets_nth(2) [OF assms le_refl] by simp
  fix i assume "i < length (prefix_sums n (count_keys n (map fst kvs)))"
  then have "i \<le> n" using len by simp
  then show "prefix_sums n (count_keys n (map fst kvs)) ! i = map (bucket_start kvs) [0..<n + 1] ! i"
    using offsets_nth(1) [OF assms] by (simp del: upt_Suc)
qed

text \<open>
  What placing keeps: the places of a key are its own, from where its values start, and the ones filled so far hold
  its values in order.
\<close>

lemma place_values_inv:
  assumes "kvs = pre @ post" and "length cursor = n" and "\<forall>k \<in> set (map fst kvs). k < n"
    and "\<forall>b < n. cursor ! b = bucket_start kvs b + length (bucket pre b)"
    and "length placed = bucket_start kvs n"
    and "\<forall>b < n. \<forall>j < length (bucket pre b). placed ! (bucket_start kvs b + j) = bucket pre b ! j"
  shows "length (place_values post cursor placed) = bucket_start kvs n \<and>
    (\<forall>b < n. \<forall>j < length (bucket kvs b). place_values post cursor placed ! (bucket_start kvs b + j) = bucket kvs b ! j)"
  using assms
proof (induction post arbitrary: pre cursor placed)
  case Nil
  then show ?case by simp
next
  case (Cons kv post)
  obtain k v where kv: "kv = (k, v)" by (cases kv)
  have k: "k < n" using Cons.prems(1,3) kv by simp
  let ?at = "bucket_start kvs k + length (bucket pre k)"
  have at: "cursor ! k = ?at" using Cons.prems(4) k by simp
  have more: "length (bucket pre k) < length (bucket kvs k)"
    unfolding Cons.prems(1) kv by (simp add: bucket_def)
  have fewer: "length (bucket pre b) \<le> length (bucket kvs b)" for b unfolding Cons.prems(1) by (simp add: bucket_append)
  have room: "bucket_start kvs (Suc b) \<le> bucket_start kvs n" if "b < n" for b using that by (intro bucket_start_mono) simp
  have "placed[?at := v] ! (bucket_start kvs b + j) = bucket (pre @ [(k, v)]) b ! j"
    if b: "b < n" and j: "j < length (bucket (pre @ [(k, v)]) b)" for b j
  proof (cases "b = k \<and> j = length (bucket pre k)")
    case True
    then show ?thesis using room [OF k] more Cons.prems(5) by (simp add: bucket_snoc)
  next
    case False
    then have j': "j < length (bucket pre b)" using j by (auto simp: bucket_snoc split: if_splits)
    have "bucket_start kvs b + j \<noteq> ?at"
    proof (cases b k rule: linorder_cases)
      case less
      then have "bucket_start kvs (Suc b) \<le> bucket_start kvs k" by (intro bucket_start_mono) simp
      then show ?thesis using j' fewer [of b] by simp
    next
      case equal
      then show ?thesis using False by simp
    next
      case greater
      then have "bucket_start kvs (Suc k) \<le> bucket_start kvs b" by (intro bucket_start_mono) simp
      then show ?thesis using more by simp
    qed
    then show ?thesis using Cons.prems(6) b j' by (auto simp: bucket_snoc nth_append)
  qed
  then have "length (place_values post (cursor[k := ?at + 1]) (placed[?at := v])) = bucket_start kvs n \<and>
      (\<forall>b < n. \<forall>j < length (bucket kvs b).
        place_values post (cursor[k := ?at + 1]) (placed[?at := v]) ! (bucket_start kvs b + j) = bucket kvs b ! j)"
    using Cons.prems kv k by (intro Cons.IH [of "pre @ [(k, v)]"]) (auto simp: bucket_snoc nth_list_update)
  then show ?case using at kv by simp
qed

lemma segments_concat:
  "length xs = (\<Sum>c < n. length (S c)) \<Longrightarrow>
   \<forall>b < n. \<forall>j < length (S b). xs ! ((\<Sum>c < b. length (S c)) + j) = S b ! j \<Longrightarrow> xs = concat (map S [0..<n])"
proof (induction n arbitrary: xs)
  case (Suc n)
  let ?m = "\<Sum>c < n. length (S c)"
  have "take ?m xs = concat (map S [0..<n])"
  proof (rule Suc.IH)
    show "length (take ?m xs) = ?m" using Suc.prems(1) by simp
    show "\<forall>b < n. \<forall>j < length (S b). take ?m xs ! ((\<Sum>c < b. length (S c)) + j) = S b ! j"
    proof (intro allI impI)
      fix b j assume bj: "b < n" "j < length (S b)"
      have "(\<Sum>c < Suc b. length (S c)) \<le> ?m" using bj by (intro sum_mono2) auto
      then show "take ?m xs ! ((\<Sum>c < b. length (S c)) + j) = S b ! j" using Suc.prems(2) bj by simp
    qed
  qed
  moreover have "drop ?m xs = S n" using Suc.prems by (intro nth_equalityI) auto
  ultimately have "take ?m xs @ drop ?m xs = concat (map S [0..<Suc n])" by simp
  then show ?case by (simp only: append_take_drop_id)
qed simp

lemma bucket_start_total:
  assumes "\<forall>k \<in> set (map fst kvs). k < n"
  shows "bucket_start kvs n = length kvs"
proof -
  have "(\<Sum>b < n. length (filter (\<lambda>(k, v). k = b) kvs)) = length kvs" using assms
  proof (induction kvs)
    case (Cons kv kvs)
    obtain k v where kv: "kv = (k, v)" by (cases kv)
    have "(\<Sum>b < n. length (filter (\<lambda>(k, v). k = b) (kv # kvs))) =
        (\<Sum>b < n. of_bool (k = b) + length (filter (\<lambda>(k, v). k = b) kvs))" unfolding kv by (intro sum.cong) auto
    also have "\<dots> = (\<Sum>b < n. of_bool (k = b)) + length kvs" using Cons by (simp add: sum.distrib)
    also have "(\<Sum>b < n. of_bool (k = b)) = (1::nat)" using Cons.prems kv by (simp add: of_bool_def)
    finally show ?case by simp
  qed simp
  then show ?thesis by (simp add: bucket_start_def bucket_def)
qed

text \<open>The sort is the stable grouping of the values by key, and the offsets say where each group starts.\<close>

lemma place_values_groups:
  assumes "\<forall>k \<in> set (map fst kvs). k < n" and "m = length kvs"
  shows "place_values kvs (butlast (prefix_sums n (count_keys n (map fst kvs)))) (replicate m z) =
    concat (map (bucket kvs) [0..<n])"
proof -
  note total = bucket_start_total [OF assms(1)]
  let ?c = "butlast (prefix_sums n (count_keys n (map fst kvs)))"
  have c: "length ?c = n" "\<forall>b < n. ?c ! b = bucket_start kvs b"
    unfolding offsets_eq [OF assms(1)] by (simp_all add: nth_butlast del: upt_Suc)
  have "length (place_values kvs ?c (replicate m z)) = bucket_start kvs n \<and>
    (\<forall>b < n. \<forall>j < length (bucket kvs b). place_values kvs ?c (replicate m z) ! (bucket_start kvs b + j) = bucket kvs b ! j)"
    using c assms total by (intro place_values_inv [of kvs "[]" kvs]) auto
  then show ?thesis by (intro segments_concat) (simp_all add: bucket_start_def)
qed

end
