(* ===== verification/Region_Runs.thy ===== *)
theory Region_Runs
  imports Types Counting_Sort
begin

text \<open>
  \<open>src/reduce/region_runs.h\<close> and \<open>region_runs.cc\<close>: a region's raster turned into the runs a reduction walks, along x
  by scanning rows and along y by collecting the edges between consecutive rows and counting-sorting them by column,
  both eight bytes at a time where nothing changes. The two encoders are proved equal to one specification, the edges
  of each line, from which the selected pixels are recovered exactly.
\<close>

unbundle bit_operations_syntax

section \<open>Eight bytes at once\<close>

definition kLeastPixelsPerRun :: u64 where "kLeastPixelsPerRun = 16"
definition kLowBits :: "64 word" where "kLowBits = 0x0101010101010101"
definition kHighBits :: "64 word" where "kHighBits = 0x8080808080808080"

text \<open>The eight bytes from a position of a row as the word they make in memory, the first byte lowest.\<close>

fun bytes_int :: "u8 list \<Rightarrow> int" where
  "bytes_int [] = 0"
| "bytes_int (b # bs) = uint b + 256 * bytes_int bs"

definition Word_at :: "u8 list \<Rightarrow> nat \<Rightarrow> 64 word" where
  "Word_at row x = word_of_int (bytes_int (take 8 (drop x row)))"

definition NoZeroByte :: "64 word \<Rightarrow> bool" where
  "NoZeroByte word \<longleftrightarrow> (word - kLowBits) AND NOT word AND kHighBits = 0"

section \<open>Runs\<close>

record RegionRuns =
  rr_runs :: "nat list"
  rr_offsets :: "u64 list"

definition Discard :: RegionRuns where
  "Discard = \<lparr>rr_runs = [], rr_offsets = []\<rparr>"

text \<open>The conversion to 32 bits a run is stored with.\<close>

definition u32 :: "nat \<Rightarrow> nat" where
  "u32 n = n mod 4294967296"

subsection \<open>Along x\<close>

text \<open>One row scanned from \<open>x\<close> on; \<open>runs\<close> is what the rows before it and this one so far have added.\<close>

function AlongX_row :: "u8 list \<Rightarrow> nat \<Rightarrow> nat \<Rightarrow> bool \<Rightarrow> nat \<Rightarrow> nat list \<Rightarrow> nat list" where
  "AlongX_row row width x inside first runs =
     (if x < width
      then
        if x + 8 \<le> width \<and> (if inside then NoZeroByte (Word_at row x) else Word_at row x = 0)
        then AlongX_row row width (x + 8) inside first runs
        else
          let selected = (row ! x \<noteq> 0)
          in if selected \<noteq> inside
             then if selected then AlongX_row row width (x + 1) selected x runs
                  else AlongX_row row width (x + 1) selected first (runs @ [u32 first, u32 x])
             else AlongX_row row width (x + 1) inside first runs
      else if inside then runs @ [u32 first, u32 width] else runs)"
  by pat_completeness auto
termination by (relation "measure (\<lambda>(row, width, x, _). width - x)") auto

declare AlongX_row.simps [simp del]

definition row_at :: "u8 list \<Rightarrow> nat \<Rightarrow> nat \<Rightarrow> u8 list" where
  "row_at raster width y = take width (drop (y * width) raster)"

fun AlongX_rows :: "u8 list \<Rightarrow> nat \<Rightarrow> u64 \<Rightarrow> nat list \<Rightarrow> RegionRuns \<Rightarrow> bool \<times> RegionRuns" where
  "AlongX_rows raster width most_runs [] into = (True, into)"
| "AlongX_rows raster width most_runs (y # ys) into =
     (let runs = AlongX_row (row_at raster width y) width 0 False 0 (rr_runs into)
      in if most_runs < length runs div 2 then (False, Discard)
         else AlongX_rows raster width most_runs ys
                \<lparr>rr_runs = runs, rr_offsets = rr_offsets into @ [length runs div 2]\<rparr>)"

definition AlongX :: "u8 list \<Rightarrow> nat \<Rightarrow> nat \<Rightarrow> u64 \<Rightarrow> bool \<times> RegionRuns" where
  "AlongX raster width height most_runs =
     AlongX_rows raster width most_runs [0..<height] \<lparr>rr_runs = [], rr_offsets = [0]\<rparr>"

subsection \<open>Along y\<close>

text \<open>The edges, as columns and rows, that a row adds against the row above it.\<close>

function AlongY_row :: "u8 list \<Rightarrow> u8 list \<Rightarrow> nat \<Rightarrow> nat \<Rightarrow> nat \<Rightarrow> (nat \<times> nat) list \<Rightarrow> (nat \<times> nat) list" where
  "AlongY_row row prev width y x edges =
     (if x < width
      then if x + 8 \<le> width \<and> Word_at row x = Word_at prev x
           then AlongY_row row prev width y (x + 8) edges
           else AlongY_row row prev width y (x + 1)
                  (if (row ! x \<noteq> 0) \<noteq> (prev ! x \<noteq> 0) then edges @ [(u32 x, u32 y)] else edges)
      else edges)"
  by pat_completeness auto
termination by (relation "measure (\<lambda>(row, prev, width, y, x, _). width - x)") auto

declare AlongY_row.simps [simp del]

fun AlongY_rows :: "u8 list \<Rightarrow> nat \<Rightarrow> nat \<Rightarrow> u64 \<Rightarrow> nat list \<Rightarrow> u8 list \<Rightarrow> (nat \<times> nat) list \<Rightarrow> (nat \<times> nat) list option" where
  "AlongY_rows raster width height most_edges [] prev edges = Some edges"
| "AlongY_rows raster width height most_edges (y # ys) prev edges =
     (let row = (if y < height then row_at raster width y else replicate width 0);
          edges = AlongY_row row prev width y 0 edges
      in if most_edges < length edges then None
         else AlongY_rows raster width height most_edges ys row edges)"

definition AlongY :: "u8 list \<Rightarrow> nat \<Rightarrow> nat \<Rightarrow> u64 \<Rightarrow> bool \<times> RegionRuns" where
  "AlongY raster width height most_runs =
     (case AlongY_rows raster width height (mul64 2 most_runs) [0..<height + 1] (replicate width 0) [] of
        None \<Rightarrow> (False, Discard)
      | Some edges \<Rightarrow>
          let offsets = prefix_sums width (count_keys width (map fst edges));
              runs = place_values edges (butlast offsets) (replicate (length edges) 0)
          in (True, \<lparr>rr_runs = runs, rr_offsets = map (\<lambda>offset. offset div 2) offsets\<rparr>))"

definition RunsAlongU :: "u8 list \<Rightarrow> u64 \<Rightarrow> u64 \<Rightarrow> bool \<Rightarrow> bool \<times> RegionRuns" where
  "RunsAlongU raster width height u_is_x =
     (let lines = (if u_is_x then height else width)
      in if 4294967295 < max width height then (False, Discard)
         else
           let most_runs = max lines (mul64 width height div kLeastPixelsPerRun);
               (taken, into) = (if u_is_x then AlongX raster width height most_runs else AlongY raster width height most_runs)
           in if \<not> taken then (taken, Discard) else (taken, into))"

section \<open>The words\<close>

lemma bytes_int_bounds: "0 \<le> bytes_int bs \<and> bytes_int bs < 256 ^ length bs"
proof (induction bs)
  case (Cons b bs)
  have "uint b < 256" "0 \<le> uint b" using uint_lt2p [of b] by simp_all
  then show ?case using Cons by simp
qed simp

lemma uint_byte: "0 \<le> uint (b :: u8) \<and> uint b < 256"
  using uint_lt2p [of b] by simp

lemma byte_split:
  fixes a a' w w' :: int
  assumes "a + 256 * w = a' + 256 * w'" and "0 \<le> a" and "a < 256" and "0 \<le> a'" and "a' < 256"
  shows "a = a' \<and> w = w'"
proof -
  have "(x + 256 * q) mod 256 = x" if "0 \<le> x" "x < 256" for x q :: int
    using that by (intro int_mod_pos_eq [where q = q]) auto
  then have "(a + 256 * w) mod 256 = a" "(a' + 256 * w') mod 256 = a'" using assms(2-5) by blast+
  then have "a = a'" using assms(1) by metis
  then show ?thesis using assms(1) by simp
qed

text \<open>How the lowest byte of a number and the rest of it divide, for the two lemmas on the test.\<close>

lemma byte_div:
  fixes a w l :: int
  assumes "1 \<le> a" and "a < 256"
  shows "(a + 256 * w - (1 + 256 * l)) div 256 = w - l" and "(- (a + 256 * w) - 1) div 256 = - w - 1"
    and "odd ((a + 256 * w - (1 + 256 * l)) div 128) \<Longrightarrow> odd ((a + 256 * w) div 128)"
proof -
  show "(a + 256 * w - (1 + 256 * l)) div 256 = w - l"
    using assms by (intro int_div_pos_eq [where r = "a - 1"]) auto
  show "(- (a + 256 * w) - 1) div 256 = - w - 1"
    using assms by (intro int_div_pos_eq [where r = "255 - a"]) auto
  assume odd: "odd ((a + 256 * w - (1 + 256 * l)) div 128)"
  have "129 \<le> a"
  proof (rule ccontr)
    assume "\<not> 129 \<le> a"
    then have "(a + 256 * w - (1 + 256 * l)) div 128 = 2 * (w - l)"
      using assms by (intro int_div_pos_eq [where r = "a - 1"]) auto
    then show False using odd by simp
  qed
  then have "(a + 256 * w) div 128 = 2 * w + 1" using assms by (intro int_div_pos_eq [where r = "a - 128"]) auto
  then show "odd ((a + 256 * w) div 128)" by simp
qed

lemma zero_byte_div:
  fixes w l :: int
  shows "odd ((256 * w - (1 + 256 * l)) div 128)" and "even (256 * w div 128)" and "odd (128 * (1 + 256 * l) div 128)"
    and "128 * (1 + 256 * l) div 256 = 128 * l" and "128 * (1 + 256 * l) mod 256 = 128"
proof -
  have "(256 * w - (1 + 256 * l)) div 128 = 2 * (w - l - 1) + 1" by (intro int_div_pos_eq [where r = 127]) auto
  then show "odd ((256 * w - (1 + 256 * l)) div 128)" by simp
  have "256 * w div 128 = 2 * w" by (intro int_div_pos_eq [where r = 0]) auto
  then show "even (256 * w div 128)" by simp
  have "128 * (1 + 256 * l) div 128 = 1 + 256 * l" by (intro int_div_pos_eq [where r = 0]) auto
  then show "odd (128 * (1 + 256 * l) div 128)" by simp
  show "128 * (1 + 256 * l) div 256 = 128 * l" by (intro int_div_pos_eq [where r = 128]) auto
  show "128 * (1 + 256 * l) mod 256 = 128" by (intro int_mod_pos_eq [where q = "128 * l"]) auto
qed

lemma bytes_int_inject: "length bs = length bs' \<Longrightarrow> bytes_int bs = bytes_int bs' \<Longrightarrow> bs = bs'"
proof (induction bs bs' rule: list_induct2)
  case (Cons b bs b' bs')
  have "uint b + 256 * bytes_int bs = uint b' + 256 * bytes_int bs'" using Cons.prems by simp
  then have "uint b = uint b' \<and> bytes_int bs = bytes_int bs'" using uint_byte by (intro byte_split) auto
  then show ?case using Cons.IH by (simp add: word_uint_eq_iff)
qed simp

lemma bytes_int_zero: "bytes_int bs = 0 \<longleftrightarrow> (\<forall>b \<in> set bs. b = 0)"
proof (induction bs)
  case (Cons b bs)
  have "uint b + 256 * bytes_int bs = 0 \<longleftrightarrow> uint b = 0 \<and> bytes_int bs = 0"
    using uint_byte [of b] bytes_int_bounds [of bs] by linarith
  then show ?case using Cons by (simp add: uint_0_iff)
qed simp

text \<open>The low bit of each of \<open>n\<close> bytes, and the test on integers, where subtracting does not wrap.\<close>

fun low_bits :: "nat \<Rightarrow> int" where
  "low_bits 0 = 0"
| "low_bits (Suc n) = 1 + 256 * low_bits n"

definition zero_test :: "u8 list \<Rightarrow> int" where
  "zero_test bs = (bytes_int bs - low_bits (length bs)) AND NOT (bytes_int bs) AND (128 * low_bits (length bs))"

lemma bit_7_iff: "bit (x :: int) 7 \<longleftrightarrow> odd (x div 128)"
  by (simp add: bit_iff_odd)

lemma zero_test_zero_byte: "zero_test (0 # bs) \<noteq> 0"
proof -
  let ?W = "bytes_int bs" and ?L = "low_bits (length bs)"
  have "bit (256 * ?W - (1 + 256 * ?L)) 7" "\<not> bit (256 * ?W) 7" "bit (128 * (1 + 256 * ?L)) 7"
    unfolding bit_7_iff using zero_byte_div by blast+
  then have "bit (zero_test (0 # bs)) 7" by (simp add: zero_test_def bit_and_iff bit_not_iff)
  then show ?thesis by auto
qed

lemma zero_test_Cons:
  assumes "b \<noteq> 0"
  shows "zero_test (b # bs) = 0 \<longleftrightarrow> zero_test bs = 0"
proof -
  let ?W = "bytes_int bs" and ?L = "low_bits (length bs)"
  define X where "X = uint b + 256 * ?W - (1 + 256 * ?L)"
  define Y where "Y = uint b + 256 * ?W"
  define H where "H = 128 * (1 + 256 * ?L)"
  have Z: "zero_test (b # bs) = X AND NOT Y AND H" by (simp add: zero_test_def X_def Y_def H_def)
  have "uint b \<noteq> 0" using assms by (simp add: uint_0_iff)
  then have b: "1 \<le> uint b" "uint b < 256" using uint_byte [of b] by linarith+
  have dX: "drop_bit 8 X = ?W - ?L" using byte_div(1) [OF b, of ?W ?L] by (simp add: drop_bit_eq_div X_def)
  have dY: "drop_bit 8 (NOT Y) = NOT ?W" using byte_div(2) [OF b, of ?W] by (simp add: drop_bit_eq_div Y_def not_int_def)
  have dH: "drop_bit 8 H = 128 * ?L" using zero_byte_div(4) [of ?L] by (simp add: drop_bit_eq_div H_def)
  have drop: "drop_bit 8 (zero_test (b # bs)) = zero_test bs"
    unfolding Z by (simp add: dX dY dH zero_test_def)
  have take: "take_bit 8 (zero_test (b # bs)) = 0"
  proof (rule bit_eqI)
    fix j
    have "take_bit 8 H = 2 ^ 7" using zero_byte_div(5) [of ?L] by (simp add: take_bit_eq_mod H_def)
    then have H: "j < 8 \<Longrightarrow> bit H j \<longleftrightarrow> j = 7" by (metis bit_exp_iff bit_take_bit_iff possible_bit_int)
    have "\<not> (bit X 7 \<and> \<not> bit Y 7)" unfolding bit_7_iff X_def Y_def using byte_div(3) [OF b, of ?W ?L] by blast
    then show "bit (take_bit 8 (zero_test (b # bs))) j = bit (0 :: int) j"
      using H unfolding Z by (auto simp: bit_take_bit_iff bit_and_iff bit_not_iff)
  qed
  show ?thesis using bits_ident [of 8 "zero_test (b # bs)"] drop take by (metis add.right_neutral drop_bit_of_0 push_bit_of_0)
qed

lemma zero_test_iff: "zero_test bs = 0 \<longleftrightarrow> 0 \<notin> set bs"
proof (induction bs)
  case Nil
  then show ?case by (simp add: zero_test_def)
next
  case (Cons b bs)
  then show ?case using zero_test_zero_byte [of bs] zero_test_Cons [of b bs] by (cases "b = 0") auto
qed

lemma NoZeroByte_iff:
  assumes "length bs = 8"
  shows "NoZeroByte (word_of_int (bytes_int bs)) \<longleftrightarrow> 0 \<notin> set bs"
proof -
  let ?W = "bytes_int bs"
  have low: "low_bits 8 = 0x0101010101010101" by (simp add: numeral_eq_Suc)
  have z: "zero_test bs = (?W - 0x0101010101010101) AND NOT ?W AND 0x8080808080808080"
    by (simp add: zero_test_def assms low)
  have word: "(word_of_int ?W - kLowBits) AND NOT (word_of_int ?W) AND kHighBits = (word_of_int (zero_test bs) :: 64 word)"
    unfolding z kLowBits_def kHighBits_def by (simp add: of_int_and_eq of_int_not_eq)
  have "0 \<le> zero_test bs" "zero_test bs < 2 ^ 64"
  proof -
    show "0 \<le> zero_test bs" unfolding z by simp
    have "zero_test bs \<le> 0x8080808080808080" unfolding z and.assoc [symmetric] by (rule AND_upper2) simp
    then show "zero_test bs < 2 ^ 64" by simp
  qed
  then have "word_of_int (zero_test bs) = (0 :: 64 word) \<longleftrightarrow> zero_test bs = 0"
    by (simp add: word_of_int_eq_0_iff zdvd_not_zless order_le_less) (auto dest: zdvd_not_zless)
  then show ?thesis unfolding NoZeroByte_def word by (simp add: zero_test_iff)
qed

lemma bytes_word_eq_iff:
  assumes "length bs = 8" and "length bs' = 8"
  shows "(word_of_int (bytes_int bs) :: 64 word) = word_of_int (bytes_int bs') \<longleftrightarrow> bs = bs'"
proof
  assume eq: "(word_of_int (bytes_int bs) :: 64 word) = word_of_int (bytes_int bs')"
  have "uint (word_of_int (bytes_int xs) :: 64 word) = bytes_int xs" if "length xs = 8" for xs
    using bytes_int_bounds [of xs] that by (simp add: uint_word_of_int)
  then have "bytes_int bs = bytes_int bs'" using assms eq by metis
  then show "bs = bs'" using bytes_int_inject assms by simp
qed simp

lemma Word_at_window:
  assumes "x + 8 \<le> length row"
  shows "Word_at row x = 0 \<longleftrightarrow> (\<forall>j < 8. row ! (x + j) = 0)"
    and "NoZeroByte (Word_at row x) \<longleftrightarrow> (\<forall>j < 8. row ! (x + j) \<noteq> 0)"
    and "x + 8 \<le> length row' \<Longrightarrow> Word_at row x = Word_at row' x \<longleftrightarrow> (\<forall>j < 8. row ! (x + j) = row' ! (x + j))"
proof -
  let ?bs = "take 8 (drop x row)"
  have len: "length ?bs = 8" and nth: "\<And>j. j < 8 \<Longrightarrow> ?bs ! j = row ! (x + j)" using assms by simp_all
  have z: "(word_of_int 0 :: 64 word) = word_of_int (bytes_int (replicate 8 0))" by (simp add: numeral_eq_Suc)
  have "Word_at row x = 0 \<longleftrightarrow> ?bs = replicate 8 0"
    unfolding Word_at_def using bytes_word_eq_iff [OF len, of "replicate 8 0"] z by simp
  also have "\<dots> \<longleftrightarrow> (\<forall>j < 8. row ! (x + j) = 0)" using len nth by (simp add: list_eq_iff_nth_eq)
  finally show "Word_at row x = 0 \<longleftrightarrow> (\<forall>j < 8. row ! (x + j) = 0)" .
  show "NoZeroByte (Word_at row x) \<longleftrightarrow> (\<forall>j < 8. row ! (x + j) \<noteq> 0)"
    unfolding Word_at_def NoZeroByte_iff [OF len] using len nth by (metis in_set_conv_nth)
  show "Word_at row x = Word_at row' x \<longleftrightarrow> (\<forall>j < 8. row ! (x + j) = row' ! (x + j))" if "x + 8 \<le> length row'"
    unfolding Word_at_def using bytes_word_eq_iff [OF len, of "take 8 (drop x row')"] that assms
    by (simp add: list_eq_iff_nth_eq)
qed

section \<open>The edges of a line\<close>

text \<open>
  Where along a line of \<open>n\<close> pixels the selection changes: a position is an edge when exactly one of its pixel and the
  one before it is selected, with nothing selected outside the line. Consecutive edges are the ends of a run.
\<close>

definition is_edge :: "(nat \<Rightarrow> bool) \<Rightarrow> nat \<Rightarrow> nat \<Rightarrow> bool" where
  "is_edge sel n i \<longleftrightarrow> (i < n \<and> sel i) \<noteq> (0 < i \<and> sel (i - 1))"

definition line_edges :: "(nat \<Rightarrow> bool) \<Rightarrow> nat \<Rightarrow> nat list" where
  "line_edges sel n = filter (is_edge sel n) [0..<n + 1]"

lemma edge_parity: "i \<le> n \<Longrightarrow> odd (length (filter (is_edge sel n) [0..<i + 1])) \<longleftrightarrow> i < n \<and> sel i"
proof (induction i)
  case (Suc i)
  then show ?case by (auto simp: is_edge_def)
qed (auto simp: is_edge_def)

lemma even_line_edges: "even (length (line_edges sel n))"
  using edge_parity [of n n sel] by (simp add: line_edges_def)

lemma line_edges_split:
  assumes "i \<le> n"
  shows "line_edges sel n = filter (is_edge sel n) [0..<i + 1] @ filter (is_edge sel n) [i + 1..<n + 1]"
proof -
  have "[0..<n + 1] = [0..<i + 1] @ [i + 1..<n + 1]" using assms upt_add_eq_append [of 0 "i + 1" "n - i"] by simp
  then show ?thesis by (simp add: line_edges_def)
qed

lemma line_edges_before:
  assumes "i \<le> n" and "j < length (line_edges sel n)"
  shows "line_edges sel n ! j \<le> i \<longleftrightarrow> j < length (filter (is_edge sel n) [0..<i + 1])"
proof -
  let ?a = "filter (is_edge sel n) [0..<i + 1]" and ?b = "filter (is_edge sel n) [i + 1..<n + 1]"
  have a: "\<And>x. x \<in> set ?a \<Longrightarrow> x \<le> i" and b: "\<And>x. x \<in> set ?b \<Longrightarrow> i < x" by (auto simp del: upt_Suc)
  show ?thesis
  proof (cases "j < length ?a")
    case True
    then have "line_edges sel n ! j = ?a ! j" by (simp add: line_edges_split [OF assms(1)] nth_append del: upt_Suc)
    then show ?thesis using a [OF nth_mem [OF True]] True by simp
  next
    case False
    then have "line_edges sel n ! j = ?b ! (j - length ?a)" and "j - length ?a < length ?b"
      using assms(2) by (simp_all add: line_edges_split [OF assms(1)] nth_append del: upt_Suc)
    then show ?thesis using b [OF nth_mem, of "j - length ?a"] False by simp
  qed
qed

text \<open>The pixels selected are those inside a run.\<close>

lemma line_edges_decode:
  assumes i: "i < n"
  shows "sel i \<longleftrightarrow> (\<exists>k. 2 * k + 1 < length (line_edges sel n) \<and> line_edges sel n ! (2 * k) \<le> i \<and> i < line_edges sel n ! (2 * k + 1))"
proof -
  let ?es = "line_edges sel n" and ?c = "length (filter (is_edge sel n) [0..<i + 1])"
  have le: "i \<le> n" using i by simp
  have par: "odd ?c \<longleftrightarrow> sel i" using edge_parity [OF le] i by blast
  have c: "?c \<le> length ?es" by (simp add: line_edges_split [OF le] del: upt_Suc)
  show ?thesis
  proof
    assume "sel i"
    then have odd: "odd ?c" using par by simp
    then obtain k where k: "?c = 2 * k + 1" by (elim oddE)
    have "?c \<noteq> length ?es" using odd even_line_edges by metis
    then have lt: "2 * k + 1 < length ?es" using c k by linarith
    moreover have "?es ! (2 * k) \<le> i" using line_edges_before [OF le, of "2 * k"] lt k by simp
    moreover have "i < ?es ! (2 * k + 1)" using line_edges_before [OF le lt] k by simp
    ultimately show "\<exists>k. 2 * k + 1 < length ?es \<and> ?es ! (2 * k) \<le> i \<and> i < ?es ! (2 * k + 1)" by blast
  next
    assume "\<exists>k. 2 * k + 1 < length ?es \<and> ?es ! (2 * k) \<le> i \<and> i < ?es ! (2 * k + 1)"
    then obtain k where k: "2 * k + 1 < length ?es" "?es ! (2 * k) \<le> i" "i < ?es ! (2 * k + 1)" by blast
    have "2 * k < ?c" using line_edges_before [OF le, of "2 * k"] k by simp
    moreover have "\<not> 2 * k + 1 < ?c" using line_edges_before [OF le k(1)] k(3) by simp
    ultimately have "?c = 2 * k + 1" by linarith
    then show "sel i" using par by simp
  qed
qed

lemma line_edges_ascending: "sorted_wrt (<) (line_edges sel n)"
  unfolding line_edges_def by (rule sorted_wrt_filter) (rule sorted_wrt_upt)

lemma line_edges_bound: "e \<in> set (line_edges sel n) \<Longrightarrow> e \<le> n"
  by (auto simp: line_edges_def simp del: upt_Suc)

section \<open>The scans find the edges\<close>

lemma u32_exact [simp]: "n < 4294967296 \<Longrightarrow> u32 n = n"
  by (simp add: u32_def)

lemma edges_skip:
  assumes "\<forall>j < m. \<not> P (x + j)" and "x + m \<le> k"
  shows "filter P [x..<k] = filter P [x + m..<k]"
proof -
  have "[x..<k] = [x..<x + m] @ [x + m..<k]" using assms(2) upt_add_eq_append [of x "x + m" "k - (x + m)"] by simp
  moreover have "filter P [x..<x + m] = []"
  proof (unfold filter_empty_conv, intro ballI)
    fix i assume "i \<in> set [x..<x + m]"
    then have "i - x < m" "x + (i - x) = i" by auto
    then show "\<not> P i" using assms(1) by metis
  qed
  ultimately show ?thesis by simp
qed

lemma edges_step: "x < k \<Longrightarrow> filter P [x..<k] = (if P x then [x] else []) @ filter P [x + 1..<k]"
  by (simp add: upt_conv_Cons)

lemma AlongX_row_edges:
  assumes "length row = width" and "width < 4294967296"
  shows "x \<le> width \<Longrightarrow> inside \<longleftrightarrow> 0 < x \<and> row ! (x - 1) \<noteq> 0 \<Longrightarrow> first < 4294967296 \<Longrightarrow>
    AlongX_row row width x inside first runs =
      runs @ (if inside then [first] else []) @ filter (is_edge (\<lambda>i. row ! i \<noteq> 0) width) [x..<width + 1]"
proof (induction "width - x" arbitrary: x inside first runs rule: less_induct)
  case less
  let ?e = "is_edge (\<lambda>i. row ! i \<noteq> 0) width"
  show ?case
  proof (cases "x < width")
    case False
    then have x: "x = width" using less.prems by simp
    have "filter ?e [x..<width + 1] = (if inside then [width] else [])"
      using less.prems(2) x by (simp add: is_edge_def)
    then show ?thesis using False assms(2) less.prems(3) by (subst AlongX_row.simps) simp
  next
    case x: True
    let ?skip = "x + 8 \<le> width \<and> (if inside then NoZeroByte (Word_at row x) else Word_at row x = 0)"
    show ?thesis
    proof (cases ?skip)
      case True
      then have same: "(row ! (x + j) \<noteq> 0) = inside" if "j < 8" for j
        using Word_at_window [of x row] assms(1) that by (auto split: if_splits)
      have "(row ! (x + j - 1) \<noteq> 0) = inside" if "j < 8" "0 < x + j" for j
        using same [of "j - 1"] that less.prems(2) by (cases j) auto
      then have "\<forall>j < 8. \<not> ?e (x + j)" using same True by (auto simp: is_edge_def less.prems(2))
      then have e: "filter ?e [x..<width + 1] = filter ?e [x + 8..<width + 1]" using True by (intro edges_skip) auto
      have "AlongX_row row width (x + 8) inside first runs =
          runs @ (if inside then [first] else []) @ filter ?e [x + 8..<width + 1]"
      proof (rule less.hyps)
        show "inside \<longleftrightarrow> 0 < x + 8 \<and> row ! (x + 8 - 1) \<noteq> 0" using same [of 7] by (simp add: add.commute)
      qed (use True x less.prems in auto)
      then show ?thesis unfolding e using True x by (subst AlongX_row.simps) simp
    next
      case False
      let ?s = "row ! x \<noteq> 0"
      have e: "filter ?e [x..<width + 1] = (if ?s \<noteq> inside then [x] else []) @ filter ?e [x + 1..<width + 1]"
        using edges_step [of x "width + 1" ?e] x less.prems(2) by (auto simp: is_edge_def)
      have IH: "AlongX_row row width (x + 1) ?s f rs = rs @ (if ?s then [f] else []) @ filter ?e [x + 1..<width + 1]"
        if "f < 4294967296" for f rs
        using x that by (intro less.hyps) auto
      show ?thesis unfolding e using False x less.prems(3) assms(2) IH [of x] IH [of first]
        by (subst AlongX_row.simps) (auto simp: Let_def simp del: upt_Suc)
    qed
  qed
qed

lemma AlongY_row_edges:
  assumes "length row = width" and "length prev = width" and "width < 4294967296" and "y < 4294967296"
  shows "x \<le> width \<Longrightarrow>
    AlongY_row row prev width y x edges =
      edges @ map (\<lambda>x. (x, y)) (filter (\<lambda>x. (row ! x \<noteq> 0) \<noteq> (prev ! x \<noteq> 0)) [x..<width])"
proof (induction "width - x" arbitrary: x edges rule: less_induct)
  case less
  let ?e = "\<lambda>x. (row ! x \<noteq> 0) \<noteq> (prev ! x \<noteq> 0)"
  show ?case
  proof (cases "x < width")
    case False
    then show ?thesis using less.prems by (subst AlongY_row.simps) simp
  next
    case x: True
    show ?thesis
    proof (cases "x + 8 \<le> width \<and> Word_at row x = Word_at prev x")
      case True
      then have "\<forall>j < 8. row ! (x + j) = prev ! (x + j)" using Word_at_window(3) [of x row prev] assms by simp
      then have e: "filter ?e [x..<width] = filter ?e [x + 8..<width]" using True by (intro edges_skip) auto
      have "width - (x + 8) < width - x" using x by simp
      then show ?thesis unfolding e using True x less.hyps [of "x + 8"] by (subst AlongY_row.simps) simp
    next
      case False
      have "AlongY_row row prev width y (x + 1) es = es @ map (\<lambda>x. (x, y)) (filter ?e [x + 1..<width])" for es
        using x by (intro less.hyps) auto
      then show ?thesis using False x edges_step [OF x, of ?e] assms
        by (subst AlongY_row.simps) auto
    qed
  qed
qed

section \<open>The encoders\<close>

text \<open>The runs of a raster whose line \<open>l\<close> has the edges \<open>E l\<close>.\<close>

definition runs_of :: "(nat \<Rightarrow> nat list) \<Rightarrow> nat \<Rightarrow> RegionRuns" where
  "runs_of E lines =
     \<lparr>rr_runs = concat (map E [0..<lines]),
      rr_offsets = map (\<lambda>l. length (concat (map E [0..<l])) div 2) [0..<lines + 1]\<rparr>"

lemma runs_of_0 [simp]: "runs_of E 0 = \<lparr>rr_runs = [], rr_offsets = [0]\<rparr>"
  by (simp add: runs_of_def)

lemma concat_upto: "concat (map E [0..<y + 1]) = concat (map E [0..<y]) @ E y"
  by simp

lemma length_concat_mono: "a \<le> b \<Longrightarrow> length (concat (map E [0..<a])) \<le> length (concat (map E [0..<b]))"
proof -
  assume "a \<le> b"
  then have "[0..<b] = [0..<a] @ [a..<b]" using upt_add_eq_append [of 0 a "b - a"] by simp
  then show ?thesis by simp
qed

lemma length_row_at: "length raster = width * height \<Longrightarrow> y < height \<Longrightarrow> length (row_at raster width y) = width"
proof -
  assume r: "length raster = width * height" and y: "y < height"
  have "(y + 1) * width \<le> height * width" using y by (intro mult_le_mono1) simp
  then show ?thesis using r by (simp add: row_at_def mult.commute)
qed

lemma row_at_nth: "length raster = width * height \<Longrightarrow> y < height \<Longrightarrow> x < width \<Longrightarrow> row_at raster width y ! x = raster ! (y * width + x)"
  by (simp add: row_at_def mult.commute)

lemma AlongX_runs:
  assumes r: "length raster = width * height" and w: "width < 4294967296"
  shows "AlongX raster width height most_runs =
    (let E = (\<lambda>y. line_edges (\<lambda>x. row_at raster width y ! x \<noteq> 0) width)
     in if length (concat (map E [0..<height])) div 2 \<le> most_runs then (True, runs_of E height) else (False, Discard))"
proof -
  let ?E = "\<lambda>y. line_edges (\<lambda>x. row_at raster width y ! x \<noteq> 0) width"
  have "AlongX_rows raster width most_runs [y..<height] (runs_of ?E y) =
      (if length (concat (map ?E [0..<height])) div 2 \<le> most_runs then (True, runs_of ?E height) else (False, Discard))"
    if "y \<le> height" and "length (concat (map ?E [0..<y])) div 2 \<le> most_runs" for y
    using that
  proof (induction "height - y" arbitrary: y)
    case 0
    then show ?case by simp
  next
    case (Suc n)
    then have y: "y < height" by simp
    have row: "AlongX_row (row_at raster width y) width 0 False 0 (rr_runs (runs_of ?E y)) = concat (map ?E [0..<y + 1])"
      using AlongX_row_edges [OF length_row_at [OF r y] w, of 0 False 0 "rr_runs (runs_of ?E y)"]
      by (simp add: runs_of_def line_edges_def del: upt_Suc) simp
    have next_y: "\<lparr>rr_runs = concat (map ?E [0..<y + 1]),
        rr_offsets = rr_offsets (runs_of ?E y) @ [length (concat (map ?E [0..<y + 1])) div 2]\<rparr> = runs_of ?E (y + 1)"
      by (simp add: runs_of_def)
    have cons: "[y..<height] = y # [y + 1..<height]" using y by (simp add: upt_conv_Cons)
    show ?case
    proof (cases "most_runs < length (concat (map ?E [0..<y + 1])) div 2")
      case True
      moreover have "length (concat (map ?E [0..<y + 1])) div 2 \<le> length (concat (map ?E [0..<height])) div 2"
        using y by (intro div_le_mono length_concat_mono) simp
      ultimately show ?thesis unfolding cons AlongX_rows.simps row Let_def by simp
    next
      case False
      then show ?thesis unfolding cons AlongX_rows.simps row Let_def next_y
        using Suc.hyps(1) [of "y + 1"] Suc.hyps(2) y by simp
    qed
  qed
  from this [of 0] show ?thesis by (simp add: AlongX_def Let_def)
qed

text \<open>The edges of all columns, row by row, in the order the scan finds them.\<close>

definition row_edges :: "u8 list \<Rightarrow> nat \<Rightarrow> nat \<Rightarrow> nat \<Rightarrow> (nat \<times> nat) list" where
  "row_edges raster width height y =
     map (\<lambda>x. (x, y)) (filter (\<lambda>x. is_edge (\<lambda>y. row_at raster width y ! x \<noteq> 0) height y) [0..<width])"

lemma AlongY_rows_edges:
  assumes r: "length raster = width * height" and w: "width < 4294967296" and h: "height < 4294967296"
  shows "AlongY_rows raster width height most_edges [0..<height + 1] (replicate width 0) [] =
    (let edges = concat (map (row_edges raster width height) [0..<height + 1])
     in if length edges \<le> most_edges then Some edges else None)"
proof -
  let ?R = "row_edges raster width height"
  let ?row = "\<lambda>y. if y < height then row_at raster width y else replicate width 0"
  let ?prev = "\<lambda>y. if y = 0 then replicate width 0 else row_at raster width (y - 1)"
  have len: "length (?row y) = width" for y using length_row_at [OF r] by simp
  have lenp: "y \<le> height \<Longrightarrow> length (?prev y) = width" for y using length_row_at [OF r, of "y - 1"] by simp
  have scan: "AlongY_row (?row y) (?prev y) width y 0 edges = edges @ ?R y" if "y \<le> height" for y edges
  proof -
    have "filter (\<lambda>x. (?row y ! x \<noteq> 0) \<noteq> (?prev y ! x \<noteq> 0)) [0..<width] =
        filter (\<lambda>x. is_edge (\<lambda>y. row_at raster width y ! x \<noteq> 0) height y) [0..<width]"
      by (intro filter_cong) (auto simp: is_edge_def)
    then show ?thesis using AlongY_row_edges [OF len [of y] lenp [OF that] w, where y = y and x = 0 and edges = edges] that h by (simp add: row_edges_def)
  qed
  have "AlongY_rows raster width height most_edges [y..<height + 1] (?prev y) (concat (map ?R [0..<y])) =
      (if length (concat (map ?R [0..<height + 1])) \<le> most_edges then Some (concat (map ?R [0..<height + 1])) else None)"
    if "y \<le> height + 1" and "length (concat (map ?R [0..<y])) \<le> most_edges" for y
    using that
  proof (induction "height + 1 - y" arbitrary: y)
    case 0
    then have "y = height + 1" by simp
    then show ?case using 0 by (simp del: upt_Suc)
  next
    case (Suc n)
    then have y: "y \<le> height" by simp
    have cons: "[y..<height + 1] = y # [y + 1..<height + 1]" using y by (simp add: upt_conv_Cons del: upt_Suc)
    have row: "?row y = ?prev (y + 1) \<or> y = height" using y by simp
    have now: "AlongY_row (?row y) (?prev y) width y 0 (concat (map ?R [0..<y])) = concat (map ?R [0..<y + 1])"
      using scan [OF y] by simp
    show ?case
    proof (cases "most_edges < length (concat (map ?R [0..<y + 1]))")
      case True
      moreover have "length (concat (map ?R [0..<y + 1])) \<le> length (concat (map ?R [0..<height + 1]))"
        using y by (intro length_concat_mono) simp
      ultimately show ?thesis unfolding cons AlongY_rows.simps Let_def now by simp
    next
      case False
      show ?thesis
      proof (cases "y = height")
        case True
        then show ?thesis using False unfolding cons AlongY_rows.simps Let_def now by (simp del: upt_Suc)
      next
        case neq: False
        then have "?row y = ?prev (y + 1)" using row by simp
        then show ?thesis using False Suc.hyps(1) [of "y + 1"] Suc.hyps(2) y neq
          unfolding cons AlongY_rows.simps Let_def now by (simp del: upt_Suc)
      qed
    qed
  qed
  from this [of 0] show ?thesis by (simp add: Let_def del: upt_Suc)
qed

lemma bucket_concat: "bucket (concat xss) b = concat (map (\<lambda>xs. bucket xs b) xss)"
  by (induction xss) (simp_all add: bucket_append)

lemma concat_singletons: "concat (map (\<lambda>y. if P y then [y] else []) ys) = filter P ys"
  by (induction ys) auto

lemma bucket_row_edges:
  assumes "x < width"
  shows "bucket (row_edges raster width height y) x = (if is_edge (\<lambda>y. row_at raster width y ! x \<noteq> 0) height y then [y] else [])"
proof -
  have "bucket (map (\<lambda>x. (x, y)) xs) x = (if x \<in> set xs then [y] else [])" if "distinct xs" for xs
    using that by (induction xs) (auto simp: bucket_def filter_empty_conv)
  then show ?thesis using assms by (simp add: row_edges_def)
qed

lemma bucket_column:
  assumes "x < width"
  shows "bucket (concat (map (row_edges raster width height) [0..<height + 1])) x =
    line_edges (\<lambda>y. row_at raster width y ! x \<noteq> 0) height"
proof -
  have "bucket (concat (map (row_edges raster width height) [0..<height + 1])) x =
      concat (map (\<lambda>y. if is_edge (\<lambda>y. row_at raster width y ! x \<noteq> 0) height y then [y] else []) [0..<height + 1])"
    unfolding bucket_concat map_map comp_def by (simp only: bucket_row_edges [OF assms])
  then show ?thesis unfolding concat_singletons line_edges_def .
qed

lemma AlongY_runs:
  assumes r: "length raster = width * height" and w: "width < 4294967296" and h: "height < 4294967296"
    and m: "2 * most_runs < two64"
  shows "AlongY raster width height most_runs =
    (let E = (\<lambda>x. line_edges (\<lambda>y. row_at raster width y ! x \<noteq> 0) height)
     in if length (concat (map E [0..<width])) div 2 \<le> most_runs then (True, runs_of E width) else (False, Discard))"
proof -
  let ?E = "\<lambda>x. line_edges (\<lambda>y. row_at raster width y ! x \<noteq> 0) height"
  define edges where "edges = concat (map (row_edges raster width height) [0..<height + 1])"
  have keys: "\<forall>k \<in> set (map fst edges). k < width" by (auto simp: edges_def row_edges_def simp del: upt_Suc)
  have col: "bucket edges x = ?E x" if "x < width" for x using bucket_column [OF that] by (simp add: edges_def)
  have start: "bucket_start edges b = length (concat (map ?E [0..<b]))" if "b \<le> width" for b
    using that by (induction b) (simp_all add: col)
  have groups: "place_values edges (butlast (prefix_sums width (count_keys width (map fst edges)))) (replicate (length edges) 0) =
      concat (map ?E [0..<width])"
    unfolding place_values_groups [OF keys refl] using col by (intro arg_cong [of _ _ concat] map_cong) auto
  have offs: "prefix_sums width (count_keys width (map fst edges)) = map (\<lambda>l. length (concat (map ?E [0..<l]))) [0..<width + 1]"
    unfolding offsets_eq [OF keys] using start by (intro map_cong) (auto simp del: upt_Suc)
  have total: "length edges = length (concat (map ?E [0..<width]))"
    using bucket_start_total [OF keys] start [of width] by simp
  have "even (length (concat (map ?E ls)))" for ls by (induction ls) (simp_all add: even_line_edges)
  then have even: "even (length edges)" unfolding total .
  have "length edges \<le> 2 * most_runs \<longleftrightarrow> length edges div 2 \<le> most_runs" using even by presburger
  then show ?thesis
    using AlongY_rows_edges [OF r w h, of "2 * most_runs"] m groups offs total
    unfolding AlongY_def edges_def [symmetric] by (simp add: mul64_exact Let_def runs_of_def comp_def del: upt_Suc)
qed

section \<open>Properties\<close>

text \<open>Whether a pixel of a line of the raster is selected, and the edges of a line, along either axis.\<close>

definition pixel_selected :: "u8 list \<Rightarrow> nat \<Rightarrow> bool \<Rightarrow> nat \<Rightarrow> nat \<Rightarrow> bool" where
  "pixel_selected raster width u_is_x l i \<longleftrightarrow> raster ! (if u_is_x then l * width + i else i * width + l) \<noteq> 0"

definition region_edges :: "u8 list \<Rightarrow> nat \<Rightarrow> nat \<Rightarrow> bool \<Rightarrow> nat \<Rightarrow> nat list" where
  "region_edges raster width height u_is_x l =
     line_edges (pixel_selected raster width u_is_x l) (if u_is_x then width else height)"

lemma line_edges_cong: "(\<And>i. i < n \<Longrightarrow> sel i = sel' i) \<Longrightarrow> line_edges sel n = line_edges sel' n"
  unfolding line_edges_def by (intro filter_cong) (auto simp: is_edge_def)

lemma concat_upto_cong: "(\<And>i. i < l \<Longrightarrow> E i = E' i) \<Longrightarrow> concat (map E [0..<l]) = concat (map E' [0..<l])"
  by (intro arg_cong [of _ _ concat] map_cong) auto

lemma runs_of_cong: "(\<And>l. l < lines \<Longrightarrow> E l = E' l) \<Longrightarrow> runs_of E lines = runs_of E' lines"
proof -
  assume eq: "\<And>l. l < lines \<Longrightarrow> E l = E' l"
  then have "concat (map E [0..<l]) = concat (map E' [0..<l])" if "l \<le> lines" for l
    using that by (intro concat_upto_cong) simp
  then show ?thesis unfolding runs_of_def by (auto intro!: map_cong simp del: upt_Suc)
qed

lemma RunsAlongU_runs:
  assumes r: "length raster = width * height" and w: "width < 4294967296" and h: "height < 4294967296"
  shows "RunsAlongU raster width height u_is_x =
    (let E = region_edges raster width height u_is_x; lines = (if u_is_x then height else width)
     in if length (concat (map E [0..<lines])) div 2 \<le> max lines (width * height div 16)
        then (True, runs_of E lines) else (False, Discard))"
proof -
  have wh: "width * height < two64"
  proof -
    have "width * height \<le> 4294967295 * 4294967295" using w h by (intro mult_le_mono) auto
    then show ?thesis by simp
  qed
  have fits: "\<not> 4294967295 < max width height" using w h by simp
  let ?most = "\<lambda>lines. max lines (width * height div 16)"
  have X: "RunsAlongU raster width height True =
      (let E = region_edges raster width height True
       in if length (concat (map E [0..<height])) div 2 \<le> ?most height then (True, runs_of E height) else (False, Discard))"
  proof -
    let ?E = "\<lambda>y. line_edges (\<lambda>x. row_at raster width y ! x \<noteq> 0) width"
    have E: "y < height \<Longrightarrow> ?E y = region_edges raster width height True y" for y
      unfolding region_edges_def by (auto intro!: line_edges_cong simp: pixel_selected_def row_at_nth [OF r])
    note concat_upto_cong [of height ?E, OF E]
    then show ?thesis using AlongX_runs [OF r w, of "?most height"] runs_of_cong [of height ?E, OF E] fits wh
      by (simp add: RunsAlongU_def Let_def mul64_exact kLeastPixelsPerRun_def)
  qed
  have Y: "RunsAlongU raster width height False =
      (let E = region_edges raster width height False
       in if length (concat (map E [0..<width])) div 2 \<le> ?most width then (True, runs_of E width) else (False, Discard))"
  proof -
    let ?E = "\<lambda>x. line_edges (\<lambda>y. row_at raster width y ! x \<noteq> 0) height"
    have E: "x < width \<Longrightarrow> ?E x = region_edges raster width height False x" for x
      unfolding region_edges_def by (auto intro!: line_edges_cong simp: pixel_selected_def row_at_nth [OF r])
    have "width * height div 16 * 16 \<le> width * height" by (rule div_times_less_eq_dividend)
    then have "2 * (width * height div 16) < two64" using wh by linarith
    then have "2 * ?most width < two64" using w by (simp add: max_def)
    note Y = AlongY_runs [OF r w h this]
    note concat_upto_cong [of width ?E, OF E]
    then show ?thesis using Y runs_of_cong [of width ?E, OF E] fits wh
      by (simp add: RunsAlongU_def Let_def mul64_exact kLeastPixelsPerRun_def)
  qed
  show ?thesis using X Y by (cases u_is_x) (simp_all add: Let_def)
qed

text \<open>What a line's runs are in the encoding of all lines.\<close>

lemma runs_of_slice:
  assumes "\<And>l. even (length (E l))" and "l < lines"
  shows "2 * rr_offsets (runs_of E lines) ! l = length (concat (map E [0..<l]))"
    and "2 * rr_offsets (runs_of E lines) ! (l + 1) = length (concat (map E [0..<l])) + length (E l)"
    and "take (length (E l)) (drop (length (concat (map E [0..<l]))) (rr_runs (runs_of E lines))) = E l"
proof -
  have even: "even (length (concat (map E ls)))" for ls using assms(1) by (induction ls) simp_all
  have "rr_offsets (runs_of E lines) ! m = length (concat (map E [0..<m])) div 2" if "m \<le> lines" for m
    using that by (simp add: runs_of_def del: upt_Suc)
  then have off: "2 * rr_offsets (runs_of E lines) ! m = length (concat (map E [0..<m]))" if "m \<le> lines" for m
    using that even [of "[0..<m]"] by simp
  show "2 * rr_offsets (runs_of E lines) ! l = length (concat (map E [0..<l]))" using off assms(2) by simp
  show "2 * rr_offsets (runs_of E lines) ! (l + 1) = length (concat (map E [0..<l])) + length (E l)"
    using off [of "l + 1"] assms(2) by simp
  have "[0..<lines] = [0..<l] @ l # [l + 1..<lines]"
    using assms(2) upt_add_eq_append [of 0 l "lines - l"] by (simp add: upt_conv_Cons)
  then show "take (length (E l)) (drop (length (concat (map E [0..<l]))) (rr_runs (runs_of E lines))) = E l"
    by (simp add: runs_of_def)
qed

lemma region_edges_even: "even (length (region_edges raster width height u_is_x l))"
  by (simp add: region_edges_def even_line_edges)

definition example_raster :: "u8 list" where
  "example_raster = [0, 1, 1, 0, 0, 0, 0, 0, 0, 0, 0, 0,
                     0, 2, 2, 2, 0, 0, 0, 0, 0, 0, 0, 0,
                     7, 7, 7, 7, 7, 7, 7, 7, 7, 0, 0, 0]"

lemma length_example_raster: "length example_raster = 12 * 3"
  by (simp add: example_raster_def)

text \<open>
  Claim C7. Both encoders, with their skips of eight bytes and the counting sort, compute one thing: the edges of
  each line in order, and where each line's runs start. They refuse a raster exactly when it breaks into more runs
  than one a line and one for each sixteen pixels, and then leave nothing behind.
\<close>

theorem RunsAlongU_equals_edges:
  assumes "length raster = width * height" and "width < 4294967296" and "height < 4294967296"
  shows "RunsAlongU raster width height u_is_x =
    (let E = region_edges raster width height u_is_x; lines = (if u_is_x then height else width)
     in if length (concat (map E [0..<lines])) div 2 \<le> max lines (width * height div 16)
        then (True, \<lparr>rr_runs = concat (map E [0..<lines]),
                     rr_offsets = map (\<lambda>l. length (concat (map E [0..<l])) div 2) [0..<lines + 1]\<rparr>)
        else (False, \<lparr>rr_runs = [], rr_offsets = []\<rparr>))"
  using RunsAlongU_runs [OF assms, of u_is_x] by (simp add: runs_of_def Discard_def Let_def del: upt_Suc)


theorem RunsAlongU_equals_edges_witness:
  "RunsAlongU example_raster 12 3 False =
    (let E = region_edges example_raster 12 3 False; lines = (if False then 3 else 12)
     in if length (concat (map E [0..<lines])) div 2 \<le> max lines (12 * 3 div 16)
        then (True, \<lparr>rr_runs = concat (map E [0..<lines]),
                     rr_offsets = map (\<lambda>l. length (concat (map E [0..<l])) div 2) [0..<lines + 1]\<rparr>)
        else (False, \<lparr>rr_runs = [], rr_offsets = []\<rparr>)) \<and>
   RunsAlongU example_raster 12 3 False =
    (True, \<lparr>rr_runs = [2, 3, 0, 3, 0, 3, 1, 3, 2, 3, 2, 3, 2, 3, 2, 3, 2, 3],
            rr_offsets = [0, 1, 2, 3, 4, 5, 6, 7, 8, 9, 9, 9, 9]\<rparr>)"
proof
  show "RunsAlongU example_raster 12 3 False =
    (True, \<lparr>rr_runs = [2, 3, 0, 3, 0, 3, 1, 3, 2, 3, 2, 3, 2, 3, 2, 3, 2, 3],
            rr_offsets = [0, 1, 2, 3, 4, 5, 6, 7, 8, 9, 9, 9, 9]\<rparr>)" by code_simp
qed (rule RunsAlongU_equals_edges [OF length_example_raster]; simp)

text \<open>The runs of one line in the encoding of a region, and what they say of its pixels.\<close>

lemma runs_segment:
  assumes "length raster = width * height" and "width < 4294967296" and "height < 4294967296"
    and "RunsAlongU raster width height u_is_x = (True, rr)" and "l < (if u_is_x then height else width)"
  shows "rr_offsets rr ! l \<le> rr_offsets rr ! (l + 1)"
    and "2 * rr_offsets rr ! (l + 1) = 2 * rr_offsets rr ! l + length (region_edges raster width height u_is_x l)"
    and "take (2 * rr_offsets rr ! (l + 1) - 2 * rr_offsets rr ! l) (drop (2 * rr_offsets rr ! l) (rr_runs rr)) =
      region_edges raster width height u_is_x l"
    and "j < length (region_edges raster width height u_is_x l) \<Longrightarrow>
      rr_runs rr ! (2 * rr_offsets rr ! l + j) = region_edges raster width height u_is_x l ! j"
proof -
  let ?E = "region_edges raster width height u_is_x" and ?lines = "if u_is_x then height else width"
  have rr: "rr = runs_of ?E ?lines" using assms(4) RunsAlongU_runs [OF assms(1-3), of u_is_x] by (auto simp: Let_def split: if_splits)
  note slice = runs_of_slice [of ?E l ?lines, OF region_edges_even assms(5), folded rr]
  let ?o = "rr_offsets rr ! l" and ?o' = "rr_offsets rr ! (l + 1)"
  show "?o \<le> ?o'" "2 * ?o' = 2 * ?o + length (?E l)" using slice by linarith+
  show "take (2 * ?o' - 2 * ?o) (drop (2 * ?o) (rr_runs rr)) = ?E l" using slice by simp
  assume j: "j < length (?E l)"
  have "?E l ! j = drop (2 * ?o) (rr_runs rr) ! j" using slice j by (metis nth_take)
  moreover have "length (take (length (?E l)) (drop (2 * ?o) (rr_runs rr))) = length (?E l)" using slice by simp
  then have "2 * ?o \<le> length (rr_runs rr)" using j by (simp add: min_def split: if_splits)
  ultimately show "rr_runs rr ! (2 * ?o + j) = ?E l ! j" by simp
qed

lemma runs_decode:
  assumes "length raster = width * height" and "width < 4294967296" and "height < 4294967296"
    and "RunsAlongU raster width height u_is_x = (True, rr)"
    and "l < (if u_is_x then height else width)" and "i < (if u_is_x then width else height)"
  shows "(raster ! (if u_is_x then l * width + i else i * width + l) \<noteq> 0 \<longleftrightarrow>
      (\<exists>k. rr_offsets rr ! l \<le> k \<and> k < rr_offsets rr ! (l + 1) \<and> rr_runs rr ! (2 * k) \<le> i \<and> i < rr_runs rr ! (2 * k + 1))) \<and>
    sorted_wrt (<) (take (2 * rr_offsets rr ! (l + 1) - 2 * rr_offsets rr ! l) (drop (2 * rr_offsets rr ! l) (rr_runs rr)))"
proof -
  let ?E = "region_edges raster width height u_is_x"
  note line = runs_segment [OF assms(1-5)]
  note seg = line(3) and slice = line(2) and at = line(4)
  let ?o = "rr_offsets rr ! l" and ?o' = "rr_offsets rr ! (l + 1)"
  have "pixel_selected raster width u_is_x l i \<longleftrightarrow>
      (\<exists>k. 2 * k + 1 < length (?E l) \<and> ?E l ! (2 * k) \<le> i \<and> i < ?E l ! (2 * k + 1))"
    using line_edges_decode [OF assms(6), of "pixel_selected raster width u_is_x l"] by (simp only: region_edges_def)
  also have "\<dots> \<longleftrightarrow> (\<exists>k. ?o \<le> k \<and> k < ?o' \<and> rr_runs rr ! (2 * k) \<le> i \<and> i < rr_runs rr ! (2 * k + 1))" (is "?L \<longleftrightarrow> ?R")
  proof
    assume ?L
    then obtain k where k: "2 * k + 1 < length (?E l)" "?E l ! (2 * k) \<le> i" "i < ?E l ! (2 * k + 1)" by blast
    then show ?R using at [of "2 * k"] at [of "2 * k + 1"] slice by (intro exI [of _ "?o + k"]) (auto simp: algebra_simps)
  next
    assume ?R
    then obtain k where k: "?o \<le> k" "k < ?o'" "rr_runs rr ! (2 * k) \<le> i" "i < rr_runs rr ! (2 * k + 1)" by blast
    have "2 * (k - ?o) + 1 < length (?E l)" using k slice by linarith
    then show ?L using at [of "2 * (k - ?o)"] at [of "2 * (k - ?o) + 1"] k by (intro exI [of _ "k - ?o"]) (auto simp: algebra_simps)
  qed
  finally show ?thesis unfolding seg by (simp add: pixel_selected_def region_edges_def line_edges_ascending)
qed

lemma runs_ascend:
  assumes "length raster = width * height" and "width < 4294967296" and "height < 4294967296"
    and "RunsAlongU raster width height u_is_x = (True, rr)" and "l < (if u_is_x then height else width)"
    and "rr_offsets rr ! l \<le> k" and "k < rr_offsets rr ! (l + 1)"
  shows "rr_runs rr ! (2 * k) < rr_runs rr ! (2 * k + 1)"
    and "rr_runs rr ! (2 * k + 1) \<le> (if u_is_x then width else height)"
    and "k < k' \<Longrightarrow> k' < rr_offsets rr ! (l + 1) \<Longrightarrow> rr_runs rr ! (2 * k + 1) < rr_runs rr ! (2 * k')"
proof -
  let ?E = "region_edges raster width height u_is_x l" and ?o = "rr_offsets rr ! l"
  note line = runs_segment [OF assms(1-5)]
  have asc: "sorted_wrt (<) ?E" by (simp add: region_edges_def line_edges_ascending)
  have top: "set ?E \<subseteq> {..if u_is_x then width else height}" by (auto simp: region_edges_def line_edges_def)
  have len: "2 * (m - ?o) + 1 < length ?E" if "?o \<le> m" "m < rr_offsets rr ! (l + 1)" for m using that line(2) by linarith
  have at: "rr_runs rr ! (2 * m) = ?E ! (2 * (m - ?o))" "rr_runs rr ! (2 * m + 1) = ?E ! (2 * (m - ?o) + 1)"
    if "?o \<le> m" "m < rr_offsets rr ! (l + 1)" for m
    using line(4) [of "2 * (m - ?o)"] line(4) [of "2 * (m - ?o) + 1"] len [OF that] that by (simp_all add: algebra_simps)
  show "rr_runs rr ! (2 * k) < rr_runs rr ! (2 * k + 1)"
    using at [OF assms(6,7)] len [OF assms(6,7)] asc by (simp add: sorted_wrt_iff_nth_less)
  show "rr_runs rr ! (2 * k + 1) \<le> (if u_is_x then width else height)"
    using at(2) [OF assms(6,7)] nth_mem [OF len [OF assms(6,7)]] top by auto
  show "rr_runs rr ! (2 * k + 1) < rr_runs rr ! (2 * k')" if k': "k < k'" "k' < rr_offsets rr ! (l + 1)"
  proof -
    have o': "?o \<le> k'" using assms(6) k' by simp
    have "2 * (k - ?o) + 1 < 2 * (k' - ?o)" using k' assms(6) by linarith
    then show ?thesis using at(2) [OF assms(6,7)] at(1) [OF o' k'(2)] len [OF o' k'(2)] asc by (simp add: sorted_wrt_iff_nth_less)
  qed
qed

text \<open>
  Claim C6. Nothing is lost in the runs: when a raster is encoded, a pixel of a line is selected exactly when it lies
  in one of the runs the offsets give that line, and those runs are disjoint and ascend along the line.
\<close>

theorem RunsAlongU_decodes:
  assumes "length raster = width * height" and "width < 4294967296" and "height < 4294967296"
    and "RunsAlongU raster width height u_is_x = (True, rr)"
    and "l < (if u_is_x then height else width)" and "i < (if u_is_x then width else height)"
  shows "(raster ! (if u_is_x then l * width + i else i * width + l) \<noteq> 0 \<longleftrightarrow>
      (\<exists>k. rr_offsets rr ! l \<le> k \<and> k < rr_offsets rr ! (l + 1) \<and> rr_runs rr ! (2 * k) \<le> i \<and> i < rr_runs rr ! (2 * k + 1))) \<and>
    sorted_wrt (<) (take (2 * rr_offsets rr ! (l + 1) - 2 * rr_offsets rr ! l) (drop (2 * rr_offsets rr ! l) (rr_runs rr)))"
  by (rule runs_decode [OF assms])

theorem RunsAlongU_decodes_witness:
  "let rr = \<lparr>rr_runs = [1, 3, 1, 4, 0, 9], rr_offsets = [0, 1, 2, 3]\<rparr>
   in RunsAlongU example_raster 12 3 True = (True, rr) \<and>
      ((example_raster ! (1 * 12 + 3) \<noteq> 0 \<longleftrightarrow>
          (\<exists>k. rr_offsets rr ! 1 \<le> k \<and> k < rr_offsets rr ! (1 + 1) \<and> rr_runs rr ! (2 * k) \<le> 3 \<and> 3 < rr_runs rr ! (2 * k + 1))) \<and>
       sorted_wrt (<) (take (2 * rr_offsets rr ! (1 + 1) - 2 * rr_offsets rr ! 1) (drop (2 * rr_offsets rr ! 1) (rr_runs rr))))"
proof -
  have run: "RunsAlongU example_raster 12 3 True = (True, \<lparr>rr_runs = [1, 3, 1, 4, 0, 9], rr_offsets = [0, 1, 2, 3]\<rparr>)"
    by code_simp
  have "(12 :: nat) < 4294967296" "(3 :: nat) < 4294967296" "(1 :: nat) < (if True then 3 else 12)" "(3 :: nat) < (if True then 12 else 3)"
    by simp_all
  note RunsAlongU_decodes [OF length_example_raster this(1,2) run this(3,4), unfolded if_True]
  then show ?thesis unfolding Let_def using run by (intro conjI) blast+
qed

end
