(* ===== verification/Placed_Region.thy ===== *)
theory Placed_Region
  imports Types Region_Runs
begin

text \<open>
  A caller's region placed on the axes a reduction walks: \<open>RegionMask\<close> of \<open>include/carta-zarr/reduce.h\<close>, \<open>PlacedRegion\<close>
  of \<open>src/reduce/occupancy.h\<close>, and the first half of \<open>Occupancy::Of\<close>, which refuses a region that cannot be placed,
  swaps its axes when the store varies y fastest, and gives its raster runs. The spans of a row are proved to be its
  selected pixels, each once and in order, whichever of the three ways the region is held.
\<close>

section \<open>Regions as a caller gives them\<close>

text \<open>The raster is a view: where its bytes are, if anywhere, and how many the caller says there are.\<close>

record RegionMask =
  rm_x_start :: u64
  rm_y_start :: u64
  rm_width :: u64
  rm_height :: u64
  rm_mask_data :: "u8 list option"
  rm_mask_size :: u64

record PlaneExtent =
  pe_width :: u64
  pe_height :: u64

definition Placeable :: "RegionMask \<Rightarrow> nat \<Rightarrow> PlaneExtent \<Rightarrow> string \<Rightarrow> unit result" where
  "Placeable region index plane node =
     (if rm_width region = 0 \<or> rm_height region = 0
      then Inl (mk_error invalid_argument (''Region '' @ to_string index @ '' is empty'') node)
      else if pe_width plane \<le> rm_x_start region \<or> sub64 (pe_width plane) (rm_x_start region) < rm_width region \<or>
              pe_height plane \<le> rm_y_start region \<or> sub64 (pe_height plane) (rm_y_start region) < rm_height region
      then Inl (mk_error invalid_argument (''Region '' @ to_string index @ '' falls outside the image'') node)
      else
        let box = mul64 (rm_width region) (rm_height region)
        in if (if rm_mask_data region \<noteq> None then rm_mask_size region \<noteq> box else rm_mask_size region \<noteq> 0)
           then Inl (mk_error invalid_argument
                  (''Region '' @ to_string index @ '' has a mask of '' @ to_string (rm_mask_size region) @
                   '' elements for a box of '' @ to_string box) node)
           else Inr ())"

section \<open>Regions on the axes of the walk\<close>

text \<open>The runs and their offsets point into one encoding, and are both null when the region has none.\<close>

record PlacedRegion =
  pr_u_start :: u64
  pr_v_start :: u64
  pr_u_size :: u64
  pr_v_size :: u64
  pr_mask :: "u8 list option"
  pr_mask_u_stride :: u64
  pr_mask_v_stride :: u64
  pr_runs :: "RegionRuns option"

definition RowsWithin :: "PlacedRegion \<Rightarrow> u64 \<Rightarrow> u64 \<Rightarrow> u64 \<Rightarrow> u64 \<Rightarrow> u64 \<times> u64" where
  "RowsWithin region u0 u1 v0 v1 =
     (let first_u = max u0 (pr_u_start region);
          last_u = min u1 (add64 (pr_u_start region) (pr_u_size region));
          first_v = max v0 (pr_v_start region);
          last_v = min v1 (add64 (pr_v_start region) (pr_v_size region))
      in if last_u \<le> first_u \<or> last_v \<le> first_v then (0, 0) else (first_v, last_v))"

text \<open>
  A span as its callback gets it: the pixels from the first to before the last, and, unless every one is selected,
  the raster, the position in it of the first pixel's byte and the step to the next.
\<close>

type_synonym span = "u64 \<times> u64 \<times> (u8 list \<times> u64 \<times> u64) option"

fun run_spans :: "RegionRuns \<Rightarrow> u64 \<Rightarrow> u64 \<Rightarrow> u64 \<Rightarrow> nat list \<Rightarrow> span list" where
  "run_spans rr u_start first stop [] = []"
| "run_spans rr u_start first stop (k # ks) =
     (let run_begin = add64 u_start (rr_runs rr ! (2 * k))
      in if stop \<le> run_begin then []
         else
           let run_end = add64 u_start (rr_runs rr ! (2 * k + 1));
               from = max first run_begin;
               to = min stop run_end
           in (if from < to then [(from, to, None)] else []) @ run_spans rr u_start first stop ks)"

definition ForEachSpan :: "PlacedRegion \<Rightarrow> u64 \<Rightarrow> u64 \<Rightarrow> u64 \<Rightarrow> span list" where
  "ForEachSpan region y u0 u1 =
     (let first = max u0 (pr_u_start region);
          last = min u1 (add64 (pr_u_start region) (pr_u_size region))
      in if last \<le> first then []
         else case pr_runs region of
           Some rr \<Rightarrow>
             let row = sub64 y (pr_v_start region)
             in run_spans rr (pr_u_start region) first last [rr_offsets rr ! row..<rr_offsets rr ! (row + 1)]
         | None \<Rightarrow>
             (case pr_mask region of
                None \<Rightarrow> [(first, last, None)]
              | Some raster \<Rightarrow>
                  [(first, last,
                    Some (raster,
                          add64 (mul64 (sub64 y (pr_v_start region)) (pr_mask_v_stride region))
                                (mul64 (sub64 first (pr_u_start region)) (pr_mask_u_stride region)),
                          pr_mask_u_stride region))]))"

text \<open>
  Placing one region. The pointer to the runs is the \<open>data()\<close> of a vector, which is null for one that never held an
  element: a raster that selects nothing is read as the raster it is.
\<close>

definition place_region :: "bool \<Rightarrow> RegionMask \<Rightarrow> PlacedRegion" where
  "place_region swap_spatial given =
     \<lparr>pr_u_start = (if swap_spatial then rm_y_start given else rm_x_start given),
      pr_v_start = (if swap_spatial then rm_x_start given else rm_y_start given),
      pr_u_size = (if swap_spatial then rm_height given else rm_width given),
      pr_v_size = (if swap_spatial then rm_width given else rm_height given),
      pr_mask = rm_mask_data given,
      pr_mask_u_stride = (if swap_spatial then rm_width given else 1),
      pr_mask_v_stride = (if swap_spatial then 1 else rm_width given),
      pr_runs =
        (case rm_mask_data given of
           None \<Rightarrow> None
         | Some raster \<Rightarrow>
             let (taken, made) = RunsAlongU raster (rm_width given) (rm_height given) (\<not> swap_spatial)
             in if taken \<and> rr_runs made \<noteq> [] then Some made else None)\<rparr>"

section \<open>What a region selects\<close>

text \<open>In the caller's own x and y, and on the axes of the walk.\<close>

definition region_selects :: "RegionMask \<Rightarrow> nat \<Rightarrow> nat \<Rightarrow> bool" where
  "region_selects g x y \<longleftrightarrow>
     rm_x_start g \<le> x \<and> x < rm_x_start g + rm_width g \<and> rm_y_start g \<le> y \<and> y < rm_y_start g + rm_height g \<and>
     (case rm_mask_data g of
        None \<Rightarrow> True
      | Some raster \<Rightarrow> raster ! ((y - rm_y_start g) * rm_width g + (x - rm_x_start g)) \<noteq> 0)"

definition placed_selects :: "bool \<Rightarrow> RegionMask \<Rightarrow> nat \<Rightarrow> nat \<Rightarrow> bool" where
  "placed_selects swap g u v \<longleftrightarrow> (if swap then region_selects g v u else region_selects g u v)"

text \<open>A region on a plane, with a raster of its box if it has one; a view holds as many bytes as it says.\<close>

definition region_ok :: "RegionMask \<Rightarrow> PlaneExtent \<Rightarrow> bool" where
  "region_ok g plane \<longleftrightarrow>
     0 < rm_width g \<and> 0 < rm_height g \<and> rm_x_start g + rm_width g \<le> pe_width plane \<and>
     rm_y_start g + rm_height g \<le> pe_height plane \<and>
     (case rm_mask_data g of None \<Rightarrow> rm_mask_size g = 0 | Some raster \<Rightarrow> length raster = rm_width g * rm_height g)"

definition view_ok :: "RegionMask \<Rightarrow> bool" where
  "view_ok g \<longleftrightarrow> rm_width g < two64 \<and> rm_height g < two64 \<and>
     (case rm_mask_data g of None \<Rightarrow> True | Some raster \<Rightarrow> length raster = rm_mask_size g)"

text \<open>A plane whose pixels can be counted.\<close>

definition plane_ok :: "PlaneExtent \<Rightarrow> bool" where
  "plane_ok plane \<longleftrightarrow> pe_width plane < max_extent \<and> pe_height plane < max_extent \<and> pe_width plane * pe_height plane < two64"

definition span_pixels :: "span \<Rightarrow> nat list" where
  "span_pixels = (\<lambda>(first, last, selected). filter (\<lambda>u. case selected of None \<Rightarrow> True
     | Some (raster, offset, step) \<Rightarrow> raster ! (offset + (u - first) * step) \<noteq> 0) [first..<last])"

lemma span_pixels_whole [simp]: "span_pixels (first, stop, None) = [first..<stop]"
  by (simp add: span_pixels_def)

lemma span_pixels_clipped: "concat (map span_pixels (if first < stop then [(first, stop, None)] else [])) = [first..<stop]"
  by simp

lemma region_ok_product:
  assumes "region_ok g plane" and "plane_ok plane"
  shows "rm_width g * rm_height g < two64"
proof -
  have "rm_width g * rm_height g \<le> pe_width plane * pe_height plane"
    using assms(1) by (intro mult_le_mono) (auto simp: region_ok_def)
  then show ?thesis using assms(2) by (simp add: plane_ok_def)
qed

text \<open>Placing refuses exactly the regions that are empty, off the plane, or carry a raster of another size.\<close>

lemma Placeable_iff:
  assumes "plane_ok plane" and "view_ok g"
  shows "Placeable g i plane node = Inr () \<longleftrightarrow> region_ok g plane"
proof (cases "0 < rm_width g \<and> 0 < rm_height g \<and> rm_x_start g < pe_width plane \<and> rm_y_start g < pe_height plane")
  case True
  then have sub: "sub64 (pe_width plane) (rm_x_start g) = pe_width plane - rm_x_start g"
    "sub64 (pe_height plane) (rm_y_start g) = pe_height plane - rm_y_start g"
    using assms(1) by (auto simp: plane_ok_def intro!: sub64_exact)
  have mul: "mul64 (rm_width g) (rm_height g) = rm_width g * rm_height g"
    if "rm_width g \<le> pe_width plane - rm_x_start g" "rm_height g \<le> pe_height plane - rm_y_start g"
  proof -
    have "rm_width g * rm_height g \<le> pe_width plane * pe_height plane" using that by (intro mult_le_mono) auto
    then show ?thesis using assms(1) by (simp add: plane_ok_def mul64_exact)
  qed
  show ?thesis
  proof (cases "rm_width g \<le> pe_width plane - rm_x_start g \<and> rm_height g \<le> pe_height plane - rm_y_start g")
    case fits: True
    then show ?thesis using True assms mul
      by (auto simp: Placeable_def region_ok_def view_ok_def sub Let_def split: option.splits)
  next
    case False
    then show ?thesis using True by (auto simp: Placeable_def region_ok_def sub)
  qed
qed (auto simp: Placeable_def region_ok_def)

section \<open>The spans of a row\<close>

lemma filter_disj_sorted:
  "sorted xs \<Longrightarrow> (\<And>x y. A x \<Longrightarrow> B y \<Longrightarrow> x < y) \<Longrightarrow> filter (\<lambda>x. A x \<or> B x) xs = filter A xs @ filter B xs"
proof (induction xs)
  case (Cons x xs)
  show ?case
  proof (cases "B x")
    case True
    then have "\<not> A y" if "y \<in> set (x # xs)" for y using Cons.prems that by fastforce
    then have none: "filter A (x # xs) = []" by (intro filter_False) blast
    then have "filter (\<lambda>x. A x \<or> B x) (x # xs) = filter B (x # xs)"
      by (metis (mono_tags, lifting) empty_filter_conv filter_cong)
    then show ?thesis using none by simp
  qed (use Cons in auto)
qed simp

lemma filter_between: "filter (\<lambda>u. a \<le> u \<and> u < b) [c..<d] = [max c a..<min d b]"
proof (induction d)
  case (Suc d)
  show ?case
  proof (cases "a \<le> d \<and> d < b \<and> c \<le> d")
    case True
    then have "min (Suc d) b = Suc (min d b)" "min d b = d" "max c a \<le> d" by auto
    then show ?thesis using Suc True by simp
  next
    case False
    then show ?thesis using Suc by (auto simp: max_def min_def)
  qed
qed (simp add: max_def)

text \<open>The runs of a line, clipped to a span, list its selected pixels.\<close>

lemma run_spans_pixels:
  assumes "\<And>k. k \<in> set ks \<Longrightarrow> rr_runs rr ! (2 * k) < rr_runs rr ! (2 * k + 1) \<and> u_start + rr_runs rr ! (2 * k + 1) < two64"
    and "sorted_wrt (\<lambda>k k'. rr_runs rr ! (2 * k + 1) < rr_runs rr ! (2 * k')) ks"
  shows "concat (map span_pixels (run_spans rr u_start first stop ks)) =
    filter (\<lambda>u. \<exists>k \<in> set ks. u_start + rr_runs rr ! (2 * k) \<le> u \<and> u < u_start + rr_runs rr ! (2 * k + 1)) [first..<stop]"
  using assms
proof (induction ks)
  case (Cons k ks)
  let ?b = "\<lambda>k. u_start + rr_runs rr ! (2 * k)" and ?e = "\<lambda>k. u_start + rr_runs rr ! (2 * k + 1)"
  have k: "add64 u_start (rr_runs rr ! (2 * k)) = ?b k" "add64 u_start (rr_runs rr ! (2 * k + 1)) = ?e k" "?b k < ?e k"
    using Cons.prems(1) [of k] by (auto simp: add64_exact)
  have later: "?e k < ?b k'" if "k' \<in> set ks" for k' using Cons.prems(2) that by simp
  have IH: "concat (map span_pixels (run_spans rr u_start first stop ks)) =
      filter (\<lambda>u. \<exists>k \<in> set ks. ?b k \<le> u \<and> u < ?e k) [first..<stop]"
    using Cons.prems by (intro Cons.IH) auto
  show ?case
  proof (cases "stop \<le> ?b k")
    case True
    then have "\<not> (?b k' \<le> u \<and> u < ?e k')" if "u \<in> set [first..<stop]" "k' \<in> set (k # ks)" for u k'
      using that later [of k'] k(3) by auto
    then have "filter (\<lambda>u. \<exists>k \<in> set (k # ks). ?b k \<le> u \<and> u < ?e k) [first..<stop] = []"
      by (intro filter_False) blast
    then show ?thesis using True k by (simp add: Let_def)
  next
    case False
    have "filter (\<lambda>u. \<exists>k \<in> set (k # ks). ?b k \<le> u \<and> u < ?e k) [first..<stop] =
        filter (\<lambda>u. (?b k \<le> u \<and> u < ?e k) \<or> (\<exists>k \<in> set ks. ?b k \<le> u \<and> u < ?e k)) [first..<stop]" by simp
    also have "\<dots> = filter (\<lambda>u. ?b k \<le> u \<and> u < ?e k) [first..<stop] @
        filter (\<lambda>u. \<exists>k \<in> set ks. ?b k \<le> u \<and> u < ?e k) [first..<stop]"
      by (rule filter_disj_sorted) (auto dest: later)
    finally show ?thesis unfolding filter_between
      using False k IH span_pixels_clipped [of "max first (?b k)" "min stop (?e k)"] by (simp only: run_spans.simps Let_def if_False map_append concat_append)
  qed
qed simp

lemma RunsAlongU_taken: "RunsAlongU raster width height u_is_x = (True, rr) \<Longrightarrow> width < 4294967296 \<and> height < 4294967296"
  by (auto simp: RunsAlongU_def Let_def split: if_splits)

text \<open>Where the box of a placed region is.\<close>

definition in_rows :: "PlacedRegion \<Rightarrow> nat \<Rightarrow> bool" where
  "in_rows r y \<longleftrightarrow> pr_v_start r \<le> y \<and> y < pr_v_start r + pr_v_size r"

lemma placed_box:
  assumes "region_ok g plane" and "plane_ok plane" and "r = place_region swap g"
  shows "pr_u_start r + pr_u_size r \<le> (if swap then pe_height plane else pe_width plane)"
    and "pr_v_start r + pr_v_size r \<le> (if swap then pe_width plane else pe_height plane)"
    and "pr_u_start r + pr_u_size r < max_extent" and "pr_v_start r + pr_v_size r < max_extent"
    and "0 < pr_u_size r" and "0 < pr_v_size r"
    and "placed_selects swap g u v \<Longrightarrow> pr_u_start r \<le> u \<and> u < pr_u_start r + pr_u_size r \<and> in_rows r v"
  using assms(1,2) unfolding assms(3)
  by (auto simp: region_ok_def plane_ok_def place_region_def placed_selects_def region_selects_def in_rows_def split: if_splits)

lemma placed_raster:
  assumes "region_ok g plane" and "rm_mask_data g = Some raster" and "r = place_region swap g"
    and "u < pr_u_size r" and "v < pr_v_size r"
  shows "placed_selects swap g (pr_u_start r + u) (pr_v_start r + v) \<longleftrightarrow>
      raster ! (if swap then u * rm_width g + v else v * rm_width g + u) \<noteq> 0"
    and "v * pr_mask_v_stride r + u * pr_mask_u_stride r < rm_width g * rm_height g"
    and "v * pr_mask_v_stride r + u * pr_mask_u_stride r = (if swap then u * rm_width g + v else v * rm_width g + u)"
proof -
  show "placed_selects swap g (pr_u_start r + u) (pr_v_start r + v) \<longleftrightarrow>
      raster ! (if swap then u * rm_width g + v else v * rm_width g + u) \<noteq> 0"
    using assms by (auto simp: placed_selects_def region_selects_def place_region_def)
  show eq: "v * pr_mask_v_stride r + u * pr_mask_u_stride r = (if swap then u * rm_width g + v else v * rm_width g + u)"
    using assms(3) by (simp add: place_region_def)
  have "i * w + j < w * h" if "i < h" "j < w" for i j w h :: nat
  proof -
    have "i * w + j < i * w + w" using that by simp
    also have "\<dots> = (i + 1) * w" by simp
    also have "\<dots> \<le> h * w" using that by (intro mult_le_mono) auto
    finally show ?thesis by (simp add: mult.commute)
  qed
  then show "v * pr_mask_v_stride r + u * pr_mask_u_stride r < rm_width g * rm_height g"
    unfolding eq using assms(3-5) by (auto simp: place_region_def)
qed

text \<open>The runs of a placed region say of a row what its raster says.\<close>

lemma placed_runs:
  assumes "region_ok g plane" and "plane_ok plane" and r: "r = place_region swap g" and "pr_runs r = Some rr"
    and "in_rows r y"
  defines "ks \<equiv> [rr_offsets rr ! (y - pr_v_start r)..<rr_offsets rr ! (y - pr_v_start r + 1)]"
  shows "k \<in> set ks \<Longrightarrow> rr_runs rr ! (2 * k) < rr_runs rr ! (2 * k + 1) \<and> pr_u_start r + rr_runs rr ! (2 * k + 1) < two64"
    and "sorted_wrt (\<lambda>k k'. rr_runs rr ! (2 * k + 1) < rr_runs rr ! (2 * k')) ks"
    and "pr_u_start r \<le> u \<Longrightarrow> u < pr_u_start r + pr_u_size r \<Longrightarrow>
      (\<exists>k \<in> set ks. pr_u_start r + rr_runs rr ! (2 * k) \<le> u \<and> u < pr_u_start r + rr_runs rr ! (2 * k + 1)) \<longleftrightarrow>
      placed_selects swap g u y"
proof -
  obtain raster where raster: "rm_mask_data g = Some raster" and
    taken: "RunsAlongU raster (rm_width g) (rm_height g) (\<not> swap) = (True, rr)"
    using assms(4) unfolding r by (auto simp: place_region_def split: option.splits prod.splits if_splits)
  have len: "length raster = rm_width g * rm_height g" using assms(1) raster by (simp add: region_ok_def)
  have small: "rm_width g < 4294967296" "rm_height g < 4294967296" using RunsAlongU_taken [OF taken] by auto
  define l where "l = y - pr_v_start r"
  have l: "l < (if \<not> swap then rm_height g else rm_width g)"
    using assms(5) by (auto simp: r place_region_def in_rows_def l_def)
  note line = len small taken l
  note box = placed_box [OF assms(1,2) r]
  have size: "pr_u_size r = (if \<not> swap then rm_width g else rm_height g)" by (simp add: r place_region_def)
  note asc = runs_ascend [OF line]
  show "rr_runs rr ! (2 * k) < rr_runs rr ! (2 * k + 1) \<and> pr_u_start r + rr_runs rr ! (2 * k + 1) < two64"
    if "k \<in> set ks" using asc [of k] that box(3) size by (simp add: ks_def l_def)
  show "sorted_wrt (\<lambda>k k'. rr_runs rr ! (2 * k + 1) < rr_runs rr ! (2 * k')) ks"
    by (rule sorted_wrt_mono_rel [of _ "(<)"]) (use asc(3) in \<open>auto simp: ks_def l_def\<close>)
  assume u: "pr_u_start r \<le> u" "u < pr_u_start r + pr_u_size r"
  define i where "i = u - pr_u_start r"
  have "i < (if \<not> swap then rm_width g else rm_height g)" using u size by (auto simp: i_def)
  then have "raster ! (if \<not> swap then l * rm_width g + i else i * rm_width g + l) \<noteq> 0 \<longleftrightarrow>
      (\<exists>k. rr_offsets rr ! l \<le> k \<and> k < rr_offsets rr ! (l + 1) \<and> rr_runs rr ! (2 * k) \<le> i \<and> i < rr_runs rr ! (2 * k + 1))"
    using runs_decode [OF line] by blast
  moreover have "placed_selects swap g u y \<longleftrightarrow> raster ! (if \<not> swap then l * rm_width g + i else i * rm_width g + l) \<noteq> 0"
  proof -
    have "i < pr_u_size r" "l < pr_v_size r" and at: "pr_u_start r + i = u" "pr_v_start r + l = y"
      using u assms(5) by (auto simp: i_def l_def in_rows_def)
    from placed_raster(1) [OF assms(1) raster r this(1,2)] show ?thesis unfolding at by (cases swap) simp_all
  qed
  ultimately show "(\<exists>k \<in> set ks. pr_u_start r + rr_runs rr ! (2 * k) \<le> u \<and> u < pr_u_start r + rr_runs rr ! (2 * k + 1)) \<longleftrightarrow>
      placed_selects swap g u y"
    using u by (auto simp: ks_def l_def [symmetric] i_def le_diff_conv2 less_diff_conv2 add.commute)
qed

lemma ForEachSpan_selects:
  assumes "region_ok g plane" and "plane_ok plane" and "in_rows (place_region swap g) y"
  shows "concat (map span_pixels (ForEachSpan (place_region swap g) y u0 u1)) = filter (\<lambda>u. placed_selects swap g u y) [u0..<u1]"
proof -
  define r where "r = place_region swap g"
  note box = placed_box [OF assms(1,2) r_def]
  have rows: "in_rows r y" using assms(3) by (simp add: r_def)
  let ?a = "max u0 (pr_u_start r)" and ?b = "min u1 (pr_u_start r + pr_u_size r)"
  let ?P = "\<lambda>u. placed_selects swap g u y"
  have add: "add64 (pr_u_start r) (pr_u_size r) = pr_u_start r + pr_u_size r" using box(3) by (simp add: add64_exact)
  have sub: "sub64 y (pr_v_start r) = y - pr_v_start r" "pr_u_start r \<le> u \<Longrightarrow> u < pr_u_start r + pr_u_size r \<Longrightarrow> sub64 u (pr_u_start r) = u - pr_u_start r" for u
    using rows box(3,4) by (auto simp: in_rows_def intro!: sub64_exact)
  have "filter ?P [u0..<u1] = filter ?P (filter (\<lambda>u. pr_u_start r \<le> u \<and> u < pr_u_start r + pr_u_size r) [u0..<u1])"
    using box(7) by (auto intro!: filter_cong)
  then have clip: "filter ?P [u0..<u1] = filter ?P [?a..<?b]" by (simp only: filter_between)
  show ?thesis
  proof (cases "?b \<le> ?a")
    case True
    then show ?thesis using clip add by (simp add: ForEachSpan_def Let_def flip: r_def)
  next
    case ab: False
    show ?thesis
    proof (cases "pr_runs r")
      case (Some rr)
      note runs = placed_runs [OF assms(1,2) r_def Some rows]
      have "filter ?P [?a..<?b] = filter (\<lambda>u. \<exists>k \<in> set [rr_offsets rr ! (y - pr_v_start r)..<rr_offsets rr ! (y - pr_v_start r + 1)].
          pr_u_start r + rr_runs rr ! (2 * k) \<le> u \<and> u < pr_u_start r + rr_runs rr ! (2 * k + 1)) [?a..<?b]"
        by (rule filter_cong [OF refl]) (use runs(3) in auto)
      then show ?thesis using run_spans_pixels [OF runs(1,2)] ab add sub clip Some
        by (simp add: ForEachSpan_def Let_def flip: r_def)
    next
      case None
      show ?thesis
      proof (cases "rm_mask_data g")
        case no_mask: None
        then have "filter ?P [?a..<?b] = [?a..<?b]"
          using rows by (intro filter_True) (auto simp: placed_selects_def region_selects_def r_def place_region_def in_rows_def)
        then show ?thesis using no_mask None ab add clip by (simp add: ForEachSpan_def Let_def r_def place_region_def)
      next
        case (Some raster)
        define v where "v = y - pr_v_start r"
        have v: "v < pr_v_size r" "y = pr_v_start r + v" using rows by (auto simp: v_def in_rows_def)
        define s where "s = ?a - pr_u_start r"
        have s: "s < pr_u_size r" "?a = pr_u_start r + s" using ab by (auto simp: s_def)
        note product = region_ok_product [OF assms(1,2)]
        note at = placed_raster [OF assms(1) Some r_def _ v(1)]
        have off: "add64 (mul64 v (pr_mask_v_stride r)) (mul64 s (pr_mask_u_stride r)) = v * pr_mask_v_stride r + s * pr_mask_u_stride r"
          using at(2) [OF s(1)] product by (simp add: mul64_exact add64_exact)
        have "?P u \<longleftrightarrow> raster ! (v * pr_mask_v_stride r + s * pr_mask_u_stride r + (u - ?a) * pr_mask_u_stride r) \<noteq> 0"
          if "u \<in> set [?a..<?b]" for u
        proof -
          have u: "s + (u - ?a) < pr_u_size r" "pr_u_start r + (s + (u - ?a)) = u" using that s by auto
          have "?P u \<longleftrightarrow> raster ! (v * pr_mask_v_stride r + (s + (u - ?a)) * pr_mask_u_stride r) \<noteq> 0"
            using at(1) [OF u(1)] unfolding at(3) [OF u(1)] u(2) v(2) [symmetric] .
          then show ?thesis by (simp only: distrib_right add.assoc)
        qed
        then have "filter ?P [?a..<?b] = filter (\<lambda>u. raster ! (v * pr_mask_v_stride r + s * pr_mask_u_stride r + (u - ?a) * pr_mask_u_stride r) \<noteq> 0) [?a..<?b]"
          by (rule filter_cong [OF refl])
        moreover have "pr_mask r = Some raster" using Some by (simp add: r_def place_region_def)
        ultimately show ?thesis using None ab add clip sub off s v(2)
          by (simp add: ForEachSpan_def Let_def span_pixels_def flip: r_def)
      qed
    qed
  qed
qed

lemma run_spans_bounds:
  "(a, b, sel) \<in> set (run_spans rr u_start first stop ks) \<Longrightarrow> first \<le> a \<and> a < b \<and> b \<le> stop"
  by (induction ks) (auto simp: Let_def split: if_splits)

lemma ForEachSpan_bounds:
  "(a, b, sel) \<in> set (ForEachSpan r y u0 u1) \<Longrightarrow>
   max u0 (pr_u_start r) \<le> a \<and> a < b \<and> b \<le> min u1 (add64 (pr_u_start r) (pr_u_size r))"
  by (auto simp: ForEachSpan_def Let_def split: if_splits option.splits dest!: run_spans_bounds)

section \<open>Properties\<close>

definition example_region :: RegionMask where
  "example_region = \<lparr>rm_x_start = 5, rm_y_start = 2, rm_width = 12, rm_height = 3,
     rm_mask_data = Some example_raster, rm_mask_size = 36\<rparr>"

text \<open>
  Claim C16. Whichever way a region is held, as its whole box, as runs or as its raster, and whichever spatial axis
  the store varies fastest, the spans of a row of a region that can be placed hand over exactly the pixels the region
  selects in that row inside the asked columns, each once and in ascending order.
\<close>

theorem ForEachSpan_visits_selected:
  assumes "plane_ok plane" and "view_ok g" and "Placeable g i plane node = Inr ()"
    and "(if swap then rm_x_start g else rm_y_start g) \<le> y"
    and "y < (if swap then rm_x_start g + rm_width g else rm_y_start g + rm_height g)"
  shows "concat (map span_pixels (ForEachSpan (place_region swap g) y u0 u1)) =
    filter (\<lambda>u. if swap then region_selects g y u else region_selects g u y) [u0..<u1]"
proof -
  have "region_ok g plane" using Placeable_iff [OF assms(1,2)] assms(3) by simp
  moreover have "in_rows (place_region swap g) y" using assms(4,5) by (simp add: in_rows_def place_region_def split: if_splits)
  ultimately show ?thesis using ForEachSpan_selects [of g plane swap y u0 u1] assms(1) by (simp add: placed_selects_def)
qed

theorem ForEachSpan_visits_selected_witness:
  "concat (map span_pixels (ForEachSpan (place_region True example_region) 6 0 9)) =
     filter (\<lambda>u. if True then region_selects example_region 6 u else region_selects example_region u 6) [0..<9] \<and>
   concat (map span_pixels (ForEachSpan (place_region True example_region) 6 0 9)) = [2, 3, 4] \<and>
   concat (map span_pixels (ForEachSpan (place_region False example_region) 3 0 9)) = [6, 7, 8]"
proof (intro conjI)
  show "concat (map span_pixels (ForEachSpan (place_region True example_region) 6 0 9)) =
     filter (\<lambda>u. if True then region_selects example_region 6 u else region_selects example_region u 6) [0..<9]"
    by (rule ForEachSpan_visits_selected [of "\<lparr>pe_width = 100, pe_height = 80\<rparr>" _ 0 "''SKY''"])
      (simp_all add: plane_ok_def view_ok_def example_region_def length_example_raster Placeable_def sub64_def mul64_def)
qed code_simp+

end
