(* ===== verification/Occupancy.thy ===== *)
theory Occupancy
  imports Placed_Region Chunk_Blocks
begin

text \<open>
  Which chunks a set of regions occupies, and which regions touch each one: \<open>Occupancy\<close> of \<open>src/reduce/occupancy.h\<close>
  and \<open>Occupancy::Of\<close> of \<open>src/reduce/occupancy.cc\<close>. Every region's chunk rows are scanned with the columns marked as
  they are found, the incidences recorded in region order, and grouped by chunk with the counting sort of the theory
  Counting_Sort. The index is proved to hold, for every chunk of the grid, exactly the regions with a selected pixel
  in it, in the order they were given.
\<close>

section \<open>The index\<close>

definition kMaxChunkIncidences :: nat where "kMaxChunkIncidences = 67108864"
definition kMaxSpectralRegions :: nat where "kMaxSpectralRegions = 1048576"

record ColumnRun =
  cr_first :: u64
  cr_last :: u64

record OccupiedRow =
  or_row :: u64
  or_runs :: "ColumnRun list"

record Occupancy =
  occ_regions :: "PlacedRegion list"
  occ_chunk_u :: u64
  occ_chunk_v :: u64
  occ_u0 :: u64
  occ_v0 :: u64
  occ_u1 :: u64
  occ_v1 :: u64
  occ_chunk_cu0 :: u64
  occ_chunk_cv0 :: u64
  occ_columns :: u64
  occ_cells :: "u64 list"
  occ_offsets :: "u64 list"
  occ_entries :: "nat list"
  occ_rows :: "OccupiedRow list"
  occ_layer_chunks :: u64

definition Cell :: "Occupancy \<Rightarrow> u64 \<Rightarrow> u64 \<Rightarrow> u64" where
  "Cell occ chunk_cu chunk_cv =
     add64 (mul64 (sub64 chunk_cv (occ_chunk_cv0 occ)) (occ_columns occ)) (sub64 chunk_cu (occ_chunk_cu0 occ))"

text \<open>\<open>std::lower_bound\<close> on a sorted vector: how many elements are less than the key.\<close>

definition lower_bound :: "nat list \<Rightarrow> nat \<Rightarrow> nat" where
  "lower_bound xs key = length (takeWhile (\<lambda>x. x < key) xs)"

definition RegionsTouching :: "Occupancy \<Rightarrow> u64 \<Rightarrow> u64 \<Rightarrow> nat list" where
  "RegionsTouching occ chunk_cu chunk_cv =
     (let key = Cell occ chunk_cu chunk_cv;
          found = lower_bound (occ_cells occ) key
      in if found = length (occ_cells occ) \<or> occ_cells occ ! found \<noteq> key then []
         else
           let first = occ_offsets occ ! found;
               last = occ_offsets occ ! (found + 1)
           in take (last - first) (drop first (occ_entries occ)))"

section \<open>Marking the columns of a chunk row\<close>

text \<open>Which columns of the region's band are marked, and how many.\<close>

type_synonym marks = "bool list \<times> nat"

definition marked :: "u64 \<Rightarrow> u64 \<Rightarrow> marks \<Rightarrow> bool" where
  "marked cx0 column st = fst st ! (sub64 column cx0)"

definition mark :: "u64 \<Rightarrow> u64 \<Rightarrow> marks \<Rightarrow> marks" where
  "mark cx0 column st =
     (if marked cx0 column st then st else ((fst st)[sub64 column cx0 := True], snd st + 1))"

text \<open>The pixels of a span from \<open>x\<close> to before the boundary of its chunk, read through the raster.\<close>

definition mark_block :: "u64 \<Rightarrow> u64 \<Rightarrow> u64 \<Rightarrow> u8 list \<times> u64 \<times> u64 \<Rightarrow> marks \<Rightarrow> u64 \<times> u64 \<Rightarrow> marks" where
  "mark_block chunk_u cx0 first = (\<lambda>(raster, offset, step) st (x, boundary).
     let column = x div chunk_u
     in if \<not> marked cx0 column st \<and> list_ex (\<lambda>k. raster ! (offset + (k - first) * step) \<noteq> 0) [x..<boundary]
        then mark cx0 column st else st)"

definition mark_span :: "u64 \<Rightarrow> u64 \<Rightarrow> span \<Rightarrow> marks \<Rightarrow> marks option" where
  "mark_span chunk_u cx0 = (\<lambda>(first, last, selected) st.
     case selected of
       None \<Rightarrow> Some (foldl (\<lambda>st column. mark cx0 column st) st [first div chunk_u..<sub64 last 1 div chunk_u + 1])
     | Some raster \<Rightarrow>
         Option.bind (block_loop (\<lambda>x. min last (mul64 (add64 (x div chunk_u) 1) chunk_u)) first last)
           (\<lambda>blocks. Some (foldl (mark_block chunk_u cx0 first raster) st blocks)))"

fun mark_spans :: "u64 \<Rightarrow> u64 \<Rightarrow> span list \<Rightarrow> marks \<Rightarrow> marks option" where
  "mark_spans chunk_u cx0 [] st = Some st"
| "mark_spans chunk_u cx0 (s # spans) st = Option.bind (mark_span chunk_u cx0 s st) (mark_spans chunk_u cx0 spans)"

definition mark_row :: "u64 \<Rightarrow> u64 \<Rightarrow> PlacedRegion \<Rightarrow> u64 \<Rightarrow> marks \<Rightarrow> marks option" where
  "mark_row chunk_u cx0 region y =
     mark_spans chunk_u cx0 (ForEachSpan region y (pr_u_start region) (add64 (pr_u_start region) (pr_u_size region)))"

text \<open>The pixel rows of one chunk row, until every column is accounted for.\<close>

fun scan_pixel_rows :: "u64 \<Rightarrow> u64 \<Rightarrow> u64 \<Rightarrow> PlacedRegion \<Rightarrow> u64 list \<Rightarrow> marks \<Rightarrow> marks option" where
  "scan_pixel_rows chunk_u cx0 columns region [] st = Some st"
| "scan_pixel_rows chunk_u cx0 columns region (y # ys) st =
     (if snd st < columns
      then Option.bind (mark_row chunk_u cx0 region y st) (scan_pixel_rows chunk_u cx0 columns region ys)
      else Some st)"

section \<open>Recording the incidences\<close>

text \<open>The cells recorded so far, and whether there are more than one reduction indexes.\<close>

type_synonym incidences = "u64 list \<times> bool"

definition visit :: "Occupancy \<Rightarrow> u64 \<Rightarrow> incidences \<Rightarrow> u64 \<Rightarrow> incidences" where
  "visit occ cy inc cx =
     (if length (fst inc) = kMaxChunkIncidences then (fst inc, True) else (fst inc @ [Cell occ cx cy], snd inc))"

definition scan_chunk_row :: "Occupancy \<Rightarrow> PlacedRegion \<Rightarrow> u64 \<Rightarrow> u64 \<Rightarrow> u64 \<Rightarrow> incidences \<Rightarrow> incidences option" where
  "scan_chunk_row occ region cx0 cx1 cy inc =
     (let columns = add64 (sub64 cx1 cx0) 1;
          y_first = max (pr_v_start region) (mul64 cy (occ_chunk_v occ));
          y_last = min (add64 (pr_v_start region) (pr_v_size region)) (mul64 (add64 cy 1) (occ_chunk_v occ))
      in Option.bind (scan_pixel_rows (occ_chunk_u occ) cx0 columns region [y_first..<y_last] (replicate columns False, 0))
           (\<lambda>st. Some (foldl (visit occ cy) inc (filter (\<lambda>cx. marked cx0 cx st) [cx0..<cx1 + 1]))))"

fun scan_rows :: "Occupancy \<Rightarrow> PlacedRegion \<Rightarrow> u64 \<Rightarrow> u64 \<Rightarrow> u64 list \<Rightarrow> incidences \<Rightarrow> incidences option" where
  "scan_rows occ region cx0 cx1 [] inc = Some inc"
| "scan_rows occ region cx0 cx1 (cy # cys) inc =
     (if snd inc then Some inc
      else Option.bind (scan_chunk_row occ region cx0 cx1 cy inc) (scan_rows occ region cx0 cx1 cys))"

definition for_each_cell :: "Occupancy \<Rightarrow> PlacedRegion \<Rightarrow> incidences \<Rightarrow> incidences option" where
  "for_each_cell occ region inc =
     (let cx0 = pr_u_start region div occ_chunk_u occ;
          cx1 = sub64 (add64 (pr_u_start region) (pr_u_size region)) 1 div occ_chunk_u occ;
          cy0 = pr_v_start region div occ_chunk_v occ;
          cy1 = sub64 (add64 (pr_v_start region) (pr_v_size region)) 1 div occ_chunk_v occ
      in scan_rows occ region cx0 cx1 [cy0..<cy1 + 1] inc)"

text \<open>Every region in turn, with how many incidences there are after each.\<close>

fun record_incidences :: "Occupancy \<Rightarrow> PlacedRegion list \<Rightarrow> incidences \<Rightarrow> nat list \<Rightarrow> (incidences \<times> nat list) option" where
  "record_incidences occ [] inc region_first = Some (inc, region_first)"
| "record_incidences occ (region # regions) inc region_first =
     (if snd inc then Some (inc, region_first)
      else Option.bind (for_each_cell occ region inc)
             (\<lambda>inc'. record_incidences occ regions inc' (region_first @ [length (fst inc')])))"

section \<open>Building the index\<close>

text \<open>The incidences as the slot of each one's cell with the region it is of.\<close>

definition slot_entries :: "nat list \<Rightarrow> nat list \<Rightarrow> nat \<Rightarrow> (nat \<times> nat) list" where
  "slot_entries slots region_first region_count =
     concat (map (\<lambda>i. map (\<lambda>k. (slots ! k, u32 i)) [region_first ! i..<region_first ! (i + 1)]) [0..<region_count])"

definition add_cell :: "u64 \<Rightarrow> OccupiedRow list \<Rightarrow> u64 \<Rightarrow> OccupiedRow list" where
  "add_cell columns rows cell =
     (let row = cell div columns;
          column = cell mod columns;
          rows = (if rows = [] \<or> or_row (last rows) \<noteq> row then rows @ [\<lparr>or_row = row, or_runs = []\<rparr>] else rows);
          runs = or_runs (last rows);
          runs = (if runs \<noteq> [] \<and> add64 (cr_last (last runs)) 1 = column
                  then butlast runs @ [(last runs) \<lparr>cr_last := column\<rparr>]
                  else runs @ [\<lparr>cr_first = column, cr_last = column\<rparr>])
      in butlast rows @ [(last rows) \<lparr>or_runs := runs\<rparr>])"

fun check_placeable :: "nat \<Rightarrow> RegionMask list \<Rightarrow> PlaneExtent \<Rightarrow> string \<Rightarrow> unit result" where
  "check_placeable i [] plane node = Inr ()"
| "check_placeable i (region # regions) plane node =
     (case Placeable region i plane node of
        Inl e \<Rightarrow> Inl e
      | Inr _ \<Rightarrow> check_placeable (i + 1) regions plane node)"

text \<open>The regions placed, the box around them, and the chunk grid over the box.\<close>

definition place_all :: "RegionMask list \<Rightarrow> u64 \<Rightarrow> u64 \<Rightarrow> AxisRole \<Rightarrow> Occupancy" where
  "place_all regions chunk_u chunk_v fastest =
     (let placed = map (place_region (fastest = spatial_y)) regions;
          u0 = foldl (\<lambda>u0 r. min u0 (pr_u_start r)) 18446744073709551615 placed;
          v0 = foldl (\<lambda>v0 r. min v0 (pr_v_start r)) 18446744073709551615 placed;
          u1 = foldl (\<lambda>u1 r. max u1 (add64 (pr_u_start r) (pr_u_size r))) 0 placed;
          v1 = foldl (\<lambda>v1 r. max v1 (add64 (pr_v_start r) (pr_v_size r))) 0 placed
      in \<lparr>occ_regions = placed, occ_chunk_u = chunk_u, occ_chunk_v = chunk_v,
          occ_u0 = u0, occ_v0 = v0, occ_u1 = u1, occ_v1 = v1,
          occ_chunk_cu0 = u0 div chunk_u, occ_chunk_cv0 = v0 div chunk_v,
          occ_columns = add64 (sub64 (sub64 u1 1 div chunk_u) (u0 div chunk_u)) 1,
          occ_cells = [], occ_offsets = [], occ_entries = [], occ_rows = [], occ_layer_chunks = 0\<rparr>)"

text \<open>The occupied cells, the counting sort of the incidences by cell, and the runs of each row.\<close>

definition index_incidences :: "Occupancy \<Rightarrow> nat \<Rightarrow> u64 list \<Rightarrow> nat list \<Rightarrow> Occupancy" where
  "index_incidences occ region_count incidence_cells region_first =
     (let cells = remdups_adj (sort incidence_cells);
          slots = map (\<lambda>cell. u32 (lower_bound cells cell)) incidence_cells;
          offsets = prefix_sums (length cells) (count_keys (length cells) slots);
          entries = place_values (slot_entries slots region_first region_count) (butlast offsets)
                      (replicate (length incidence_cells) 0)
      in occ \<lparr>occ_cells := cells, occ_offsets := offsets, occ_entries := entries,
              occ_rows := foldl (add_cell (occ_columns occ)) [] cells, occ_layer_chunks := length cells\<rparr>)"

text \<open>A null view of regions and an empty one are refused alike.\<close>

definition Of :: "RegionMask list \<Rightarrow> PlaneExtent \<Rightarrow> u64 \<Rightarrow> u64 \<Rightarrow> AxisRole \<Rightarrow> string \<Rightarrow> Occupancy result option" where
  "Of regions plane chunk_u chunk_v fastest node =
     (let region_count = length regions
      in if region_count = 0
         then Some (Inl (mk_error invalid_argument ''A spectral reduction needs at least one region'' node))
         else if kMaxSpectralRegions < region_count
         then Some (Inl (mk_error invalid_argument
                (''A spectral reduction accepts at most '' @ to_string kMaxSpectralRegions @ '' regions, not '' @
                 to_string region_count) node))
         else case check_placeable 0 regions plane node of
           Inl e \<Rightarrow> Some (Inl e)
         | Inr _ \<Rightarrow>
             let occ = place_all regions chunk_u chunk_v fastest
             in Option.bind (record_incidences occ (occ_regions occ) ([], False) [0])
                  (\<lambda>((incidence_cells, too_many), region_first).
                     Some (if too_many
                           then Inl (mk_error invalid_argument
                                  ''The regions together touch more chunks than one reduction can index'' node)
                           else Inr (index_incidences occ region_count incidence_cells region_first))))"

section \<open>What marking keeps\<close>

definition columns_of :: "nat \<Rightarrow> marks \<Rightarrow> nat set" where
  "columns_of cx0 st = {c. cx0 \<le> c \<and> c < cx0 + length (fst st) \<and> fst st ! (c - cx0)}"

definition marks_ok :: "nat \<Rightarrow> nat \<Rightarrow> marks \<Rightarrow> bool" where
  "marks_ok cx0 n st \<longleftrightarrow> length (fst st) = n \<and> snd st = card (columns_of cx0 st) \<and> cx0 + n < two64"

lemma finite_columns_of [simp]: "finite (columns_of cx0 st)"
  by (rule finite_subset [of _ "{..<cx0 + length (fst st)}"]) (auto simp: columns_of_def)

lemma marked_iff:
  "marks_ok cx0 n st \<Longrightarrow> c \<in> {cx0..<cx0 + n} \<Longrightarrow> marked cx0 c st \<longleftrightarrow> c \<in> columns_of cx0 st"
  by (auto simp: marks_ok_def marked_def columns_of_def sub64_exact)

lemma mark_columns:
  assumes "marks_ok cx0 n st" and "c \<in> {cx0..<cx0 + n}"
  shows "marks_ok cx0 n (mark cx0 c st) \<and> columns_of cx0 (mark cx0 c st) = insert c (columns_of cx0 st)"
proof (cases "marked cx0 c st")
  case True
  then show ?thesis using assms marked_iff by (auto simp: mark_def)
next
  case False
  have sub: "sub64 c cx0 = c - cx0" using assms by (auto simp: marks_ok_def sub64_exact)
  then have "columns_of cx0 (mark cx0 c st) = insert c (columns_of cx0 st)"
    using assms False by (auto simp: mark_def columns_of_def marks_ok_def nth_list_update)
  moreover have "c \<notin> columns_of cx0 st" using False assms marked_iff by blast
  ultimately show ?thesis using assms(1) False by (simp add: marks_ok_def) (simp add: mark_def)
qed

lemma marks_columns:
  assumes "marks_ok cx0 n st" and "set cs \<subseteq> {cx0..<cx0 + n}"
  shows "marks_ok cx0 n (foldl (\<lambda>st c. mark cx0 c st) st cs) \<and>
    columns_of cx0 (foldl (\<lambda>st c. mark cx0 c st) st cs) = columns_of cx0 st \<union> set cs"
  using assms by (induction cs arbitrary: st) (auto simp: mark_columns)

lemma div_image_interval:
  assumes "0 < (c::nat)" and "a < b"
  shows "(\<lambda>u. u div c) ` {a..<b} = {a div c..<(b - 1) div c + 1}"
proof (intro equalityI subsetI)
  fix k assume "k \<in> (\<lambda>u. u div c) ` {a..<b}"
  then obtain u where "k = u div c" "a \<le> u" "u \<le> b - 1" by force
  then show "k \<in> {a div c..<(b - 1) div c + 1}" using div_le_mono by (auto simp: less_Suc_eq_le)
next
  fix k assume k: "k \<in> {a div c..<(b - 1) div c + 1}"
  let ?u = "max a (k * c)"
  have "k \<le> (b - 1) div c" using k by simp
  then have "k * c \<le> b - 1" using assms(1) by (simp add: less_eq_div_iff_mult_less_eq)
  then have "?u \<in> {a..<b}" using assms(2) by auto
  moreover have "?u div c = k"
  proof (cases "a \<le> k * c")
    case False
    then have "k \<le> a div c" using assms(1) by (simp add: less_eq_div_iff_mult_less_eq)
    then show ?thesis using False k by (simp add: max_def)
  qed (use assms(1) in simp)
  ultimately show "k \<in> (\<lambda>u. u div c) ` {a..<b}" by (metis imageI)
qed

text \<open>A span read through the raster, a chunk at a time: the blocks tile it and each lies in one column.\<close>

definition one_column :: "nat \<Rightarrow> nat \<Rightarrow> nat \<Rightarrow> bool" where
  "one_column c x y \<longleftrightarrow> (\<forall>k \<in> {x..<y}. k div c = x div c)"

lemma chunk_blocks:
  assumes "0 < c" and "c < max_extent" and "stop < max_extent" and "first \<le> stop"
  shows "\<exists>bs. block_loop (\<lambda>x. min stop (mul64 (add64 (x div c) 1) c)) first stop = Some bs \<and> tiles bs first stop \<and>
    (\<forall>(x, y) \<in> set bs. one_column c x y)"
proof -
  have exact: "mul64 (add64 (x div c) 1) c = (x div c + 1) * c" and next_gt: "x < (x div c + 1) * c" if "x < stop" for x
  proof -
    have "x div c \<le> x" by simp
    then have "x div c + 1 < two64" using that assms(3) by linarith
    then have add: "add64 (x div c) 1 = x div c + 1" by (rule add64_exact)
    have "x div c * c \<le> x" by (rule div_times_less_eq_dividend)
    moreover have "(x div c + 1) * c = x div c * c + c" by simp
    ultimately have "(x div c + 1) * c < two64" using that assms by linarith
    then show "mul64 (add64 (x div c) 1) c = (x div c + 1) * c" unfolding add by (rule mul64_exact)
    show "x < (x div c + 1) * c" using div_eq_iff_between [OF assms(1), of x "x div c"] by simp
  qed
  then have "x < mul64 (add64 (x div c) 1) c" if "x < stop" for x using that by metis
  then have "block_cutter (\<lambda>x. min stop (mul64 (add64 (x div c) 1) c)) stop (\<lambda>_. True)"
    by unfold_locales (simp_all only: min_less_iff_conj min.cobounded1)
  from block_cutter.block_loop_returns [OF this, of first] obtain bs where
    bs: "block_loop (\<lambda>x. min stop (mul64 (add64 (x div c) 1) c)) first stop = Some bs" "tiles bs first stop"
    "\<forall>(x, y) \<in> set bs. y = min stop (mul64 (add64 (x div c) 1) c)" using assms(4) by auto
  have "k div c = x div c" if "(x, y) \<in> set bs" "k \<in> {x..<y}" for x y k
  proof -
    have x: "x < stop" using tiles_bounds [OF bs(2)] that(1) by fastforce
    have "y = min stop ((x div c + 1) * c)" using bs(3) that(1) exact [OF x] by auto
    then have "k < (x div c + 1) * c" "x \<le> k" using that(2) by auto
    then show ?thesis
      using div_times_less_eq_dividend [of x c] by (subst div_eq_iff_between [OF assms(1)]) linarith
  qed
  then show ?thesis using bs unfolding one_column_def by blast
qed

lemma mark_blocks_columns:
  assumes "marks_ok cx0 n st" and "\<forall>(x, y) \<in> set bs. x < y \<and> one_column c x y \<and> x div c \<in> {cx0..<cx0 + n}"
  shows "marks_ok cx0 n (foldl (mark_block c cx0 first (raster, off, step)) st bs) \<and>
    columns_of cx0 (foldl (mark_block c cx0 first (raster, off, step)) st bs) =
      columns_of cx0 st \<union> (\<lambda>u. u div c) ` {u \<in> (\<Union>(x, y) \<in> set bs. {x..<y}). raster ! (off + (u - first) * step) \<noteq> 0}"
  using assms
proof (induction bs arbitrary: st)
  case (Cons b bs)
  obtain x y where b: "b = (x, y)" by (cases b)
  let ?sel = "\<lambda>u. raster ! (off + (u - first) * step) \<noteq> 0"
  let ?st = "mark_block c cx0 first (raster, off, step) st b"
  have xy: "x < y" "one_column c x y" "x div c \<in> {cx0..<cx0 + n}" using Cons.prems(2) b by auto
  have "(\<lambda>u. u div c) ` {u \<in> {x..<y}. ?sel u} = (\<lambda>u. x div c) ` {u \<in> {x..<y}. ?sel u}"
    by (rule image_cong [OF refl]) (use xy(2) in \<open>unfold one_column_def, blast\<close>)
  then have "(\<lambda>u. u div c) ` {u \<in> {x..<y}. ?sel u} = (if \<exists>u \<in> {x..<y}. ?sel u then {x div c} else {})" by auto
  moreover have "?st = (if x div c \<notin> columns_of cx0 st \<and> (\<exists>u \<in> {x..<y}. ?sel u) then mark cx0 (x div c) st else st)"
    using marked_iff [OF Cons.prems(1) xy(3)] by (simp add: mark_block_def b list_ex_iff Let_def)
  ultimately have "marks_ok cx0 n ?st \<and> columns_of cx0 ?st = columns_of cx0 st \<union> (\<lambda>u. u div c) ` {u \<in> {x..<y}. ?sel u}"
    using mark_columns [OF Cons.prems(1) xy(3)] Cons.prems(1) by (simp add: insert_absorb)
  moreover have "(\<lambda>u. u div c) ` {u \<in> (\<Union>(x, y) \<in> set (b # bs). {x..<y}). ?sel u} =
      (\<lambda>u. u div c) ` {u \<in> {x..<y}. ?sel u} \<union> (\<lambda>u. u div c) ` {u \<in> (\<Union>(x, y) \<in> set bs. {x..<y}). ?sel u}"
    unfolding b by auto
  ultimately show ?case using Cons.IH [of ?st] Cons.prems(2) by (simp add: Un_assoc)
qed simp

lemma tiles_Union: "tiles bs a b \<Longrightarrow> (\<Union>(x, y) \<in> set bs. {x..<y}) = {a..<b}"
proof -
  assume "tiles bs a b"
  from tiles_concat [OF this] have "set (concat (map (\<lambda>(x, y). [x..<y]) bs)) = set [a..<b]" by (simp only:)
  then show ?thesis by (auto simp: case_prod_beta)
qed

lemma mark_span_columns:
  assumes "marks_ok cx0 n st" and "s = (first, stop, selected)" and "0 < c" and "c < max_extent"
    and "first < stop" and "stop < max_extent" and "(\<lambda>u. u div c) ` {first..<stop} \<subseteq> {cx0..<cx0 + n}"
  shows "\<exists>st'. mark_span c cx0 s st = Some st' \<and> marks_ok cx0 n st' \<and>
    columns_of cx0 st' = columns_of cx0 st \<union> (\<lambda>u. u div c) ` set (span_pixels s)"
proof (cases selected)
  case None
  have "sub64 stop 1 = stop - 1" using assms(5,6) by (simp add: sub64_exact)
  moreover have "set [first div c..<(stop - 1) div c + 1] = (\<lambda>u. u div c) ` {first..<stop}"
    using div_image_interval [OF assms(3,5)] by (simp only: set_upt)
  ultimately show ?thesis using marks_columns [OF assms(1), of "[first div c..<(stop - 1) div c + 1]"] assms(7) None
    by (simp add: mark_span_def assms(2) del: upt_Suc)
next
  case (Some selection)
  obtain raster off step where sel: "selection = (raster, off, step)" by (cases selection)
  obtain bs where bs: "block_loop (\<lambda>x. min stop (mul64 (add64 (x div c) 1) c)) first stop = Some bs"
    "tiles bs first stop" "\<forall>(x, y) \<in> set bs. one_column c x y"
    using chunk_blocks [OF assms(3,4,6), of first] assms(5) by auto
  have "\<forall>(x, y) \<in> set bs. x < y \<and> one_column c x y \<and> x div c \<in> {cx0..<cx0 + n}"
  proof clarify
    fix x y assume xy: "(x, y) \<in> set bs"
    then have "first \<le> x" "x < y" "y \<le> stop" using tiles_bounds [OF bs(2)] by auto
    then have "x div c \<in> (\<lambda>u. u div c) ` {first..<stop}" by simp
    then have "x div c \<in> {cx0..<cx0 + n}" using assms(7) by blast
    then show "x < y \<and> one_column c x y \<and> x div c \<in> {cx0..<cx0 + n}" using bs(3) xy \<open>x < y\<close> by blast
  qed
  from mark_blocks_columns [OF assms(1) this, of first raster off step]
  have "marks_ok cx0 n (foldl (mark_block c cx0 first (raster, off, step)) st bs) \<and>
      columns_of cx0 (foldl (mark_block c cx0 first (raster, off, step)) st bs) =
        columns_of cx0 st \<union> (\<lambda>u. u div c) ` set (span_pixels s)"
    unfolding tiles_Union [OF bs(2)] assms(2) Some sel span_pixels_def by simp
  then show ?thesis using bs(1) by (simp add: mark_span_def assms(2) Some sel)
qed

lemma mark_spans_columns:
  assumes "0 < c" and "c < max_extent"
    and "\<forall>(first, stop, selected) \<in> set spans. first < stop \<and> stop < max_extent \<and> (\<lambda>u. u div c) ` {first..<stop} \<subseteq> {cx0..<cx0 + n}"
  shows "marks_ok cx0 n st \<Longrightarrow> \<exists>st'. mark_spans c cx0 spans st = Some st' \<and> marks_ok cx0 n st' \<and>
    columns_of cx0 st' = columns_of cx0 st \<union> (\<lambda>u. u div c) ` set (concat (map span_pixels spans))"
  using assms(3)
proof (induction spans arbitrary: st)
  case (Cons s spans)
  obtain first stop selected where s: "s = (first, stop, selected)" by (cases s)
  obtain st1 where st1: "mark_span c cx0 s st = Some st1" "marks_ok cx0 n st1"
    "columns_of cx0 st1 = columns_of cx0 st \<union> (\<lambda>u. u div c) ` set (span_pixels s)"
    using mark_span_columns [OF Cons.prems(1) s assms(1,2)] Cons.prems(2) s by auto
  then show ?case using Cons.IH [of st1] Cons.prems(2) by (auto simp: image_Un Un_assoc)
qed simp

section \<open>What a scan finds\<close>

text \<open>The chunk columns a region selects pixels of in one pixel row, and whether it has a pixel in a chunk.\<close>

definition row_columns :: "bool \<Rightarrow> RegionMask \<Rightarrow> nat \<Rightarrow> nat \<Rightarrow> nat set" where
  "row_columns swap g chunk_u y = {u div chunk_u | u. placed_selects swap g u y}"

definition touches :: "bool \<Rightarrow> RegionMask \<Rightarrow> nat \<Rightarrow> nat \<Rightarrow> nat \<Rightarrow> nat \<Rightarrow> bool" where
  "touches swap g chunk_u chunk_v cx cy \<longleftrightarrow>
     (\<exists>u v. placed_selects swap g u v \<and> u div chunk_u = cx \<and> v div chunk_v = cy)"

definition chunk_ok :: "nat \<Rightarrow> bool" where
  "chunk_ok c \<longleftrightarrow> 0 < c \<and> c < max_extent"

text \<open>The columns of the band a region's box lies in.\<close>

definition first_column :: "PlacedRegion \<Rightarrow> nat \<Rightarrow> nat" where
  "first_column r c = pr_u_start r div c"

definition last_column :: "PlacedRegion \<Rightarrow> nat \<Rightarrow> nat" where
  "last_column r c = (pr_u_start r + pr_u_size r - 1) div c"

lemma band_columns:
  assumes "region_ok g plane" and "plane_ok plane" and r: "r = place_region swap g" and c: "chunk_ok c"
  shows "first_column r c \<le> last_column r c"
    and "(\<lambda>u. u div c) ` {pr_u_start r..<pr_u_start r + pr_u_size r} = {first_column r c..<last_column r c + 1}"
    and "last_column r c < max_extent"
proof -
  note box = placed_box [OF assms(1-3)]
  have lt: "pr_u_start r < pr_u_start r + pr_u_size r" using box(5) by simp
  show "(\<lambda>u. u div c) ` {pr_u_start r..<pr_u_start r + pr_u_size r} = {first_column r c..<last_column r c + 1}"
    using div_image_interval [OF _ lt, of c] c by (simp only: chunk_ok_def first_column_def last_column_def)
  show "first_column r c \<le> last_column r c"
    unfolding first_column_def last_column_def using box(5) by (intro div_le_mono) simp
  have "last_column r c \<le> pr_u_start r + pr_u_size r - 1" unfolding last_column_def by (rule div_le_dividend)
  then show "last_column r c < max_extent" using box(3) by linarith
qed

lemma row_columns_band:
  assumes "region_ok g plane" and "plane_ok plane" and r: "r = place_region swap g" and c: "chunk_ok c"
  shows "row_columns swap g c y \<subseteq> {first_column r c..<last_column r c + 1}"
  using placed_box(7) [OF assms(1-3)] unfolding band_columns(2) [OF assms, symmetric] row_columns_def by force

lemma mark_row_columns:
  assumes "region_ok g plane" and "plane_ok plane" and r: "r = place_region swap g" and c: "chunk_ok c"
    and "in_rows r y" and "marks_ok (first_column r c) n st" and n: "n = last_column r c + 1 - first_column r c"
  shows "\<exists>st'. mark_row c (first_column r c) r y st = Some st' \<and> marks_ok (first_column r c) n st' \<and>
    columns_of (first_column r c) st' = columns_of (first_column r c) st \<union> row_columns swap g c y"
proof -
  note box = placed_box [OF assms(1-3)] and band = band_columns [OF assms(1-4)]
  have add: "add64 (pr_u_start r) (pr_u_size r) = pr_u_start r + pr_u_size r" using box(3) by (intro add64_exact) linarith
  let ?spans = "ForEachSpan r y (pr_u_start r) (pr_u_start r + pr_u_size r)"
  have spans: "\<forall>(first, stop, selected) \<in> set ?spans. first < stop \<and> stop < max_extent \<and>
      (\<lambda>u. u div c) ` {first..<stop} \<subseteq> {first_column r c..<first_column r c + n}"
  proof (rule ballI, unfold split_paired_all prod.case)
    fix a b sel assume "(a, b, sel) \<in> set ?spans"
    from ForEachSpan_bounds [OF this] have ab: "pr_u_start r \<le> a" "a < b" "b \<le> pr_u_start r + pr_u_size r" by auto
    then have "(\<lambda>u. u div c) ` {a..<b} \<subseteq> (\<lambda>u. u div c) ` {pr_u_start r..<pr_u_start r + pr_u_size r}"
      by (intro image_mono) auto
    then show "a < b \<and> b < max_extent \<and> (\<lambda>u. u div c) ` {a..<b} \<subseteq> {first_column r c..<first_column r c + n}"
      using ab box(3) band(1,2) n by simp
  qed
  have pixels: "set (concat (map span_pixels ?spans)) = {u. placed_selects swap g u y}"
    using ForEachSpan_selects [OF assms(1,2), of swap y "pr_u_start r" "pr_u_start r + pr_u_size r"] assms(5) box(7)
    by (auto simp flip: r)
  have "row_columns swap g c y = (\<lambda>u. u div c) ` set (concat (map span_pixels ?spans))"
    unfolding pixels row_columns_def by blast
  then show ?thesis using mark_spans_columns [OF _ _ spans assms(6)] c by (simp only: mark_row_def add chunk_ok_def simp_thms)
qed

lemma scan_pixel_rows_columns:
  assumes "region_ok g plane" and "plane_ok plane" and r: "r = place_region swap g" and c: "chunk_ok c"
    and n: "n = last_column r c + 1 - first_column r c"
  shows "\<forall>y \<in> set ys. in_rows r y \<Longrightarrow> marks_ok (first_column r c) n st \<Longrightarrow>
    \<exists>st'. scan_pixel_rows c (first_column r c) n r ys st = Some st' \<and> marks_ok (first_column r c) n st' \<and>
      columns_of (first_column r c) st' = columns_of (first_column r c) st \<union> (\<Union>y \<in> set ys. row_columns swap g c y)"
proof (induction ys arbitrary: st)
  case (Cons y ys)
  let ?cx = "first_column r c"
  show ?case
  proof (cases "snd st < n")
    case True
    obtain st1 where st1: "mark_row c ?cx r y st = Some st1" "marks_ok ?cx n st1"
      "columns_of ?cx st1 = columns_of ?cx st \<union> row_columns swap g c y"
      using mark_row_columns [OF assms(1-4) _ Cons.prems(2) n, of y] Cons.prems(1) by auto
    then show ?thesis using Cons.IH [of st1] Cons.prems(1) True by (auto simp: Un_assoc)
  next
    case False
    have sub: "columns_of ?cx st \<subseteq> {?cx..<?cx + n}" using Cons.prems(2) by (auto simp: columns_of_def marks_ok_def)
    have "card {?cx..<?cx + n} \<le> card (columns_of ?cx st)" using False Cons.prems(2) by (simp add: marks_ok_def)
    then have "columns_of ?cx st = {?cx..<?cx + n}" using sub by (intro card_seteq) auto
    moreover have "row_columns swap g c y' \<subseteq> {?cx..<?cx + n}" for y'
      using row_columns_band [OF assms(1-4)] n band_columns(1) [OF assms(1-4)] by simp
    then have "(\<Union>y \<in> set (y # ys). row_columns swap g c y) \<subseteq> {?cx..<?cx + n}" by blast
    ultimately show ?thesis using False Cons.prems(2) by auto
  qed
qed simp

text \<open>The pixel rows of a chunk row that lie in the region's box.\<close>

lemma chunk_row_rows:
  assumes "region_ok g plane" and "plane_ok plane" and r: "r = place_region swap g" and c: "chunk_ok c"
    and "cy \<le> (pr_v_start r + pr_v_size r - 1) div c"
  shows "{max (pr_v_start r) (mul64 cy c)..<min (add64 (pr_v_start r) (pr_v_size r)) (mul64 (add64 cy 1) c)} =
    {y. in_rows r y \<and> y div c = cy}"
proof -
  note box = placed_box [OF assms(1-3)]
  have c0: "0 < c" "c < max_extent" using c by (auto simp: chunk_ok_def)
  have add: "add64 (pr_v_start r) (pr_v_size r) = pr_v_start r + pr_v_size r" using box(4) by (intro add64_exact) linarith
  have le: "cy * c \<le> pr_v_start r + pr_v_size r - 1" using assms(5) c0 by (simp add: less_eq_div_iff_mult_less_eq)
  have "cy * 1 \<le> cy * c" using c0 by (intro mult_le_mono) auto
  then have "cy + 1 < two64" using le box(4) by linarith
  then have add1: "add64 cy 1 = cy + 1" by (rule add64_exact)
  have "(cy + 1) * c = cy * c + c" by simp
  then have "cy * c < two64" "(cy + 1) * c < two64" using le box(4) c0 by linarith+
  then have mul: "mul64 cy c = cy * c" "mul64 (add64 cy 1) c = (cy + 1) * c" unfolding add1 by (simp_all only: mul64_exact)
  show ?thesis unfolding add mul by (auto simp: in_rows_def div_eq_iff_between [OF c0(1)])
qed

lemma scan_chunk_row_visits:
  assumes "region_ok g plane" and "plane_ok plane" and r: "r = place_region swap g"
    and "chunk_ok (occ_chunk_u occ)" and "chunk_ok (occ_chunk_v occ)"
    and "cy \<le> (pr_v_start r + pr_v_size r - 1) div occ_chunk_v occ"
  defines "cx0 \<equiv> first_column r (occ_chunk_u occ)" and "cx1 \<equiv> last_column r (occ_chunk_u occ)"
  shows "scan_chunk_row occ r cx0 cx1 cy inc = Some (foldl (visit occ cy) inc
    (filter (\<lambda>cx. touches swap g (occ_chunk_u occ) (occ_chunk_v occ) cx cy) [cx0..<cx1 + 1]))"
proof -
  let ?cu = "occ_chunk_u occ" and ?cv = "occ_chunk_v occ"
  note band = band_columns [OF assms(1-4), folded cx0_def cx1_def]
  have n: "add64 (sub64 cx1 cx0) 1 = cx1 + 1 - cx0" using band by (simp add: sub64_exact add64_exact)
  let ?n = "cx1 + 1 - cx0"
  have start: "marks_ok cx0 ?n (replicate ?n False, 0)" "columns_of cx0 (replicate ?n False, 0) = {}"
    using band by (auto simp: marks_ok_def columns_of_def)
  let ?ys = "[max (pr_v_start r) (mul64 cy ?cv)..<min (add64 (pr_v_start r) (pr_v_size r)) (mul64 (add64 cy 1) ?cv)]"
  have ys: "set ?ys = {y. in_rows r y \<and> y div ?cv = cy}" using chunk_row_rows [OF assms(1-3,5,6)] by (simp only: set_upt)
  then have rows: "\<forall>y \<in> set ?ys. in_rows r y" by blast
  obtain st where st: "scan_pixel_rows ?cu cx0 ?n r ?ys (replicate ?n False, 0) = Some st" "marks_ok cx0 ?n st"
    "columns_of cx0 st = (\<Union>y \<in> set ?ys. row_columns swap g ?cu y)"
    using scan_pixel_rows_columns [OF assms(1-4) refl rows, folded cx0_def cx1_def, OF start(1)] start(2) by auto
  have "marked cx0 cx st \<longleftrightarrow> touches swap g ?cu ?cv cx cy" if "cx \<in> set [cx0..<cx1 + 1]" for cx
  proof -
    have "marked cx0 cx st \<longleftrightarrow> cx \<in> columns_of cx0 st" using that band by (intro marked_iff [OF st(2)]) auto
    also have "\<dots> \<longleftrightarrow> touches swap g ?cu ?cv cx cy"
      unfolding st(3) ys row_columns_def touches_def using placed_box(7) [OF assms(1-3)] by blast
    finally show ?thesis .
  qed
  then have "filter (\<lambda>cx. marked cx0 cx st) [cx0..<cx1 + 1] = filter (\<lambda>cx. touches swap g ?cu ?cv cx cy) [cx0..<cx1 + 1]"
    by (rule filter_cong [OF refl])
  then show ?thesis unfolding scan_chunk_row_def Let_def n st(1) bind.simps by (simp only:)
qed

section \<open>What is recorded\<close>

text \<open>Recording a list of cells: as many as there is room for, and whether there were more.\<close>

definition inc_ok :: "incidences \<Rightarrow> bool" where
  "inc_ok inc \<longleftrightarrow> length (fst inc) \<le> kMaxChunkIncidences \<and> (snd inc \<longrightarrow> length (fst inc) = kMaxChunkIncidences)"

definition collect :: "incidences \<Rightarrow> u64 list \<Rightarrow> incidences" where
  "collect inc xs =
     (fst inc @ take (kMaxChunkIncidences - length (fst inc)) xs,
      snd inc \<or> kMaxChunkIncidences < length (fst inc) + length xs)"

lemma collect_Nil [simp]: "inc_ok inc \<Longrightarrow> collect inc [] = inc"
  by (cases inc) (auto simp: collect_def inc_ok_def)

lemma inc_ok_collect [simp]: "inc_ok inc \<Longrightarrow> inc_ok (collect inc xs)"
  by (auto simp: collect_def inc_ok_def)

lemma collect_append: "inc_ok inc \<Longrightarrow> collect (collect inc xs) ys = collect inc (xs @ ys)"
  by (auto simp: collect_def inc_ok_def min_def)

lemma collect_full: "inc_ok inc \<Longrightarrow> snd inc \<Longrightarrow> collect inc xs = inc"
  by (cases inc) (auto simp: collect_def inc_ok_def)

lemma visit_collect: "inc_ok inc \<Longrightarrow> foldl (visit occ cy) inc xs = collect inc (map (\<lambda>cx. Cell occ cx cy) xs)"
proof (induction xs arbitrary: inc)
  case (Cons x xs)
  have "visit occ cy inc x = collect inc [Cell occ x cy]"
    using Cons.prems by (cases inc) (auto simp: visit_def collect_def inc_ok_def)
  then show ?case using Cons by (simp add: collect_append)
qed simp

text \<open>The cells of one region, row by row.\<close>

definition row_cells :: "Occupancy \<Rightarrow> bool \<Rightarrow> RegionMask \<Rightarrow> nat \<Rightarrow> u64 list" where
  "row_cells occ swap g cy =
     (let r = place_region swap g
      in map (\<lambda>cx. Cell occ cx cy) (filter (\<lambda>cx. touches swap g (occ_chunk_u occ) (occ_chunk_v occ) cx cy)
           [first_column r (occ_chunk_u occ)..<last_column r (occ_chunk_u occ) + 1]))"

definition region_cells :: "Occupancy \<Rightarrow> bool \<Rightarrow> RegionMask \<Rightarrow> u64 list" where
  "region_cells occ swap g =
     (let r = place_region swap g
      in concat (map (row_cells occ swap g)
           [pr_v_start r div occ_chunk_v occ..<(pr_v_start r + pr_v_size r - 1) div occ_chunk_v occ + 1]))"

lemma scan_rows_collect:
  assumes "region_ok g plane" and "plane_ok plane" and r: "r = place_region swap g"
    and "chunk_ok (occ_chunk_u occ)" and "chunk_ok (occ_chunk_v occ)"
  shows "inc_ok inc \<Longrightarrow> \<forall>cy \<in> set cys. cy \<le> (pr_v_start r + pr_v_size r - 1) div occ_chunk_v occ \<Longrightarrow>
    scan_rows occ r (first_column r (occ_chunk_u occ)) (last_column r (occ_chunk_u occ)) cys inc =
      Some (collect inc (concat (map (row_cells occ swap g) cys)))"
proof (induction cys arbitrary: inc)
  case (Cons cy cys)
  show ?case
  proof (cases "snd inc")
    case False
    have cy: "cy \<le> (pr_v_start r + pr_v_size r - 1) div occ_chunk_v occ" using Cons.prems(2) by simp
    from scan_chunk_row_visits [OF assms this, of inc]
    have "scan_chunk_row occ r (first_column r (occ_chunk_u occ)) (last_column r (occ_chunk_u occ)) cy inc =
        Some (collect inc (row_cells occ swap g cy))"
      unfolding visit_collect [OF Cons.prems(1)] row_cells_def Let_def r .
    then show ?thesis using Cons False by (simp add: collect_append)
  qed (use Cons.prems in \<open>simp add: collect_full\<close>)
qed simp

lemma for_each_cell_collect:
  assumes "region_ok g plane" and "plane_ok plane" and "chunk_ok (occ_chunk_u occ)" and "chunk_ok (occ_chunk_v occ)" and "inc_ok inc"
  shows "for_each_cell occ (place_region swap g) inc = Some (collect inc (region_cells occ swap g))"
proof -
  define r where "r = place_region swap g"
  note box = placed_box [OF assms(1,2) r_def]
  have "sub64 (add64 (pr_u_start r) (pr_u_size r)) 1 = pr_u_start r + pr_u_size r - 1"
    "sub64 (add64 (pr_v_start r) (pr_v_size r)) 1 = pr_v_start r + pr_v_size r - 1"
    using box(3-6) by (simp_all add: add64_exact sub64_exact)
  then show ?thesis
    unfolding for_each_cell_def region_cells_def Let_def r_def [symmetric] first_column_def [symmetric]
    using scan_rows_collect [OF assms(1,2) r_def assms(3,4,5)] by (simp add: last_column_def del: upt_Suc)
qed

lemma record_incidences_collect:
  assumes "plane_ok plane" and "chunk_ok (occ_chunk_u occ)" and "chunk_ok (occ_chunk_v occ)"
  shows "\<forall>g \<in> set gs. region_ok g plane \<Longrightarrow> inc_ok inc \<Longrightarrow>
    \<exists>firsts'. record_incidences occ (map (place_region swap) gs) inc firsts =
        Some (collect inc (concat (map (region_cells occ swap) gs)), firsts') \<and>
      (\<not> snd (collect inc (concat (map (region_cells occ swap) gs))) \<longrightarrow>
        firsts' = firsts @ map (\<lambda>i. length (fst inc) + length (concat (map (region_cells occ swap) (take (i + 1) gs)))) [0..<length gs])"
proof (induction gs arbitrary: inc firsts)
  case (Cons g gs)
  let ?R = "region_cells occ swap"
  show ?case
  proof (cases "snd inc")
    case True
    then show ?thesis using Cons.prems by (simp add: collect_full)
  next
    case False
    let ?inc = "collect inc (?R g)"
    obtain firsts' where IH: "record_incidences occ (map (place_region swap) gs) ?inc (firsts @ [length (fst ?inc)]) =
        Some (collect ?inc (concat (map ?R gs)), firsts')"
      "\<not> snd (collect ?inc (concat (map ?R gs))) \<Longrightarrow> firsts' = (firsts @ [length (fst ?inc)]) @
        map (\<lambda>i. length (fst ?inc) + length (concat (map ?R (take (i + 1) gs)))) [0..<length gs]"
      using Cons.IH [of ?inc "firsts @ [length (fst ?inc)]"] Cons.prems by auto
    have step: "record_incidences occ (map (place_region swap) (g # gs)) inc firsts =
        Some (collect inc (concat (map ?R (g # gs))), firsts')"
      using IH(1) False Cons.prems for_each_cell_collect [OF _ assms, of g inc swap] by (simp add: collect_append)
    have "firsts' = firsts @ map (\<lambda>i. length (fst inc) + length (concat (map ?R (take (i + 1) (g # gs))))) [0..<length (g # gs)]"
      if fits: "\<not> snd (collect inc (concat (map ?R (g # gs))))"
    proof -
      have "\<not> kMaxChunkIncidences < length (fst inc) + length (?R g @ concat (map ?R gs))" using fits by (simp add: collect_def)
      then have len: "length (fst ?inc) = length (fst inc) + length (?R g)" by (simp add: collect_def)
      have "[0..<length (g # gs)] = 0 # map Suc [0..<length gs]" by (simp add: map_Suc_upt upt_conv_Cons del: upt_Suc)
      then show ?thesis using IH(2) fits Cons.prems(2) len by (simp add: collect_append add.assoc)
    qed
    then show ?thesis using step by blast
  qed
qed simp

section \<open>The grid\<close>

lemma foldl_min_le: "foldl (\<lambda>a r. min a (f r)) z xs \<le> (z :: nat) \<and> (\<forall>r \<in> set xs. foldl (\<lambda>a r. min a (f r)) z xs \<le> f r)"
  by (induction xs rule: rev_induct) auto

lemma foldl_max_ge: "(z :: nat) \<le> foldl (\<lambda>a r. max a (f r)) z xs \<and> (\<forall>r \<in> set xs. f r \<le> foldl (\<lambda>a r. max a (f r)) z xs)"
  by (induction xs rule: rev_induct) auto

lemma foldl_max_le: "(z :: nat) \<le> b \<Longrightarrow> \<forall>r \<in> set xs. f r \<le> b \<Longrightarrow> foldl (\<lambda>a r. max a (f r)) z xs \<le> b"
  by (induction xs rule: rev_induct) auto

text \<open>What placing the regions leaves the index with, before anything is scanned.\<close>

definition grid_ok :: "Occupancy \<Rightarrow> bool \<Rightarrow> RegionMask list \<Rightarrow> nat \<Rightarrow> nat \<Rightarrow> bool" where
  "grid_ok occ swap gs W H \<longleftrightarrow>
     chunk_ok (occ_chunk_u occ) \<and> chunk_ok (occ_chunk_v occ) \<and> occ_regions occ = map (place_region swap) gs \<and>
     occ_u0 occ < occ_u1 occ \<and> occ_v0 occ < occ_v1 occ \<and> occ_u1 occ \<le> W \<and> occ_v1 occ \<le> H \<and> W < max_extent \<and> H < max_extent \<and>
     W * H < two64 \<and>
     (\<forall>g \<in> set gs. \<forall>u v. placed_selects swap g u v \<longrightarrow> occ_u0 occ \<le> u \<and> u < occ_u1 occ \<and> occ_v0 occ \<le> v \<and> v < occ_v1 occ) \<and>
     occ_chunk_cu0 occ = occ_u0 occ div occ_chunk_u occ \<and> occ_chunk_cv0 occ = occ_v0 occ div occ_chunk_v occ \<and>
     occ_columns occ = (occ_u1 occ - 1) div occ_chunk_u occ + 1 - occ_u0 occ div occ_chunk_u occ"

lemma place_all_grid:
  assumes "plane_ok plane" and "\<forall>g \<in> set gs. region_ok g plane" and "gs \<noteq> []" and "chunk_ok cu" and "chunk_ok cv"
    and swap: "swap = (fastest = spatial_y)"
  shows "grid_ok (place_all gs cu cv fastest) swap gs (if swap then pe_height plane else pe_width plane)
           (if swap then pe_width plane else pe_height plane)"
proof -
  define placed where "placed = map (place_region swap) gs"
  define occ where "occ = place_all gs cu cv fastest"
  have box: "pr_u_start r < add64 (pr_u_start r) (pr_u_size r)" "pr_v_start r < add64 (pr_v_start r) (pr_v_size r)"
    "add64 (pr_u_start r) (pr_u_size r) \<le> (if swap then pe_height plane else pe_width plane)"
    "add64 (pr_v_start r) (pr_v_size r) \<le> (if swap then pe_width plane else pe_height plane)" if "r \<in> set placed" for r
  proof -
    from that obtain g where "g \<in> set gs" "r = place_region swap g" by (auto simp: placed_def)
    note box = placed_box [OF assms(2) [rule_format, OF this(1)] assms(1) this(2)]
    have "add64 (pr_u_start r) (pr_u_size r) = pr_u_start r + pr_u_size r"
      "add64 (pr_v_start r) (pr_v_size r) = pr_v_start r + pr_v_size r" using box(3,4) by (simp_all add: add64_exact)
    then show "pr_u_start r < add64 (pr_u_start r) (pr_u_size r)" "pr_v_start r < add64 (pr_v_start r) (pr_v_size r)"
      "add64 (pr_u_start r) (pr_u_size r) \<le> (if swap then pe_height plane else pe_width plane)"
      "add64 (pr_v_start r) (pr_v_size r) \<le> (if swap then pe_width plane else pe_height plane)"
      using box(1,2,5,6) by simp_all
  qed
  have lows: "occ_u0 occ \<le> pr_u_start r" "occ_v0 occ \<le> pr_v_start r"
    and highs: "add64 (pr_u_start r) (pr_u_size r) \<le> occ_u1 occ" "add64 (pr_v_start r) (pr_v_size r) \<le> occ_v1 occ"
    if "r \<in> set placed" for r
    using that foldl_min_le [of pr_u_start _ placed] foldl_min_le [of pr_v_start _ placed]
      foldl_max_ge [of _ "\<lambda>r. add64 (pr_u_start r) (pr_u_size r)" placed] foldl_max_ge [of _ "\<lambda>r. add64 (pr_v_start r) (pr_v_size r)" placed]
    by (auto simp: occ_def place_all_def Let_def placed_def swap)
  have ends: "occ_u1 occ \<le> (if swap then pe_height plane else pe_width plane)" "occ_v1 occ \<le> (if swap then pe_width plane else pe_height plane)"
    using box(3,4) foldl_max_le [of 0 _ placed] unfolding occ_def place_all_def Let_def placed_def swap by (auto intro!: foldl_max_le)
  obtain r where r: "r \<in> set placed" using assms(3) by (cases gs) (auto simp: placed_def)
  have nonempty: "occ_u0 occ < occ_u1 occ" "occ_v0 occ < occ_v1 occ"
    using lows [OF r] highs [OF r] box(1,2) [OF r] by linarith+
  have inside: "occ_u0 occ \<le> u \<and> u < occ_u1 occ \<and> occ_v0 occ \<le> v \<and> v < occ_v1 occ"
    if "g \<in> set gs" "placed_selects swap g u v" for g u v
  proof -
    have r: "place_region swap g \<in> set placed" using that(1) by (simp add: placed_def)
    note b = placed_box [OF assms(2) [rule_format, OF that(1)] assms(1) refl, of swap]
    show ?thesis using b(7) [OF that(2)] lows [OF r] highs [OF r] b(3,4) by (simp add: in_rows_def add64_exact)
  qed
  have small: "(if swap then pe_height plane else pe_width plane) < max_extent" "(if swap then pe_width plane else pe_height plane) < max_extent"
    "(if swap then pe_height plane else pe_width plane) * (if swap then pe_width plane else pe_height plane) < two64"
    using assms(1) by (auto simp: plane_ok_def mult.commute)
  have "occ_u1 occ - 1 \<ge> occ_u0 occ" using nonempty by simp
  then have le: "occ_u0 occ div cu \<le> (occ_u1 occ - 1) div cu" by (rule div_le_mono)
  have "(occ_u1 occ - 1) div cu \<le> occ_u1 occ - 1" by (rule div_le_dividend)
  then have "(occ_u1 occ - 1) div cu < max_extent" using ends(1) small(1) by linarith
  then have columns: "add64 (sub64 (sub64 (occ_u1 occ) 1 div cu) (occ_u0 occ div cu)) 1 = (occ_u1 occ - 1) div cu + 1 - occ_u0 occ div cu"
    using le nonempty ends(1) small(1) by (simp add: sub64_exact add64_exact)
  have fields: "occ_chunk_u occ = cu" "occ_chunk_v occ = cv" "occ_regions occ = placed" "occ_chunk_cu0 occ = occ_u0 occ div cu"
    "occ_chunk_cv0 occ = occ_v0 occ div cv" "occ_columns occ = add64 (sub64 (sub64 (occ_u1 occ) 1 div cu) (occ_u0 occ div cu)) 1"
    by (simp_all add: occ_def place_all_def Let_def placed_def swap)
  show ?thesis unfolding occ_def [symmetric] grid_ok_def fields columns
    using assms(4,5) nonempty ends small inside by (simp add: placed_def)
qed

text \<open>The cells of the grid, and their numbers.\<close>

definition in_grid :: "Occupancy \<Rightarrow> nat \<Rightarrow> nat \<Rightarrow> bool" where
  "in_grid occ cx cy \<longleftrightarrow> cx \<in> {occ_u0 occ div occ_chunk_u occ..(occ_u1 occ - 1) div occ_chunk_u occ} \<and>
     cy \<in> {occ_v0 occ div occ_chunk_v occ..(occ_v1 occ - 1) div occ_chunk_v occ}"

lemma touches_in_grid:
  assumes "grid_ok occ swap gs W H" and "g \<in> set gs" and "touches swap g (occ_chunk_u occ) (occ_chunk_v occ) cx cy"
  shows "in_grid occ cx cy"
proof -
  obtain u v where uv: "placed_selects swap g u v" "u div occ_chunk_u occ = cx" "v div occ_chunk_v occ = cy"
    using assms(3) by (auto simp: touches_def)
  then have "occ_u0 occ \<le> u" "u \<le> occ_u1 occ - 1" "occ_v0 occ \<le> v" "v \<le> occ_v1 occ - 1"
    using assms(1,2) by (fastforce simp: grid_ok_def)+
  then show ?thesis using uv(2,3) by (auto simp: in_grid_def intro: div_le_mono)
qed

lemma Cell_exact:
  assumes "grid_ok occ swap gs W H" and "in_grid occ cx cy"
  shows "Cell occ cx cy = (cy - occ_chunk_cv0 occ) * occ_columns occ + (cx - occ_chunk_cu0 occ)"
    and "cx - occ_chunk_cu0 occ < occ_columns occ" and "occ_chunk_cu0 occ \<le> cx" and "occ_chunk_cv0 occ \<le> cy"
    and "Cell occ cx cy < two64"
proof -
  let ?cv0 = "occ_chunk_cv0 occ" and ?cu0 = "occ_chunk_cu0 occ" and ?n = "occ_columns occ"
  have g: "?cu0 = occ_u0 occ div occ_chunk_u occ" "?cv0 = occ_v0 occ div occ_chunk_v occ"
    "?n = (occ_u1 occ - 1) div occ_chunk_u occ + 1 - occ_u0 occ div occ_chunk_u occ"
    "occ_u0 occ < occ_u1 occ" "occ_v0 occ < occ_v1 occ" "occ_u1 occ \<le> W" "occ_v1 occ \<le> H"
    "W < max_extent" "H < max_extent" "W * H < two64"
    using assms(1) by (auto simp: grid_ok_def)
  have x: "?cu0 \<le> cx" "cx \<le> (occ_u1 occ - 1) div occ_chunk_u occ" and y: "?cv0 \<le> cy" "cy \<le> (occ_v1 occ - 1) div occ_chunk_v occ"
    using assms(2) g(1,2) by (auto simp: in_grid_def)
  show lt: "cx - ?cu0 < ?n" and "?cu0 \<le> cx" and "?cv0 \<le> cy" using x y g(1,3) by auto
  have "cx < W" using x(2) div_le_dividend [of "occ_u1 occ - 1" "occ_chunk_u occ"] g(4,6) by linarith
  have "cy < H" using y(2) div_le_dividend [of "occ_v1 occ - 1" "occ_chunk_v occ"] g(5,7) by linarith
  have "?n \<le> W" using g(3,4,6) div_le_dividend [of "occ_u1 occ - 1" "occ_chunk_u occ"] by linarith
  have "(cy - ?cv0) * ?n + (cx - ?cu0) < (cy - ?cv0 + 1) * ?n" using lt by simp
  also have "\<dots> \<le> H * W" using \<open>cy < H\<close> \<open>?n \<le> W\<close> by (intro mult_le_mono) auto
  finally have total: "(cy - ?cv0) * ?n + (cx - ?cu0) < two64" using g(10) by (simp add: mult.commute)
  then have "(cy - ?cv0) * ?n < two64" by linarith
  then show "Cell occ cx cy = (cy - ?cv0) * ?n + (cx - ?cu0)" using total x y \<open>cx < W\<close> \<open>cy < H\<close> g(8,9)
    by (simp add: Cell_def sub64_exact mul64_exact add64_exact)
  then show "Cell occ cx cy < two64" using total by simp
qed

lemma Cell_inj:
  assumes "grid_ok occ swap gs W H" and "in_grid occ cx cy" and "in_grid occ cx' cy'" and "Cell occ cx cy = Cell occ cx' cy'"
  shows "cx = cx' \<and> cy = cy'"
proof -
  note a = Cell_exact [OF assms(1,2)] and b = Cell_exact [OF assms(1,3)]
  let ?n = "occ_columns occ"
  have "Cell occ cx cy div ?n = cy - occ_chunk_cv0 occ" "Cell occ cx cy mod ?n = cx - occ_chunk_cu0 occ" unfolding a(1) using a(2) by auto
  moreover have "Cell occ cx' cy' div ?n = cy' - occ_chunk_cv0 occ" "Cell occ cx' cy' mod ?n = cx' - occ_chunk_cu0 occ"
    unfolding b(1) using b(2) by auto
  ultimately show ?thesis using assms(4) a(3,4) b(3,4) by (metis eq_diff_iff)
qed

section \<open>The index built\<close>

lemma lower_bound_le: "lower_bound xs key \<le> length xs"
  by (simp add: lower_bound_def length_takeWhile_le)

lemma lower_bound_mem:
  "sorted_wrt (<) xs \<Longrightarrow> key \<in> set xs \<longleftrightarrow> lower_bound xs key < length xs \<and> xs ! lower_bound xs key = key"
  by (induction xs) (auto simp: lower_bound_def)

lemma lower_bound_inj:
  "sorted_wrt (<) xs \<Longrightarrow> x \<in> set xs \<Longrightarrow> y \<in> set xs \<Longrightarrow> lower_bound xs x = lower_bound xs y \<longleftrightarrow> x = y"
  by (metis lower_bound_mem)

lemma sorted_remdups_adj_strict: "sorted (xs :: nat list) \<Longrightarrow> sorted_wrt (<) (remdups_adj xs)"
  by (induction xs rule: remdups_adj.induct) (auto simp: less_le)

lemma sorted_cells: "sorted_wrt (<) (remdups_adj (sort xs))" for xs :: "nat list"
  by (rule sorted_remdups_adj_strict) simp

lemma concat_segment:
  assumes "i < length xss"
  shows "map (\<lambda>k. h (concat xss ! k)) [length (concat (take i xss))..<length (concat (take (i + 1) xss))] = map h (xss ! i)"
proof (rule nth_equalityI)
  have split: "concat xss = concat (take i xss) @ xss ! i @ concat (drop (i + 1) xss)"
    by (metis Suc_eq_plus1 append_assoc append_take_drop_id assms concat.simps(2) concat_append id_take_nth_drop)
  have len: "length (concat (take (i + 1) xss)) = length (concat (take i xss)) + length (xss ! i)"
    using assms by (simp add: take_Suc_conv_app_nth)
  show "length (map (\<lambda>k. h (concat xss ! k)) [length (concat (take i xss))..<length (concat (take (i + 1) xss))]) = length (map h (xss ! i))"
    unfolding len by simp
  fix j assume "j < length (map (\<lambda>k. h (concat xss ! k)) [length (concat (take i xss))..<length (concat (take (i + 1) xss))])"
  then have j: "j < length (xss ! i)" unfolding len by simp
  then show "map (\<lambda>k. h (concat xss ! k)) [length (concat (take i xss))..<length (concat (take (i + 1) xss))] ! j = map h (xss ! i) ! j"
    unfolding len by (subst split) (simp add: nth_append)
qed

lemma bucket_slice:
  assumes "b < m"
  shows "take (bucket_start kvs (b + 1) - bucket_start kvs b) (drop (bucket_start kvs b) (concat (map (bucket kvs) [0..<m]))) = bucket kvs b"
proof -
  have "length (concat (map (bucket kvs) [0..<b])) = bucket_start kvs b" by (induction b) simp_all
  moreover have "[0..<m] = [0..<b] @ b # [b + 1..<m]" using assms upt_add_eq_append [of 0 b "m - b"] by (simp add: upt_conv_Cons)
  ultimately show ?thesis by simp
qed

lemma filter_eq_key: "distinct xs \<Longrightarrow> filter (\<lambda>x. x = key) xs = (if key \<in> set xs then [key] else [])"
  by (induction xs) auto

lemma concat_filter: "concat (map (\<lambda>i. if P i then [f i] else []) xs) = map f (filter P xs)"
  by (induction xs) auto

text \<open>What the counting sort makes of a list of cells for each region, each cell once.\<close>

definition region_index :: "nat list list \<Rightarrow> nat list \<Rightarrow> nat list \<Rightarrow> nat list \<Rightarrow> bool" where
  "region_index R cells offsets entries \<longleftrightarrow>
     sorted_wrt (<) cells \<and> set cells = \<Union> (set ` set R) \<and> length offsets = length cells + 1 \<and>
     (\<forall>b < length cells. take (offsets ! (b + 1) - offsets ! b) (drop (offsets ! b) entries) =
        filter (\<lambda>i. cells ! b \<in> set (R ! i)) [0..<length R])"

lemma slot_entries_exact:
  assumes "firsts = map (\<lambda>i. length (concat (take i R))) [0..<length R + 1]" and "length R < 4294967296"
  shows "slot_entries (map slot (concat R)) firsts (length R) = concat (map (\<lambda>i. map (\<lambda>x. (slot x, i)) (R ! i)) [0..<length R])"
proof -
  have "map (\<lambda>k. (map slot (concat R) ! k, u32 i)) [firsts ! i..<firsts ! (i + 1)] = map (\<lambda>x. (slot x, i)) (R ! i)" if "i < length R" for i
  proof -
    have at: "firsts ! i = length (concat (take i R))" "firsts ! (i + 1) = length (concat (take (i + 1) R))"
      using that unfolding assms(1) by (simp_all del: upt_Suc)
    have "length (concat (take (i + 1) R)) \<le> length (concat R)"
      using append_take_drop_id [of "i + 1" R] by (metis concat_append le_add1 length_append)
    then have eq: "map (\<lambda>k. (map slot (concat R) ! k, u32 i)) [firsts ! i..<firsts ! (i + 1)] =
        map (\<lambda>k. (slot (concat R ! k), i)) [firsts ! i..<firsts ! (i + 1)]"
      using that assms(2) at(2) by (intro map_cong) (auto simp: u32_def)
    show ?thesis unfolding eq unfolding at by (rule concat_segment [OF that])
  qed
  then show ?thesis unfolding slot_entries_def by (intro arg_cong [of _ _ concat] map_cong) auto
qed

lemma counting_sort_index:
  assumes "\<forall>xs \<in> set R. distinct xs" and "cells = remdups_adj (sort (concat R))"
    and "kvs = concat (map (\<lambda>i. map (\<lambda>x. (lower_bound cells x, i)) (R ! i)) [0..<length R])"
  shows "region_index R cells (prefix_sums (length cells) (count_keys (length cells) (map (lower_bound cells) (concat R))))
    (place_values kvs (butlast (prefix_sums (length cells) (count_keys (length cells) (map (lower_bound cells) (concat R)))))
      (replicate (length (concat R)) 0))"
proof -
  have asc: "sorted_wrt (<) cells" unfolding assms(2) by (rule sorted_cells)
  have cells: "set cells = \<Union> (set ` set R)" unfolding assms(2) by simp
  have "map (\<lambda>x. map (lower_bound cells) x) R = map (\<lambda>i. map (lower_bound cells) (R ! i)) [0..<length R]"
    by (rule nth_equalityI) auto
  then have keys: "map (lower_bound cells) (concat R) = map fst kvs" unfolding assms(3) by (simp add: map_concat comp_def)
  then have len: "length (concat R) = length kvs" by (metis length_map)
  have R: "R ! i \<in> set R" if "i < length R" for i using that by simp
  have small: "\<forall>k \<in> set (map fst kvs). k < length cells"
    unfolding keys [symmetric] using lower_bound_mem [OF asc] cells by auto
  have offs: "prefix_sums (length cells) (count_keys (length cells) (map fst kvs)) = map (bucket_start kvs) [0..<length cells + 1]"
    by (rule offsets_eq [OF small])
  have placed: "place_values kvs (butlast (prefix_sums (length cells) (count_keys (length cells) (map fst kvs)))) (replicate (length (concat R)) 0) =
      concat (map (bucket kvs) [0..<length cells])" using place_values_groups [OF small len, of 0] .
  have groups: "bucket kvs b = filter (\<lambda>i. cells ! b \<in> set (R ! i)) [0..<length R]" if b: "b < length cells" for b
  proof -
    have slot: "lower_bound cells x = b \<longleftrightarrow> x = cells ! b" if "x \<in> set cells" for x
    proof -
      have "lower_bound cells (cells ! b) = b"
        using lower_bound_mem [OF asc, of "cells ! b"] b asc by (metis nth_eq_iff_index_eq nth_mem strict_sorted_iff)
      then show ?thesis using lower_bound_inj [OF asc that, of "cells ! b"] b by auto
    qed
    have single: "bucket (map (\<lambda>x. (lower_bound cells x, i)) (R ! i)) b = (if cells ! b \<in> set (R ! i) then [i] else [])" if "i < length R" for i
    proof -
      have "filter (\<lambda>x. lower_bound cells x = b) (R ! i) = filter (\<lambda>x. x = cells ! b) (R ! i)"
        using slot cells R [OF that] by (intro filter_cong) auto
      then show ?thesis using filter_eq_key [of "R ! i" "cells ! b"] assms(1) R [OF that] by (simp add: bucket_def filter_map comp_def)
    qed
    have "bucket (concat xss) b = concat (map (\<lambda>xs. bucket xs b) xss)" for xss :: "(nat \<times> nat) list list"
      by (induction xss) (simp_all add: bucket_append)
    then have "bucket kvs b = concat (map (\<lambda>i. bucket (map (\<lambda>x. (lower_bound cells x, i)) (R ! i)) b) [0..<length R])"
      unfolding assms(3) by (simp add: comp_def)
    also have "\<dots> = concat (map (\<lambda>i. if cells ! b \<in> set (R ! i) then [i] else []) [0..<length R])"
      by (rule concat_upto_cong) (rule single)
    finally show ?thesis by (simp add: concat_filter)
  qed
  have "take (map (bucket_start kvs) [0..<length cells + 1] ! (b + 1) - map (bucket_start kvs) [0..<length cells + 1] ! b)
      (drop (map (bucket_start kvs) [0..<length cells + 1] ! b) (concat (map (bucket kvs) [0..<length cells]))) =
      filter (\<lambda>i. cells ! b \<in> set (R ! i)) [0..<length R]" if b: "b < length cells" for b
  proof -
    have at: "map (bucket_start kvs) [0..<length cells + 1] ! c = bucket_start kvs c" if "c \<le> length cells" for c
      using that by (simp del: upt_Suc)
    have "b \<le> length cells" "b + 1 \<le> length cells" using b by simp_all
    then show ?thesis using bucket_slice [OF b, of kvs] groups [OF b] by (simp only: at)
  qed
  then show ?thesis unfolding region_index_def keys placed unfolding offs using asc cells by (simp del: upt_Suc)
qed

section \<open>What \<open>Of\<close> returns\<close>

lemma region_cells_distinct:
  assumes "grid_ok occ swap gs W H" and "g \<in> set gs"
  shows "distinct (region_cells occ swap g)"
proof -
  let ?r = "place_region swap g"
  let ?T = "\<lambda>cx cy. touches swap g (occ_chunk_u occ) (occ_chunk_v occ) cx cy"
  let ?cxs = "[first_column ?r (occ_chunk_u occ)..<last_column ?r (occ_chunk_u occ) + 1]"
  let ?cys = "[pr_v_start ?r div occ_chunk_v occ..<(pr_v_start ?r + pr_v_size ?r - 1) div occ_chunk_v occ + 1]"
  let ?pairs = "concat (map (\<lambda>cy. map (\<lambda>cx. (cx, cy)) (filter (\<lambda>cx. ?T cx cy) ?cxs)) ?cys)"
  have eq: "region_cells occ swap g = map (\<lambda>(cx, cy). Cell occ cx cy) ?pairs"
    by (simp add: region_cells_def row_cells_def [abs_def] Let_def map_concat comp_def del: upt_Suc)
  have "distinct (concat (map (\<lambda>cy. map (\<lambda>cx. (cx, cy)) (filter (\<lambda>cx. P cx cy) xs)) ys))"
    if "distinct xs" "distinct ys" for P and xs ys :: "nat list"
    using that by (induction ys) (auto simp: distinct_map inj_on_def)
  then have "distinct ?pairs" by (simp del: upt_Suc)
  moreover have "inj_on (\<lambda>(cx, cy). Cell occ cx cy) (set ?pairs)"
  proof (rule inj_onI, clarify)
    fix cx cy cx' cy' assume "(cx, cy) \<in> set ?pairs" "(cx', cy') \<in> set ?pairs" and eq: "Cell occ cx cy = Cell occ cx' cy'"
    then have "in_grid occ cx cy" "in_grid occ cx' cy'" using touches_in_grid [OF assms] by auto
    from Cell_inj [OF assms(1) this eq] show "cx = cx' \<and> cy = cy'" .
  qed
  ultimately show ?thesis unfolding eq by (simp only: distinct_map)
qed

lemma region_cells_iff:
  assumes "grid_ok occ swap gs W H" and "g \<in> set gs" and "region_ok g plane" and "plane_ok plane" and "in_grid occ cx cy"
  shows "Cell occ cx cy \<in> set (region_cells occ swap g) \<longleftrightarrow> touches swap g (occ_chunk_u occ) (occ_chunk_v occ) cx cy"
proof
  assume "Cell occ cx cy \<in> set (region_cells occ swap g)"
  then obtain cx' cy' where "Cell occ cx cy = Cell occ cx' cy'" "touches swap g (occ_chunk_u occ) (occ_chunk_v occ) cx' cy'"
    by (auto simp: region_cells_def row_cells_def Let_def simp del: upt_Suc)
  then show "touches swap g (occ_chunk_u occ) (occ_chunk_v occ) cx cy"
    using Cell_inj [OF assms(1,5)] touches_in_grid [OF assms(1,2)] by metis
next
  assume t: "touches swap g (occ_chunk_u occ) (occ_chunk_v occ) cx cy"
  then obtain u v where uv: "placed_selects swap g u v" "u div occ_chunk_u occ = cx" "v div occ_chunk_v occ = cy" by (auto simp: touches_def)
  let ?r = "place_region swap g"
  have "pr_u_start ?r \<le> u" "u \<le> pr_u_start ?r + pr_u_size ?r - 1" "pr_v_start ?r \<le> v" "v \<le> pr_v_start ?r + pr_v_size ?r - 1"
    using placed_box(7) [OF assms(3,4) refl uv(1)] by (auto simp: in_rows_def)
  then have "cx \<in> {first_column ?r (occ_chunk_u occ)..last_column ?r (occ_chunk_u occ)}"
    "cy \<in> {pr_v_start ?r div occ_chunk_v occ..(pr_v_start ?r + pr_v_size ?r - 1) div occ_chunk_v occ}"
    unfolding first_column_def last_column_def uv(2,3) [symmetric] by (auto intro: div_le_mono)
  then show "Cell occ cx cy \<in> set (region_cells occ swap g)"
    using t by (auto simp: region_cells_def row_cells_def Let_def less_Suc_eq_le simp del: upt_Suc)
qed

text \<open>A request for an index: regions that hold what they say, a plane that can be counted, chunks with an extent.\<close>

definition request_ok :: "RegionMask list \<Rightarrow> PlaneExtent \<Rightarrow> nat \<Rightarrow> nat \<Rightarrow> bool" where
  "request_ok gs plane cu cv \<longleftrightarrow> plane_ok plane \<and> chunk_ok cu \<and> chunk_ok cv \<and> (\<forall>g \<in> set gs. view_ok g)"

lemma check_placeable_iff:
  assumes "plane_ok plane"
  shows "\<forall>g \<in> set gs. view_ok g \<Longrightarrow> check_placeable i gs plane node = Inr () \<longleftrightarrow> (\<forall>g \<in> set gs. region_ok g plane)"
proof (induction gs arbitrary: i)
  case (Cons g gs)
  then show ?case using Placeable_iff [OF assms, of g i node] by (auto split: sum.split)
qed simp

lemma check_placeable_code: "check_placeable i gs plane node = Inl e \<Longrightarrow> err_code e = invalid_argument"
  by (induction gs arbitrary: i) (auto simp: Placeable_def Let_def split: sum.splits if_splits)

text \<open>The regions' cells together, and when the index is refused.\<close>

lemma Of_outcome:
  assumes "request_ok gs plane cu cv" and swap: "swap = (fastest = spatial_y)" and occ: "occ = place_all gs cu cv fastest"
    and "gs \<noteq> []" and "length gs \<le> kMaxSpectralRegions" and "\<forall>g \<in> set gs. region_ok g plane"
  shows "Of gs plane cu cv fastest node = Some (if kMaxChunkIncidences < length (concat (map (region_cells occ swap) gs))
    then Inl (mk_error invalid_argument ''The regions together touch more chunks than one reduction can index'' node)
    else Inr (index_incidences occ (length gs) (concat (map (region_cells occ swap) gs))
           (map (\<lambda>i. length (concat (take i (map (region_cells occ swap) gs)))) [0..<length gs + 1])))"
proof -
  have ok: "plane_ok plane" "chunk_ok cu" "chunk_ok cv" "\<forall>g \<in> set gs. view_ok g" using assms(1) by (auto simp: request_ok_def)
  have grid: "grid_ok occ swap gs (if swap then pe_height plane else pe_width plane) (if swap then pe_width plane else pe_height plane)"
    unfolding occ by (rule place_all_grid [OF ok(1) assms(6,4) ok(2,3) swap])
  let ?R = "region_cells occ swap"
  have inc: "inc_ok ([], False)" by (simp add: inc_ok_def)
  obtain firsts where rec: "record_incidences occ (occ_regions occ) ([], False) [0] = Some (collect ([], False) (concat (map ?R gs)), firsts)"
    and first: "\<not> snd (collect ([], False) (concat (map ?R gs))) \<longrightarrow>
      firsts = [0] @ map (\<lambda>i. 0 + length (concat (map ?R (take (i + 1) gs)))) [0..<length gs]"
    using record_incidences_collect [OF ok(1) _ _ assms(6) inc, of occ swap "[0]"] grid by (auto simp: grid_ok_def)
  have "[0..<length gs + 1] = 0 # map Suc [0..<length gs]" by (simp add: map_Suc_upt upt_conv_Cons del: upt_Suc)
  then have firsts: "firsts = map (\<lambda>i. length (concat (take i (map ?R gs)))) [0..<length gs + 1]"
    if "\<not> kMaxChunkIncidences < length (concat (map ?R gs))" using that first by (simp add: collect_def take_map del: upt_Suc)
  have "check_placeable 0 gs plane node = Inr ()" using check_placeable_iff [OF ok(1,4)] assms(6) by simp
  then show ?thesis using assms(4,5) firsts rec by (simp add: Of_def Let_def collect_def flip: occ)
qed

lemma Of_index:
  assumes "request_ok gs plane cu cv" and swap: "swap = (fastest = spatial_y)" and "Of gs plane cu cv fastest node = Some (Inr occ)"
  defines "occ0 \<equiv> place_all gs cu cv fastest"
  shows "grid_ok occ swap gs (if swap then pe_height plane else pe_width plane) (if swap then pe_width plane else pe_height plane)"
    and "\<forall>g \<in> set gs. region_ok g plane" and "gs \<noteq> []" and "length gs \<le> kMaxSpectralRegions"
    and "Cell occ = Cell occ0" and "occ_chunk_u occ = cu" and "occ_chunk_v occ = cv"
    and "region_index (map (region_cells occ0 swap) gs) (occ_cells occ) (occ_offsets occ) (occ_entries occ)"
    and "occ_rows occ = foldl (add_cell (occ_columns occ)) [] (occ_cells occ)"
    and "occ_layer_chunks occ = length (occ_cells occ)" and "length (occ_cells occ) \<le> kMaxChunkIncidences"
proof -
  have ok: "plane_ok plane" "chunk_ok cu" "chunk_ok cv" "\<forall>g \<in> set gs. view_ok g" using assms(1) by (auto simp: request_ok_def)
  show gs: "gs \<noteq> []" "length gs \<le> kMaxSpectralRegions" and reg: "\<forall>g \<in> set gs. region_ok g plane"
    using assms(3) check_placeable_iff [OF ok(1,4), of 0 node] by (auto simp: Of_def Let_def split: if_splits sum.splits)
  have grid: "grid_ok occ0 swap gs (if swap then pe_height plane else pe_width plane) (if swap then pe_width plane else pe_height plane)"
    unfolding occ0_def by (rule place_all_grid [OF ok(1) reg gs(1) ok(2,3) swap])
  let ?R = "map (region_cells occ0 swap) gs"
  let ?firsts = "map (\<lambda>i. length (concat (take i ?R))) [0..<length gs + 1]"
  have few: "length (concat ?R) \<le> kMaxChunkIncidences" and occ: "occ = index_incidences occ0 (length gs) (concat ?R) ?firsts"
    using Of_outcome [OF assms(1) swap occ0_def [THEN meta_eq_to_obj_eq] gs reg, of node] assms(3) by (auto split: if_splits)
  show "grid_ok occ swap gs (if swap then pe_height plane else pe_width plane) (if swap then pe_width plane else pe_height plane)"
    using grid by (simp add: occ index_incidences_def Let_def grid_ok_def)
  show "Cell occ = Cell occ0" by (intro ext) (simp add: occ index_incidences_def Let_def Cell_def)
  show "occ_chunk_u occ = cu" "occ_chunk_v occ = cv" by (simp_all add: occ index_incidences_def occ0_def place_all_def Let_def)
  show "occ_rows occ = foldl (add_cell (occ_columns occ)) [] (occ_cells occ)" "occ_layer_chunks occ = length (occ_cells occ)"
    by (simp_all add: occ index_incidences_def Let_def)
  define cells where "cells = remdups_adj (sort (concat ?R))"
  have cells: "occ_cells occ = cells" by (simp add: occ index_incidences_def Let_def cells_def)
  have len: "length cells \<le> kMaxChunkIncidences"
    using few remdups_adj_length [of "sort (concat ?R)"] by (simp add: cells_def)
  then show "length (occ_cells occ) \<le> kMaxChunkIncidences" by (simp add: cells)
  have "u32 (lower_bound cells x) = lower_bound cells x" for x
    using lower_bound_le [of cells x] len by (simp add: u32_def kMaxChunkIncidences_def)
  then have slots: "map (\<lambda>cell. u32 (lower_bound cells cell)) xs = map (lower_bound cells) xs" for xs by simp
  have "length ?R < 4294967296" using gs(2) by (simp add: kMaxSpectralRegions_def)
  then have entries: "slot_entries (map (lower_bound cells) (concat ?R)) ?firsts (length gs) =
      concat (map (\<lambda>i. map (\<lambda>x. (lower_bound cells x, i)) (?R ! i)) [0..<length ?R])"
    using slot_entries_exact [of ?firsts ?R "lower_bound cells"] by (simp only: length_map)
  have dist: "\<forall>xs \<in> set ?R. distinct xs" using region_cells_distinct [OF grid] by simp
  show "region_index ?R (occ_cells occ) (occ_offsets occ) (occ_entries occ)"
    using counting_sort_index [OF dist cells_def refl]
    unfolding occ index_incidences_def Let_def cells_def [symmetric] slots entries by simp
qed

lemma RegionsTouching_index:
  assumes "request_ok gs plane cu cv" and swap: "swap = (fastest = spatial_y)" and "Of gs plane cu cv fastest node = Some (Inr occ)"
    and "in_grid occ cx cy"
  shows "RegionsTouching occ cx cy = filter (\<lambda>i. touches swap (gs ! i) cu cv cx cy) [0..<length gs]"
proof -
  note o = Of_index [OF assms(1-3)]
  let ?occ0 = "place_all gs cu cv fastest" and ?key = "Cell occ cx cy"
  let ?R = "map (region_cells ?occ0 swap) gs"
  have chunks: "occ_chunk_u ?occ0 = cu" "occ_chunk_v ?occ0 = cv" by (simp_all add: place_all_def Let_def)
  have same: "region_cells ?occ0 swap g = region_cells occ swap g" for g
    unfolding region_cells_def row_cells_def [abs_def] Let_def o(5,6,7) chunks ..
  have ok: "plane_ok plane" using assms(1) by (simp add: request_ok_def)
  have mem: "?key \<in> set (?R ! i) \<longleftrightarrow> touches swap (gs ! i) cu cv cx cy" if "i < length gs" for i
    using region_cells_iff [OF o(1) _ _ ok assms(4), of "gs ! i"] o(2,6,7) that by (simp add: same)
  note ix = o(8) [unfolded region_index_def]
  have asc: "sorted_wrt (<) (occ_cells occ)" using ix by blast
  show ?thesis
  proof (cases "?key \<in> set (occ_cells occ)")
    case True
    then have lb: "lower_bound (occ_cells occ) ?key < length (occ_cells occ)" "occ_cells occ ! lower_bound (occ_cells occ) ?key = ?key"
      using lower_bound_mem [OF asc] by auto
    then have "RegionsTouching occ cx cy = filter (\<lambda>i. ?key \<in> set (?R ! i)) [0..<length ?R]"
      using ix by (simp add: RegionsTouching_def Let_def)
    also have "\<dots> = filter (\<lambda>i. touches swap (gs ! i) cu cv cx cy) [0..<length gs]"
      using mem by (intro filter_cong) auto
    finally show ?thesis .
  next
    case False
    then have "RegionsTouching occ cx cy = []"
      using lower_bound_mem [OF asc, of ?key] lower_bound_le [of "occ_cells occ" ?key] by (auto simp: RegionsTouching_def Let_def)
    moreover have "\<not> touches swap (gs ! i) cu cv cx cy" if "i < length gs" for i
      using mem [OF that] False ix that by auto
    ultimately show ?thesis by (simp add: filter_empty_conv)
  qed
qed

text \<open>A region's cells are as many as the chunks it touches.\<close>

lemma region_cells_length:
  assumes "grid_ok occ swap gs W H" and "g \<in> set gs" and "region_ok g plane" and "plane_ok plane"
  shows "length (region_cells occ swap g) = card {(cx, cy). touches swap g (occ_chunk_u occ) (occ_chunk_v occ) cx cy}"
proof -
  let ?T = "{(cx, cy). touches swap g (occ_chunk_u occ) (occ_chunk_v occ) cx cy}"
  have grid: "in_grid occ cx cy" if "(cx, cy) \<in> ?T" for cx cy using touches_in_grid [OF assms(1,2)] that by blast
  have "(\<lambda>(cx, cy). Cell occ cx cy) ` ?T = set (region_cells occ swap g)"
  proof (intro equalityI subsetI)
    fix c assume "c \<in> (\<lambda>(cx, cy). Cell occ cx cy) ` ?T"
    then obtain cx cy where "(cx, cy) \<in> ?T" "c = Cell occ cx cy" by auto
    then show "c \<in> set (region_cells occ swap g)" using region_cells_iff [OF assms grid] by auto
  qed (auto simp: region_cells_def row_cells_def Let_def simp del: upt_Suc)
  moreover have "inj_on (\<lambda>(cx, cy). Cell occ cx cy) ?T"
    using Cell_inj [OF assms(1)] grid by (intro inj_onI) (metis (no_types, lifting) case_prod_conv surj_pair)
  ultimately show ?thesis using region_cells_distinct [OF assms(1,2)] by (metis card_image distinct_card)
qed

section \<open>Properties\<close>

definition example_regions :: "RegionMask list" where
  "example_regions =
     [\<lparr>rm_x_start = 1, rm_y_start = 2, rm_width = 3, rm_height = 2, rm_mask_data = Some [0, 1, 1, 0, 0, 1], rm_mask_size = 6\<rparr>,
      \<lparr>rm_x_start = 0, rm_y_start = 3, rm_width = 2, rm_height = 2, rm_mask_data = None, rm_mask_size = 0\<rparr>]"

definition example_plane :: PlaneExtent where
  "example_plane = \<lparr>pe_width = 8, pe_height = 8\<rparr>"

lemma example_regions_ok: "request_ok example_regions example_plane 2 2"
  by (simp add: request_ok_def plane_ok_def chunk_ok_def view_ok_def example_regions_def example_plane_def)

definition example_occupancy :: Occupancy where
  "example_occupancy =
     \<lparr>occ_regions = map (place_region False) example_regions,
      occ_chunk_u = 2, occ_chunk_v = 2, occ_u0 = 0, occ_v0 = 2, occ_u1 = 4, occ_v1 = 5,
      occ_chunk_cu0 = 0, occ_chunk_cv0 = 1, occ_columns = 2,
      occ_cells = [0, 1, 2], occ_offsets = [0, 1, 2, 3], occ_entries = [1, 0, 1],
      occ_rows = [\<lparr>or_row = 0, or_runs = [\<lparr>cr_first = 0, cr_last = 1\<rparr>]\<rparr>,
                  \<lparr>or_row = 1, or_runs = [\<lparr>cr_first = 0, cr_last = 0\<rparr>]\<rparr>],
      occ_layer_chunks = 3\<rparr>"

lemma example_Of: "Of example_regions example_plane 2 2 spatial_x ''SKY'' = Some (Inr example_occupancy)"
  by code_simp

text \<open>
  Claim C14. The index of a set of regions that was accepted says of every chunk of the grid over their box exactly
  which regions select a pixel in it, in the order they were given: whatever the rasters, the runs made of them, the
  columns already marked and the counting sort, no region is missing, repeated or listed under another chunk.
\<close>

theorem RegionsTouching_lists_touching:
  assumes "request_ok gs plane chunk_u chunk_v" and "Of gs plane chunk_u chunk_v fastest node = Some (Inr occ)"
    and "occ_u0 occ div chunk_u \<le> cu" and "cu \<le> (occ_u1 occ - 1) div chunk_u"
    and "occ_v0 occ div chunk_v \<le> cv" and "cv \<le> (occ_v1 occ - 1) div chunk_v"
  shows "RegionsTouching occ cu cv =
    filter (\<lambda>i. \<exists>u v. (if fastest = spatial_y then region_selects (gs ! i) v u else region_selects (gs ! i) u v) \<and>
                  u div chunk_u = cu \<and> v div chunk_v = cv) [0..<length gs]"
proof -
  have "in_grid occ cu cv" using assms(3-6) Of_index(6,7) [OF assms(1) refl assms(2)] by (simp add: in_grid_def)
  from RegionsTouching_index [OF assms(1) refl assms(2) this] show ?thesis by (simp add: touches_def placed_selects_def)
qed

theorem RegionsTouching_lists_touching_witness:
  "RegionsTouching example_occupancy 1 1 =
     filter (\<lambda>i. \<exists>u v. (if spatial_x = spatial_y then region_selects (example_regions ! i) v u else region_selects (example_regions ! i) u v) \<and>
                   u div 2 = 1 \<and> v div 2 = 1) [0..<length example_regions] \<and>
   RegionsTouching example_occupancy 1 1 = [0] \<and> RegionsTouching example_occupancy 0 2 = [1] \<and> RegionsTouching example_occupancy 1 2 = []"
proof (intro conjI)
  have "occ_u0 example_occupancy div 2 \<le> 1" "1 \<le> (occ_u1 example_occupancy - 1) div 2"
    "occ_v0 example_occupancy div 2 \<le> 1" "1 \<le> (occ_v1 example_occupancy - 1) div 2" by (simp_all add: example_occupancy_def)
  from RegionsTouching_lists_touching [OF example_regions_ok example_Of this]
  show "RegionsTouching example_occupancy 1 1 =
     filter (\<lambda>i. \<exists>u v. (if spatial_x = spatial_y then region_selects (example_regions ! i) v u else region_selects (example_regions ! i) u v) \<and>
                   u div 2 = 1 \<and> v div 2 = 1) [0..<length example_regions]" .
qed code_simp+

text \<open>
  Claim C17. Building the index always returns. It is built exactly when there is a region and no more than a
  reduction takes, every region is on the plane with a raster of its own box or none, and the chunks each region
  touches, counted together, are no more than one reduction indexes; anything else is an invalid argument.
\<close>

theorem Of_accepts_exactly:
  assumes "request_ok gs plane chunk_u chunk_v" and swap_def: "swap \<longleftrightarrow> fastest = spatial_y"
  shows "\<exists>outcome. Of gs plane chunk_u chunk_v fastest node = Some outcome \<and>
    ((\<exists>occ. outcome = Inr occ) \<longleftrightarrow>
       0 < length gs \<and> length gs \<le> 1048576 \<and> (\<forall>g \<in> set gs. region_ok g plane) \<and>
       (\<Sum>g \<leftarrow> gs. card {(cx, cy). touches swap g chunk_u chunk_v cx cy}) \<le> 67108864) \<and>
    (\<forall>e. outcome = Inl e \<longrightarrow> err_code e = invalid_argument)"
proof (cases "0 < length gs \<and> length gs \<le> kMaxSpectralRegions \<and> (\<forall>g \<in> set gs. region_ok g plane)")
  case True
  define occ where "occ = place_all gs chunk_u chunk_v fastest"
  have ok: "plane_ok plane" "chunk_ok chunk_u" "chunk_ok chunk_v" using assms(1) by (auto simp: request_ok_def)
  have grid: "grid_ok occ swap gs (if swap then pe_height plane else pe_width plane) (if swap then pe_width plane else pe_height plane)"
    unfolding occ_def using place_all_grid [OF ok(1) _ _ ok(2,3), of gs swap fastest] True swap_def by auto
  have cs: "occ_chunk_u occ = chunk_u" "occ_chunk_v occ = chunk_v" by (simp_all add: occ_def place_all_def Let_def)
  have "map length (map (region_cells occ swap) gs) = map (\<lambda>g. card {(cx, cy). touches swap g chunk_u chunk_v cx cy}) gs"
    using region_cells_length [OF grid _ _ ok(1)] True by (simp add: cs)
  then have "length (concat (map (region_cells occ swap) gs)) = (\<Sum>g \<leftarrow> gs. card {(cx, cy). touches swap g chunk_u chunk_v cx cy})"
    by (simp only: length_concat)
  then show ?thesis using Of_outcome [OF assms(1) swap_def occ_def, of node] True
    by (auto simp: kMaxChunkIncidences_def kMaxSpectralRegions_def)
next
  case False
  have ok: "plane_ok plane" "\<forall>g \<in> set gs. view_ok g" using assms(1) by (auto simp: request_ok_def)
  from False show ?thesis using check_placeable_iff [OF ok, of 0 node] check_placeable_code [of 0 gs plane node]
    by (cases "check_placeable 0 gs plane node") (auto simp: Of_def Let_def kMaxSpectralRegions_def)
qed

theorem Of_accepts_exactly_witness:
  "\<exists>outcome. Of example_regions example_plane 2 2 spatial_y ''SKY'' = Some outcome \<and>
    ((\<exists>occ. outcome = Inr occ) \<longleftrightarrow>
       0 < length example_regions \<and> length example_regions \<le> 1048576 \<and> (\<forall>g \<in> set example_regions. region_ok g example_plane) \<and>
       (\<Sum>g \<leftarrow> example_regions. card {(cx, cy). touches True g 2 2 cx cy}) \<le> 67108864) \<and>
    (\<forall>e. outcome = Inl e \<longrightarrow> err_code e = invalid_argument)"
  by (rule Of_accepts_exactly [OF example_regions_ok]) simp

text \<open>
  A chunk to the right of the box has the number of a chunk of the next row, and is given that chunk's regions: a
  lookup is only of use inside the box, where the footprints of a reduction keep it.
\<close>

lemma RegionsTouching_outside_box:
  "RegionsTouching example_occupancy 2 1 = [1] \<and> \<not> touches False (example_regions ! 1) 2 2 2 1"
proof (intro conjI)
  show "RegionsTouching example_occupancy 2 1 = [1]" by code_simp
  show "\<not> touches False (example_regions ! 1) 2 2 2 1"
  proof
    assume "touches False (example_regions ! 1) 2 2 2 1"
    then obtain u :: nat where "u < 2" "u div 2 = 2" by (auto simp: touches_def placed_selects_def region_selects_def example_regions_def)
    then show False by simp
  qed
qed

end
