(* ===== verification/Occupied_Footprints.thy ===== *)
theory Occupied_Footprints
  imports Occupancy
begin

text \<open>
  What a reduction reads: \<open>SlabFootprint\<close> of \<open>src/reduce/footprint.h\<close> and \<open>Occupancy::Footprints\<close> of
  \<open>src/reduce/occupancy.cc\<close>, which joins chunk rows occupied alike into bands and cuts each run of columns into pieces
  one read affords. The footprints are proved to cover every occupied chunk exactly once, and nothing else, within the
  budget of a read.
\<close>

section \<open>Footprints\<close>

record SlabFootprint =
  sf_u_start :: u64
  sf_u_count :: u64
  sf_u_stride :: u64
  sf_v_start :: u64
  sf_v_count :: u64
  sf_v_stride :: u64
  sf_chunks :: u64

record OccupiedFootprint =
  of_slab :: SlabFootprint
  of_chunk_cu_begin :: u64
  of_chunk_cu_end :: u64
  of_chunk_cv_begin :: u64
  of_chunk_cv_end :: u64

definition run_width :: "ColumnRun \<Rightarrow> u64" where
  "run_width run = add64 (sub64 (cr_last run) (cr_first run)) 1"

text \<open>How many rows join the band of a row: the ones right below it, in turn, occupied exactly alike.\<close>

fun band_rows :: "u64 \<Rightarrow> ColumnRun list \<Rightarrow> u64 \<Rightarrow> nat \<Rightarrow> OccupiedRow list \<Rightarrow> nat" where
  "band_rows row runs band_limit n [] = n"
| "band_rows row runs band_limit n (r # rest) =
     (if or_row r = add64 row n \<and> n < band_limit \<and> or_runs r = runs then band_rows row runs band_limit (n + 1) rest else n)"

text \<open>The piece of a run from a column on.\<close>

definition segment_width :: "u64 \<Rightarrow> ColumnRun \<Rightarrow> u64 \<Rightarrow> u64" where
  "segment_width segment_limit whole first = min segment_limit (add64 (sub64 (cr_last whole) first) 1)"

definition mk_footprint :: "Occupancy \<Rightarrow> u64 \<Rightarrow> u64 \<Rightarrow> u64 \<Rightarrow> u64 \<Rightarrow> u64 \<Rightarrow> u64 \<Rightarrow> u64 \<Rightarrow> OccupiedFootprint" where
  "mk_footprint occ chunk_cv_begin chunk_cv_end v_begin v_end rows first width =
     (let cu_begin = add64 (occ_chunk_cu0 occ) first;
          cu_end = add64 cu_begin width;
          u_begin = max (occ_u0 occ) (mul64 cu_begin (occ_chunk_u occ));
          u_end = min (occ_u1 occ) (mul64 cu_end (occ_chunk_u occ))
      in \<lparr>of_slab = \<lparr>sf_u_start = u_begin, sf_u_count = sub64 u_end u_begin, sf_u_stride = 1,
                    sf_v_start = v_begin, sf_v_count = sub64 v_end v_begin, sf_v_stride = 1,
                    sf_chunks = mul64 width rows\<rparr>,
          of_chunk_cu_begin = cu_begin, of_chunk_cu_end = cu_end,
          of_chunk_cv_begin = chunk_cv_begin, of_chunk_cv_end = chunk_cv_end\<rparr>)"

definition band_footprints :: "Occupancy \<Rightarrow> u64 \<Rightarrow> u64 \<Rightarrow> u64 \<Rightarrow> ColumnRun \<Rightarrow> OccupiedFootprint list option" where
  "band_footprints occ row rows segment_limit whole =
     (let chunk_cv_begin = add64 (occ_chunk_cv0 occ) row;
          chunk_cv_end = add64 (occ_chunk_cv0 occ) (add64 row rows);
          v_begin = max (occ_v0 occ) (mul64 chunk_cv_begin (occ_chunk_v occ));
          v_end = min (occ_v1 occ) (mul64 chunk_cv_end (occ_chunk_v occ))
      in Option.bind (block_loop (\<lambda>first. add64 first (segment_width segment_limit whole first)) (cr_first whole) (cr_last whole + 1))
           (\<lambda>segments. Some (map (\<lambda>(first, _). mk_footprint occ chunk_cv_begin chunk_cv_end v_begin v_end rows first
                                     (segment_width segment_limit whole first)) segments)))"

fun append_each :: "('a \<Rightarrow> 'b list option) \<Rightarrow> 'a list \<Rightarrow> 'b list option" where
  "append_each f [] = Some []"
| "append_each f (x # xs) = Option.bind (f x) (\<lambda>ys. Option.bind (append_each f xs) (\<lambda>zs. Some (ys @ zs)))"

fun Footprints_from :: "Occupancy \<Rightarrow> u64 \<Rightarrow> OccupiedRow list \<Rightarrow> OccupiedFootprint list option" where
  "Footprints_from occ chunks_per_read [] = Some []"
| "Footprints_from occ chunks_per_read (r # rest) =
     (let row = or_row r;
          runs = or_runs r;
          widest = foldl (\<lambda>widest run. max widest (run_width run)) 0 runs;
          band_limit = UnitsAffordable chunks_per_read widest;
          rows = band_rows row runs band_limit 1 rest;
          segment_limit = UnitsAffordable chunks_per_read rows
      in Option.bind (append_each (band_footprints occ row rows segment_limit) runs)
           (\<lambda>band. Option.bind (Footprints_from occ chunks_per_read (drop (rows - 1) rest))
              (\<lambda>footprints. Some (band @ footprints))))"

definition Footprints :: "Occupancy \<Rightarrow> u64 \<Rightarrow> OccupiedFootprint list option" where
  "Footprints occ chunks_per_read = Footprints_from occ chunks_per_read (occ_rows occ)"

section \<open>The rows of the index\<close>

definition run_columns :: "ColumnRun \<Rightarrow> nat list" where
  "run_columns run = [cr_first run..<cr_last run + 1]"

definition row_numbers :: "nat \<Rightarrow> OccupiedRow \<Rightarrow> nat list" where
  "row_numbers columns r = map (\<lambda>c. or_row r * columns + c) (concat (map run_columns (or_runs r)))"

definition run_ok :: "nat \<Rightarrow> ColumnRun \<Rightarrow> bool" where
  "run_ok columns run \<longleftrightarrow> cr_first run \<le> cr_last run \<and> cr_last run < columns"

definition rows_ok :: "nat \<Rightarrow> OccupiedRow list \<Rightarrow> bool" where
  "rows_ok columns rows \<longleftrightarrow> (\<forall>r \<in> set rows. or_runs r \<noteq> [] \<and> (\<forall>run \<in> set (or_runs r). run_ok columns run))"

text \<open>Adding a cell adds its number to the ones the rows stand for.\<close>

lemma add_run:
  assumes "runs = or_runs r" and "\<forall>run \<in> set runs. run_ok columns run" and "column < columns" and "columns < two64"
    and "runs' = (if runs \<noteq> [] \<and> add64 (cr_last (last runs)) 1 = column
      then butlast runs @ [(last runs) \<lparr>cr_last := column\<rparr>] else runs @ [\<lparr>cr_first = column, cr_last = column\<rparr>])"
  shows "concat (map run_columns runs') = concat (map run_columns runs) @ [column] \<and> runs' \<noteq> [] \<and> (\<forall>run \<in> set runs'. run_ok columns run)"
proof (cases "runs \<noteq> [] \<and> add64 (cr_last (last runs)) 1 = column")
  case True
  obtain pre run where runs: "runs = pre @ [run]" using True by (metis append_butlast_last_id)
  have run: "run_ok columns run" using assms(2) runs by simp
  then have "add64 (cr_last run) 1 = cr_last run + 1" using assms(4) by (intro add64_exact) (simp add: run_ok_def)
  then have "column = cr_last run + 1" using True runs by simp
  then show ?thesis using run assms(2,3) runs True unfolding assms(5) by (auto simp: run_columns_def run_ok_def)
next
  case False
  then show ?thesis using assms(2,3) unfolding assms(5) by (auto simp: run_columns_def run_ok_def)
qed

lemma add_cell_numbers:
  assumes "rows_ok columns rows" and "0 < columns" and "columns < two64"
  shows "concat (map (row_numbers columns) (add_cell columns rows cell)) = concat (map (row_numbers columns) rows) @ [cell] \<and>
    rows_ok columns (add_cell columns rows cell)"
proof -
  let ?row = "cell div columns" and ?column = "cell mod columns"
  define rows' where "rows' = (if rows = [] \<or> or_row (last rows) \<noteq> ?row then rows @ [\<lparr>or_row = ?row, or_runs = []\<rparr>] else rows)"
  have "rows' \<noteq> []" by (auto simp: rows'_def)
  then obtain pre r where split: "rows' = pre @ [r]" by (metis append_butlast_last_id)
  have r: "or_row r = ?row" using split by (auto simp: rows'_def split: if_splits)
  have same: "concat (map (row_numbers columns) rows') = concat (map (row_numbers columns) rows)"
    by (simp add: rows'_def row_numbers_def)
  have pre: "rows_ok columns pre" "\<forall>run \<in> set (or_runs r). run_ok columns run"
    using assms(1) split by (auto simp: rows'_def rows_ok_def split: if_splits)
  define runs' where "runs' = (if or_runs r \<noteq> [] \<and> add64 (cr_last (last (or_runs r))) 1 = ?column
      then butlast (or_runs r) @ [(last (or_runs r)) \<lparr>cr_last := ?column\<rparr>] else or_runs r @ [\<lparr>cr_first = ?column, cr_last = ?column\<rparr>])"
  have added: "add_cell columns rows cell = pre @ [r \<lparr>or_runs := runs'\<rparr>]"
    unfolding add_cell_def Let_def rows'_def [symmetric] split runs'_def by simp
  have "?column < columns" using assms(2) by simp
  from add_run [OF refl pre(2) this assms(3) runs'_def]
  have runs: "concat (map run_columns runs') = concat (map run_columns (or_runs r)) @ [?column]" "runs' \<noteq> []" "\<forall>run \<in> set runs'. run_ok columns run"
    by auto
  have "row_numbers columns (r \<lparr>or_runs := runs'\<rparr>) = row_numbers columns r @ [cell]"
    using runs(1) r by (simp add: row_numbers_def)
  then show ?thesis using pre(1) runs(2,3) same [symmetric] unfolding added split by (simp add: rows_ok_def)
qed

lemma index_rows:
  assumes "0 < columns" and "columns < two64"
  shows "concat (map (row_numbers columns) (foldl (add_cell columns) [] cells)) = cells \<and> rows_ok columns (foldl (add_cell columns) [] cells)"
proof (induction cells rule: rev_induct)
  case (snoc cell cells)
  then show ?case using add_cell_numbers [OF _ assms, of "foldl (add_cell columns) [] cells" cell] by simp
qed (simp add: rows_ok_def)

section \<open>One footprint\<close>

text \<open>The chunks a footprint spans.\<close>

definition footprint_chunks :: "OccupiedFootprint \<Rightarrow> (nat \<times> nat) list" where
  "footprint_chunks fp = List.product [of_chunk_cu_begin fp..<of_chunk_cu_end fp] [of_chunk_cv_begin fp..<of_chunk_cv_end fp]"

text \<open>
  What a footprint says of itself: it counts its chunks, and its slab is the part of the regions' box in them, which
  is not empty.
\<close>

definition footprint_ok :: "Occupancy \<Rightarrow> OccupiedFootprint \<Rightarrow> bool" where
  "footprint_ok occ fp \<longleftrightarrow>
     (let s = of_slab fp
      in sf_chunks s = length (footprint_chunks fp) \<and> sf_u_stride s = 1 \<and> sf_v_stride s = 1 \<and> 0 < sf_u_count s \<and> 0 < sf_v_count s \<and>
         (\<forall>u. sf_u_start s \<le> u \<and> u < sf_u_start s + sf_u_count s \<longleftrightarrow>
            occ_u0 occ \<le> u \<and> u < occ_u1 occ \<and> of_chunk_cu_begin fp \<le> u div occ_chunk_u occ \<and> u div occ_chunk_u occ < of_chunk_cu_end fp) \<and>
         (\<forall>v. sf_v_start s \<le> v \<and> v < sf_v_start s + sf_v_count s \<longleftrightarrow>
            occ_v0 occ \<le> v \<and> v < occ_v1 occ \<and> of_chunk_cv_begin fp \<le> v div occ_chunk_v occ \<and> v div occ_chunk_v occ < of_chunk_cv_end fp))"

lemma clamp_axis:
  assumes c: "chunk_ok c" and "lo < hi" and "hi < max_extent" and "lo div c \<le> b" and "b < e" and "e \<le> (hi - 1) div c + 1"
  shows "mul64 b c = b * c" and "mul64 e c = e * c" and "max lo (b * c) < min hi (e * c)"
    and "sub64 (min hi (e * c)) (max lo (b * c)) = min hi (e * c) - max lo (b * c)"
    and "max lo (b * c) \<le> u \<and> u < max lo (b * c) + (min hi (e * c) - max lo (b * c)) \<longleftrightarrow> lo \<le> u \<and> u < hi \<and> b \<le> u div c \<and> u div c < e"
proof -
  have c0: "0 < c" "c < max_extent" using c by (auto simp: chunk_ok_def)
  have "b \<le> (hi - 1) div c" using assms(5,6) by simp
  then have b: "b * c \<le> hi - 1" using c0(1) by (simp add: less_eq_div_iff_mult_less_eq)
  have "e - 1 \<le> (hi - 1) div c" using assms(6) by linarith
  then have "(e - 1) * c \<le> hi - 1" using c0(1) less_eq_div_iff_mult_less_eq [of c "e - 1" "hi - 1"] by blast
  moreover have "e * c = (e - 1) * c + c" using assms(5) by (cases e) simp_all
  ultimately have e: "e * c < two64" using assms(2,3) c0 by linarith
  show "mul64 b c = b * c" "mul64 e c = e * c" using b e assms(2,3) by (simp_all add: mul64_exact)
  have "lo < (lo div c + 1) * c" using div_eq_iff_between [OF c0(1), of lo "lo div c"] by simp
  also have "\<dots> \<le> e * c" using assms(4,5) by (intro mult_le_mono) auto
  finally have "lo < e * c" .
  moreover have "b * c < e * c" using assms(5) c0(1) by simp
  ultimately show lt: "max lo (b * c) < min hi (e * c)" using assms(2) b by simp
  then show "sub64 (min hi (e * c)) (max lo (b * c)) = min hi (e * c) - max lo (b * c)"
    using assms(3) by (intro sub64_exact) auto
  show "max lo (b * c) \<le> u \<and> u < max lo (b * c) + (min hi (e * c) - max lo (b * c)) \<longleftrightarrow> lo \<le> u \<and> u < hi \<and> b \<le> u div c \<and> u div c < e"
    using lt c0(1) by (auto simp: less_eq_div_iff_mult_less_eq div_less_iff_less_mult)
qed

text \<open>A band of rows that lie in the grid.\<close>

definition band_ok :: "Occupancy \<Rightarrow> nat \<Rightarrow> nat \<Rightarrow> bool" where
  "band_ok occ row rows \<longleftrightarrow> 0 < rows \<and> occ_chunk_cv0 occ + row + rows \<le> (occ_v1 occ - 1) div occ_chunk_v occ + 1"

lemma mk_footprint_ok:
  assumes grid: "grid_ok occ swap gs W H" and band: "band_ok occ row rows" and "0 < width" and "first + width \<le> occ_columns occ"
    and fp: "fp = mk_footprint occ (occ_chunk_cv0 occ + row) (occ_chunk_cv0 occ + row + rows)
      (max (occ_v0 occ) (mul64 (occ_chunk_cv0 occ + row) (occ_chunk_v occ)))
      (min (occ_v1 occ) (mul64 (occ_chunk_cv0 occ + row + rows) (occ_chunk_v occ))) rows first width"
  shows "footprint_ok occ fp" and "of_chunk_cu_begin fp = occ_chunk_cu0 occ + first" and "of_chunk_cu_end fp = occ_chunk_cu0 occ + first + width"
    and "of_chunk_cv_begin fp = occ_chunk_cv0 occ + row" and "of_chunk_cv_end fp = occ_chunk_cv0 occ + row + rows"
proof -
  let ?cu = "occ_chunk_u occ" and ?cv = "occ_chunk_v occ" and ?a = "occ_chunk_cu0 occ + first" and ?b = "occ_chunk_cv0 occ + row"
  have g: "chunk_ok ?cu" "chunk_ok ?cv" "occ_u0 occ < occ_u1 occ" "occ_v0 occ < occ_v1 occ" "occ_u1 occ \<le> W" "occ_v1 occ \<le> H"
    "W < max_extent" "H < max_extent" "W * H < two64" "occ_chunk_cu0 occ = occ_u0 occ div ?cu" "occ_chunk_cv0 occ = occ_v0 occ div ?cv"
    "occ_columns occ = (occ_u1 occ - 1) div ?cu + 1 - occ_u0 occ div ?cu"
    using grid by (auto simp: grid_ok_def)
  have "occ_u0 occ div ?cu \<le> (occ_u1 occ - 1) div ?cu" using g(3) by (intro div_le_mono) simp
  then have end_u: "?a + width \<le> (occ_u1 occ - 1) div ?cu + 1" using assms(4) g(10,12) by linarith
  have end_v: "?b + rows \<le> (occ_v1 occ - 1) div ?cv + 1" "0 < rows" using band by (auto simp: band_ok_def)
  have u: "occ_u0 occ div ?cu \<le> ?a" "?a < ?a + width" "occ_u1 occ < max_extent" using g assms(3) by auto
  have v: "occ_v0 occ div ?cv \<le> ?b" "?b < ?b + rows" "occ_v1 occ < max_extent" using g end_v by auto
  note U = clamp_axis [OF g(1,3) u(3,1,2) end_u] and V = clamp_axis [OF g(2,4) v(3,1,2) end_v(1)]
  have le: "(occ_u1 occ - 1) div ?cu \<le> occ_u1 occ - 1" "(occ_v1 occ - 1) div ?cv \<le> occ_v1 occ - 1" by (rule div_le_dividend)+
  have add: "add64 (occ_chunk_cu0 occ) first = ?a" "add64 ?a width = ?a + width"
    using end_u le(1) u(3) g(3) by (intro add64_exact; linarith)+
  have "width \<le> W" "rows \<le> H" using end_u end_v le g(3-6) by linarith+
  then have "width * rows \<le> W * H" by (rule mult_le_mono)
  then have mul: "mul64 width rows = width * rows" using g(9) by (intro mul64_exact) linarith
  show "of_chunk_cu_begin fp = ?a" "of_chunk_cu_end fp = ?a + width" "of_chunk_cv_begin fp = ?b" "of_chunk_cv_end fp = ?b + rows"
    by (simp_all add: fp mk_footprint_def Let_def add)
  then show "footprint_ok occ fp"
    using U(3) V(3) by (simp add: footprint_ok_def Let_def footprint_chunks_def fp mk_footprint_def add mul U V del: min_less_iff_conj max_less_iff_conj max.bounded_iff)
qed

section \<open>The footprints of a band\<close>

definition chunks_of_all :: "OccupiedFootprint list \<Rightarrow> (nat \<times> nat) list" where
  "chunks_of_all fps = concat (map footprint_chunks fps)"

lemma chunks_of_all_append [simp]: "chunks_of_all (xs @ ys) = chunks_of_all xs @ chunks_of_all ys"
  by (simp add: chunks_of_all_def)

lemma chunks_of_all_Nil [simp]: "chunks_of_all [] = []"
  by (simp add: chunks_of_all_def)

text \<open>Footprints of a band: what they span, each at most as wide as a segment.\<close>

definition spans_band :: "Occupancy \<Rightarrow> nat \<Rightarrow> nat \<Rightarrow> nat \<Rightarrow> nat list \<Rightarrow> OccupiedFootprint list \<Rightarrow> bool" where
  "spans_band occ row rows limit columns fps \<longleftrightarrow>
     set (chunks_of_all fps) = ((+) (occ_chunk_cu0 occ) ` set columns) \<times> {occ_chunk_cv0 occ + row..<occ_chunk_cv0 occ + row + rows} \<and>
     length (chunks_of_all fps) = length columns * rows \<and>
     (\<forall>fp \<in> set fps. footprint_ok occ fp \<and> (\<exists>w \<le> limit. length (footprint_chunks fp) = w * rows))"

lemma spans_band_Nil: "spans_band occ row rows limit [] []"
  by (simp add: spans_band_def)

lemma spans_band_append:
  "spans_band occ row rows limit xs fps \<Longrightarrow> spans_band occ row rows limit ys fps' \<Longrightarrow> spans_band occ row rows limit (xs @ ys) (fps @ fps')"
  by (auto simp: spans_band_def algebra_simps)

lemma band_segment:
  assumes grid: "grid_ok occ swap gs W H" and band: "band_ok occ row rows" and "0 < width" and "first + width \<le> occ_columns occ" and "width \<le> limit"
  shows "spans_band occ row rows limit [first..<first + width]
    [mk_footprint occ (occ_chunk_cv0 occ + row) (occ_chunk_cv0 occ + row + rows)
      (max (occ_v0 occ) (mul64 (occ_chunk_cv0 occ + row) (occ_chunk_v occ)))
      (min (occ_v1 occ) (mul64 (occ_chunk_cv0 occ + row + rows) (occ_chunk_v occ))) rows first width]"
  (is "spans_band occ row rows limit _ [?fp]")
proof -
  note fp = mk_footprint_ok [OF grid band assms(3,4) refl]
  have "footprint_chunks ?fp = List.product [occ_chunk_cu0 occ + first..<occ_chunk_cu0 occ + first + width] [occ_chunk_cv0 occ + row..<occ_chunk_cv0 occ + row + rows]"
    by (simp only: footprint_chunks_def fp)
  moreover have "(+) (occ_chunk_cu0 occ) ` {first..<first + width} = {occ_chunk_cu0 occ + first..<occ_chunk_cu0 occ + first + width}"
    by (simp add: ac_simps)
  ultimately show ?thesis using fp(1) assms(5) by (auto simp: spans_band_def chunks_of_all_def)
qed

lemma band_footprints_span:
  assumes grid: "grid_ok occ swap gs W H" and band: "band_ok occ row rows" and run: "run_ok (occ_columns occ) run" and "1 \<le> limit"
  shows "\<exists>fps. band_footprints occ row rows limit run = Some fps \<and> spans_band occ row rows limit (run_columns run) fps"
proof -
  have g: "occ_u0 occ < occ_u1 occ" "occ_u1 occ < max_extent" "occ_v1 occ < max_extent" "occ_v0 occ < occ_v1 occ"
    "occ_columns occ = (occ_u1 occ - 1) div occ_chunk_u occ + 1 - occ_u0 occ div occ_chunk_u occ" using grid by (auto simp: grid_ok_def)
  have le: "(occ_u1 occ - 1) div occ_chunk_u occ \<le> occ_u1 occ - 1" "(occ_v1 occ - 1) div occ_chunk_v occ \<le> occ_v1 occ - 1"
    by (rule div_le_dividend)+
  have "cr_last run < occ_columns occ" using run by (simp add: run_ok_def)
  then have small: "cr_last run + 1 < max_extent" using g(1,2,5) le(1) by linarith
  have width: "segment_width limit run b = min limit (cr_last run - b + 1)" if "b < cr_last run + 1" for b
    using that small by (simp add: segment_width_def sub64_exact add64_exact)
  have step: "add64 b (segment_width limit run b) = b + min limit (cr_last run - b + 1)" if "b < cr_last run + 1" for b
    unfolding width [OF that] using that small by (intro add64_exact) linarith
  let ?next = "\<lambda>first. add64 first (segment_width limit run first)"
  have "block_cutter ?next (cr_last run + 1) (\<lambda>_. True)"
    by unfold_locales (use step assms(4) in \<open>auto simp: min_def\<close>)
  from block_cutter.block_loop_returns [OF this, of "cr_first run"] obtain bs where
    bs: "block_loop ?next (cr_first run) (cr_last run + 1) = Some bs" "tiles bs (cr_first run) (cr_last run + 1)"
    "\<forall>(x, y) \<in> set bs. y = ?next x" using run by (auto simp: run_ok_def)
  let ?mk = "\<lambda>first. mk_footprint occ (occ_chunk_cv0 occ + row) (occ_chunk_cv0 occ + row + rows)
      (max (occ_v0 occ) (mul64 (occ_chunk_cv0 occ + row) (occ_chunk_v occ)))
      (min (occ_v1 occ) (mul64 (occ_chunk_cv0 occ + row + rows) (occ_chunk_v occ))) rows first (segment_width limit run first)"
  have "spans_band occ row rows limit (concat (map (\<lambda>(x, y). [x..<y]) cs)) (map (\<lambda>(x, y). ?mk x) cs)" if "set cs \<subseteq> set bs" for cs
    using that
  proof (induction cs)
    case (Cons b cs)
    obtain x y where b: "b = (x, y)" by (cases b)
    have xy: "x < cr_last run + 1" "y = x + segment_width limit run x" "y \<le> cr_last run + 1"
      using Cons.prems b bs(3) tiles_bounds [OF bs(2)] step width by fastforce+
    have "spans_band occ row rows limit [x..<y] [?mk x]"
      unfolding xy(2) using xy run width [OF xy(1)] assms(4) by (intro band_segment [OF grid band]) (auto simp: run_ok_def)
    from spans_band_append [OF this Cons.IH] Cons.prems show ?case by (simp add: b)
  qed (simp add: spans_band_Nil)
  from this [of bs] have spans: "spans_band occ row rows limit (run_columns run) (map (\<lambda>(x, y). ?mk x) bs)"
    unfolding tiles_concat [OF bs(2)] by (simp add: run_columns_def)
  have cv: "occ_chunk_cv0 occ + row + rows < two64" using band g(3,4) le(2) unfolding band_ok_def by linarith
  have "add64 row rows = row + rows" using cv by (intro add64_exact) linarith
  moreover have "add64 (occ_chunk_cv0 occ) row = occ_chunk_cv0 occ + row" using cv by (intro add64_exact) linarith
  moreover have "add64 (occ_chunk_cv0 occ) (row + rows) = occ_chunk_cv0 occ + row + rows"
    using add64_exact [of "occ_chunk_cv0 occ" "row + rows"] cv by (simp add: add.assoc)
  ultimately have "band_footprints occ row rows limit run = Some (map (\<lambda>(x, y). ?mk x) bs)"
    unfolding band_footprints_def Let_def bs(1) by simp
  then show ?thesis using spans by blast
qed

lemma append_each_span:
  assumes grid: "grid_ok occ swap gs W H" and band: "band_ok occ row rows" and "1 \<le> limit"
  shows "\<forall>run \<in> set runs. run_ok (occ_columns occ) run \<Longrightarrow>
    \<exists>fps. append_each (band_footprints occ row rows limit) runs = Some fps \<and> spans_band occ row rows limit (concat (map run_columns runs)) fps"
proof (induction runs)
  case (Cons run runs)
  then obtain fps where "append_each (band_footprints occ row rows limit) runs = Some fps"
    "spans_band occ row rows limit (concat (map run_columns runs)) fps" by auto
  moreover obtain fps' where "band_footprints occ row rows limit run = Some fps'" "spans_band occ row rows limit (run_columns run) fps'"
    using band_footprints_span [OF grid band _ assms(3)] Cons.prems by auto
  ultimately show ?case by (auto intro: spans_band_append)
qed (simp add: spans_band_Nil)

section \<open>All the footprints\<close>

lemma band_rows_spec:
  "\<forall>r \<in> set rest. or_row r < max_extent \<Longrightarrow> row + n \<le> max_extent \<Longrightarrow> N = band_rows row runs limit n rest \<Longrightarrow>
   n \<le> N \<and> N - n \<le> length rest \<and> (\<forall>j < N - n. or_row (rest ! j) = row + n + j \<and> or_runs (rest ! j) = runs) \<and> (N = n \<or> N \<le> limit)"
proof (induction rest arbitrary: n)
  case (Cons r rest)
  have add: "add64 row n = row + n" using Cons.prems(2) by (intro add64_exact) linarith
  show ?case
  proof (cases "or_row r = row + n \<and> n < limit \<and> or_runs r = runs")
    case True
    then have "N = band_rows row runs limit (n + 1) rest" using Cons.prems(3) add by simp
    then have IH: "n + 1 \<le> N" "N - (n + 1) \<le> length rest" "\<forall>j < N - (n + 1). or_row (rest ! j) = row + (n + 1) + j \<and> or_runs (rest ! j) = runs"
      "N = n + 1 \<or> N \<le> limit"
      using Cons.IH [of "n + 1"] Cons.prems(1) True by auto
    have "or_row ((r # rest) ! j) = row + n + j \<and> or_runs ((r # rest) ! j) = runs" if "j < N - n" for j
      using that True IH(3) by (cases j) auto
    then show ?thesis using IH True by auto
  next
    case False
    then have "N = n" using Cons.prems(3) add by auto
    then show ?thesis by simp
  qed
qed simp

text \<open>The chunk a cell number is of.\<close>

definition chunk_of :: "Occupancy \<Rightarrow> nat \<Rightarrow> nat \<times> nat" where
  "chunk_of occ cell = (occ_chunk_cu0 occ + cell mod occ_columns occ, occ_chunk_cv0 occ + cell div occ_columns occ)"

lemma band_numbers:
  assumes "\<forall>j < length rs. or_row (rs ! j) = row + j \<and> or_runs (rs ! j) = runs" and "\<forall>run \<in> set runs. run_ok (occ_columns occ) run"
  shows "chunk_of occ ` set (concat (map (row_numbers (occ_columns occ)) rs)) =
      ((+) (occ_chunk_cu0 occ) ` set (concat (map run_columns runs))) \<times> {occ_chunk_cv0 occ + row..<occ_chunk_cv0 occ + row + length rs}"
    and "length (concat (map (row_numbers (occ_columns occ)) rs)) = length (concat (map run_columns runs)) * length rs"
proof -
  let ?C = "concat (map run_columns runs)" and ?n = "occ_columns occ"
  have col: "c < ?n" if "c \<in> set ?C" for c using that assms(2) by (auto simp: run_columns_def run_ok_def)
  have numbers: "row_numbers ?n (rs ! j) = map (\<lambda>c. (row + j) * ?n + c) ?C" if "j < length rs" for j
    using assms(1) that by (simp add: row_numbers_def)
  have dec: "chunk_of occ ((row + j) * ?n + c) = (occ_chunk_cu0 occ + c, occ_chunk_cv0 occ + (row + j))" if "c \<in> set ?C" for c j
    using col [OF that] by (simp add: chunk_of_def)
  have "map (row_numbers ?n) rs = map (\<lambda>j. map (\<lambda>c. (row + j) * ?n + c) ?C) [0..<length rs]"
    by (rule nth_equalityI) (simp_all add: numbers)
  then have eq: "concat (map (row_numbers ?n) rs) = concat (map (\<lambda>j. map (\<lambda>c. (row + j) * ?n + c) ?C) [0..<length rs])" by simp
  show "length (concat (map (row_numbers ?n) rs)) = length ?C * length rs"
    unfolding eq by (simp add: length_concat comp_def sum_list_triv)
  have "chunk_of occ ` set (concat (map (row_numbers ?n) rs)) = (\<Union>j \<in> {0..<length rs}. (\<lambda>c. chunk_of occ ((row + j) * ?n + c)) ` set ?C)"
    unfolding eq by (simp add: image_UN image_image)
  also have "\<dots> = (\<Union>j \<in> {0..<length rs}. (\<lambda>c. (occ_chunk_cu0 occ + c, occ_chunk_cv0 occ + (row + j))) ` set ?C)"
    using dec by (intro SUP_cong image_cong) auto
  also have "\<dots> = ((+) (occ_chunk_cu0 occ) ` set ?C) \<times> {occ_chunk_cv0 occ + row..<occ_chunk_cv0 occ + row + length rs}" (is "?L = ?R")
  proof (intro equalityI subsetI)
    fix p assume "p \<in> ?R"
    then obtain c v where p: "p = (occ_chunk_cu0 occ + c, v)" "c \<in> set ?C" "occ_chunk_cv0 occ + row \<le> v" "v < occ_chunk_cv0 occ + row + length rs"
      by (auto simp del: set_concat)
    then have "v - (occ_chunk_cv0 occ + row) \<in> {0..<length rs}" "v = occ_chunk_cv0 occ + (row + (v - (occ_chunk_cv0 occ + row)))" by auto
    then show "p \<in> ?L" using p(1,2) by blast
  qed auto
  finally show "chunk_of occ ` set (concat (map (row_numbers ?n) rs)) = ?R" .
qed

text \<open>What footprints are of a list of rows.\<close>

definition covers_rows :: "Occupancy \<Rightarrow> nat \<Rightarrow> OccupiedRow list \<Rightarrow> OccupiedFootprint list \<Rightarrow> bool" where
  "covers_rows occ chunks_per_read rows fps \<longleftrightarrow>
     set (chunks_of_all fps) = chunk_of occ ` set (concat (map (row_numbers (occ_columns occ)) rows)) \<and>
     length (chunks_of_all fps) = length (concat (map (row_numbers (occ_columns occ)) rows)) \<and>
     (\<forall>fp \<in> set fps. footprint_ok occ fp \<and> length (footprint_chunks fp) \<le> max 1 chunks_per_read)"

lemma covers_rows_append:
  "covers_rows occ b rows fps \<Longrightarrow> covers_rows occ b rows' fps' \<Longrightarrow> covers_rows occ b (rows @ rows') (fps @ fps')"
  by (auto simp: covers_rows_def image_Un)

lemma band_budget:
  assumes "rows = 1 \<or> rows \<le> UnitsAffordable budget widest" and "w \<le> UnitsAffordable budget rows" and "1 \<le> widest" and "1 \<le> rows"
  shows "w * rows \<le> max 1 budget"
proof (cases "UnitsAffordable budget rows = 1")
  case True
  then have "w * rows \<le> rows" using assms(2) by (cases w) auto
  moreover have "rows \<le> max 1 budget"
  proof (cases "rows = 1")
    case False
    then have "rows \<le> UnitsAffordable budget widest" "UnitsAffordable budget widest \<noteq> 1" using assms(1,4) by auto
    then have "UnitsAffordable budget widest * max 1 widest \<le> budget" using UnitsAffordable_fits by blast
    moreover have "UnitsAffordable budget widest * 1 \<le> UnitsAffordable budget widest * max 1 widest" by (intro mult_le_mono) auto
    ultimately show ?thesis using \<open>rows \<le> UnitsAffordable budget widest\<close> by linarith
  qed simp
  ultimately show ?thesis by linarith
next
  case False
  then have "UnitsAffordable budget rows * max 1 rows \<le> budget" using UnitsAffordable_fits by blast
  moreover have "w * rows \<le> UnitsAffordable budget rows * max 1 rows" using assms(2) by (intro mult_le_mono) auto
  ultimately show ?thesis by linarith
qed

lemma Footprints_from_covers:
  assumes grid: "grid_ok occ swap gs W H"
  shows "rows_ok (occ_columns occ) rows \<Longrightarrow> \<forall>r \<in> set rows. occ_chunk_cv0 occ + or_row r \<le> (occ_v1 occ - 1) div occ_chunk_v occ \<Longrightarrow>
    \<exists>fps. Footprints_from occ budget rows = Some fps \<and> covers_rows occ budget rows fps"
proof (induction rows rule: length_induct)
  case (1 rows)
  show ?case
  proof (cases rows)
    case Nil
    then show ?thesis by (simp add: covers_rows_def)
  next
    case (Cons r rest)
    let ?row = "or_row r" and ?runs = "or_runs r"
    define widest where "widest = foldl (\<lambda>widest run. max widest (run_width run)) 0 ?runs"
    define N where "N = band_rows ?row ?runs (UnitsAffordable budget widest) 1 rest"
    define limit where "limit = UnitsAffordable budget N"
    have top: "(occ_v1 occ - 1) div occ_chunk_v occ < max_extent"
      using grid div_le_dividend [of "occ_v1 occ - 1" "occ_chunk_v occ"] unfolding grid_ok_def by linarith
    have bound: "occ_chunk_cv0 occ + or_row x \<le> (occ_v1 occ - 1) div occ_chunk_v occ" if "x \<in> set rows" for x using "1.prems"(2) that by blast
    have "or_row x < max_extent" if "x \<in> set rest" for x using bound [of x] top that Cons by simp
    moreover have "or_row r + 1 \<le> max_extent" using bound [of r] top Cons by simp
    ultimately have N: "1 \<le> N" "N - 1 \<le> length rest" "\<forall>j < N - 1. or_row (rest ! j) = ?row + 1 + j \<and> or_runs (rest ! j) = ?runs"
      "N = 1 \<or> N \<le> UnitsAffordable budget widest"
      using band_rows_spec [of rest ?row 1 N ?runs] N_def by blast+
    let ?band = "r # take (N - 1) rest" and ?tail = "drop (N - 1) rest"
    have len: "length ?band = N" using N(1,2) by simp
    have rows: "rows = ?band @ ?tail" using Cons by simp
    have same: "\<forall>j < length ?band. or_row (?band ! j) = ?row + j \<and> or_runs (?band ! j) = ?runs"
      using N(3) unfolding len by (auto simp: nth_Cons split: nat.split)
    have runs: "?runs \<noteq> []" "\<forall>run \<in> set ?runs. run_ok (occ_columns occ) run" using "1.prems"(1) Cons by (auto simp: rows_ok_def)
    have "?band ! (N - 1) \<in> set rows" unfolding rows using len N(1) by (metis Un_iff diff_less less_le_trans nth_mem set_append zero_less_one)
    moreover have "or_row (?band ! (N - 1)) = ?row + (N - 1)" using same len N(1) by (metis diff_less less_le_trans zero_less_one)
    ultimately have band: "band_ok occ ?row N" using bound [of "?band ! (N - 1)"] N(1) by (simp add: band_ok_def)
    obtain fps where fps: "append_each (band_footprints occ ?row N limit) ?runs = Some fps"
      "spans_band occ ?row N limit (concat (map run_columns ?runs)) fps"
      using append_each_span [OF grid band _ runs(2), of limit] UnitsAffordable_pos by (auto simp: limit_def)
    obtain run where "run \<in> set ?runs" using runs(1) by fastforce
    then have "run_width run \<le> widest" using foldl_max_ge [of 0 run_width ?runs] by (simp add: widest_def)
    moreover have "1 \<le> run_width run"
    proof -
      have "occ_columns occ < max_extent" using grid div_le_dividend [of "occ_u1 occ - 1" "occ_chunk_u occ"] unfolding grid_ok_def by linarith
      then show ?thesis using runs(2) \<open>run \<in> set ?runs\<close> by (auto simp: run_width_def run_ok_def sub64_exact add64_exact)
    qed
    ultimately have widest: "1 \<le> widest" by simp
    have "covers_rows occ budget ?band fps"
      using fps(2) band_numbers [OF same runs(2)] band_budget [OF N(4) _ widest N(1)] unfolding spans_band_def covers_rows_def len
      by (auto simp: limit_def)
    moreover obtain fps' where tail: "Footprints_from occ budget ?tail = Some fps'" "covers_rows occ budget ?tail fps'"
    proof -
      have "length ?tail < length rows" using Cons by simp
      moreover have "rows_ok (occ_columns occ) ?tail" using "1.prems"(1) rows by (metis UnCI rows_ok_def set_append)
      moreover have "\<forall>r \<in> set ?tail. occ_chunk_cv0 occ + or_row r \<le> (occ_v1 occ - 1) div occ_chunk_v occ"
        using bound rows by (metis UnCI set_append)
      ultimately show ?thesis using "1.IH" that by blast
    qed
    ultimately have "covers_rows occ budget rows (fps @ fps')" using covers_rows_append rows by metis
    moreover have "Footprints_from occ budget rows = Some (fps @ fps')"
      unfolding Cons Footprints_from.simps Let_def widest_def [symmetric] N_def [symmetric] limit_def [symmetric] fps(1) tail(1) by simp
    ultimately show ?thesis by blast
  qed
qed

section \<open>Properties\<close>

lemma distinct_concat_index:
  "distinct (concat xss) \<Longrightarrow> i < length xss \<Longrightarrow> j < length xss \<Longrightarrow> x \<in> set (xss ! i) \<Longrightarrow> x \<in> set (xss ! j) \<Longrightarrow> i = j"
proof (induction xss arbitrary: i j)
  case (Cons xs xss)
  have "x \<in> set (concat xss)" if "Suc k < length (xs # xss)" "x \<in> set ((xs # xss) ! Suc k)" for k
    using that by (auto intro!: bexI [of _ "xss ! k"])
  then show ?case using Cons by (cases i; cases j) auto
qed simp

lemma chunk_of_Cell:
  assumes "grid_ok occ swap gs W H" and "in_grid occ cx cy"
  shows "chunk_of occ (Cell occ cx cy) = (cx, cy)"
proof -
  note c = Cell_exact [OF assms]
  have "Cell occ cx cy mod occ_columns occ = cx - occ_chunk_cu0 occ" "Cell occ cx cy div occ_columns occ = cy - occ_chunk_cv0 occ"
    unfolding c(1) using c(2) by auto
  then show ?thesis unfolding chunk_of_def using c(3,4) by simp
qed

lemma same_region_cells:
  assumes "Cell occ = Cell (place_all gs cu cv fastest)" and "occ_chunk_u occ = cu" and "occ_chunk_v occ = cv"
  shows "region_cells (place_all gs cu cv fastest) swap g = region_cells occ swap g"
  unfolding region_cells_def row_cells_def [abs_def] Let_def assms by (simp add: place_all_def Let_def)

text \<open>The occupied cells are the numbers of the chunks some region touches.\<close>

lemma occupied_cells:
  assumes "request_ok gs plane cu cv" and swap: "swap = (fastest = spatial_y)" and "Of gs plane cu cv fastest node = Some (Inr occ)"
  defines "T \<equiv> {(cx, cy). \<exists>g \<in> set gs. touches swap g cu cv cx cy}"
  shows "(cx, cy) \<in> T \<Longrightarrow> in_grid occ cx cy" and "set (occ_cells occ) = (\<lambda>(cx, cy). Cell occ cx cy) ` T"
    and "chunk_of occ ` set (occ_cells occ) = T" and "card T = length (occ_cells occ)"
proof -
  note o = Of_index [OF assms(1-3)]
  have ok: "plane_ok plane" using assms(1) by (simp add: request_ok_def)
  show grid: "in_grid occ cx cy" if "(cx, cy) \<in> T" for cx cy
    using touches_in_grid [OF o(1)] that unfolding o(6,7) T_def by blast
  have sorted: "sorted_wrt (<) (occ_cells occ)"
    and cells: "set (occ_cells occ) = \<Union> (set ` set (map (region_cells (place_all gs cu cv fastest) swap) gs))"
    using o(8) by (auto simp: region_index_def)
  note same = same_region_cells [OF o(5,6,7)]
  show numbers: "set (occ_cells occ) = (\<lambda>(cx, cy). Cell occ cx cy) ` T"
  proof (intro equalityI subsetI)
    fix c assume "c \<in> set (occ_cells occ)"
    then obtain g where "g \<in> set gs" "c \<in> set (region_cells occ swap g)" unfolding cells by (auto simp: same)
    then show "c \<in> (\<lambda>(cx, cy). Cell occ cx cy) ` T"
      using o(6,7) by (auto simp: region_cells_def row_cells_def Let_def image_iff T_def simp del: upt_Suc)
  next
    fix c assume "c \<in> (\<lambda>(cx, cy). Cell occ cx cy) ` T"
    then obtain cx cy g where c: "c = Cell occ cx cy" "g \<in> set gs" "touches swap g cu cv cx cy" by (auto simp: T_def)
    moreover have "in_grid occ cx cy" using c(2,3) by (intro grid) (auto simp: T_def)
    ultimately have "c \<in> set (region_cells occ swap g)" using region_cells_iff [OF o(1) c(2) _ ok] o(2,6,7) by auto
    then show "c \<in> set (occ_cells occ)" unfolding cells using c(2) by (auto simp: same)
  qed
  have "chunk_of occ ` (\<lambda>(cx, cy). Cell occ cx cy) ` T = (\<lambda>p. p) ` T"
    unfolding image_image
  proof (rule image_cong [OF refl])
    fix p assume "p \<in> T"
    then show "chunk_of occ (case p of (cx, cy) \<Rightarrow> Cell occ cx cy) = p" using chunk_of_Cell [OF o(1) grid] by (cases p) simp
  qed
  then show "chunk_of occ ` set (occ_cells occ) = T" unfolding numbers by simp
  have "inj_on (\<lambda>(cx, cy). Cell occ cx cy) T"
  proof (rule inj_onI)
    fix p q assume "p \<in> T" "q \<in> T" "(case p of (cx, cy) \<Rightarrow> Cell occ cx cy) = (case q of (cx, cy) \<Rightarrow> Cell occ cx cy)"
    then show "p = q" using Cell_inj [OF o(1) grid grid] by (cases p; cases q) simp
  qed
  then have "card T = card (set (occ_cells occ))" unfolding numbers by (rule card_image [symmetric])
  also have "\<dots> = length (occ_cells occ)" using sorted by (simp add: distinct_card strict_sorted_iff)
  finally show "card T = length (occ_cells occ)" .
qed

lemma grid_columns:
  assumes "grid_ok occ swap gs W H"
  shows "0 < occ_columns occ" and "occ_columns occ < two64"
proof -
  have g: "occ_u0 occ < occ_u1 occ" "occ_u1 occ < max_extent"
    "occ_columns occ = (occ_u1 occ - 1) div occ_chunk_u occ + 1 - occ_u0 occ div occ_chunk_u occ" using assms by (auto simp: grid_ok_def)
  have "occ_u0 occ div occ_chunk_u occ \<le> (occ_u1 occ - 1) div occ_chunk_u occ" using g(1) by (intro div_le_mono) simp
  then show "0 < occ_columns occ" "occ_columns occ < two64"
    using g div_le_dividend [of "occ_u1 occ - 1" "occ_chunk_u occ"] by linarith+
qed

text \<open>A row of the index is a row of the grid: its first column is an occupied cell of it.\<close>

lemma occupied_row_in_grid:
  assumes "rows_ok (occ_columns occ) (occ_rows occ)" and "concat (map (row_numbers (occ_columns occ)) (occ_rows occ)) = occ_cells occ"
    and "\<And>cx cy. (cx, cy) \<in> chunk_of occ ` set (occ_cells occ) \<Longrightarrow> in_grid occ cx cy" and r: "r \<in> set (occ_rows occ)"
  shows "occ_chunk_cv0 occ + or_row r \<le> (occ_v1 occ - 1) div occ_chunk_v occ"
proof -
  obtain run where run: "run \<in> set (or_runs r)" "run_ok (occ_columns occ) run" using assms(1) r unfolding rows_ok_def by (metis list.set_sel(1))
  let ?c = "or_row r * occ_columns occ + cr_first run"
  have "cr_first run \<in> set (concat (map run_columns (or_runs r)))"
    using run by (auto simp: run_columns_def run_ok_def simp del: upt_Suc)
  then have "?c \<in> set (row_numbers (occ_columns occ) r)" by (simp only: row_numbers_def set_map imageI)
  then have "?c \<in> set (occ_cells occ)" using r unfolding assms(2) [symmetric] set_concat set_map by blast
  then have "chunk_of occ ?c \<in> chunk_of occ ` set (occ_cells occ)" by (rule imageI)
  moreover have "chunk_of occ ?c = (occ_chunk_cu0 occ + cr_first run, occ_chunk_cv0 occ + or_row r)"
    using run(2) by (simp add: chunk_of_def run_ok_def)
  ultimately have "in_grid occ (occ_chunk_cu0 occ + cr_first run) (occ_chunk_cv0 occ + or_row r)" using assms(3) by simp
  then show ?thesis by (simp add: in_grid_def)
qed

lemma Footprints_covers:
  assumes "request_ok gs plane cu cv" and swap: "swap = (fastest = spatial_y)" and "Of gs plane cu cv fastest node = Some (Inr occ)"
  shows "\<exists>fps. Footprints occ budget = Some fps \<and> distinct (chunks_of_all fps) \<and>
    set (chunks_of_all fps) = {(cx, cy). \<exists>g \<in> set gs. touches swap g cu cv cx cy} \<and>
    length (chunks_of_all fps) = occ_layer_chunks occ \<and>
    (\<forall>fp \<in> set fps. footprint_ok occ fp \<and> length (footprint_chunks fp) \<le> max 1 budget)"
proof -
  note o = Of_index [OF assms] and cells = occupied_cells [OF assms]
  let ?T = "{(cx, cy). \<exists>g \<in> set gs. touches swap g cu cv cx cy}"
  have rows: "concat (map (row_numbers (occ_columns occ)) (occ_rows occ)) = occ_cells occ" "rows_ok (occ_columns occ) (occ_rows occ)"
    using index_rows [OF grid_columns [OF o(1)], of "occ_cells occ"] unfolding o(9) by auto
  have "in_grid occ cx cy" if "(cx, cy) \<in> chunk_of occ ` set (occ_cells occ)" for cx cy using cells(1) that unfolding cells(3) .
  then have "\<forall>r \<in> set (occ_rows occ). occ_chunk_cv0 occ + or_row r \<le> (occ_v1 occ - 1) div occ_chunk_v occ"
    using occupied_row_in_grid [OF rows(2,1)] by blast
  then obtain fps where fps: "Footprints occ budget = Some fps" "covers_rows occ budget (occ_rows occ) fps"
    using Footprints_from_covers [OF o(1) rows(2)] unfolding Footprints_def by blast
  have len: "length (chunks_of_all fps) = length (occ_cells occ)" and set: "set (chunks_of_all fps) = ?T"
    using fps(2) rows(1) cells(3) by (auto simp: covers_rows_def)
  have "distinct (chunks_of_all fps)" using len set cells(4) by (intro card_distinct) simp
  then show ?thesis using fps len set o(10) by (auto simp: covers_rows_def)
qed

text \<open>
  Claim C15. For every set of regions that was accepted and every budget, forming the footprints returns, and they
  are exactly what a reduction has to read: each chunk some region selects a pixel in lies in one footprint and in no
  other, no footprint spans a chunk without one, a footprint holds no more chunks than a read may decode (one, when
  the budget affords none), and the chunks they count add up to the chunks of a spectral layer.
\<close>

theorem Footprints_partition_occupied:
  assumes "request_ok gs plane chunk_u chunk_v" and "Of gs plane chunk_u chunk_v fastest node = Some (Inr occ)"
  shows "\<exists>fps. Footprints occ budget = Some fps \<and> distinct (concat (map footprint_chunks fps)) \<and>
    set (concat (map footprint_chunks fps)) = {(cu, cv). \<exists>g \<in> set gs. touches (fastest = spatial_y) g chunk_u chunk_v cu cv} \<and>
    (\<Sum>fp \<leftarrow> fps. sf_chunks (of_slab fp)) = occ_layer_chunks occ \<and>
    (\<forall>fp \<in> set fps. sf_chunks (of_slab fp) = length (footprint_chunks fp) \<and> sf_chunks (of_slab fp) \<le> max 1 budget)"
proof -
  obtain fps where fps: "Footprints occ budget = Some fps" "distinct (chunks_of_all fps)"
    "set (chunks_of_all fps) = {(cu, cv). \<exists>g \<in> set gs. touches (fastest = spatial_y) g chunk_u chunk_v cu cv}"
    "length (chunks_of_all fps) = occ_layer_chunks occ"
    "\<forall>fp \<in> set fps. footprint_ok occ fp \<and> length (footprint_chunks fp) \<le> max 1 budget"
    using Footprints_covers [OF assms(1) refl assms(2)] by blast
  have counts: "\<forall>fp \<in> set fps. sf_chunks (of_slab fp) = length (footprint_chunks fp)" using fps(5) by (simp add: footprint_ok_def Let_def)
  then have "map (\<lambda>fp. sf_chunks (of_slab fp)) fps = map length (map footprint_chunks fps)" by simp
  then have "(\<Sum>fp \<leftarrow> fps. sf_chunks (of_slab fp)) = length (chunks_of_all fps)" by (simp only: chunks_of_all_def length_concat)
  then show ?thesis using fps counts by (simp add: chunks_of_all_def)
qed

theorem Footprints_partition_occupied_witness:
  "(\<exists>fps. Footprints example_occupancy 1 = Some fps \<and> distinct (concat (map footprint_chunks fps)) \<and>
    set (concat (map footprint_chunks fps)) = {(cu, cv). \<exists>g \<in> set example_regions. touches (spatial_x = spatial_y) g 2 2 cu cv} \<and>
    (\<Sum>fp \<leftarrow> fps. sf_chunks (of_slab fp)) = occ_layer_chunks example_occupancy \<and>
    (\<forall>fp \<in> set fps. sf_chunks (of_slab fp) = length (footprint_chunks fp) \<and> sf_chunks (of_slab fp) \<le> max 1 1)) \<and>
   map_option (concat \<circ> map footprint_chunks) (Footprints example_occupancy 1) = Some [(0, 1), (1, 1), (0, 2)]"
proof
  show "map_option (concat \<circ> map footprint_chunks) (Footprints example_occupancy 1) = Some [(0, 1), (1, 1), (0, 2)]" by code_simp
qed (rule Footprints_partition_occupied [OF example_regions_ok example_Of])

text \<open>
  The slab of a footprint is the part of the regions' box in its chunks, never empty, so a pixel any region
  selects is read: it lies in the slab of exactly the footprint its chunk is in.
\<close>

theorem Footprints_read_selected_pixels:
  assumes "request_ok gs plane chunk_u chunk_v" and "Of gs plane chunk_u chunk_v fastest node = Some (Inr occ)"
    and "Footprints occ budget = Some fps" and "g \<in> set gs"
    and "if fastest = spatial_y then region_selects g v u else region_selects g u v"
  shows "\<exists>!i. i < length fps \<and>
    (let s = of_slab (fps ! i)
     in sf_u_start s \<le> u \<and> u < sf_u_start s + sf_u_count s \<and> sf_v_start s \<le> v \<and> v < sf_v_start s + sf_v_count s)"
    (is "\<exists>!i. ?in i")
proof -
  let ?p = "(u div chunk_u, v div chunk_v)"
  have fps: "distinct (chunks_of_all fps)" "set (chunks_of_all fps) = {(cu, cv). \<exists>g \<in> set gs. touches (fastest = spatial_y) g chunk_u chunk_v cu cv}"
    "\<forall>fp \<in> set fps. footprint_ok occ fp"
    using Footprints_covers [OF assms(1) refl assms(2), of budget] assms(3) by auto
  note o = Of_index [OF assms(1) refl assms(2)]
  have sel: "placed_selects (fastest = spatial_y) g u v" using assms(5) by (simp add: placed_selects_def)
  then have box: "occ_u0 occ \<le> u" "u < occ_u1 occ" "occ_v0 occ \<le> v" "v < occ_v1 occ" using o(1) assms(4) by (auto simp: grid_ok_def)
  have inside: "(let s = of_slab (fps ! i)
     in sf_u_start s \<le> u \<and> u < sf_u_start s + sf_u_count s \<and> sf_v_start s \<le> v \<and> v < sf_v_start s + sf_v_count s) \<longleftrightarrow>
     ?p \<in> set (footprint_chunks (fps ! i))" if "i < length fps" for i
  proof -
    have "footprint_ok occ (fps ! i)" using fps(3) that by simp
    then show ?thesis using box o(6,7) by (auto simp: footprint_ok_def Let_def footprint_chunks_def)
  qed
  have "touches (fastest = spatial_y) g chunk_u chunk_v (u div chunk_u) (v div chunk_v)" using sel by (auto simp: touches_def)
  then have "?p \<in> set (chunks_of_all fps)" using fps(2) assms(4) by blast
  then obtain i where i: "i < length fps" "?p \<in> set (footprint_chunks (fps ! i))"
  proof -
    from \<open>?p \<in> set (chunks_of_all fps)\<close> obtain fp where "fp \<in> set fps" "?p \<in> set (footprint_chunks fp)"
      unfolding chunks_of_all_def set_concat set_map by blast
    then show ?thesis using that by (metis in_set_conv_nth)
  qed
  have unique: "j = i" if "j < length fps" "?p \<in> set (footprint_chunks (fps ! j))" for j
    using distinct_concat_index [of "map footprint_chunks fps" j i ?p] fps(1) i that by (simp add: chunks_of_all_def)
  show ?thesis
  proof (rule ex1I)
    show "?in i" using i inside [OF i(1)] by blast
    show "j = i" if "?in j" for j using that unique inside by blast
  qed
qed

theorem Footprints_read_selected_pixels_witness:
  "\<exists>fps. Footprints example_occupancy 2 = Some fps \<and> region_selects (example_regions ! 0) 3 3 \<and>
   (\<exists>!i. i < length fps \<and>
     (let s = of_slab (fps ! i)
      in sf_u_start s \<le> 3 \<and> 3 < sf_u_start s + sf_u_count s \<and> sf_v_start s \<le> 3 \<and> 3 < sf_v_start s + sf_v_count s))"
proof -
  obtain fps where fps: "Footprints example_occupancy 2 = Some fps"
    using Footprints_covers [OF example_regions_ok refl example_Of] by blast
  have sel: "region_selects (example_regions ! 0) 3 3" by code_simp
  have "example_regions ! 0 \<in> set example_regions" by (simp add: example_regions_def)
  from Footprints_read_selected_pixels [OF example_regions_ok example_Of fps this, of 3 3] sel
  show ?thesis using fps sel by auto
qed

end
