(* ===== verification/Pass.thy ===== *)
theory Pass
  imports Pass_Plan Occupied_Footprints Pixel_Reader "HOL-Library.Multiset"
begin

text \<open>
  The walk a pass makes over an image, of \<open>src/reduce/pass.h\<close> and \<open>src/reduce/pass_read.cc\<close>: a footprint is read
  along the spectrum a slab at a time, the plane is read as bands of chunk rows, and a pass hands its visitor every
  slab and its caller what it has, in blocks or as one run. The caller's callbacks and the pixel source act on a world
  of type \<open>'w\<close>; a walk is a function of the state it keeps and that world. A loop that does not end is \<open>None\<close>.
\<close>

section \<open>Loops that stop at the first error\<close>

text \<open>
  The loop \<open>for (begin = first; begin < limit;) { end = next_end(begin); if (!body(begin, end)) return error; begin = end; }\<close>
  with a body that acts on a state.
\<close>

partial_function (option) cut_loop ::
  "(nat \<Rightarrow> nat) \<Rightarrow> (nat \<Rightarrow> nat \<Rightarrow> 's \<Rightarrow> (unit result \<times> 's) option) \<Rightarrow> nat \<Rightarrow> nat \<Rightarrow> 's \<Rightarrow> (unit result \<times> 's) option"
where
  "cut_loop next_end body begin limit s =
     (if begin < limit
      then Option.bind (body begin (next_end begin) s)
             (\<lambda>(r, s'). case r of
                 Inl e \<Rightarrow> Some (Inl e, s')
               | Inr _ \<Rightarrow> cut_loop next_end body (next_end begin) limit s')
      else Some (Inr (), s))"

declare cut_loop.simps [code]

text \<open>The turns of such a loop, one for each of a list of items.\<close>

fun seq_all :: "('x \<Rightarrow> 's \<Rightarrow> unit result \<times> 's) \<Rightarrow> 'x list \<Rightarrow> 's \<Rightarrow> unit result \<times> 's" where
  "seq_all step [] s = (Inr (), s)"
| "seq_all step (x # xs) s =
     (case step x s of
        (Inl e, s') \<Rightarrow> (Inl e, s')
      | (Inr _, s') \<Rightarrow> seq_all step xs s')"

section \<open>Slabs\<close>

definition SampledRange :: "u64 \<Rightarrow> u64 \<Rightarrow> u64 \<Rightarrow> u64 \<times> u64" where
  "SampledRange begin end' stride =
     (let rounded_up = (\<lambda>value. add64 (value div stride) (of_bool (value mod stride \<noteq> 0)));
          first = rounded_up begin;
          last' = rounded_up end'
      in (mul64 first stride, if first < last' then last' - first else 0))"

record Slab =
  sb_first_channel :: BlockChannel
  sb_channel_count :: u64
  sb_pixels :: "f32 list"
  sb_stride_u :: u64
  sb_stride_v :: u64
  sb_stride_z :: u64
  sb_u_count :: u64
  sb_v_count :: u64

record SlabRequest =
  sr_u_start :: u64
  sr_u_count :: u64
  sr_u_stride :: u64
  sr_v_start :: u64
  sr_v_count :: u64
  sr_v_stride :: u64
  sr_channel_index :: SelectionChannel
  sr_channel_count :: u64

record SlabBuffers =
  bf_pixels :: "f32 list"
  bf_mask :: "u8 list"

text \<open>\<open>std::vector::resize\<close>: the front is kept, new elements are zero.\<close>

definition resize :: "nat \<Rightarrow> 'a::zero list \<Rightarrow> 'a list" where
  "resize n xs = take n xs @ replicate (n - length xs) 0"

definition slab_read_request :: "PassPlan \<Rightarrow> SlabRequest \<Rightarrow> ReadRequest" where
  "slab_read_request plan request =
     (let am = pp_map plan;
          sel = pl_spectral (pp_planes plan);
          axes = (replicate (length (img_axes (pp_descriptor plan))) (mk_range 0 1 1))
            [pp_axis_u plan := mk_range (sr_u_start request) (sr_u_count request) (sr_u_stride request),
             pp_axis_v plan := mk_range (sr_v_start request) (sr_v_count request) (sr_v_stride request),
             am_spectral am := mk_range (add64 (rg_start sel) (mul64 (sr_channel_index request) (rg_stride sel)))
                                 (sr_channel_count request) (rg_stride sel)];
          axes = (if am_has_polarization am then axes[am_polarization am := mk_range (pl_polarization (pp_planes plan)) 1 1] else axes)
      in if am_has_time am then axes[am_time am := mk_range (pl_time (pp_planes plan)) 1 1] else axes)"

text \<open>A slab points into the buffers, so what it holds is what they hold until the next read.\<close>

definition ReadSlab ::
  "'w PixelSource \<Rightarrow> PassPlan \<Rightarrow> 'w ReadOptions \<Rightarrow> SlabRequest \<Rightarrow> SlabBuffers \<Rightarrow> 'w \<Rightarrow> (Slab result \<times> SlabBuffers) \<times> 'w"
where
  "ReadSlab source plan options request buffers w =
     (let descriptor = pp_descriptor plan; control = opt_control options
      in case BuildSelection descriptor (slab_read_request plan request) stored of
           Inl e \<Rightarrow> ((Inl e, buffers), w)
         | Inr selection \<Rightarrow>
             let stored_stride = DestinationStrides selection;
                 elements = sel_elements selection;
                 slab = (\<lambda>pixels. \<lparr>sb_first_channel = BlockChannel 0, sb_channel_count = sr_channel_count request, sb_pixels = pixels,
                          sb_stride_u = stored_stride ! ax_storage_index (img_axes descriptor ! pp_axis_u plan),
                          sb_stride_v = stored_stride ! ax_storage_index (img_axes descriptor ! pp_axis_v plan),
                          sb_stride_z = stored_stride ! ax_storage_index (img_axes descriptor ! am_spectral (pp_map plan)),
                          sb_u_count = sr_u_count request, sb_v_count = sr_v_count request\<rparr>)
             in case ReadPixels source selection (resize elements (bf_pixels buffers)) control w of
                  ((Inl e, pixels), w) \<Rightarrow> ((Inl e, buffers\<lparr>bf_pixels := pixels\<rparr>), w)
                | ((Inr _, pixels), w) \<Rightarrow>
                    if pp_apply_mask plan
                    then case ReadMask source selection (resize elements (bf_mask buffers)) control w of
                           ((Inl e, flags), w) \<Rightarrow> ((Inl e, \<lparr>bf_pixels = pixels, bf_mask = flags\<rparr>), w)
                         | ((Inr _, flags), w) \<Rightarrow>
                             let pixels = ApplyPixelMask pixels flags elements
                             in ((Inr (slab pixels), \<lparr>bf_pixels = pixels, bf_mask = flags\<rparr>), w)
                    else ((Inr (slab pixels), buffers\<lparr>bf_pixels := pixels\<rparr>), w))"

section \<open>Walking\<close>

record Walk =
  wk_reads_done :: u64
  wk_chunks_done :: u64
  wk_buffers :: SlabBuffers

definition Allowed :: "PassPlan \<Rightarrow> 'w ReadOptions \<Rightarrow> 'w \<Rightarrow> unit result \<times> 'w" where
  "Allowed plan options w = CheckReadControl (opt_control options) (img_id (pp_descriptor plan)) w"

definition slab_request :: "SlabFootprint \<Rightarrow> SelectionChannel \<Rightarrow> u64 \<Rightarrow> SlabRequest" where
  "slab_request footprint slab_begin slab_length =
     \<lparr>sr_u_start = sf_u_start footprint, sr_u_count = sf_u_count footprint, sr_u_stride = sf_u_stride footprint,
      sr_v_start = sf_v_start footprint, sr_v_count = sf_v_count footprint, sr_v_stride = sf_v_stride footprint,
      sr_channel_index = slab_begin, sr_channel_count = slab_length\<rparr>"

text \<open>One turn of the walk of a footprint.\<close>

definition walk_slab ::
  "'w PixelSource \<Rightarrow> PassPlan \<Rightarrow> 'w ReadOptions \<Rightarrow> (u64 \<Rightarrow> 'w \<Rightarrow> unit result \<times> 'w) \<Rightarrow> (Slab \<Rightarrow> 'w \<Rightarrow> 'w) \<Rightarrow> SlabFootprint \<Rightarrow>
   SelectionChannel \<Rightarrow> SelectionChannel \<Rightarrow> SelectionChannel \<Rightarrow> Walk \<times> 'w \<Rightarrow> unit result \<times> Walk \<times> 'w"
where
  "walk_slab source plan options report visitor footprint begin slab_begin slab_end state =
     (let (wk, w) = state;
          slab_length = sub64 slab_end slab_begin;
          (ready, w) = (if 0 < wk_reads_done wk then report (wk_chunks_done wk) w else (Inr (), w))
      in case ready of
           Inl e \<Rightarrow> (Inl e, (wk, w))
         | Inr _ \<Rightarrow>
             let wk = wk\<lparr>wk_reads_done := add64 (wk_reads_done wk) 1\<rparr>
             in case Allowed plan options w of
                  (Inl e, w) \<Rightarrow> (Inl e, (wk, w))
                | (Inr _, w) \<Rightarrow>
                    case ReadSlab source plan options (slab_request footprint slab_begin slab_length) (wk_buffers wk) w of
                      ((Inl e, buffers), w) \<Rightarrow> (Inl e, (wk\<lparr>wk_buffers := buffers\<rparr>, w))
                    | ((Inr slab, buffers), w) \<Rightarrow>
                        let w = visitor (slab\<lparr>sb_first_channel := BlockChannel (sub64 slab_begin begin)\<rparr>) w
                        in (Inr (), (wk\<lparr>wk_buffers := buffers,
                              wk_chunks_done := add64 (wk_chunks_done wk)
                                (mul64 (sf_chunks footprint) (plan_ChunksTouched plan slab_begin slab_end))\<rparr>, w)))"

definition Over ::
  "'w PixelSource \<Rightarrow> PassPlan \<Rightarrow> 'w ReadOptions \<Rightarrow> (u64 \<Rightarrow> 'w \<Rightarrow> unit result \<times> 'w) \<Rightarrow> (Slab \<Rightarrow> 'w \<Rightarrow> 'w) \<Rightarrow> SlabFootprint \<Rightarrow>
   SelectionChannel \<Rightarrow> SelectionChannel \<Rightarrow> Walk \<times> 'w \<Rightarrow> (unit result \<times> Walk \<times> 'w) option"
where
  "Over source plan options report visitor footprint begin end' state =
     (let slab_channels = SlabChannels plan (sf_chunks footprint)
      in cut_loop (\<lambda>slab_begin. AlignedSlabEnd plan slab_begin (min slab_channels (sub64 end' slab_begin)) end')
           (\<lambda>slab_begin slab_end s. Some (walk_slab source plan options report visitor footprint begin slab_begin slab_end s))
           begin end' state)"

text \<open>The part of a band of chunk rows that one read covers, the rows and columns counted among the sampled chunks.\<close>

definition band_segment :: "PassPlan \<Rightarrow> u64 \<Rightarrow> u64 \<Rightarrow> u64 \<Rightarrow> u64 \<Rightarrow> SlabFootprint" where
  "band_segment plan row held_rows column width =
     (let rows = ChunksSampled (pp_v_length plan) (pp_chunk_v plan) (pp_sample plan);
          columns = ChunksSampled (pp_u_length plan) (pp_chunk_u plan) (pp_sample plan);
          v = SampledRange (mul64 (sampled_chunk rows row) (pp_chunk_v plan))
                (min (pp_v_length plan) (mul64 (add64 (sampled_chunk rows (sub64 (add64 row held_rows) 1)) 1) (pp_chunk_v plan)))
                (pp_sample plan);
          u = SampledRange (mul64 (sampled_chunk columns column) (pp_chunk_u plan))
                (min (pp_u_length plan) (mul64 (add64 (sampled_chunk columns (sub64 (add64 column width) 1)) 1) (pp_chunk_u plan)))
                (pp_sample plan)
      in \<lparr>sf_u_start = fst u, sf_u_count = snd u, sf_u_stride = pp_sample plan,
          sf_v_start = fst v, sf_v_count = snd v, sf_v_stride = pp_sample plan, sf_chunks = mul64 width held_rows\<rparr>)"

definition OverBands ::
  "'w PixelSource \<Rightarrow> PassPlan \<Rightarrow> 'w ReadOptions \<Rightarrow> (u64 \<Rightarrow> 'w \<Rightarrow> unit result \<times> 'w) \<Rightarrow> (Slab \<Rightarrow> 'w \<Rightarrow> 'w) \<Rightarrow>
   SelectionChannel \<Rightarrow> SelectionChannel \<Rightarrow> Walk \<times> 'w \<Rightarrow> (unit result \<times> Walk \<times> 'w) option"
where
  "OverBands source plan options before_read visitor begin end' state =
     (let rows = sc_size (ChunksSampled (pp_v_length plan) (pp_chunk_v plan) (pp_sample plan));
          columns = sc_size (ChunksSampled (pp_u_length plan) (pp_chunk_u plan) (pp_sample plan))
      in cut_loop (\<lambda>row. add64 row (min (pp_band_rows plan) (sub64 rows row)))
           (\<lambda>row next_row s.
              let held_rows = min (pp_band_rows plan) (sub64 rows row);
                  segment_chunks = plan_UnitsAffordable plan held_rows
              in cut_loop (\<lambda>column. add64 column (min segment_chunks (sub64 columns column)))
                   (\<lambda>column next_column s.
                      let width = min segment_chunks (sub64 columns column)
                      in Over source plan options before_read visitor (band_segment plan row held_rows column width) begin end' s)
                   0 columns s)
           0 rows state)"

section \<open>Passes\<close>

datatype Shape = PlaneBands | FootprintsOf "OccupiedFootprint list"

record Pass =
  ps_plan :: PassPlan
  ps_shape :: Shape
  ps_layer_chunks :: u64
  ps_cancelled :: string

definition Cancelled :: "Pass \<Rightarrow> Error" where
  "Cancelled pass = mk_error cancelled (ps_cancelled pass) (img_id (pp_descriptor (ps_plan pass)))"

fun over_footprints ::
  "(OccupiedFootprint \<Rightarrow> 's \<Rightarrow> (unit result \<times> 's) option) \<Rightarrow> OccupiedFootprint list \<Rightarrow> 's \<Rightarrow> (unit result \<times> 's) option" where
  "over_footprints over [] s = Some (Inr (), s)"
| "over_footprints over (fp # fps) s =
     Option.bind (over fp s) (\<lambda>(r, s'). case r of Inl e \<Rightarrow> Some (Inl e, s') | Inr _ \<Rightarrow> over_footprints over fps s')"

text \<open>A visitor is told which footprint a slab was read over, none when the pass walks the plane.\<close>

definition Pass_Walk ::
  "'w PixelSource \<Rightarrow> 'w ReadOptions \<Rightarrow> Pass \<Rightarrow> (u64 \<Rightarrow> 'w \<Rightarrow> unit result \<times> 'w) \<Rightarrow>
   (OccupiedFootprint option \<Rightarrow> Slab \<Rightarrow> 'w \<Rightarrow> 'w) \<Rightarrow> SelectionChannel \<Rightarrow> SelectionChannel \<Rightarrow> Walk \<times> 'w \<Rightarrow>
   (unit result \<times> Walk \<times> 'w) option"
where
  "Pass_Walk source options pass report visitor begin end' state =
     (let (wk, w) = state; plan = ps_plan pass
      in case Allowed plan options w of
           (Inl e, w) \<Rightarrow> Some (Inl e, (wk, w))
         | (Inr _, w) \<Rightarrow>
             case ps_shape pass of
               PlaneBands \<Rightarrow> OverBands source plan options report (visitor None) begin end' (wk, w)
             | FootprintsOf footprints \<Rightarrow>
                 over_footprints (\<lambda>fp s. Over source plan options report (visitor (Some fp)) (of_slab fp) begin end' s) footprints (wk, w))"

text \<open>
  How far along a hand-over is, the chunks in hand of the chunks in all: the completeness a caller sees is the quotient
  of the two, and 1 for a finished block.
\<close>

type_synonym completeness = "u64 \<times> u64"

definition deliver ::
  "Pass \<Rightarrow> (SelectionChannel \<Rightarrow> u64 \<Rightarrow> bool \<Rightarrow> completeness \<Rightarrow> 'w \<Rightarrow> bool \<times> 'w) \<Rightarrow> SelectionChannel \<Rightarrow> u64 \<Rightarrow> u64 \<Rightarrow> bool \<Rightarrow> u64 \<Rightarrow> 'w \<Rightarrow>
   unit result \<times> 'w"
where
  "deliver pass hand_over begin len chunks_total complete chunks_done w =
     (case hand_over begin len complete (if complete then (1, 1) else (chunks_done, chunks_total)) w of
        (go_on, w) \<Rightarrow> (if go_on then Inr () else Inl (Cancelled pass), w))"

definition InBlocks ::
  "'w PixelSource \<Rightarrow> 'w ReadOptions \<Rightarrow> Pass \<Rightarrow> u64 \<Rightarrow> u64 \<Rightarrow> (u64 \<Rightarrow> 'w \<Rightarrow> 'w) \<Rightarrow>
   (OccupiedFootprint option \<Rightarrow> Slab \<Rightarrow> 'w \<Rightarrow> 'w) \<Rightarrow>
   (SelectionChannel \<Rightarrow> u64 \<Rightarrow> bool \<Rightarrow> completeness \<Rightarrow> 'w \<Rightarrow> bool \<times> 'w) \<Rightarrow> Walk \<times> 'w \<Rightarrow> (unit result \<times> Walk \<times> 'w) option"
where
  "InBlocks source options pass bytes_per_channel hint reset visitor hand_over state =
     (let plan = ps_plan pass;
          end_of_selection = rg_count (pl_spectral (pp_planes plan));
          emit_channels = EmitChannels plan (ps_layer_chunks pass) bytes_per_channel hint;
          layer = max 1 (ps_layer_chunks pass)
      in cut_loop (\<lambda>begin. AlignedSlabEnd plan begin emit_channels end_of_selection)
           (\<lambda>begin end' (wk, w).
              let len = sub64 end' begin;
                  w = reset len w;
                  chunks_total = ChunksCovering plan layer begin end'
              in Option.bind (Pass_Walk source options pass (deliver pass hand_over begin len chunks_total False) visitor begin end'
                     (wk\<lparr>wk_reads_done := 0, wk_chunks_done := 0\<rparr>, w))
                   (\<lambda>(r, (wk, w)).
                      case r of
                        Inl e \<Rightarrow> Some (Inl e, (wk, w))
                      | Inr _ \<Rightarrow>
                          (case deliver pass hand_over begin len chunks_total True (wk_chunks_done wk) w of
                             (handed, w) \<Rightarrow> Some (handed, (wk, w)))))
           0 end_of_selection state)"

definition report_progress :: "Pass \<Rightarrow> (completeness \<Rightarrow> 'w \<Rightarrow> bool \<times> 'w) \<Rightarrow> u64 \<Rightarrow> u64 \<Rightarrow> 'w \<Rightarrow> unit result \<times> 'w" where
  "report_progress pass progress chunks_total chunks_done w =
     (case progress (chunks_done, chunks_total) w of (go_on, w) \<Rightarrow> (if go_on then Inr () else Inl (Cancelled pass), w))"

definition Whole ::
  "'w PixelSource \<Rightarrow> 'w ReadOptions \<Rightarrow> Pass \<Rightarrow> (completeness \<Rightarrow> 'w \<Rightarrow> bool \<times> 'w) \<Rightarrow>
   (OccupiedFootprint option \<Rightarrow> Slab \<Rightarrow> 'w \<Rightarrow> 'w) \<Rightarrow> Walk \<times> 'w \<Rightarrow> (unit result \<times> Walk \<times> 'w) option"
where
  "Whole source options pass progress visitor state =
     (let (wk, w) = state;
          plan = ps_plan pass;
          end_of_selection = rg_count (pl_spectral (pp_planes plan));
          chunks_total = ChunksCovering plan (max 1 (ps_layer_chunks pass)) 0 end_of_selection
      in Pass_Walk source options pass (report_progress pass progress chunks_total)
           visitor 0 end_of_selection (wk\<lparr>wk_reads_done := 0, wk_chunks_done := 0\<rparr>, w))"

definition PassOverPlane :: "PassPlan \<Rightarrow> string \<Rightarrow> Pass" where
  "PassOverPlane plan message =
     \<lparr>ps_plan = plan, ps_shape = PlaneBands, ps_layer_chunks = pp_layer_chunks plan, ps_cancelled = message\<rparr>"

definition PassOverFootprints :: "PassPlan \<Rightarrow> OccupiedFootprint list \<Rightarrow> string \<Rightarrow> Pass" where
  "PassOverFootprints plan footprints message =
     \<lparr>ps_plan = plan, ps_shape = FootprintsOf footprints,
      ps_layer_chunks = foldl (\<lambda>layer fp. add64 layer (sf_chunks (of_slab fp))) 0 footprints, ps_cancelled = message\<rparr>"

section \<open>Loops as lists of turns\<close>

lemma seq_all_append:
  "seq_all step (xs @ ys) s = (case seq_all step xs s of (Inl e, s') \<Rightarrow> (Inl e, s') | (Inr _, s') \<Rightarrow> seq_all step ys s')"
  by (induction xs arbitrary: s) (auto split: prod.splits sum.splits)

lemma seq_all_concat: "seq_all (\<lambda>x. seq_all step (f x)) xs s = seq_all step (concat (map f xs)) s"
  by (induction xs arbitrary: s) (auto simp: seq_all_append split: prod.splits sum.splits)

lemma seq_all_map: "seq_all step (map f xs) = seq_all (\<lambda>x. step (f x)) xs"
proof
  show "seq_all step (map f xs) s = seq_all (\<lambda>x. step (f x)) xs s" for s
    by (induction xs arbitrary: s) (auto split: prod.splits sum.splits)
qed

lemma seq_all_cong: "(\<And>x s. x \<in> set xs \<Longrightarrow> step x s = step' x s) \<Longrightarrow> seq_all step xs s = seq_all step' xs s"
  by (induction xs arbitrary: s) (auto split: prod.splits sum.splits)

text \<open>What a list of turns that all succeed does to a quantity that each turn adds to.\<close>

lemma seq_all_adds:
  assumes "\<And>x s s'. x \<in> set xs \<Longrightarrow> step x s = (Inr (), s') \<Longrightarrow> q s' = add64 (q s) (cost x)"
  shows "seq_all step xs s = (Inr (), s') \<Longrightarrow> q s + (\<Sum>x \<leftarrow> xs. cost x) < two64 \<Longrightarrow> q s' = q s + (\<Sum>x \<leftarrow> xs. cost x)"
  using assms
proof (induction xs arbitrary: s)
  case (Cons x xs)
  from Cons.prems(1) obtain s1 where s1: "step x s = (Inr (), s1)" "seq_all step xs s1 = (Inr (), s')"
    by (auto split: prod.splits sum.splits)
  then have q1: "q s1 = q s + cost x" using Cons.prems(2) Cons.prems(3) [OF _ s1(1)] by (simp add: add64_exact)
  have "q s' = q s1 + (\<Sum>x \<leftarrow> xs. cost x)"
    by (rule Cons.IH [OF s1(2)]) (use Cons.prems(2,3) q1 in simp_all)
  then show ?case using q1 by simp
qed simp

lemma cut_loop_blocks:
  "block_loop next_end b limit = Some bs \<Longrightarrow> (\<And>x y s. (x, y) \<in> set bs \<Longrightarrow> body x y s = Some (f x y s)) \<Longrightarrow>
   cut_loop next_end body b limit s = Some (seq_all (\<lambda>(x, y). f x y) bs s)"
proof (induction bs arbitrary: b s)
  case Nil
  then show ?case by (subst (asm) block_loop.simps) (auto simp: cut_loop.simps split: if_splits bind_splits)
next
  case (Cons xy bs)
  from Cons.prems(1) have b: "b < limit" "xy = (b, next_end b)" "block_loop next_end (next_end b) limit = Some bs"
    by (subst (asm) block_loop.simps; auto split: if_splits bind_splits)+
  have "body b (next_end b) s = Some (f b (next_end b) s)" using Cons.prems(2) b(2) by simp
  moreover have "cut_loop next_end body (next_end b) limit s' = Some (seq_all (\<lambda>(x, y). f x y) bs s')" for s'
    by (rule Cons.IH [OF b(3)]) (use Cons.prems(2) in simp)
  ultimately show ?case using b by (subst cut_loop.simps) (auto split: prod.splits sum.splits)
qed

section \<open>The slabs of a footprint\<close>

text \<open>The slabs of one footprint tile its channels and share no chunk of the spectrum.\<close>

interpretation slabs: block_cutter
  "\<lambda>b. AlignedSlabEnd plan b (slab_desired plan chunks b end') end'" end' "\<lambda>b. channels_ok plan b end'" for plan chunks end'
proof
  fix b assume ok: "channels_ok plan b end'" and b: "b < end'"
  note e = slab_end_spec [OF ok b, of chunks]
  show "b < AlignedSlabEnd plan b (slab_desired plan chunks b end') end'"
    "AlignedSlabEnd plan b (slab_desired plan chunks b end') end' \<le> end'" by (fact e)+
  show "channels_ok plan (AlignedSlabEnd plan b (slab_desired plan chunks b end') end') end'"
    using channels_ok_sub [OF ok] e(1,2) by simp
qed

definition slab_cuts :: "PassPlan \<Rightarrow> u64 \<Rightarrow> nat \<Rightarrow> nat \<Rightarrow> (nat \<times> nat) list" where
  "slab_cuts plan chunks begin end' =
     (case block_loop (\<lambda>b. AlignedSlabEnd plan b (slab_desired plan chunks b end') end') begin end' of Some bs \<Rightarrow> bs | None \<Rightarrow> [])"

lemma slab_cuts_spec:
  assumes "channels_ok plan begin end'"
  shows "block_loop (\<lambda>b. AlignedSlabEnd plan b (slab_desired plan chunks b end') end') begin end' = Some (slab_cuts plan chunks begin end')"
    and "tiles (slab_cuts plan chunks begin end') begin end'"
    and "(x, y) \<in> set (slab_cuts plan chunks begin end') \<Longrightarrow> y = end' \<or> channel_chunk plan (y - 1) \<noteq> channel_chunk plan y"
proof -
  obtain bs where bs: "block_loop (\<lambda>b. AlignedSlabEnd plan b (slab_desired plan chunks b end') end') begin end' = Some bs"
    "tiles bs begin end'" "\<forall>(x, y) \<in> set bs. y = AlignedSlabEnd plan x (slab_desired plan chunks x end') end' \<and> channels_ok plan x end'"
    using slabs.block_loop_returns [OF assms, of chunks] assms by (auto simp: channels_ok_def)
  then have eq: "slab_cuts plan chunks begin end' = bs" by (simp add: slab_cuts_def)
  show "block_loop (\<lambda>b. AlignedSlabEnd plan b (slab_desired plan chunks b end') end') begin end' = Some (slab_cuts plan chunks begin end')"
    "tiles (slab_cuts plan chunks begin end') begin end'" using bs eq by simp_all
  assume "(x, y) \<in> set (slab_cuts plan chunks begin end')"
  then have "x < end'" "y = AlignedSlabEnd plan x (slab_desired plan chunks x end') end'" "channels_ok plan x end'"
    using bs(3) tiles_bounds [OF bs(2)] eq by fastforce+
  then show "y = end' \<or> channel_chunk plan (y - 1) \<noteq> channel_chunk plan y" using slab_end_spec(3) [of plan x end' chunks] by simp
qed

lemma tiles_chunks_add:
  assumes "tiles bs a c" and "\<forall>(x, y) \<in> set bs. y = c \<or> channel_chunk plan (y - 1) \<noteq> channel_chunk plan y"
  shows "(\<Sum>(x, y) \<leftarrow> bs. card (channel_chunk plan ` {x..<y})) = card (channel_chunk plan ` {a..<c})"
  using assms
proof (induction bs a c rule: tiles.induct)
  case (2 x y bs a c)
  let ?f = "channel_chunk plan"
  have t: "x = a" "x < y" "y \<le> c" "tiles bs y c" using 2(2) by auto
  have "?f ` {a..<c} = ?f ` {a..<y} \<union> ?f ` {y..<c}" using t by (simp flip: image_Un add: ivl_disj_un_two(3))
  moreover have "?f ` {a..<y} \<inter> ?f ` {y..<c} = {}"
  proof (cases "y = c")
    case False
    then have "?f (y - 1) < ?f y" using 2(3) chunk_at_mono [of "y - 1" y] by (simp add: order_le_neq_trans)
    then have below: "?f i < ?f j" if "i < y" "y \<le> j" for i j
      using chunk_at_mono [of i "y - 1" "spectral_start plan" "spectral_stride plan" "pp_chunk_depth plan"]
        chunk_at_mono [of y j "spectral_start plan" "spectral_stride plan" "pp_chunk_depth plan"] that by linarith
    have "?f i \<noteq> ?f j" if "i \<in> {a..<y}" "j \<in> {y..<c}" for i j
      using that below [of i j] by (metis atLeastLessThan_iff less_irrefl)
    then show ?thesis by blast
  qed simp
  ultimately have "card (?f ` {a..<c}) = card (?f ` {a..<y}) + card (?f ` {y..<c})" by (simp add: card_Un_disjoint)
  then show ?case using 2(1) 2(3) t by simp
qed simp

lemma slab_cuts_chunks:
  assumes "channels_ok plan begin end'"
  shows "(\<Sum>(x, y) \<leftarrow> slab_cuts plan chunks begin end'. plan_ChunksTouched plan x y) = plan_ChunksTouched plan begin end'"
proof -
  note cuts = slab_cuts_spec [OF assms, where chunks = chunks]
  have "plan_ChunksTouched plan x y = card (channel_chunk plan ` {x..<y})" if "(x, y) \<in> set (slab_cuts plan chunks begin end')" for x y
    using tiles_bounds [OF cuts(2)] that by (intro plan_ChunksTouched_card channels_ok_sub [OF assms]) fastforce+
  then have "(\<Sum>(x, y) \<leftarrow> slab_cuts plan chunks begin end'. plan_ChunksTouched plan x y) =
      (\<Sum>(x, y) \<leftarrow> slab_cuts plan chunks begin end'. card (channel_chunk plan ` {x..<y}))"
    by (intro arg_cong [of _ _ sum_list] map_cong) auto
  also have "\<dots> = card (channel_chunk plan ` {begin..<end'})"
    by (rule tiles_chunks_add [OF cuts(2)]) (use cuts(3) in blast)
  finally show ?thesis by (simp only: plan_ChunksTouched_card [OF assms])
qed

lemma Over_turns:
  assumes "channels_ok plan begin end'"
  shows "Over source plan options report visitor fp begin end' s =
    Some (seq_all (\<lambda>(x, y). walk_slab source plan options report visitor fp begin x y) (slab_cuts plan (sf_chunks fp) begin end') s)"
  unfolding Over_def Let_def slab_desired_def [symmetric]
  by (rule cut_loop_blocks [OF slab_cuts_spec(1) [OF assms]]) simp

section \<open>Where a pixel of a slab lies\<close>

lemma sum_permuted:
  assumes "distinct ds" and "set ds = {..<n}"
  shows "(\<Sum>j < length ds. f (ds ! j)) = (\<Sum>s < n. f s :: nat)"
proof -
  have "(\<Sum>j < length ds. f (ds ! j)) = sum_list (map f ds)" by (simp add: sum_list_sum_nth atLeast0LessThan)
  also have "\<dots> = (\<Sum>s < n. f s)" using assms by (simp add: sum_list_distinct_conv_sum_set)
  finally show ?thesis .
qed

lemma index_lists_mem: "length mi = length cs \<Longrightarrow> (\<forall>i < length cs. mi ! i < cs ! i) \<Longrightarrow> mi \<in> set (index_lists cs)"
proof (induction cs arbitrary: mi)
  case (Cons c cs)
  from Cons.prems(1) obtain i rest where mi: "mi = i # rest" by (metis length_Suc_conv list.size(4) add.right_neutral add_Suc_right)
  have "i < c" "\<forall>k < length cs. rest ! k < cs ! k" using Cons.prems(2) mi by (auto simp: nth_Cons split: nat.splits)
  then show ?case using Cons.IH [of rest] Cons.prems(1) mi by (auto intro!: bexI [of _ rest])
qed simp

lemma to_stored_at:
  assumes "descriptor_ok d" and "length ix = length (img_axes d)" and "a < length ix"
  shows "to_stored d ix ! ax_storage_index (img_axes d ! a) = ix ! a"
  unfolding to_stored_def
proof (rule upd_all_in)
  show "distinct (map fst (zip (map ax_storage_index (img_axes d)) ix))" using assms by (simp add: descriptor_ok_def)
  show "(ax_storage_index (img_axes d ! a), ix ! a) \<in> set (zip (map ax_storage_index (img_axes d)) ix)"
    using assms by (auto simp: in_set_zip intro!: exI [of _ a])
  show "ax_storage_index (img_axes d ! a) < length (replicate (length (img_axes d)) 0)"
    using assms descriptor_ok_storage by simp
qed

lemma storage_inverse:
  assumes "descriptor_ok d" and "s < length (img_axes d)"
  obtains a where "a < length (img_axes d)" and "ax_storage_index (img_axes d ! a) = s"
proof -
  have "s \<in> set (map ax_storage_index (img_axes d))" using assms by (simp add: descriptor_ok_def)
  then show ?thesis using that by (auto simp: in_set_conv_nth)
qed

lemma sum_over_axes:
  assumes "descriptor_ok d"
  shows "(\<Sum>s < length (img_axes d). f s) = (\<Sum>a < length (img_axes d). f (ax_storage_index (img_axes d ! a)) :: nat)"
  using sum_permuted [of "map ax_storage_index (img_axes d)" "length (img_axes d)" f] assms by (simp add: descriptor_ok_def)

text \<open>
  The element of a selection at given places along each axis stands where the strides say, in either order of the
  destination, and it is the element of the image at those places of the request.
\<close>

lemma selection_element:
  assumes d: "descriptor_ok d" and b: "BuildSelection d req order = Inr sel"
    and len: "length ix = length (img_axes d)" and below: "\<forall>a < length (img_axes d). ix ! a < rg_count (req ! a)"
  defines "p \<equiv> \<Sum>a < length (img_axes d). ix ! a * DestinationStrides sel ! ax_storage_index (img_axes d ! a)"
  shows "p < sel_elements sel" and "selection_coords sel ! p = to_stored d (map2 range_at req ix)"
proof -
  let ?n = "length (img_axes d)" and ?ds = "sel_destination_to_stored sel" and ?X = "to_stored d ix"
  have ok: "selection_ok sel" by (rule BuildSelection_selection_ok [OF d b])
  have sel: "sel = selection_of d req order" and lr: "length req = ?n"
    using BuildSelection_Inr_iff [OF d] b by (auto simp: Pixel_Selection.request_ok_def)
  have n: "length (sel_count sel) = ?n" by (simp add: sel)
  have ds: "distinct ?ds" "set ?ds = {..<?n}" "length ?ds = ?n" using ok n by (simp_all add: selection_ok_def Let_def)
  let ?mi = "map (\<lambda>s. ?X ! s) ?ds" and ?cs = "map (\<lambda>s. sel_count sel ! s) ?ds"
  have at: "?X ! ax_storage_index (img_axes d ! a) = ix ! a" if "a < ?n" for a using to_stored_at [OF d len] that len by simp
  note sel_at = selection_of_at [OF d lr, of _ order, folded sel]
  have "?X ! s < sel_count sel ! s" if s: "s < ?n" for s
  proof -
    obtain a where a: "a < ?n" "ax_storage_index (img_axes d ! a) = s" using storage_inverse [OF d s] .
    show ?thesis using at [OF a(1)] sel_at(2) [of a] below a lr by simp
  qed
  then have bound: "\<forall>j < ?n. ?mi ! j < ?cs ! j" using ds by (metis lessThan_iff length_map nth_map nth_mem)
  have mem: "?mi \<in> set (index_lists ?cs)"
    by (rule index_lists_mem) (use ds bound in simp_all)
  then obtain q where q: "q < prod_list ?cs" "index_lists ?cs ! q = ?mi" by (metis in_set_conv_nth length_index_lists)
  have "(\<Sum>j < ?n. ?X ! (?ds ! j) * DestinationStrides sel ! (?ds ! j)) = q"
    using index_lists_position [OF q(1)] DestinationStrides_at [OF ok] n ds by (simp add: q(2))
  then have "(\<Sum>s < ?n. ?X ! s * DestinationStrides sel ! s) = q"
    using sum_permuted [OF ds(1,2), of "\<lambda>s. ?X ! s * DestinationStrides sel ! s"] ds(3) by simp
  moreover have "(\<Sum>s < ?n. ?X ! s * DestinationStrides sel ! s) = p"
    using sum_over_axes [OF d, of "\<lambda>s. ?X ! s * DestinationStrides sel ! s"] by (simp add: p_def at)
  ultimately have pq: "p = q" by simp
  have els: "prod_list ?cs = sel_elements sel" using ok by (simp add: selection_ok_def Let_def)
  show "p < sel_elements sel" using q(1) pq els by simp
  let ?R = "to_stored d (map2 range_at req ix)"
  have lr2: "length (map2 range_at req ix) = ?n" using len lr by simp
  have "selection_coords sel ! p = upd_all (replicate ?n 0) (map (\<lambda>(d, i). (d, sel_start sel ! d + i * sel_stride sel ! d)) (zip ?ds ?mi))"
    using q pq n by (simp add: selection_coords_def length_index_lists)
  also have "\<dots> = ?R"
  proof (rule nth_equalityI)
    show "length (upd_all (replicate ?n 0) (map (\<lambda>(d, i). (d, sel_start sel ! d + i * sel_stride sel ! d)) (zip ?ds ?mi))) = length ?R"
      by (simp add: to_stored_def)
    fix s assume "s < length (upd_all (replicate ?n 0) (map (\<lambda>(d, i). (d, sel_start sel ! d + i * sel_stride sel ! d)) (zip ?ds ?mi)))"
    then have s: "s < ?n" by simp
    obtain a where a: "a < ?n" "ax_storage_index (img_axes d ! a) = s" using storage_inverse [OF d s] .
    have R: "?R ! s = range_at (req ! a) (ix ! a)" using to_stored_at [OF d lr2, of a] a lr len by simp
    have fst: "map fst (map (\<lambda>(d, i). (d, sel_start sel ! d + i * sel_stride sel ! d)) (zip ?ds ?mi)) = ?ds"
      by (intro nth_equalityI) (auto simp: split_beta)
    obtain j where j: "j < ?n" "?ds ! j = s" using ds s by (metis in_set_conv_nth lessThan_iff)
    have "(s, ?X ! s) \<in> set (zip ?ds ?mi)" using j ds by (auto simp: in_set_zip)
    then have "(s, sel_start sel ! s + ?X ! s * sel_stride sel ! s) \<in>
        set (map (\<lambda>(d, i). (d, sel_start sel ! d + i * sel_stride sel ! d)) (zip ?ds ?mi))" by force
    then have "upd_all (replicate ?n 0) (map (\<lambda>(d, i). (d, sel_start sel ! d + i * sel_stride sel ! d)) (zip ?ds ?mi)) ! s =
        sel_start sel ! s + ?X ! s * sel_stride sel ! s" using fst ds(1) s by (intro upd_all_in) simp_all
    also have "\<dots> = range_at (req ! a) (ix ! a)"
      using sel_at [of a] at [OF a(1)] a lr below axis_stride_at [of "ix ! a" "req ! a"] by simp
    finally show "upd_all (replicate ?n 0) (map (\<lambda>(d, i). (d, sel_start sel ! d + i * sel_stride sel ! d)) (zip ?ds ?mi)) ! s = ?R ! s"
      using R by simp
  qed
  finally show "selection_coords sel ! p = ?R" .
qed

text \<open>The coordinate of a pixel of a pass, in the logical axes of the image.\<close>

definition on_plane :: "PassPlan \<Rightarrow> 'a \<Rightarrow> 'a \<Rightarrow> 'a \<Rightarrow> 'a \<Rightarrow> 'a \<Rightarrow> 'a \<Rightarrow> 'a list" where
  "on_plane plan z u v c p t =
     (let am = pp_map plan;
          xs = (replicate (length (img_axes (pp_descriptor plan))) z)[pp_axis_u plan := u, pp_axis_v plan := v, am_spectral am := c];
          xs = (if am_has_polarization am then xs[am_polarization am := p] else xs)
      in if am_has_time am then xs[am_time am := t] else xs)"

abbreviation plane_coord :: "PassPlan \<Rightarrow> nat \<Rightarrow> nat \<Rightarrow> nat \<Rightarrow> nat list" where
  "plane_coord plan u v c \<equiv> on_plane plan 0 u v c (pl_polarization (pp_planes plan)) (pl_time (pp_planes plan))"

lemma length_on_plane [simp]: "length (on_plane plan z u v c p t) = length (img_axes (pp_descriptor plan))"
  by (simp add: on_plane_def Let_def)

lemma plan_ok_axes:
  assumes "plan_ok plan"
  shows "descriptor_ok (pp_descriptor plan)" and "distinct (plan_axes plan)"
    and "i \<in> set (plan_axes plan) \<Longrightarrow> i < length (img_axes (pp_descriptor plan))"
  using assms by (auto simp: plan_ok_def Let_def)

lemma nth_three_updates:
  "a < length xs \<Longrightarrow> distinct [u, v, z] \<Longrightarrow>
   xs[u := x1, v := x2, z := x3] ! a = (if a = u then x1 else if a = v then x2 else if a = z then x3 else xs ! a)"
  by (auto simp: nth_list_update)

lemma nth_if_update: "a < length xs \<Longrightarrow> (if h then xs[p := x] else xs) ! a = (if h \<and> a = p then x else xs ! a)"
  by auto

lemma later_updates_apart:
  "distinct ([u, v, z] @ (if hp then [p] else []) @ (if ht then [t] else [])) \<Longrightarrow>
   (if ht \<and> a = t then y2 else if hp \<and> a = p then y1 else if a = u then x1 else if a = v then x2 else if a = z then x3 else x) =
   (if a = u then x1 else if a = v then x2 else if a = z then x3 else if hp \<and> a = p then y1 else if ht \<and> a = t then y2 else x)"
  by (cases hp; cases ht) auto

lemma on_plane_nth:
  assumes "plan_ok plan" and "a < length (img_axes (pp_descriptor plan))"
  shows "on_plane plan z u v c p t ! a =
     (if a = pp_axis_u plan then u else if a = pp_axis_v plan then v else if a = am_spectral (pp_map plan) then c
      else if am_has_polarization (pp_map plan) \<and> a = am_polarization (pp_map plan) then p
      else if am_has_time (pp_map plan) \<and> a = am_time (pp_map plan) then t else z)"
proof -
  have apart: "distinct [pp_axis_u plan, pp_axis_v plan, am_spectral (pp_map plan)]"
    using plan_ok_axes(2) [OF assms(1)] by (simp add: plan_axes_def)
  have len: "a < length (if h then (xs :: 'b list)[i := y] else xs) \<longleftrightarrow> a < length xs" for h xs i y by simp
  show ?thesis unfolding on_plane_def Let_def
    using plan_ok_axes(2) [OF assms(1)] assms(2) apart
    by (simp only: nth_if_update len length_list_update length_replicate nth_three_updates nth_replicate plan_axes_def later_updates_apart)
qed

lemma slab_read_request_plane:
  "slab_read_request plan r =
     on_plane plan (mk_range 0 1 1) (mk_range (sr_u_start r) (sr_u_count r) (sr_u_stride r))
       (mk_range (sr_v_start r) (sr_v_count r) (sr_v_stride r))
       (mk_range (add64 (spectral_start plan) (mul64 (sr_channel_index r) (spectral_stride plan))) (sr_channel_count r) (spectral_stride plan))
       (mk_range (pl_polarization (pp_planes plan)) 1 1) (mk_range (pl_time (pp_planes plan)) 1 1)"
  by (simp add: slab_read_request_def on_plane_def Let_def)

lemma sum_on_plane:
  assumes "plan_ok plan"
  shows "(\<Sum>a < length (img_axes (pp_descriptor plan)). on_plane plan 0 i j k 0 0 ! a * f a) =
    i * f (pp_axis_u plan) + j * f (pp_axis_v plan) + k * (f (am_spectral (pp_map plan)) :: nat)"
proof -
  let ?n = "length (img_axes (pp_descriptor plan))" and ?U = "pp_axis_u plan" and ?V = "pp_axis_v plan" and ?Z = "am_spectral (pp_map plan)"
  have distinct: "?U \<noteq> ?V" "?U \<noteq> ?Z" "?V \<noteq> ?Z" and sub: "{?U, ?V, ?Z} \<subseteq> {..<?n}"
    using plan_ok_axes(2,3) [OF assms] by (auto simp: plan_axes_def)
  have "(\<Sum>a < ?n. on_plane plan 0 i j k 0 0 ! a * f a) = (\<Sum>a \<in> {?U, ?V, ?Z}. on_plane plan 0 i j k 0 0 ! a * f a)"
    by (rule sum.mono_neutral_right) (use sub in \<open>auto simp: on_plane_nth [OF assms]\<close>)
  also have "\<dots> = i * f ?U + j * f ?V + k * f ?Z" using distinct sub by (simp add: on_plane_nth [OF assms])
  finally show ?thesis .
qed

text \<open>A slab that was read: its pixels are the selection's, in its order, with the flag applied.\<close>

context pixel_source
begin

lemma ReadSlab_Inr:
  assumes d: "descriptor_ok (pp_descriptor plan)"
    and r: "ReadSlab source plan options request buffers w = ((Inr slab, buffers'), w')"
  obtains sel where "BuildSelection (pp_descriptor plan) (slab_read_request plan request) stored = Inr sel"
    and "sb_pixels slab = map (\<lambda>c. if pp_apply_mask plan \<and> flags c \<noteq> 0 then f32_quiet_NaN else pixels c) (selection_coords sel)"
    and "sb_stride_u slab = DestinationStrides sel ! ax_storage_index (img_axes (pp_descriptor plan) ! pp_axis_u plan)"
    and "sb_stride_v slab = DestinationStrides sel ! ax_storage_index (img_axes (pp_descriptor plan) ! pp_axis_v plan)"
    and "sb_stride_z slab = DestinationStrides sel ! ax_storage_index (img_axes (pp_descriptor plan) ! am_spectral (pp_map plan))"
    and "sb_u_count slab = sr_u_count request" and "sb_v_count slab = sr_v_count request" and "sb_channel_count slab = sr_channel_count request"
    and "buffers' = buffers' \<lparr>bf_pixels := sb_pixels slab\<rparr>"
proof -
  obtain sel where sel: "BuildSelection (pp_descriptor plan) (slab_read_request plan request) stored = Inr sel"
    using r by (auto simp: ReadSlab_def Let_def split: sum.splits)
  have ok: "selection_ok sel" by (rule BuildSelection_selection_ok [OF d sel])
  have len: "length (selection_coords sel) = sel_elements sel" using ok by (simp add: selection_ok_def selection_coords_def length_index_lists Let_def)
  have exact: "length (resize n xs) = n" for n and xs :: "'a::zero list" by (simp add: resize_def)
  have px: "px = map pixels (selection_coords sel)"
    if "ReadPixels source sel (resize (sel_elements sel) b) ctl u = ((Inr x, px), u')" for px b ctl u u' x
    using pixels_served [OF ok, of "resize (sel_elements sel) b" ctl u px u'] that by (simp add: exact)
  have fl: "fl = map flags (selection_coords sel)"
    if "ReadMask source sel (resize (sel_elements sel) b) ctl u = ((Inr x, fl), u')" for fl b ctl u u' x
    using flags_served [OF ok, of "resize (sel_elements sel) b" ctl u fl u'] that by (simp add: exact)
  have mask: "ApplyPixelMask (map pixels (selection_coords sel)) (map flags (selection_coords sel)) (sel_elements sel) =
      map (\<lambda>c. if flags c \<noteq> 0 then f32_quiet_NaN else pixels c) (selection_coords sel)"
    using ApplyPixelMask_map [of pixels "selection_coords sel" "[]" flags "[]"] len by simp
  show ?thesis
    by (rule that [OF sel]; use r sel mask in \<open>auto simp: ReadSlab_def Let_def dest!: px fl split: prod.splits sum.splits if_splits\<close>)
qed

end

lemma ReadSlab_pixel:
  assumes src: "pixel_source source pixels flags" and plan: "plan_ok plan"
    and r: "ReadSlab source plan options request buffers w = ((Inr slab, buffers'), w')"
    and run: "channels_ok plan (sr_channel_index request) (sr_channel_index request + sr_channel_count request)"
    and ijk: "i < sr_u_count request" "j < sr_v_count request" "k < sr_channel_count request"
  shows "i * sb_stride_u slab + j * sb_stride_v slab + k * sb_stride_z slab < length (sb_pixels slab) \<and>
    sb_pixels slab ! (i * sb_stride_u slab + j * sb_stride_v slab + k * sb_stride_z slab) =
      delivered_pixel pixels flags (pp_descriptor plan) (pp_apply_mask plan)
        (plane_coord plan (sr_u_start request + i * sr_u_stride request) (sr_v_start request + j * sr_v_stride request)
           (spectral_start plan + (sr_channel_index request + k) * spectral_stride plan))"
proof -
  let ?d = "pp_descriptor plan" and ?req = "slab_read_request plan request" and ?ix = "on_plane plan 0 i j k 0 0"
  note d = plan_ok_axes(1) [OF plan]
  obtain sel where sel: "BuildSelection ?d ?req stored = Inr sel"
    and px: "sb_pixels slab = map (\<lambda>c. if pp_apply_mask plan \<and> flags c \<noteq> 0 then f32_quiet_NaN else pixels c) (selection_coords sel)"
    and strides: "sb_stride_u slab = DestinationStrides sel ! ax_storage_index (img_axes ?d ! pp_axis_u plan)"
      "sb_stride_v slab = DestinationStrides sel ! ax_storage_index (img_axes ?d ! pp_axis_v plan)"
      "sb_stride_z slab = DestinationStrides sel ! ax_storage_index (img_axes ?d ! am_spectral (pp_map plan))"
    by (rule pixel_source.ReadSlab_Inr [OF src d r]) (rule that)
  have ok: "selection_ok sel" by (rule BuildSelection_selection_ok [OF d sel])
  have len: "length (selection_coords sel) = sel_elements sel" using ok by (simp add: selection_ok_def selection_coords_def length_index_lists Let_def)
  let ?p = "i * sb_stride_u slab + j * sb_stride_v slab + k * sb_stride_z slab"
  have p: "(\<Sum>a < length (img_axes ?d). ?ix ! a * DestinationStrides sel ! ax_storage_index (img_axes ?d ! a)) = ?p"
    using sum_on_plane [OF plan, of i j k "\<lambda>a. DestinationStrides sel ! ax_storage_index (img_axes ?d ! a)"] strides by simp
  have below: "\<forall>a < length (img_axes ?d). ?ix ! a < rg_count (?req ! a)"
    using ijk by (simp add: slab_read_request_plane on_plane_nth [OF plan])
  have chan: "add64 (spectral_start plan) (mul64 (sr_channel_index request) (spectral_stride plan)) =
      spectral_start plan + sr_channel_index request * spectral_stride plan"
  proof -
    have "sr_channel_index request \<le> sr_channel_index request + sr_channel_count request - 1" using ijk(3) by linarith
    then have "sr_channel_index request * spectral_stride plan \<le> (sr_channel_index request + sr_channel_count request - 1) * spectral_stride plan"
      by (rule mult_right_mono) simp
    then have small: "spectral_start plan + sr_channel_index request * spectral_stride plan < max_extent"
      using channels_ok_bounds(5) [OF run] by linarith
    then have "mul64 (sr_channel_index request) (spectral_stride plan) = sr_channel_index request * spectral_stride plan"
      by (intro mul64_exact) linarith
    then show ?thesis using small by (simp add: add64_exact)
  qed
  have "map2 range_at ?req ?ix = plane_coord plan (sr_u_start request + i * sr_u_stride request)
      (sr_v_start request + j * sr_v_stride request) (spectral_start plan + (sr_channel_index request + k) * spectral_stride plan)"
    by (rule nth_equalityI) (auto simp: slab_read_request_plane on_plane_nth [OF plan] range_at_def chan algebra_simps)
  then have "?p < sel_elements sel" and "selection_coords sel ! ?p = to_stored ?d (plane_coord plan (sr_u_start request + i * sr_u_stride request)
      (sr_v_start request + j * sr_v_stride request) (spectral_start plan + (sr_channel_index request + k) * spectral_stride plan))"
    using selection_element [OF d sel _ below] p by simp_all
  then show ?thesis using px len by (simp add: delivered_pixel_def)
qed

section \<open>Sampled rows and columns\<close>

definition axis_points :: "nat \<Rightarrow> nat \<Rightarrow> nat \<Rightarrow> nat list" where
  "axis_points start n stride = map (\<lambda>k. start + k * stride) [0..<n]"

definition samples_of :: "nat \<Rightarrow> nat \<Rightarrow> nat list" where
  "samples_of len sample = map (\<lambda>k. k * sample) [0..<ceil_div len sample]"

text \<open>The first sample in the sampled chunk number \<open>x\<close>, or past the last one when there is no such chunk.\<close>

definition first_sample :: "nat \<Rightarrow> nat \<Rightarrow> nat \<Rightarrow> nat \<Rightarrow> nat" where
  "first_sample len chunk sample x =
     (let s = ChunksSampled len chunk sample
      in if x < sc_size s then ceil_div (sampled_chunk s x * chunk) sample else ceil_div len sample)"

lemma ceil_div_pred: "0 < b \<Longrightarrow> 0 < a \<Longrightarrow> ceil_div a b = (a - 1) div b + 1"
proof -
  assume b: "0 < b" and a: "0 < a"
  have "(a - 1) div b * b < a" using div_times_less_eq_dividend [of "a - 1" b] a by linarith
  then have "\<not> ceil_div a b \<le> (a - 1) div b" using b by (simp add: ceil_div_le_iff not_le)
  moreover have "a \<le> ((a - 1) div b + 1) * b" using dividend_less_div_times [OF b, of "a - 1"] a by simp
  then have "ceil_div a b \<le> (a - 1) div b + 1" using b by (simp add: ceil_div_le_iff)
  ultimately show ?thesis by linarith
qed

text \<open>An axis of an image with its chunks and a sample of it.\<close>

definition axis_ok :: "nat \<Rightarrow> nat \<Rightarrow> nat \<Rightarrow> bool" where
  "axis_ok len chunk sample \<longleftrightarrow> 0 < sample \<and> 0 < chunk \<and> 0 < len \<and> len < max_extent \<and> chunk < two64 \<and> sample < two64"

lemma axis_okD:
  assumes "axis_ok len chunk sample"
  shows "0 < sample" and "0 < chunk" and "0 < len" and "len < max_extent" and "chunk < two64" and "sample < two64"
  using assms by (simp_all add: axis_ok_def)

lemma sampled_chunk_sample:
  assumes ax: "axis_ok len chunk sample" and "x < sc_size (ChunksSampled len chunk sample)"
  obtains k where "k * sample < len" and "sampled_chunk (ChunksSampled len chunk sample) x = k * sample div chunk"
proof -
  note pos = axis_okD(1-3) [OF ax] and small = axis_okD(4-6) [OF ax]
  have "len < two64" using small by linarith
  from sampled_chunks_list(2) [OF pos this] assms
  have "sampled_chunk (ChunksSampled len chunk sample) x \<in> chunks_of 0 ((len - 1) div sample + 1) sample chunk" by blast
  then obtain k where k: "k \<le> (len - 1) div sample" "sampled_chunk (ChunksSampled len chunk sample) x = k * sample div chunk"
    by (auto simp: chunks_of_def less_Suc_eq_le)
  have "k * sample \<le> (len - 1) div sample * sample" using k(1) by simp
  also have "\<dots> \<le> len - 1" by (rule div_times_less_eq_dividend)
  finally show ?thesis using that [of k] k(2) pos by linarith
qed

lemma sample_in_sampled_chunk:
  assumes ax: "axis_ok len chunk sample" and "k * sample < len"
  obtains x where "x < sc_size (ChunksSampled len chunk sample)" and "sampled_chunk (ChunksSampled len chunk sample) x = k * sample div chunk"
proof -
  note pos = axis_okD(1-3) [OF ax] and small = axis_okD(4-6) [OF ax]
  have "k \<le> (len - 1) div sample" using assms pos by (simp add: less_eq_div_iff_mult_less_eq)
  then have "k * sample div chunk \<in> chunks_of 0 ((len - 1) div sample + 1) sample chunk" by (auto simp: chunks_of_def)
  moreover have "len < two64" using small by linarith
  ultimately show ?thesis using sampled_chunks_list(2) [OF pos] that by (metis imageE lessThan_iff)
qed

lemma sampled_chunk_less:
  assumes ax: "axis_ok len chunk sample" and "x < y" and "y < sc_size (ChunksSampled len chunk sample)"
  shows "sampled_chunk (ChunksSampled len chunk sample) x < sampled_chunk (ChunksSampled len chunk sample) y"
proof -
  note pos = axis_okD(1-3) [OF ax] and small = axis_okD(4-6) [OF ax]
  have "len < two64" using small by linarith
  from sampled_chunks_list(3) [OF pos this] show ?thesis using assms by (auto simp: strict_mono_on_def)
qed

lemma first_sample_next:
  assumes ax: "axis_ok len chunk sample" and "y \<le> sc_size (ChunksSampled len chunk sample)" and "0 < y"
  shows "ceil_div (min len ((sampled_chunk (ChunksSampled len chunk sample) (y - 1) + 1) * chunk)) sample = first_sample len chunk sample y"
proof -
  note pos = axis_okD(1-3) [OF ax] and small = axis_okD(4-6) [OF ax]
  let ?s = "ChunksSampled len chunk sample" and ?c = "sampled_chunk (ChunksSampled len chunk sample) (y - 1)"
  show ?thesis
  proof (cases "y < sc_size ?s")
    case True
    obtain k0 where k0: "k0 * sample < len" "sampled_chunk ?s y = k0 * sample div chunk" using sampled_chunk_sample [OF ax True] .
    have cy: "?c + 1 \<le> sampled_chunk ?s y" using sampled_chunk_less [OF ax, of "y - 1" y] True assms(3) by simp
    then have le: "(?c + 1) * chunk \<le> sampled_chunk ?s y * chunk" by (rule mult_right_mono) simp
    have "sampled_chunk ?s y * chunk \<le> k0 * sample" unfolding k0(2) by (rule div_times_less_eq_dividend)
    then have lt: "(?c + 1) * chunk \<le> k0 * sample" using le by linarith
    let ?k = "ceil_div ((?c + 1) * chunk) sample"
    have "?k \<le> k0" using lt pos by (simp only: ceil_div_le_iff)
    then have "?k * sample < len" using k0(1) mult_right_mono [of ?k k0 sample] by linarith
    then obtain z where z: "z < sc_size ?s" "sampled_chunk ?s z = ?k * sample div chunk" using sample_in_sampled_chunk [OF ax] by blast
    have "?c + 1 \<le> ?k * sample div chunk"
      using ceil_div_mult_ge [OF pos(1), of "(?c + 1) * chunk"] pos by (simp add: less_eq_div_iff_mult_less_eq)
    then have "?c < sampled_chunk ?s z" using z(2) by linarith
    then have "y - 1 < z" using sampled_chunk_less [OF ax, of z "y - 1"] assms by (metis diff_less less_irrefl_nat linorder_neqE_nat order_less_trans z(1) zero_less_one True less_imp_diff_less)
    then have "y = z \<or> y < z" using assms by linarith
    then have "sampled_chunk ?s y \<le> sampled_chunk ?s z" using sampled_chunk_less [OF ax, of y z] z(1) by auto
    then have "sampled_chunk ?s y * chunk \<le> ?k * sample" using z(2) pos by (simp add: less_eq_div_iff_mult_less_eq)
    then have "ceil_div (sampled_chunk ?s y * chunk) sample \<le> ?k" using pos by (simp add: ceil_div_le_iff)
    moreover have "?k \<le> ceil_div (sampled_chunk ?s y * chunk) sample" using le pos by (intro ceil_div_mono)
    ultimately show ?thesis using True lt k0(1) by (simp add: first_sample_def Let_def min_def)
  next
    case False
    let ?last = "(len - 1) div sample"
    have last: "?last * sample < len" using div_times_less_eq_dividend [of "len - 1" sample] pos by linarith
    then obtain z where z: "z < sc_size ?s" "sampled_chunk ?s z = ?last * sample div chunk" using sample_in_sampled_chunk [OF ax] by blast
    have "z = y - 1 \<or> z < y - 1 \<and> y - 1 < sc_size ?s" using z(1) False assms by linarith
    then have "sampled_chunk ?s z \<le> ?c" using sampled_chunk_less [OF ax, of z "y - 1"] by auto
    then have "?last * sample div chunk < ?c + 1" using z(2) by simp
    then have "?last * sample < (?c + 1) * chunk" using pos by (simp only: div_less_iff_less_mult)
    then have "?last < ceil_div (min len ((?c + 1) * chunk)) sample" using last pos by (simp add: less_ceil_div_iff)
    moreover have "ceil_div (min len ((?c + 1) * chunk)) sample \<le> ceil_div len sample" using pos by (intro ceil_div_mono) auto
    ultimately show ?thesis using False ceil_div_pred [OF pos(1,3)] by (simp add: first_sample_def Let_def)
  qed
qed

lemma first_sample_0:
  assumes ax: "axis_ok len chunk sample"
  shows "first_sample len chunk sample 0 = 0"
proof -
  note pos = axis_okD(1-3) [OF ax] and small = axis_okD(4-6) [OF ax]
  obtain x where x: "x < sc_size (ChunksSampled len chunk sample)" "sampled_chunk (ChunksSampled len chunk sample) x = 0"
    using sample_in_sampled_chunk [OF ax, of 0] pos by auto
  then have "x = 0" using sampled_chunk_less [OF ax, of 0 x] by (cases x) auto
  then show ?thesis using x by (simp add: first_sample_def Let_def)
qed

lemma first_sample_mono:
  assumes ax: "axis_ok len chunk sample" and "x < y" and "y \<le> sc_size (ChunksSampled len chunk sample)"
  shows "first_sample len chunk sample x < first_sample len chunk sample y"
proof -
  note pos = axis_okD(1-3) [OF ax] and small = axis_okD(4-6) [OF ax]
  let ?s = "ChunksSampled len chunk sample"
  have x: "x < sc_size ?s" using assms by simp
  obtain k where k: "k * sample < len" "sampled_chunk ?s x = k * sample div chunk" using sampled_chunk_sample [OF ax x] .
  have "x = y - 1 \<or> x < y - 1 \<and> y - 1 < sc_size ?s" using assms by linarith
  then have le: "sampled_chunk ?s x \<le> sampled_chunk ?s (y - 1)" using sampled_chunk_less [OF ax, of x "y - 1"] by auto
  have "sampled_chunk ?s x * chunk \<le> k * sample" unfolding k(2) by (rule div_times_less_eq_dividend)
  then have "ceil_div (sampled_chunk ?s x * chunk) sample \<le> k" using pos by (simp add: ceil_div_le_iff)
  moreover have "k * sample < (sampled_chunk ?s x + 1) * chunk" unfolding k(2) using pos by (simp add: dividend_less_div_times)
  then have "k * sample < (sampled_chunk ?s (y - 1) + 1) * chunk" using le mult_right_mono [of "sampled_chunk ?s x + 1" "sampled_chunk ?s (y - 1) + 1" chunk] by linarith
  then have "k < ceil_div (min len ((sampled_chunk ?s (y - 1) + 1) * chunk)) sample" using k(1) pos by (simp add: less_ceil_div_iff)
  ultimately show ?thesis using first_sample_next [OF ax, of y] assms x by (simp add: first_sample_def Let_def)
qed

lemma SampledRange_block:
  assumes ax: "axis_ok len chunk sample" and "x < y" and "y \<le> sc_size (ChunksSampled len chunk sample)"
  shows "SampledRange (mul64 (sampled_chunk (ChunksSampled len chunk sample) x) chunk)
      (min len (mul64 (add64 (sampled_chunk (ChunksSampled len chunk sample) (y - 1)) 1) chunk)) sample =
    (first_sample len chunk sample x * sample, first_sample len chunk sample y - first_sample len chunk sample x)"
proof -
  note pos = axis_okD(1-3) [OF ax] and small = axis_okD(4-6) [OF ax]
  let ?s = "ChunksSampled len chunk sample"
  have x: "x < sc_size ?s" and y: "y - 1 < sc_size ?s" using assms by auto
  obtain k where k: "k * sample < len" "sampled_chunk ?s x = k * sample div chunk" using sampled_chunk_sample [OF ax x] .
  obtain l where l: "l * sample < len" "sampled_chunk ?s (y - 1) = l * sample div chunk" using sampled_chunk_sample [OF ax y] .
  have low: "sampled_chunk ?s x * chunk \<le> k * sample" unfolding k(2) by (rule div_times_less_eq_dividend)
  then have first: "mul64 (sampled_chunk ?s x) chunk = sampled_chunk ?s x * chunk" using k(1) small by (intro mul64_exact) linarith
  have last: "mul64 (add64 (sampled_chunk ?s (y - 1)) 1) chunk = (sampled_chunk ?s (y - 1) + 1) * chunk"
    unfolding l(2) by (rule next_chunk_start_exact(1)) (use l(1) small in linarith)+
  have up: "add64 (v div sample) (of_bool (v mod sample \<noteq> 0)) = ceil_div v sample" if "v < two64 - 1" for v
    using ceil_div_le_self [OF pos(1), of v] that unfolding ceil_div_def by (intro add64_exact) linarith
  have lx: "first_sample len chunk sample x = ceil_div (sampled_chunk ?s x * chunk) sample" using x by (simp add: first_sample_def Let_def)
  have "ceil_div (sampled_chunk ?s x * chunk) sample \<le> k" using low pos by (simp add: ceil_div_le_iff)
  then have "ceil_div (sampled_chunk ?s x * chunk) sample * sample \<le> k * sample" by (rule mult_right_mono) simp
  then have start: "mul64 (ceil_div (sampled_chunk ?s x * chunk) sample) sample = first_sample len chunk sample x * sample"
    unfolding lx using k(1) small by (intro mul64_exact) linarith
  have "sampled_chunk ?s x * chunk < two64 - 1" "min len ((sampled_chunk ?s (y - 1) + 1) * chunk) < two64 - 1"
    using low k(1) small by linarith+
  then show ?thesis using first_sample_mono [OF assms] first_sample_next [OF ax, of y] assms
    unfolding SampledRange_def Let_def first last by (simp only: up start lx) simp
qed

section \<open>The bands of a plane\<close>

text \<open>Rows, and the columns of a row, are cut into strips of one extent, the last one shorter.\<close>

interpretation strips: block_cutter "\<lambda>b. add64 b (min n (sub64 extent b))" extent "\<lambda>b. 0 < n \<and> extent < two64" for n extent
proof
  fix b assume ok: "0 < n \<and> extent < two64" and b: "b < extent"
  have "sub64 extent b = extent - b" using ok b by (intro sub64_exact) auto
  moreover have "add64 b (min n (extent - b)) = b + min n (extent - b)" using ok b by (intro add64_exact) linarith
  ultimately have e: "add64 b (min n (sub64 extent b)) = b + min n (extent - b)" by simp
  show "b < add64 b (min n (sub64 extent b))" "add64 b (min n (sub64 extent b)) \<le> extent" using ok b by (simp_all add: e)
  show "0 < n \<and> extent < two64" by (rule ok)
qed

definition strip_cuts :: "nat \<Rightarrow> nat \<Rightarrow> (nat \<times> nat) list" where
  "strip_cuts n extent = (case block_loop (\<lambda>b. add64 b (min n (sub64 extent b))) 0 extent of Some bs \<Rightarrow> bs | None \<Rightarrow> [])"

lemma strip_cuts_spec:
  assumes "0 < n" and "extent < two64"
  shows "block_loop (\<lambda>b. add64 b (min n (sub64 extent b))) 0 extent = Some (strip_cuts n extent)"
    and "tiles (strip_cuts n extent) 0 extent"
    and "(x, y) \<in> set (strip_cuts n extent) \<Longrightarrow> x < y \<and> y \<le> extent \<and> min n (sub64 extent x) = y - x"
proof -
  obtain bs where bs: "block_loop (\<lambda>b. add64 b (min n (sub64 extent b))) 0 extent = Some bs" "tiles bs 0 extent"
    "\<forall>(x, y) \<in> set bs. y = add64 x (min n (sub64 extent x)) \<and> 0 < n \<and> extent < two64"
    using strips.block_loop_returns [of n extent 0] assms by auto
  then have eq: "strip_cuts n extent = bs" by (simp add: strip_cuts_def)
  show "block_loop (\<lambda>b. add64 b (min n (sub64 extent b))) 0 extent = Some (strip_cuts n extent)" "tiles (strip_cuts n extent) 0 extent"
    using bs eq by simp_all
  assume "(x, y) \<in> set (strip_cuts n extent)"
  then have xy: "y = add64 x (min n (sub64 extent x))" "x < y" "y \<le> extent" using bs(3) tiles_bounds [OF bs(2)] eq by auto
  have "sub64 extent x = extent - x" using xy assms(2) by (intro sub64_exact) auto
  moreover have "add64 x (min n (extent - x)) = x + min n (extent - x)" using xy(2,3) assms(2) by (intro add64_exact) linarith
  ultimately show "x < y \<and> y \<le> extent \<and> min n (sub64 extent x) = y - x" using xy by simp
qed

abbreviation rows_of :: "PassPlan \<Rightarrow> nat" where
  "rows_of plan \<equiv> sc_size (ChunksSampled (pp_v_length plan) (pp_chunk_v plan) (pp_sample plan))"

abbreviation columns_of :: "PassPlan \<Rightarrow> nat" where
  "columns_of plan \<equiv> sc_size (ChunksSampled (pp_u_length plan) (pp_chunk_u plan) (pp_sample plan))"

text \<open>The footprints of the plane and the slabs a walk over it reads, in order.\<close>

definition band_footprints_of :: "PassPlan \<Rightarrow> nat \<times> nat \<Rightarrow> SlabFootprint list" where
  "band_footprints_of plan rows =
     map (\<lambda>(c, c'). band_segment plan (fst rows) (snd rows - fst rows) c (c' - c))
       (strip_cuts (plan_UnitsAffordable plan (snd rows - fst rows)) (columns_of plan))"

definition plane_footprints :: "PassPlan \<Rightarrow> SlabFootprint list" where
  "plane_footprints plan = concat (map (band_footprints_of plan) (strip_cuts (pp_band_rows plan) (rows_of plan)))"

definition slabs_over :: "PassPlan \<Rightarrow> nat \<Rightarrow> nat \<Rightarrow> SlabFootprint \<Rightarrow> (SlabFootprint \<times> nat \<times> nat) list" where
  "slabs_over plan begin end' fp = map (\<lambda>(x, y). (fp, x, y)) (slab_cuts plan (sf_chunks fp) begin end')"

lemma ChunksSampled_size: "len < max_extent \<Longrightarrow> sc_size (ChunksSampled len chunk sample) \<le> len"
proof -
  assume len: "len < max_extent"
  show ?thesis
  proof (cases "len = 0")
    case True
    then show ?thesis by (simp add: ChunksSampled_def)
  next
    case False
    let ?c = "max 1 chunk" and ?t = "max 1 sample"
    have le: "(len - 1) div ?t * ?t \<le> len - 1" by (rule div_times_less_eq_dividend)
    then have "mul64 ((len - 1) div ?t) ?t \<le> len - 1" using len by (subst mul64_exact) linarith+
    then have "mul64 ((len - 1) div ?t) ?t div ?c \<le> len - 1" using div_le_dividend order_trans by blast
    moreover have "(len - 1) div ?t \<le> len - 1" by (rule div_le_dividend)
    moreover have "sc_size (ChunksSampled len chunk sample) =
        (if ?t < ?c then mul64 ((len - 1) div ?t) ?t div ?c + 1 else (len - 1) div ?t + 1)"
      using False by (auto simp: ChunksSampled_def Let_def max_def)
    ultimately show ?thesis using False by (cases "?t < ?c") (simp_all only: if_True if_False, linarith+)
  qed
qed

lemma plan_lengths:
  assumes "plan_ok plan"
  shows "pp_u_length plan < max_extent" and "pp_v_length plan < max_extent" and "rows_of plan < two64" and "columns_of plan < two64"
proof -
  have "pp_axis_u plan < length (img_axes (pp_descriptor plan))" "pp_axis_v plan < length (img_axes (pp_descriptor plan))"
    using plan_ok_axes(3) [OF assms] by (simp_all add: plan_axes_def)
  then show u: "pp_u_length plan < max_extent" and v: "pp_v_length plan < max_extent"
    using assms by (simp_all add: plan_ok_def descriptor_ok_def Let_def)
  show "rows_of plan < two64" using ChunksSampled_size [OF v, of "pp_chunk_v plan" "pp_sample plan"] v by linarith
  show "columns_of plan < two64" using ChunksSampled_size [OF u, of "pp_chunk_u plan" "pp_sample plan"] u by linarith
qed

lemma OverBands_turns:
  assumes run: "channels_ok plan begin end'"
  shows "OverBands source plan options report visitor begin end' s =
    Some (seq_all (\<lambda>(fp, x, y). walk_slab source plan options report visitor fp begin x y)
      (concat (map (slabs_over plan begin end') (plane_footprints plan))) s)"
proof -
  have plan: "plan_ok plan" using run by (simp add: channels_ok_def)
  have band: "0 < pp_band_rows plan" using plan by (simp add: plan_ok_def Let_def)
  have units: "0 < plan_UnitsAffordable plan n" for n by (simp add: plan_UnitsAffordable_def UnitsAffordable_def)
  let ?step = "\<lambda>(fp, x, y). walk_slab source plan options report visitor fp begin x y"
  let ?segments = "\<lambda>r r'. strip_cuts (plan_UnitsAffordable plan (r' - r)) (columns_of plan)"
  note rows = strip_cuts_spec [OF band plan_lengths(3) [OF plan]] and columns = strip_cuts_spec [OF units plan_lengths(4) [OF plan]]
  have over: "Over source plan options report visitor fp begin end' s = Some (seq_all ?step (slabs_over plan begin end' fp) s)" for fp s
    unfolding Over_turns [OF run] slabs_over_def by (simp add: seq_all_map case_prod_beta')
  have inner: "cut_loop (\<lambda>column. add64 column (min (plan_UnitsAffordable plan (r' - r)) (sub64 (columns_of plan) column)))
      (\<lambda>column next_column s. let width = min (plan_UnitsAffordable plan (r' - r)) (sub64 (columns_of plan) column)
         in Over source plan options report visitor (band_segment plan r (r' - r) column width) begin end' s) 0 (columns_of plan) s =
     Some (seq_all (\<lambda>(c, c'). seq_all ?step (slabs_over plan begin end' (band_segment plan r (r' - r) c (c' - c)))) (?segments r r') s)" for r r' s
    by (rule cut_loop_blocks [OF columns(1)]) (simp add: columns(3) over Let_def)
  have "OverBands source plan options report visitor begin end' s =
      Some (seq_all (\<lambda>(r, r'). seq_all (\<lambda>(c, c'). seq_all ?step (slabs_over plan begin end' (band_segment plan r (r' - r) c (c' - c)))) (?segments r r'))
        (strip_cuts (pp_band_rows plan) (rows_of plan)) s)"
    unfolding OverBands_def Let_def
    by (rule cut_loop_blocks [OF rows(1)]) (simp only: rows(3) inner [unfolded Let_def])
  also have "seq_all (\<lambda>(r, r'). seq_all (\<lambda>(c, c'). seq_all ?step (slabs_over plan begin end' (band_segment plan r (r' - r) c (c' - c)))) (?segments r r'))
        (strip_cuts (pp_band_rows plan) (rows_of plan)) s =
      seq_all ?step (concat (map (slabs_over plan begin end') (plane_footprints plan))) s"
    by (simp add: plane_footprints_def band_footprints_of_def case_prod_beta' seq_all_map flip: seq_all_concat)
  finally show ?thesis .
qed

section \<open>The pixels of a plane, each in one slab\<close>

definition fp_points :: "SlabFootprint \<Rightarrow> (nat \<times> nat) list" where
  "fp_points fp = List.product (axis_points (sf_v_start fp) (sf_v_count fp) (sf_v_stride fp))
     (axis_points (sf_u_start fp) (sf_u_count fp) (sf_u_stride fp))"

definition slab_points :: "SlabFootprint \<times> nat \<times> nat \<Rightarrow> ((nat \<times> nat) \<times> nat) list" where
  "slab_points = (\<lambda>(fp, x, y). List.product (fp_points fp) [x..<y])"

lemma mset_product: "mset (List.product xs ys) = (\<Sum>x \<in># mset xs. image_mset (Pair x) (mset ys))"
  by (induction xs) simp_all

lemma mset_product_append: "mset (List.product xs (ys @ zs)) = mset (List.product xs ys) + mset (List.product xs zs)"
  by (induction xs) simp_all

lemma mset_product_concat: "mset (concat (map (\<lambda>ys. List.product xs ys) yss)) = mset (List.product xs (concat yss))"
proof (induction yss)
  case Nil
  have "List.product xs [] = []" by (induction xs) simp_all
  then show ?case by simp
qed (simp add: mset_product_append)

lemma product_concat_left: "concat (map (\<lambda>xs. List.product xs ys) xss) = List.product (concat xss) ys"
proof (induction xss)
  case (Cons xs xss)
  have "List.product (xs @ zs) ys = List.product xs ys @ List.product zs ys" for zs by (induction xs) simp_all
  then show ?case using Cons by simp
qed simp

lemma concat_map_maps: "concat (map f (concat (map g xs))) = concat (map (\<lambda>x. concat (map f (g x))) xs)"
  by (induction xs) simp_all

lemma mset_concat_cong: "(\<And>x. x \<in> set xs \<Longrightarrow> mset (f x) = mset (g x)) \<Longrightarrow> mset (concat (map f xs)) = mset (concat (map g xs))"
  by (induction xs) simp_all

lemma axis_points_from: "a \<le> b \<Longrightarrow> axis_points (a * t) (b - a) t = map (\<lambda>k. k * t) [a..<b]"
  by (intro nth_equalityI) (simp_all add: axis_points_def algebra_simps)

lemma tiles_map_concat:
  assumes "tiles bs a c" and "\<And>x y. a \<le> x \<Longrightarrow> x < y \<Longrightarrow> y \<le> c \<Longrightarrow> lo x \<le> lo y"
  shows "concat (map (\<lambda>(x, y). map f [lo x..<lo y]) bs) = map f [lo a..<lo c]"
  using assms
proof (induction bs a c rule: tiles.induct)
  case (2 x y bs a c)
  then have t: "x = a" "x < y" "y \<le> c" "tiles bs y c" by auto
  have "lo a \<le> lo y" "lo y \<le> lo c" using 2(3) t by (auto simp: le_eq_less_or_eq)
  then have "[lo a..<lo y] @ [lo y..<lo c] = [lo a..<lo c]" by (metis le_add_diff_inverse upt_add_eq_append)
  moreover have "concat (map (\<lambda>(x, y). map f [lo x..<lo y]) bs) = map f [lo y..<lo c]"
    by (rule 2(1)) (use t 2(3) in auto)
  ultimately show ?case using t by (simp flip: map_append)
qed simp

lemma plan_axis_ok:
  assumes "plan_ok plan"
  shows "0 < pp_u_length plan \<Longrightarrow> axis_ok (pp_u_length plan) (pp_chunk_u plan) (pp_sample plan)"
    and "0 < pp_v_length plan \<Longrightarrow> axis_ok (pp_v_length plan) (pp_chunk_v plan) (pp_sample plan)"
  using plan_lengths(1,2) [OF assms] assms by (auto simp: plan_ok_def axis_ok_def Let_def)

abbreviation first_row :: "PassPlan \<Rightarrow> nat \<Rightarrow> nat" where
  "first_row plan \<equiv> first_sample (pp_v_length plan) (pp_chunk_v plan) (pp_sample plan)"

abbreviation first_column :: "PassPlan \<Rightarrow> nat \<Rightarrow> nat" where
  "first_column plan \<equiv> first_sample (pp_u_length plan) (pp_chunk_u plan) (pp_sample plan)"

lemma band_segment_ranges:
  assumes "plan_ok plan" and "0 < pp_u_length plan" and "0 < pp_v_length plan"
    and "r < r'" "r' \<le> rows_of plan" "c < c'" "c' \<le> columns_of plan"
  shows "band_segment plan r (r' - r) c (c' - c) =
    \<lparr>sf_u_start = first_column plan c * pp_sample plan, sf_u_count = first_column plan c' - first_column plan c, sf_u_stride = pp_sample plan,
     sf_v_start = first_row plan r * pp_sample plan, sf_v_count = first_row plan r' - first_row plan r, sf_v_stride = pp_sample plan,
     sf_chunks = mul64 (c' - c) (r' - r)\<rparr>"
proof -
  have upto: "sub64 (add64 a (b - a)) 1 = b - 1" if "a < b" "b < two64" for a b
    using that by (simp add: add64_exact sub64_exact)
  have "r' < two64" "c' < two64" using plan_lengths(3,4) [OF assms(1)] assms(5,7) by linarith+
  then show ?thesis
    using SampledRange_block [OF plan_axis_ok(1) [OF assms(1,2)] assms(6,7)] SampledRange_block [OF plan_axis_ok(2) [OF assms(1,3)] assms(4,5)]
      upto [OF assms(4)] upto [OF assms(6)]
    by (simp only: band_segment_def Let_def fst_conv snd_conv)
qed

lemma band_segment_points:
  assumes "plan_ok plan" and "0 < pp_u_length plan" and "0 < pp_v_length plan"
    and "r < r'" "r' \<le> rows_of plan" "c < c'" "c' \<le> columns_of plan"
  shows "fp_points (band_segment plan r (r' - r) c (c' - c)) =
    List.product (map (\<lambda>k. k * pp_sample plan) [first_row plan r..<first_row plan r'])
      (map (\<lambda>k. k * pp_sample plan) [first_column plan c..<first_column plan c'])"
  using first_sample_mono [OF plan_axis_ok(1) [OF assms(1,2)] assms(6,7)] first_sample_mono [OF plan_axis_ok(2) [OF assms(1,3)] assms(4,5)]
  by (simp add: band_segment_ranges [OF assms] fp_points_def axis_points_from)

lemma strips_samples:
  assumes "axis_ok len chunk sample" and "tiles bs 0 (sc_size (ChunksSampled len chunk sample))"
  shows "concat (map (\<lambda>(x, y). map (\<lambda>k. k * sample) [first_sample len chunk sample x..<first_sample len chunk sample y]) bs) = samples_of len sample"
proof -
  have "concat (map (\<lambda>(x, y). map (\<lambda>k. k * sample) [first_sample len chunk sample x..<first_sample len chunk sample y]) bs) =
      map (\<lambda>k. k * sample) [first_sample len chunk sample 0..<first_sample len chunk sample (sc_size (ChunksSampled len chunk sample))]"
    by (rule tiles_map_concat [OF assms(2)]) (use first_sample_mono [OF assms(1)] in \<open>simp add: less_imp_le\<close>)
  then show ?thesis using first_sample_0 [OF assms(1)] by (simp add: samples_of_def first_sample_def Let_def)
qed

lemma plane_footprints_points:
  assumes "plan_ok plan" and "0 < pp_u_length plan" and "0 < pp_v_length plan"
  shows "mset (concat (map fp_points (plane_footprints plan))) =
    mset (List.product (samples_of (pp_v_length plan) (pp_sample plan)) (samples_of (pp_u_length plan) (pp_sample plan)))"
proof -
  let ?t = "pp_sample plan" and ?U = "samples_of (pp_u_length plan) (pp_sample plan)"
  have band: "0 < pp_band_rows plan" using assms(1) by (simp add: plan_ok_def Let_def)
  have units: "0 < plan_UnitsAffordable plan n" for n by (simp add: plan_UnitsAffordable_def UnitsAffordable_def)
  note rows = strip_cuts_spec [OF band plan_lengths(3) [OF assms(1)]] and columns = strip_cuts_spec [OF units plan_lengths(4) [OF assms(1)]]
  let ?rows = "strip_cuts (pp_band_rows plan) (rows_of plan)" and ?vs = "\<lambda>(r, r'). map (\<lambda>k. k * ?t) [first_row plan r..<first_row plan r']"
  have one: "mset (concat (map fp_points (band_footprints_of plan rr))) = mset (List.product (?vs rr) ?U)" if "rr \<in> set ?rows" for rr
  proof -
    obtain r r' where rr: "rr = (r, r')" by (cases rr)
    then have r: "r < r'" "r' \<le> rows_of plan" using rows(3) that by blast+
    let ?cuts = "strip_cuts (plan_UnitsAffordable plan (r' - r)) (columns_of plan)"
    have "map fp_points (band_footprints_of plan rr) =
        map (\<lambda>us. List.product (?vs rr) us) (map (\<lambda>(c, c'). map (\<lambda>k. k * ?t) [first_column plan c..<first_column plan c']) ?cuts)"
      using columns(3) band_segment_points [OF assms r] by (auto simp: rr band_footprints_of_def)
    then have "mset (concat (map fp_points (band_footprints_of plan rr))) =
        mset (List.product (?vs rr) (concat (map (\<lambda>(c, c'). map (\<lambda>k. k * ?t) [first_column plan c..<first_column plan c']) ?cuts)))"
      by (simp only: mset_product_concat)
    then show ?thesis using strips_samples [OF plan_axis_ok(1) [OF assms(1,2)] columns(2)] by simp
  qed
  have "mset (concat (map fp_points (plane_footprints plan))) = mset (concat (map (\<lambda>rr. concat (map fp_points (band_footprints_of plan rr))) ?rows))"
    by (simp only: plane_footprints_def concat_map_maps)
  also have "\<dots> = mset (concat (map (\<lambda>vs. List.product vs ?U) (map ?vs ?rows)))"
    using mset_concat_cong [of ?rows "\<lambda>rr. concat (map fp_points (band_footprints_of plan rr))" "\<lambda>rr. List.product (?vs rr) ?U"] one by (simp add: comp_def)
  also have "\<dots> = mset (List.product (samples_of (pp_v_length plan) ?t) ?U)"
    unfolding product_concat_left using strips_samples [OF plan_axis_ok(2) [OF assms(1,3)] rows(2)] by (simp add: case_prod_beta')
  finally show ?thesis .
qed

text \<open>The slabs over a list of footprints hold each of their points once for every channel.\<close>

lemma slabs_over_points:
  assumes "channels_ok plan begin end'"
  shows "mset (concat (map slab_points (concat (map (slabs_over plan begin end') fps)))) =
    mset (List.product (concat (map fp_points fps)) [begin..<end'])"
proof -
  have one: "mset (concat (map slab_points (slabs_over plan begin end' fp))) = mset (List.product (fp_points fp) [begin..<end'])" for fp
  proof -
    have "concat (map slab_points (slabs_over plan begin end' fp)) =
        concat (map (\<lambda>ys. List.product (fp_points fp) ys) (map (\<lambda>(x, y). [x..<y]) (slab_cuts plan (sf_chunks fp) begin end')))"
      by (simp add: slabs_over_def slab_points_def comp_def case_prod_beta')
    then show ?thesis using mset_product_concat tiles_concat [OF slab_cuts_spec(2) [OF assms]] by metis
  qed
  have "mset (concat (map slab_points (concat (map (slabs_over plan begin end') fps)))) =
      mset (concat (map (\<lambda>fp. concat (map slab_points (slabs_over plan begin end' fp))) fps))"
    by (simp only: concat_map_maps)
  also have "\<dots> = mset (concat (map (\<lambda>fp. List.product (fp_points fp) [begin..<end']) fps))" by (rule mset_concat_cong) (rule one)
  also have "\<dots> = mset (List.product (concat (map fp_points fps)) [begin..<end'])"
    using product_concat_left [of "[begin..<end']" "map fp_points fps"] by (simp add: comp_def)
  finally show ?thesis .
qed

section \<open>A walk as a list of slabs\<close>

text \<open>The slabs a pass reads of a run of channels, each with the footprint the visitor is told of.\<close>

definition pass_slabs :: "Pass \<Rightarrow> nat \<Rightarrow> nat \<Rightarrow> (OccupiedFootprint option \<times> SlabFootprint \<times> nat \<times> nat) list" where
  "pass_slabs pass begin end' =
     (case ps_shape pass of
        PlaneBands \<Rightarrow> map (Pair None) (concat (map (slabs_over (ps_plan pass) begin end') (plane_footprints (ps_plan pass))))
      | FootprintsOf fps \<Rightarrow> concat (map (\<lambda>f. map (Pair (Some f)) (slabs_over (ps_plan pass) begin end' (of_slab f))) fps))"

definition pass_turn ::
  "'w PixelSource \<Rightarrow> 'w ReadOptions \<Rightarrow> Pass \<Rightarrow> (u64 \<Rightarrow> 'w \<Rightarrow> unit result \<times> 'w) \<Rightarrow> (OccupiedFootprint option \<Rightarrow> Slab \<Rightarrow> 'w \<Rightarrow> 'w) \<Rightarrow>
   nat \<Rightarrow> OccupiedFootprint option \<times> SlabFootprint \<times> nat \<times> nat \<Rightarrow> Walk \<times> 'w \<Rightarrow> unit result \<times> Walk \<times> 'w"
where
  "pass_turn source options pass report visitor begin =
     (\<lambda>(f, fp, x, y). walk_slab source (ps_plan pass) options report (visitor f) fp begin x y)"

text \<open>A walk: the control is asked, then every slab is read in turn, up to the first error.\<close>

definition walk_turns ::
  "'w PixelSource \<Rightarrow> 'w ReadOptions \<Rightarrow> Pass \<Rightarrow> (u64 \<Rightarrow> 'w \<Rightarrow> unit result \<times> 'w) \<Rightarrow> (OccupiedFootprint option \<Rightarrow> Slab \<Rightarrow> 'w \<Rightarrow> 'w) \<Rightarrow>
   nat \<Rightarrow> nat \<Rightarrow> Walk \<times> 'w \<Rightarrow> unit result \<times> Walk \<times> 'w"
where
  "walk_turns source options pass report visitor begin end' s =
     (case Allowed (ps_plan pass) options (snd s) of
        (Inl e, w) \<Rightarrow> (Inl e, (fst s, w))
      | (Inr _, w) \<Rightarrow> seq_all (pass_turn source options pass report visitor begin) (pass_slabs pass begin end') (fst s, w))"

lemma over_footprints_turns:
  "(\<And>f s. over f s = Some (g f s)) \<Longrightarrow> over_footprints over fps s = Some (seq_all g fps s)"
  by (induction fps arbitrary: s) (auto split: prod.splits sum.splits)

lemma Pass_Walk_turns:
  assumes "channels_ok (ps_plan pass) begin end'"
  shows "Pass_Walk source options pass report visitor begin end' s = Some (walk_turns source options pass report visitor begin end' s)"
proof -
  let ?plan = "ps_plan pass"
  have over: "Over source ?plan options report (visitor (Some f)) (of_slab f) begin end' s =
      Some (seq_all (\<lambda>(fp, x, y). walk_slab source ?plan options report (visitor (Some f)) fp begin x y) (slabs_over ?plan begin end' (of_slab f)) s)" for f s
    by (simp add: Over_turns [OF assms] slabs_over_def seq_all_map case_prod_beta')
  have "over_footprints (\<lambda>f s. Over source ?plan options report (visitor (Some f)) (of_slab f) begin end' s) fps s =
      Some (seq_all (pass_turn source options pass report visitor begin)
        (concat (map (\<lambda>f. map (Pair (Some f)) (slabs_over ?plan begin end' (of_slab f))) fps)) s)" for fps s
    by (simp only: over_footprints_turns [OF over]) (simp add: pass_turn_def seq_all_map case_prod_beta' flip: seq_all_concat)
  moreover have "OverBands source ?plan options report (visitor None) begin end' s =
      Some (seq_all (pass_turn source options pass report visitor begin)
        (map (Pair None) (concat (map (slabs_over ?plan begin end') (plane_footprints ?plan)))) s)" for s
    by (simp add: OverBands_turns [OF assms] pass_turn_def seq_all_map case_prod_beta')
  ultimately show ?thesis
    by (cases s) (auto simp: Pass_Walk_def walk_turns_def pass_slabs_def split: prod.splits sum.splits Shape.splits)
qed

definition start_walk :: "Walk \<Rightarrow> Walk" where
  "start_walk wk = wk\<lparr>wk_reads_done := 0, wk_chunks_done := 0\<rparr>"

abbreviation pass_channels :: "Pass \<Rightarrow> nat" where
  "pass_channels pass \<equiv> rg_count (pl_spectral (pp_planes (ps_plan pass)))"

lemma channels_ok_all: "plan_ok (ps_plan pass) \<Longrightarrow> channels_ok (ps_plan pass) 0 (pass_channels pass)"
  by (simp add: channels_ok_def)

lemma Whole_turns:
  assumes "plan_ok (ps_plan pass)"
  shows "Whole source options pass progress visitor (wk, w) =
    Some (walk_turns source options pass
      (report_progress pass progress (ChunksCovering (ps_plan pass) (max 1 (ps_layer_chunks pass)) 0 (pass_channels pass)))
      visitor 0 (pass_channels pass) (start_walk wk, w))"
  by (simp add: Whole_def Pass_Walk_turns [OF channels_ok_all [OF assms]] start_walk_def Let_def)

section \<open>Chunks counted\<close>

text \<open>What a slab adds to the chunks done.\<close>

definition slab_chunks :: "PassPlan \<Rightarrow> SlabFootprint \<times> nat \<times> nat \<Rightarrow> nat" where
  "slab_chunks plan = (\<lambda>(fp, x, y). mul64 (sf_chunks fp) (plan_ChunksTouched plan x y))"

lemma walk_slab_chunks:
  "walk_slab source plan options report visitor fp begin x y s = (Inr (), s') \<Longrightarrow>
   wk_chunks_done (fst s') = add64 (wk_chunks_done (fst s)) (slab_chunks plan (fp, x, y))"
  by (cases s) (auto simp: walk_slab_def slab_chunks_def Let_def split: prod.splits sum.splits if_splits)

lemma pass_turn_chunks:
  "pass_turn source options pass report visitor begin slab s = (Inr (), s') \<Longrightarrow>
   wk_chunks_done (fst s') = add64 (wk_chunks_done (fst s)) (slab_chunks (ps_plan pass) (snd slab))"
  by (cases slab) (auto simp: pass_turn_def dest: walk_slab_chunks)

lemma plan_ChunksTouched_mono:
  assumes "channels_ok plan begin end'" and "begin \<le> x" "x \<le> y" "y \<le> end'"
  shows "plan_ChunksTouched plan x y \<le> plan_ChunksTouched plan begin end'"
proof -
  have "channels_ok plan x y" using channels_ok_sub [OF assms] .
  moreover have "channel_chunk plan ` {x..<y} \<subseteq> channel_chunk plan ` {begin..<end'}" using assms by (intro image_mono) auto
  ultimately show ?thesis using plan_ChunksTouched_card assms(1) by (simp add: card_mono)
qed

lemma sum_slabs_over:
  assumes run: "channels_ok plan begin end'" and small: "sf_chunks fp * plan_ChunksTouched plan begin end' < two64"
  shows "(\<Sum>slab \<leftarrow> slabs_over plan begin end' fp. slab_chunks plan slab) = sf_chunks fp * plan_ChunksTouched plan begin end'"
proof -
  note cuts = slab_cuts_spec [OF run, where chunks = "sf_chunks fp"]
  have one: "slab_chunks plan (fp, x, y) = sf_chunks fp * plan_ChunksTouched plan x y" if "(x, y) \<in> set (slab_cuts plan (sf_chunks fp) begin end')" for x y
  proof -
    have "begin \<le> x" "x \<le> y" "y \<le> end'" using tiles_bounds [OF cuts(2)] that by fastforce+
    then have "sf_chunks fp * plan_ChunksTouched plan x y \<le> sf_chunks fp * plan_ChunksTouched plan begin end'"
      using plan_ChunksTouched_mono [OF run] by simp
    then have "sf_chunks fp * plan_ChunksTouched plan x y < two64" using small by (rule le_less_trans)
    then show ?thesis unfolding slab_chunks_def prod.case by (rule mul64_exact)
  qed
  have "(\<Sum>slab \<leftarrow> slabs_over plan begin end' fp. slab_chunks plan slab) =
      (\<Sum>(x, y) \<leftarrow> slab_cuts plan (sf_chunks fp) begin end'. sf_chunks fp * plan_ChunksTouched plan x y)"
    unfolding slabs_over_def map_map comp_def by (intro arg_cong [of _ _ sum_list] map_cong refl) (auto simp: one)
  also have "\<dots> = sf_chunks fp * (\<Sum>(x, y) \<leftarrow> slab_cuts plan (sf_chunks fp) begin end'. plan_ChunksTouched plan x y)"
    by (simp add: case_prod_beta' sum_list_const_mult)
  finally show ?thesis using slab_cuts_chunks [OF run] by simp
qed

lemma sum_slabs_over_all:
  assumes run: "channels_ok plan begin end'" and small: "(\<Sum>fp \<leftarrow> fps. sf_chunks fp) * plan_ChunksTouched plan begin end' < two64"
  shows "(\<Sum>slab \<leftarrow> concat (map (slabs_over plan begin end') fps). slab_chunks plan slab) =
    (\<Sum>fp \<leftarrow> fps. sf_chunks fp) * plan_ChunksTouched plan begin end'"
  using small
proof (induction fps)
  case (Cons fp fps)
  have "sf_chunks fp * plan_ChunksTouched plan begin end' < two64" "(\<Sum>fp \<leftarrow> fps. sf_chunks fp) * plan_ChunksTouched plan begin end' < two64"
    using Cons.prems by (auto simp: algebra_simps)
  then show ?case using Cons.IH sum_slabs_over [OF run] by (simp add: algebra_simps)
qed simp

lemma sum_list_maps: "(\<Sum>y \<leftarrow> concat (map g xs). f y) = (\<Sum>x \<leftarrow> xs. \<Sum>y \<leftarrow> g x. f y :: nat)"
  by (induction xs) simp_all

lemma plane_footprints_chunks:
  assumes "plan_ok plan" and "0 < pp_u_length plan" and "0 < pp_v_length plan" and "rows_of plan * columns_of plan < two64"
  shows "(\<Sum>fp \<leftarrow> plane_footprints plan. sf_chunks fp) = rows_of plan * columns_of plan"
proof -
  have band: "0 < pp_band_rows plan" using assms(1) by (simp add: plan_ok_def Let_def)
  have units: "0 < plan_UnitsAffordable plan n" for n by (simp add: plan_UnitsAffordable_def UnitsAffordable_def)
  note rows = strip_cuts_spec [OF band plan_lengths(3) [OF assms(1)]] and columns = strip_cuts_spec [OF units plan_lengths(4) [OF assms(1)]]
  let ?rows = "strip_cuts (pp_band_rows plan) (rows_of plan)"
  have one: "(\<Sum>fp \<leftarrow> band_footprints_of plan rr. sf_chunks fp) = (case rr of (r, r') \<Rightarrow> r' - r) * columns_of plan" if "rr \<in> set ?rows" for rr
  proof -
    obtain r r' where rr: "rr = (r, r')" by (cases rr)
    then have r: "r < r'" "r' \<le> rows_of plan" using rows(3) that by blast+
    let ?cuts = "strip_cuts (plan_UnitsAffordable plan (r' - r)) (columns_of plan)"
    have "sf_chunks (band_segment plan r (r' - r) c (c' - c)) = (c' - c) * (r' - r)" if "(c, c') \<in> set ?cuts" for c c'
    proof -
      have c: "c < c'" "c' \<le> columns_of plan" using columns(3) that by blast+
      have "(c' - c) * (r' - r) \<le> columns_of plan * rows_of plan" using r c by (intro mult_mono) auto
      then have "mul64 (c' - c) (r' - r) = (c' - c) * (r' - r)" using assms(4) by (intro mul64_exact) (simp add: mult.commute)
      then show ?thesis using band_segment_ranges [OF assms(1-3) r c] by simp
    qed
    then have "(\<Sum>fp \<leftarrow> band_footprints_of plan rr. sf_chunks fp) = (\<Sum>(c, c') \<leftarrow> ?cuts. (c' - c) * (r' - r))"
      unfolding rr band_footprints_of_def map_map comp_def fst_conv snd_conv by (intro arg_cong [of _ _ sum_list] map_cong refl) auto
    also have "\<dots> = (\<Sum>(c, c') \<leftarrow> ?cuts. c' - c) * (r' - r)" by (simp add: case_prod_beta' sum_list_mult_const)
    finally show ?thesis using tiles_sum [OF columns(2), of "r' - r"] rr by simp
  qed
  have "(\<Sum>fp \<leftarrow> plane_footprints plan. sf_chunks fp) = (\<Sum>rr \<leftarrow> ?rows. \<Sum>fp \<leftarrow> band_footprints_of plan rr. sf_chunks fp)"
    by (simp only: plane_footprints_def sum_list_maps)
  also have "\<dots> = (\<Sum>rr \<leftarrow> ?rows. (case rr of (r, r') \<Rightarrow> r' - r) * columns_of plan)"
    by (intro arg_cong [of _ _ sum_list] map_cong refl one)
  also have "\<dots> = rows_of plan * columns_of plan" using tiles_sum [OF rows(2)] by (simp add: sum_list_mult_const)
  finally show ?thesis .
qed

section \<open>Blocks\<close>

text \<open>One block of a pass: the accumulator is reset, the block's channels are walked, and what there is is handed over.\<close>

definition block_turn ::
  "'w PixelSource \<Rightarrow> 'w ReadOptions \<Rightarrow> Pass \<Rightarrow> (u64 \<Rightarrow> 'w \<Rightarrow> 'w) \<Rightarrow> (OccupiedFootprint option \<Rightarrow> Slab \<Rightarrow> 'w \<Rightarrow> 'w) \<Rightarrow>
   (SelectionChannel \<Rightarrow> u64 \<Rightarrow> bool \<Rightarrow> completeness \<Rightarrow> 'w \<Rightarrow> bool \<times> 'w) \<Rightarrow> nat \<times> nat \<Rightarrow> Walk \<times> 'w \<Rightarrow> unit result \<times> Walk \<times> 'w"
where
  "block_turn source options pass reset visitor hand_over block s =
     (let (x, y) = block; (wk, w) = s;
          hand = deliver pass hand_over x (y - x) (ChunksCovering (ps_plan pass) (max 1 (ps_layer_chunks pass)) x y)
      in case walk_turns source options pass (hand False) visitor x y (start_walk wk, reset (y - x) w) of
           (Inl e, s) \<Rightarrow> (Inl e, s)
         | (Inr _, (wk, w)) \<Rightarrow> (case hand True (wk_chunks_done wk) w of (handed, w) \<Rightarrow> (handed, (wk, w))))"

lemma emit_block_ok:
  assumes "plan_ok plan"
  shows "block_ok (EmitChannels plan layer bytes hint) (rg_count (pl_spectral (pp_planes plan)))
    (spectral_start plan) (spectral_stride plan) (pp_chunk_depth plan) 0"
proof -
  have run: "channels_ok plan 0 (rg_count (pl_spectral (pp_planes plan)))" using assms by (simp add: channels_ok_def)
  note b = channels_ok_bounds [OF run]
  have "EmitChannels plan layer bytes hint \<le> rg_count (pl_spectral (pp_planes plan))" by (simp add: EmitChannels_def Let_def)
  then have "EmitChannels plan layer bytes hint < two64" using b(4) by linarith
  then show ?thesis using b by (simp add: block_ok_def)
qed

lemma emit_blocks:
  assumes "plan_ok plan" and "n = rg_count (pl_spectral (pp_planes plan))" and "desired = EmitChannels plan layer bytes hint"
  shows "\<exists>bs. block_loop (\<lambda>b. AlignedSlabEnd plan b desired n) 0 n = Some bs \<and> tiles bs 0 n \<and>
    (\<forall>(x, y) \<in> set bs. (y = n \<or> channel_chunk plan (y - 1) \<noteq> channel_chunk plan y) \<and>
       (y \<le> x + max 1 desired \<or> channel_chunk plan x = channel_chunk plan (y - 1)))"
proof -
  note ok = emit_block_ok [OF assms(1), of layer bytes hint, folded assms(2,3)]
  have run: "channels_ok plan 0 n" using assms(1,2) by (simp add: channels_ok_def)
  note b = channels_ok_bounds [OF run]
  obtain bs where bs: "block_loop (\<lambda>b. AlignedSlabEnd plan b desired n) 0 n = Some bs" "tiles bs 0 n"
    "\<forall>(x, y) \<in> set bs. y = AlignedSlabEnd plan x desired n \<and> block_ok desired n (spectral_start plan) (spectral_stride plan) (pp_chunk_depth plan) x"
    using aligned.block_loop_returns [OF ok] by (auto simp: AlignedSlabEnd_def Let_def)
  have "(y = n \<or> channel_chunk plan (y - 1) \<noteq> channel_chunk plan y) \<and>
      (y \<le> x + max 1 desired \<or> channel_chunk plan x = channel_chunk plan (y - 1))" if "(x, y) \<in> set bs" for x y
  proof -
    have xy: "x < n" "y = AlignedSlabEnd plan x desired n" "x = 0 \<or> desired < n" "desired < two64"
      using bs(3) tiles_bounds [OF bs(2)] that by (auto simp: block_ok_def)
    have "channels_ok plan x n" using channels_ok_sub [OF run] xy(1) by simp
    then have "y = aligned_end x desired n (spectral_start plan) (spectral_stride plan) (pp_chunk_depth plan)"
      using AlignedSlabEnd_exact xy by blast
    then show ?thesis using aligned_end_spec [OF b(1,2) xy(1), of desired "spectral_start plan"] by blast
  qed
  then show ?thesis using bs by blast
qed

lemma InBlocks_turns:
  assumes plan: "plan_ok (ps_plan pass)"
    and bs: "block_loop (\<lambda>b. AlignedSlabEnd (ps_plan pass) b (EmitChannels (ps_plan pass) (ps_layer_chunks pass) bytes hint) (pass_channels pass)) 0 (pass_channels pass) = Some bs"
    and t: "tiles bs 0 (pass_channels pass)"
  shows "InBlocks source options pass bytes hint reset visitor hand_over s = Some (seq_all (block_turn source options pass reset visitor hand_over) bs s)"
proof -
  have "pass_channels pass < two64" using channels_ok_bounds(4) [OF channels_ok_all [OF plan]] by linarith
  then have len: "sub64 y x = y - x" if "(x, y) \<in> set bs" for x y
    using tiles_bounds [OF t] that by (intro sub64_exact) fastforce+
  have run: "channels_ok (ps_plan pass) x y" if "(x, y) \<in> set bs" for x y
    using tiles_bounds [OF t] that by (intro channels_ok_sub [OF channels_ok_all [OF plan]]) fastforce+
  have "InBlocks source options pass bytes hint reset visitor hand_over s =
      Some (seq_all (\<lambda>(x, y). block_turn source options pass reset visitor hand_over (x, y)) bs s)"
    unfolding InBlocks_def Let_def
    by (rule cut_loop_blocks [OF bs])
      (auto simp: len Pass_Walk_turns [OF run] block_turn_def start_walk_def Let_def split: prod.splits sum.splits)
  then show ?thesis by (simp add: case_prod_beta')
qed

section \<open>Properties\<close>

text \<open>
  A slab that was read holds the pixels of the image it was asked for, NaN where the flag is applied and
  excludes one, each where the slab's three strides put it: no transpose, and no channel of another block.
\<close>

theorem ReadSlab_delivers_pixels:
  assumes "pixel_source source pixels flags" and "plan_ok plan"
    and "ReadSlab source plan options request buffers w = ((Inr slab, buffers'), w')"
    and "channels_ok plan (sr_channel_index request) (sr_channel_index request + sr_channel_count request)"
    and "i < sr_u_count request" and "j < sr_v_count request" and "k < sr_channel_count request"
  shows "i * sb_stride_u slab + j * sb_stride_v slab + k * sb_stride_z slab < length (sb_pixels slab) \<and>
    sb_pixels slab ! (i * sb_stride_u slab + j * sb_stride_v slab + k * sb_stride_z slab) =
      delivered_pixel pixels flags (pp_descriptor plan) (pp_apply_mask plan)
        (plane_coord plan (sr_u_start request + i * sr_u_stride request) (sr_v_start request + j * sr_v_stride request)
           (spectral_start plan + (sr_channel_index request + k) * spectral_stride plan))"
  by (rule ReadSlab_pixel [OF assms])

text \<open>
  Claim C21. A pass over the whole plane returns: it asks the control, then reads and visits its slabs in order up to
  the first error, and those slabs hold every sampled pixel of every selected channel exactly once, whatever the chunks,
  the budget and the sample make of the bands, the segments and the slabs.
\<close>

theorem plane_pass_reads_each_sample_once:
  assumes "plan_ok plan" and "0 < pp_u_length plan" and "0 < pp_v_length plan" and "pass = PassOverPlane plan message"
  shows "Whole source options pass progress visitor (wk, w) =
      Some (walk_turns source options pass
        (report_progress pass progress (ChunksCovering plan (max 1 (pp_layer_chunks plan)) 0 (pass_channels pass)))
        visitor 0 (pass_channels pass) (start_walk wk, w)) \<and>
    mset (concat (map (\<lambda>(f, slab). slab_points slab) (pass_slabs pass 0 (pass_channels pass)))) =
      mset (List.product (List.product (samples_of (pp_v_length plan) (pp_sample plan)) (samples_of (pp_u_length plan) (pp_sample plan)))
        [0..<pass_channels pass])"
proof
  have pass: "ps_plan pass = plan" "ps_shape pass = PlaneBands" "ps_layer_chunks pass = pp_layer_chunks plan"
    by (simp_all add: assms(4) PassOverPlane_def)
  have ok: "plan_ok (ps_plan pass)" using assms(1) pass by simp
  show "Whole source options pass progress visitor (wk, w) =
      Some (walk_turns source options pass
        (report_progress pass progress (ChunksCovering plan (max 1 (pp_layer_chunks plan)) 0 (pass_channels pass)))
        visitor 0 (pass_channels pass) (start_walk wk, w))"
    using Whole_turns [OF ok, of source options progress visitor wk w] unfolding pass .
  have "concat (map (\<lambda>(f, slab). slab_points slab) (pass_slabs pass 0 (pass_channels pass))) =
      concat (map slab_points (concat (map (slabs_over plan 0 (pass_channels pass)) (plane_footprints plan))))"
    by (simp add: pass_slabs_def pass comp_def)
  then show "mset (concat (map (\<lambda>(f, slab). slab_points slab) (pass_slabs pass 0 (pass_channels pass)))) =
      mset (List.product (List.product (samples_of (pp_v_length plan) (pp_sample plan)) (samples_of (pp_u_length plan) (pp_sample plan)))
        [0..<pass_channels pass])"
    using slabs_over_points [OF channels_ok_all [OF ok], of "plane_footprints plan"] plane_footprints_points [OF assms(1-3)]
    by (simp add: pass mset_product)
qed

lemma layer_counts_chunks:
  assumes "plan = PlanPass d geometry flag_geometry am planes sample options" and "plan_ok plan"
    and "0 < pp_u_length plan" and "0 < pp_v_length plan" and "rows_of plan * columns_of plan < two64"
  shows "pp_layer_chunks plan = rows_of plan * columns_of plan" and "0 < rows_of plan * columns_of plan"
proof -
  have along: "touched_along sample len chunk = sc_size (ChunksSampled len chunk sample) \<and> 0 < sc_size (ChunksSampled len chunk sample)"
    if "axis_ok len chunk sample" for len chunk sample
  proof -
    note a = axis_okD [OF that]
    have "len < two64" using a(4) by linarith
    note s = sampled_chunks_list(1) [OF a(1-3) this]
    have "(len - 1) div sample \<le> len - 1" by (rule div_le_dividend)
    then have "add64 ((len - 1) div sample) 1 = (len - 1) div sample + 1" using a(4) by (intro add64_exact) linarith
    then have "touched_along sample len chunk = sc_size (ChunksSampled len chunk sample)" using s a(3) by (simp add: touched_along_def)
    moreover have "0 < sc_size (ChunksSampled len chunk sample)" using a(3) by (simp add: ChunksSampled_def Let_def)
    ultimately show ?thesis by simp
  qed
  note u = along [OF plan_axis_ok(1) [OF assms(2,3)]] and v = along [OF plan_axis_ok(2) [OF assms(2,4)]]
  show pos: "0 < rows_of plan * columns_of plan" using u v by simp
  have "mul64 (columns_of plan) (rows_of plan) = rows_of plan * columns_of plan"
    using assms(5) mul64_exact [of "columns_of plan" "rows_of plan"] by (simp add: mult.commute)
  then show "pp_layer_chunks plan = rows_of plan * columns_of plan"
    unfolding PlanPass_derived(2) [OF assms(1)] using u v pos by (simp add: max_def)
qed

lemma sum_take_less:
  assumes "k < length xs" and "\<And>x. x \<in> set xs \<Longrightarrow> 0 < f x"
  shows "(\<Sum>x \<leftarrow> take k xs. f x) < (\<Sum>x \<leftarrow> xs. f x :: nat)"
proof -
  have "(\<Sum>x \<leftarrow> xs. f x) = (\<Sum>x \<leftarrow> take k xs @ drop k xs. f x)" by simp
  also have "\<dots> = (\<Sum>x \<leftarrow> take k xs. f x) + (\<Sum>x \<leftarrow> drop k xs. f x)" by (simp only: map_append sum_list_append)
  finally have "(\<Sum>x \<leftarrow> xs. f x) = (\<Sum>x \<leftarrow> take k xs. f x) + (\<Sum>x \<leftarrow> drop k xs. f x)" .
  moreover have "drop k xs = xs ! k # drop (Suc k) xs" using assms(1) by (simp add: Cons_nth_drop_Suc)
  moreover have "0 < f (xs ! k)" using assms by simp
  ultimately show ?thesis by simp
qed

lemma plane_slab_chunks_pos:
  assumes "plan_ok plan" and "0 < pp_u_length plan" and "0 < pp_v_length plan" and "rows_of plan * columns_of plan < two64"
    and run: "channels_ok plan begin end'" and small: "rows_of plan * columns_of plan * plan_ChunksTouched plan begin end' < two64"
    and slab: "slab \<in> set (concat (map (slabs_over plan begin end') (plane_footprints plan)))"
  shows "0 < slab_chunks plan slab"
proof -
  obtain fp x y where fp: "fp \<in> set (plane_footprints plan)" "slab = (fp, x, y)" "(x, y) \<in> set (slab_cuts plan (sf_chunks fp) begin end')"
    using slab by (auto simp: slabs_over_def)
  have xy: "begin \<le> x" "x < y" "y \<le> end'" using tiles_bounds [OF slab_cuts_spec(2) [OF run]] fp(3) by fastforce+
  have band: "0 < pp_band_rows plan" using assms(1) by (simp add: plan_ok_def Let_def)
  have units: "0 < plan_UnitsAffordable plan n" for n by (simp add: plan_UnitsAffordable_def UnitsAffordable_def)
  note rows = strip_cuts_spec [OF band plan_lengths(3) [OF assms(1)]] and columns = strip_cuts_spec [OF units plan_lengths(4) [OF assms(1)]]
  obtain r r' where r: "(r, r') \<in> set (strip_cuts (pp_band_rows plan) (rows_of plan))" "fp \<in> set (band_footprints_of plan (r, r'))"
    using fp(1) by (auto simp: plane_footprints_def)
  then obtain c c' where c: "(c, c') \<in> set (strip_cuts (plan_UnitsAffordable plan (r' - r)) (columns_of plan))"
    "fp = band_segment plan r (r' - r) c (c' - c)" by (auto simp: band_footprints_of_def)
  have rc: "r < r'" "r' \<le> rows_of plan" "c < c'" "c' \<le> columns_of plan" "fp = band_segment plan r (r' - r) c (c' - c)"
    using rows(3) [OF r(1)] columns(3) [OF c(1)] c(2) by simp_all
  have le: "(c' - c) * (r' - r) \<le> rows_of plan * columns_of plan"
    using rc by (subst mult.commute) (intro mult_mono; simp)
  then have "mul64 (c' - c) (r' - r) = (c' - c) * (r' - r)" using assms(4) by (intro mul64_exact) linarith
  then have chunks: "sf_chunks fp = (c' - c) * (r' - r)" using band_segment_ranges [OF assms(1-3) rc(1-4)] rc(5) by simp
  have "channels_ok plan x y" using channels_ok_sub [OF run] xy by simp
  then have pos: "0 < plan_ChunksTouched plan x y" using plan_ChunksTouched_card xy(2) by (simp add: card_gt_0_iff)
  have "plan_ChunksTouched plan x y \<le> plan_ChunksTouched plan begin end'" using plan_ChunksTouched_mono [OF run] xy by simp
  then have "sf_chunks fp * plan_ChunksTouched plan x y \<le> rows_of plan * columns_of plan * plan_ChunksTouched plan begin end'"
    using le chunks by (intro mult_mono) auto
  then have "slab_chunks plan slab = sf_chunks fp * plan_ChunksTouched plan x y" using small fp(2) by (simp add: slab_chunks_def mul64_exact)
  then show ?thesis using pos chunks rc by simp
qed

text \<open>
  Claim C22. The progress of a pass over the plane: what a walk has done before a read is the chunks of the slabs before
  it, so every fraction reported is below one, it grows with every read, and it is one exactly when the last slab is
  done, at any sample.
\<close>

theorem plane_pass_progress_reaches_end:
  assumes "plan = PlanPass d geometry flag_geometry am planes sample options" and "plan_ok plan"
    and "0 < pp_u_length plan" and "0 < pp_v_length plan"
    and "rows_of plan * columns_of plan * plan_ChunksTouched plan 0 (pass_channels pass) < two64"
    and "pass = PassOverPlane plan message" and "total' = ChunksCovering plan (max 1 (pp_layer_chunks plan)) 0 (pass_channels pass)"
    and "k \<le> length (pass_slabs pass 0 (pass_channels pass))"
    and "seq_all (pass_turn source options' pass report visitor 0) (take k (pass_slabs pass 0 (pass_channels pass))) (start_walk wk, w) = (Inr (), (wk', w'))"
  shows "wk_chunks_done wk' = (\<Sum>(f, slab) \<leftarrow> take k (pass_slabs pass 0 (pass_channels pass)). slab_chunks plan slab) \<and>
    (if k = length (pass_slabs pass 0 (pass_channels pass)) then wk_chunks_done wk' = total' else wk_chunks_done wk' < total')"
proof -
  have pass: "ps_plan pass = plan" "ps_shape pass = PlaneBands" by (simp_all add: assms(6) PassOverPlane_def)
  let ?n = "pass_channels pass" and ?slabs = "pass_slabs pass 0 (pass_channels pass)" and ?R = "rows_of plan * columns_of plan"
  have run: "channels_ok plan 0 ?n" using channels_ok_all [of pass] assms(2) pass by simp
  have n: "0 < ?n" using assms(2) by (simp add: pass plan_ok_def planes_ok_def range_fits_def Let_def)
  have t: "0 < plan_ChunksTouched plan 0 ?n" using plan_ChunksTouched_card [OF run] n by (simp add: card_gt_0_iff)
  then have "?R \<le> ?R * plan_ChunksTouched plan 0 ?n" by simp
  then have R: "?R < two64" using assms(5) by linarith
  note layer = layer_counts_chunks [OF assms(1-4) R]
  have tot: "total' = ?R * plan_ChunksTouched plan 0 ?n"
  proof -
    have "max 1 (pp_layer_chunks plan) = ?R" using layer by (simp add: max_def)
    moreover have "mul64 ?R (plan_ChunksTouched plan 0 ?n) = ?R * plan_ChunksTouched plan 0 ?n" by (rule mul64_exact [OF assms(5)])
    ultimately show ?thesis unfolding assms(7) ChunksCovering_def using layer(2) t by (simp add: max_def)
  qed
  have slabs: "map snd ?slabs = concat (map (slabs_over plan 0 ?n) (plane_footprints plan))" by (simp add: pass_slabs_def pass comp_def)
  let ?cost = "\<lambda>x. slab_chunks plan (snd x)"
  have all: "(\<Sum>x \<leftarrow> ?slabs. ?cost x) = total'"
  proof -
    have "(\<Sum>x \<leftarrow> ?slabs. ?cost x) = (\<Sum>s \<leftarrow> map snd ?slabs. slab_chunks plan s)" by (simp add: comp_def)
    then show ?thesis unfolding slabs tot
      using sum_slabs_over_all [OF run, of "plane_footprints plan"] plane_footprints_chunks [OF assms(2-4) R] assms(5) by simp
  qed
  have less: "(\<Sum>x \<leftarrow> take k ?slabs. ?cost x) < total'" if "k < length ?slabs"
  proof -
    have "0 < ?cost x" if "x \<in> set ?slabs" for x
    proof -
      have "snd x \<in> set (map snd ?slabs)" using that by simp
      then show ?thesis using plane_slab_chunks_pos [OF assms(2-4) R run assms(5)] unfolding slabs by blast
    qed
    then have "(\<Sum>x \<leftarrow> take k ?slabs. ?cost x) < (\<Sum>x \<leftarrow> ?slabs. ?cost x)" by (rule sum_take_less [OF that])
    then show ?thesis using all by simp
  qed
  have bound: "(\<Sum>x \<leftarrow> take k ?slabs. ?cost x) \<le> total'" using all less assms(8) by (cases "k < length ?slabs") auto
  have "wk_chunks_done (fst (wk', w')) = wk_chunks_done (fst (start_walk wk, w)) + (\<Sum>x \<leftarrow> take k ?slabs. ?cost x)"
    by (rule seq_all_adds [OF _ assms(9), where q = "\<lambda>s. wk_chunks_done (fst s)" and cost = ?cost])
      (use pass_turn_chunks [where pass = pass] bound tot assms(5) pass in \<open>simp_all add: start_walk_def\<close>)
  then have "wk_chunks_done wk' = (\<Sum>x \<leftarrow> take k ?slabs. ?cost x)" by (simp add: start_walk_def)
  then show ?thesis using all less assms(8) by (auto simp: case_prod_beta')
qed

text \<open>
  Claim C23. A pass in blocks returns, and its blocks tile the selection in order: each is reset, walked and handed over
  complete before the next begins, ends on a chunk boundary of the spectrum or with the selection, so no decode serves
  two blocks, and is longer than was asked only when it lies in one chunk.
\<close>

theorem pass_blocks_tile_selection:
  assumes "plan_ok (ps_plan pass)"
  shows "\<exists>bs. InBlocks source options pass bytes hint reset visitor hand_over s =
      Some (seq_all (block_turn source options pass reset visitor hand_over) bs s) \<and>
    concat (map (\<lambda>(x, y). [x..<y]) bs) = [0..<pass_channels pass] \<and>
    (\<forall>(x, y) \<in> set bs. x < y \<and>
       (y = pass_channels pass \<or> channel_chunk (ps_plan pass) (y - 1) \<noteq> channel_chunk (ps_plan pass) y) \<and>
       (y - x \<le> max 1 (EmitChannels (ps_plan pass) (ps_layer_chunks pass) bytes hint) \<or>
        channel_chunk (ps_plan pass) x = channel_chunk (ps_plan pass) (y - 1)))"
proof -
  obtain bs where bs: "block_loop (\<lambda>b. AlignedSlabEnd (ps_plan pass) b (EmitChannels (ps_plan pass) (ps_layer_chunks pass) bytes hint) (pass_channels pass))
      0 (pass_channels pass) = Some bs" "tiles bs 0 (pass_channels pass)"
    "\<forall>(x, y) \<in> set bs. (y = pass_channels pass \<or> channel_chunk (ps_plan pass) (y - 1) \<noteq> channel_chunk (ps_plan pass) y) \<and>
       (y \<le> x + max 1 (EmitChannels (ps_plan pass) (ps_layer_chunks pass) bytes hint) \<or>
        channel_chunk (ps_plan pass) x = channel_chunk (ps_plan pass) (y - 1))"
    using emit_blocks [OF assms refl refl, of "ps_layer_chunks pass" bytes hint] by blast
  have "\<forall>(x, y) \<in> set bs. x < y \<and>
       (y = pass_channels pass \<or> channel_chunk (ps_plan pass) (y - 1) \<noteq> channel_chunk (ps_plan pass) y) \<and>
       (y - x \<le> max 1 (EmitChannels (ps_plan pass) (ps_layer_chunks pass) bytes hint) \<or>
        channel_chunk (ps_plan pass) x = channel_chunk (ps_plan pass) (y - 1))"
    using bs(3) tiles_bounds [OF bs(2)] by (fastforce simp: le_diff_conv add.commute)
  then show ?thesis using InBlocks_turns [OF assms bs(1,2)] tiles_concat [OF bs(2)] by blast
qed

section \<open>A pass followed on the example image\<close>

definition example_slab_request :: SlabRequest where
  "example_slab_request =
     \<lparr>sr_u_start = 0, sr_u_count = 4, sr_u_stride = 3, sr_v_start = 3, sr_v_count = 2, sr_v_stride = 3, sr_channel_index = 0, sr_channel_count = 2\<rparr>"

definition empty_walk :: Walk where
  "empty_walk = \<lparr>wk_reads_done = 0, wk_chunks_done = 0, wk_buffers = \<lparr>bf_pixels = [], bf_mask = []\<rparr>\<rparr>"

definition example_slab :: "(Slab result \<times> SlabBuffers) \<times> unit" where
  "example_slab = ReadSlab example_source (example_plan 3 64) (example_options 64) example_slab_request (wk_buffers empty_walk) ()"

definition example_pass :: Pass where
  "example_pass = PassOverPlane (example_plan 9 1000) ''The pass was cancelled''"

definition example_turn :: "OccupiedFootprint option \<times> SlabFootprint \<times> nat \<times> nat \<Rightarrow> Walk \<times> unit \<Rightarrow> unit result \<times> Walk \<times> unit" where
  "example_turn = pass_turn example_source (example_options 1000) example_pass (\<lambda>_ w. (Inr (), w)) (\<lambda>_ _ w. w) 0"

definition example_turn_slab :: "OccupiedFootprint option \<times> SlabFootprint \<times> nat \<times> nat" where
  "example_turn_slab =
     (None, \<lparr>sf_u_start = 0, sf_u_count = 2, sf_u_stride = 9, sf_v_start = 0, sf_v_count = 1, sf_v_stride = 9, sf_chunks = 2\<rparr>, 0, 2)"

lemma example_channels: "channels_ok (example_plan 3 budget) 0 2"
  using example_plan_ok [of 3 budget] by (simp add: channels_ok_def) (simp add: example_plan_def PlanPass_sel example_planes_def)

lemma example_lengths: "pp_u_length (example_plan 9 1000) = 10" "pp_v_length (example_plan 9 1000) = 8"
  "rg_count (pl_spectral (pp_planes (example_plan 9 1000))) = 2" "pass_channels example_pass = 2"
  by code_simp+

lemma example_slabs: "pass_slabs example_pass 0 2 = [example_turn_slab]"
proof -
  have cuts: "strip_cuts (pp_band_rows (example_plan 9 1000)) (rows_of (example_plan 9 1000)) = [(0, 1)]"
    "strip_cuts (plan_UnitsAffordable (example_plan 9 1000) 1) (columns_of (example_plan 9 1000)) = [(0, 2)]"
    "slab_cuts (example_plan 9 1000) 2 0 2 = [(0, 2)]" by code_simp+
  have segment: "band_segment (example_plan 9 1000) 0 1 0 2 = fst (snd example_turn_slab)" by code_simp
  have "plane_footprints (example_plan 9 1000) = [fst (snd example_turn_slab)]"
    by (simp only: plane_footprints_def band_footprints_of_def cuts segment list.map concat.simps fst_conv snd_conv diff_zero split append_Nil2)
  then have "pass_slabs example_pass 0 2 = map (Pair None) (slabs_over (example_plan 9 1000) 0 2 (fst (snd example_turn_slab)))"
    by (simp add: pass_slabs_def example_pass_def PassOverPlane_def)
  then show ?thesis by (simp add: slabs_over_def cuts example_turn_slab_def)
qed

theorem ReadSlab_delivers_pixels_witness:
  "\<exists>slab buffers' w'. example_slab = ((Inr slab, buffers'), w') \<and> 2 * sb_stride_u slab + 1 * sb_stride_v slab + 1 * sb_stride_z slab = 14 \<and>
    sb_pixels slab ! 14 = delivered_pixel (\<lambda>c. word_of_nat (c ! 2)) (\<lambda>c. of_bool (c ! 0 = 1)) example_image True [6, 6, 3] \<and>
    sb_pixels slab ! 14 = 6"
proof -
  obtain slab b w where slab: "example_slab = ((Inr slab, b), w)" and strides: "(sb_stride_u slab, sb_stride_v slab, sb_stride_z slab) = (1, 4, 8)"
    and px: "sb_pixels slab ! 14 = 6"
  proof -
    have "case example_slab of ((Inr slab, b), w) \<Rightarrow> (sb_stride_u slab, sb_stride_v slab, sb_stride_z slab) = (1, 4, 8) \<and> sb_pixels slab ! 14 = 6 | _ \<Rightarrow> False"
      by code_simp
    then show ?thesis using that by (auto split: prod.splits sum.splits)
  qed
  have req: "sr_u_start example_slab_request = 0" "sr_u_count example_slab_request = 4" "sr_u_stride example_slab_request = 3"
    "sr_v_start example_slab_request = 3" "sr_v_count example_slab_request = 2" "sr_v_stride example_slab_request = 3"
    "sr_channel_index example_slab_request = 0" "sr_channel_count example_slab_request = 2" by (simp_all add: example_slab_request_def)
  have plan: "pp_descriptor (example_plan 3 64) = example_image" "pp_apply_mask (example_plan 3 64) = True"
    "spectral_start (example_plan 3 64) = 1" "spectral_stride (example_plan 3 64) = 2" "plane_coord (example_plan 3 64) 6 6 3 = [6, 6, 3]"
    by code_simp+
  have run: "channels_ok (example_plan 3 64) (sr_channel_index example_slab_request)
      (sr_channel_index example_slab_request + sr_channel_count example_slab_request)"
    using example_channels [of 64] by (simp only: req add_0)
  have ok: "plan_ok (example_plan 3 64)" by (rule example_plan_ok) simp
  have lt: "2 < sr_u_count example_slab_request" "1 < sr_v_count example_slab_request" "1 < sr_channel_count example_slab_request"
    by (simp_all only: req)
  have stride: "sb_stride_u slab = 1" "sb_stride_v slab = 4" "sb_stride_z slab = 8" using strides by simp_all
  have at: "2 * 1 + 1 * 4 + 1 * 8 = (14 :: nat)" "0 + 2 * 3 = (6 :: nat)" "3 + 1 * 3 = (6 :: nat)" "1 + (0 + 1) * 2 = (3 :: nat)" by simp_all
  have "sb_pixels slab ! 14 = delivered_pixel (\<lambda>c. word_of_nat (c ! 2)) (\<lambda>c. of_bool (c ! 0 = 1)) example_image True [6, 6, 3]"
    using ReadSlab_delivers_pixels [OF example_source_pixels ok slab [unfolded example_slab_def] run lt] unfolding stride req plan at by (rule conjunct2)
  then show ?thesis using slab stride px by auto
qed

theorem plane_pass_reads_each_sample_once_witness:
  "(\<exists>r. Whole example_source (example_options 1000) example_pass (\<lambda>_ w. (True, w)) (\<lambda>_ _ w. w) (empty_walk, ()) = Some r) \<and>
   mset (concat (map (\<lambda>(f, slab). slab_points slab) (pass_slabs example_pass 0 (pass_channels example_pass)))) =
     mset (List.product (List.product [0] [0, 9]) [0, 1])"
proof
  have pos: "0 < pp_u_length (example_plan 9 1000)" "0 < pp_v_length (example_plan 9 1000)" by (simp_all add: example_lengths)
  have ok: "plan_ok (example_plan 9 1000)" by (rule example_plan_ok) simp
  note once = plane_pass_reads_each_sample_once [OF ok pos example_pass_def, of example_source "example_options 1000" "\<lambda>_ w. (True, w)" "\<lambda>_ _ w. w" empty_walk "()"]
  have "samples_of (pp_v_length (example_plan 9 1000)) (pp_sample (example_plan 9 1000)) = [0]"
    "samples_of (pp_u_length (example_plan 9 1000)) (pp_sample (example_plan 9 1000)) = [0, 9]" "[0..<pass_channels example_pass] = [0, 1]"
    by code_simp+
  then show "mset (concat (map (\<lambda>(f, slab). slab_points slab) (pass_slabs example_pass 0 (pass_channels example_pass)))) =
     mset (List.product (List.product [0] [0, 9]) [0, 1])" using once by (simp only:)
  show "\<exists>r. Whole example_source (example_options 1000) example_pass (\<lambda>_ w. (True, w)) (\<lambda>_ _ w. w) (empty_walk, ()) = Some r"
    using once by blast
qed

theorem plane_pass_progress_reaches_end_witness:
  "\<exists>wk w. seq_all example_turn (pass_slabs example_pass 0 2) (start_walk empty_walk, ()) = (Inr (), (wk, w)) \<and> wk_chunks_done wk = 4 \<and>
    ChunksCovering (example_plan 9 1000) (max 1 (pp_layer_chunks (example_plan 9 1000))) 0 2 = 4"
proof -
  let ?plan = "example_plan 9 1000" and ?slabs = "pass_slabs example_pass 0 (pass_channels example_pass)"
  obtain wk w where run: "seq_all example_turn (take (length ?slabs) ?slabs) (start_walk empty_walk, ()) = (Inr (), (wk, w))"
  proof -
    have turn: "fst (example_turn example_turn_slab (start_walk empty_walk, ())) = Inr ()" by code_simp
    have slabs: "?slabs = [example_turn_slab]" unfolding example_lengths by (rule example_slabs)
    obtain wk w where "example_turn example_turn_slab (start_walk empty_walk, ()) = (Inr (), (wk, w))" using turn by (metis prod.collapse)
    then show ?thesis using that unfolding slabs by simp
  qed
  have small: "rows_of ?plan * columns_of ?plan * plan_ChunksTouched ?plan 0 (pass_channels example_pass) < two64" by code_simp
  have tot: "ChunksCovering ?plan (max 1 (pp_layer_chunks ?plan)) 0 (pass_channels example_pass) = 4" by code_simp
  have pos: "0 < pp_u_length ?plan" "0 < pp_v_length ?plan" by (simp_all add: example_lengths)
  have ok: "plan_ok ?plan" by (rule example_plan_ok) simp
  from plane_pass_progress_reaches_end [OF example_plan_def ok pos small example_pass_def tot [symmetric] order_refl run [unfolded example_turn_def]]
  have "wk_chunks_done wk = 4" by simp
  then show ?thesis using run tot by (simp add: example_lengths)
qed

theorem pass_blocks_tile_selection_witness:
  "\<exists>bs. InBlocks example_source (example_options 1000) example_pass 8 1 (\<lambda>_ w. w) (\<lambda>_ _ w. w) (\<lambda>_ _ _ _ w. (True, w)) (empty_walk, ()) =
      Some (seq_all (block_turn example_source (example_options 1000) example_pass (\<lambda>_ w. w) (\<lambda>_ _ w. w) (\<lambda>_ _ _ _ w. (True, w))) bs (empty_walk, ())) \<and>
    concat (map (\<lambda>(x, y). [x..<y]) bs) = [0..<2]"
proof -
  have "plan_ok (ps_plan example_pass)" using example_plan_ok [of 9 1000] by (simp add: example_pass_def PassOverPlane_def)
  from pass_blocks_tile_selection [OF this, of example_source "example_options 1000" 8 1 "\<lambda>_ w. w" "\<lambda>_ _ w. w" "\<lambda>_ _ _ _ w. (True, w)" "(empty_walk, ())"]
  show ?thesis unfolding example_lengths by blast
qed

text \<open>A hint below the depth of a chunk is raised to the chunk, not lowered: of chunks four channels deep, asking for one gives two at a stride of three.\<close>

lemma small_hint_raised_to_chunk:
  "EmitChannels strided_plan 1 8 1 = 1 \<and> AlignedSlabEnd strided_plan 0 (EmitChannels strided_plan 1 8 1) 20 = 2"
  by code_simp

end
