(* ===== verification/Work_Pool.thy ===== *)
theory Work_Pool
  imports Chunk_Blocks
begin

text \<open>
  The worker pool of \<open>src/work_pool.h\<close> and \<open>src/work_pool.cc\<close>, and the division of a read's rows among tasks with
  \<open>TaskSplit\<close> of \<open>src/reduce/task_split.h\<close>. The pool is a step relation: what one thread does under the pool's mutex is
  one step, and the steps of the calling thread and of the pool threads interleave in any order. Every state a pool
  can reach keeps an invariant, from which follow that a call hands out every task once, that nothing of a call is
  left running when it returns, and that a call returns.
\<close>

section \<open>Dividing rows among tasks\<close>

definition kLeastPixelsPerTask :: u64 where "kLeastPixelsPerTask = 16384"

definition PlanRowTasks :: "u64 \<Rightarrow> u64 \<Rightarrow> u64 \<Rightarrow> u64 \<Rightarrow> u64" where
  "PlanRowTasks row_pixels rows max_tasks least_pixels =
     (if rows = 0 \<or> row_pixels = 0 \<or> max_tasks \<le> 1 then if rows = 0 then 0 else 1
      else
        let pixels = mul64 row_pixels rows;
            affordable = max 1 (pixels div max 1 least_pixels)
        in min max_tasks (min affordable rows))"

definition TaskRows :: "u64 \<Rightarrow> u64 \<Rightarrow> u64 \<Rightarrow> u64 \<times> u64" where
  "TaskRows task tasks rows =
     (let per_task = sub64 (add64 rows tasks) 1 div tasks;
          first = mul64 task per_task
      in (min first rows, min (add64 first per_task) rows))"

text \<open>The split of a reduction: its pool's size, and the accumulators the budget affords.\<close>

definition TaskSplit_most :: "u64 \<Rightarrow> u64 \<Rightarrow> u64 \<Rightarrow> u64" where
  "TaskSplit_most pool_size budget_bytes accumulator_bytes = min pool_size (max 1 (budget_bytes div max 1 accumulator_bytes))"

definition TaskSplit_Tasks :: "u64 \<Rightarrow> u64 \<Rightarrow> u64 \<Rightarrow> u64" where
  "TaskSplit_Tasks most unit_pixels units = PlanRowTasks unit_pixels units most kLeastPixelsPerTask"

text \<open>The calls of the body a run of the split makes: the task with the units it takes.\<close>

definition TaskSplit_Run :: "u64 \<Rightarrow> u64 \<Rightarrow> (u64 \<times> u64 \<times> u64) list" where
  "TaskSplit_Run tasks units =
     (if tasks \<le> 1 then [(0, 0, units)]
      else concat (map (\<lambda>task. let share = TaskRows task tasks units
                               in if fst share = snd share then [] else [(task, fst share, snd share)]) [0..<tasks]))"

section \<open>The pool\<close>

text \<open>
  Where a pool thread is: waiting to be woken with the generation it last saw, about to claim a task of a body, in the
  body, done with its tasks but still counted, or gone. The calling thread takes tasks as worker 0.
\<close>

datatype 'b thread =
    Parked u64
  | Draining u64 'b
  | Executing u64 'b u64
  | Leaving u64
  | Stopped

datatype caller = Idle | CallDraining | CallExecuting u64 | CallWaiting

text \<open>
  The fields of the pool, and the history of the call in it: the tasks claimed with the worker of each, the tasks
  whose body has ended, the exceptions thrown, in order, and what the last call to end gave its caller.
\<close>

record ('b, 'e) pool =
  p_threads :: "'b thread list"
  p_caller :: caller
  p_body :: "'b option"
  p_tasks :: u64
  p_next :: u64
  p_running :: u64
  p_generation :: u64
  p_stopping :: bool
  p_failure :: "'e option"
  p_claims :: "(u64 \<times> nat) list"
  p_ended :: "u64 list"
  p_thrown :: "'e list"
  p_outcome :: "'e option option"

definition WorkPool_size :: "('b, 'e) pool \<Rightarrow> nat" where
  "WorkPool_size p = (if p_threads p = [] then 1 else length (p_threads p) + 1)"

definition WorkPool_init :: "u64 \<Rightarrow> u64 \<Rightarrow> ('b, 'e) pool" where
  "WorkPool_init hardware threads =
     (let threads = (if threads = 0 then if 0 < hardware then hardware else 1 else threads)
      in \<lparr>p_threads = replicate (threads - 1) (Parked 0), p_caller = Idle, p_body = None, p_tasks = 0, p_next = 0,
          p_running = 0, p_generation = 0, p_stopping = False, p_failure = None,
          p_claims = [], p_ended = [], p_thrown = [], p_outcome = None\<rparr>)"

text \<open>What is done under the mutex: claiming a task, keeping an exception, opening and closing a call.\<close>

definition take_task :: "nat \<Rightarrow> ('b, 'e) pool \<Rightarrow> ('b, 'e) pool" where
  "take_task worker p = p \<lparr>p_next := add64 (p_next p) 1, p_claims := p_claims p @ [(p_next p, worker)]\<rparr>"

definition keep_failure :: "'e \<Rightarrow> ('b, 'e) pool \<Rightarrow> ('b, 'e) pool" where
  "keep_failure e p =
     p \<lparr>p_failure := (case p_failure p of None \<Rightarrow> Some e | Some f \<Rightarrow> Some f), p_next := p_tasks p, p_thrown := p_thrown p @ [e]\<rparr>"

definition end_task :: "u64 \<Rightarrow> ('b, 'e) pool \<Rightarrow> ('b, 'e) pool" where
  "end_task task p = p \<lparr>p_ended := p_ended p @ [task]\<rparr>"

definition open_call :: "'b \<Rightarrow> u64 \<Rightarrow> ('b, 'e) pool \<Rightarrow> ('b, 'e) pool" where
  "open_call body tasks p =
     p \<lparr>p_body := Some body, p_tasks := tasks, p_next := 0, p_running := length (p_threads p),
        p_generation := add64 (p_generation p) 1, p_caller := CallDraining,
        p_claims := [], p_ended := [], p_thrown := []\<rparr>"

definition close_call :: "('b, 'e) pool \<Rightarrow> ('b, 'e) pool" where
  "close_call p = p \<lparr>p_body := None, p_tasks := 0, p_failure := None, p_caller := Idle, p_outcome := Some (p_failure p)\<rparr>"

abbreviation set_thread :: "nat \<Rightarrow> 'b thread \<Rightarrow> ('b, 'e) pool \<Rightarrow> ('b, 'e) pool" where
  "set_thread i t p \<equiv> p \<lparr>p_threads := (p_threads p)[i := t]\<rparr>"

text \<open>
  The steps of a call in progress: the calling thread's and the pool threads'. A body may return or throw anything.
\<close>

inductive call_step :: "('b, 'e) pool \<Rightarrow> ('b, 'e) pool \<Rightarrow> bool" where
  caller_claims: "p_caller p = CallDraining \<Longrightarrow> p_next p < p_tasks p \<Longrightarrow>
     call_step p (take_task 0 p \<lparr>p_caller := CallExecuting (p_next p)\<rparr>)"
| caller_drained: "p_caller p = CallDraining \<Longrightarrow> p_tasks p \<le> p_next p \<Longrightarrow> call_step p (p \<lparr>p_caller := CallWaiting\<rparr>)"
| caller_returns: "p_caller p = CallExecuting task \<Longrightarrow> call_step p (end_task task p \<lparr>p_caller := CallDraining\<rparr>)"
| caller_throws: "p_caller p = CallExecuting task \<Longrightarrow> call_step p (keep_failure e (end_task task p) \<lparr>p_caller := CallWaiting\<rparr>)"
| caller_leaves: "p_caller p = CallWaiting \<Longrightarrow> p_running p = 0 \<Longrightarrow> call_step p (close_call p)"
| worker_wakes: "i < length (p_threads p) \<Longrightarrow> p_threads p ! i = Parked seen \<Longrightarrow> \<not> p_stopping p \<Longrightarrow> p_generation p \<noteq> seen \<Longrightarrow>
     p_body p = Some body \<Longrightarrow> call_step p (set_thread i (Draining (p_generation p) body) p)"
| worker_claims: "i < length (p_threads p) \<Longrightarrow> p_threads p ! i = Draining seen body \<Longrightarrow> p_next p < p_tasks p \<Longrightarrow>
     call_step p (set_thread i (Executing seen body (p_next p)) (take_task (i + 1) p))"
| worker_drained: "i < length (p_threads p) \<Longrightarrow> p_threads p ! i = Draining seen body \<Longrightarrow> p_tasks p \<le> p_next p \<Longrightarrow>
     call_step p (set_thread i (Leaving seen) p)"
| worker_returns: "i < length (p_threads p) \<Longrightarrow> p_threads p ! i = Executing seen body task \<Longrightarrow>
     call_step p (set_thread i (Draining seen body) (end_task task p))"
| worker_throws: "i < length (p_threads p) \<Longrightarrow> p_threads p ! i = Executing seen body task \<Longrightarrow>
     call_step p (set_thread i (Leaving seen) (keep_failure e (end_task task p)))"
| worker_leaves: "i < length (p_threads p) \<Longrightarrow> p_threads p ! i = Leaving seen \<Longrightarrow>
     call_step p (set_thread i (Parked seen) p \<lparr>p_running := sub64 (p_running p) 1\<rparr>)"

text \<open>
  A pool between calls: a call that goes to the pool, and the pool being destroyed, which no call may overlap, and
  which ends every thread.
\<close>

inductive pool_step :: "('b, 'e) pool \<Rightarrow> ('b, 'e) pool \<Rightarrow> bool" where
  in_call: "call_step p p' \<Longrightarrow> pool_step p p'"
| call: "p_caller p = Idle \<Longrightarrow> \<not> p_stopping p \<Longrightarrow> p_threads p \<noteq> [] \<Longrightarrow> 1 < tasks \<Longrightarrow> tasks < two64 \<Longrightarrow>
     pool_step p (open_call body tasks p)"
| stop: "p_caller p = Idle \<Longrightarrow> pool_step p (p \<lparr>p_stopping := True\<rparr>)"
| worker_stops: "i < length (p_threads p) \<Longrightarrow> p_threads p ! i = Parked seen \<Longrightarrow> p_stopping p \<Longrightarrow>
     pool_step p (set_thread i Stopped p)"

inductive_cases call_stepE: "call_step p p'"
inductive_cases pool_stepE: "pool_step p p'"

inductive pool_reachable :: "u64 \<Rightarrow> u64 \<Rightarrow> ('b, 'e) pool \<Rightarrow> bool" for hardware threads where
  start: "pool_reachable hardware threads (WorkPool_init hardware threads)"
| step: "pool_reachable hardware threads p \<Longrightarrow> pool_step p p' \<Longrightarrow> pool_reachable hardware threads p'"

text \<open>
  A call that does not go to the pool, because there is one task or nobody to wake: the tasks in turn on the calling
  thread, up to the first that throws. A body acts on the world and may throw.
\<close>

fun run_inline :: "(u64 \<Rightarrow> nat \<Rightarrow> 'w \<Rightarrow> 'e option \<times> 'w) \<Rightarrow> u64 list \<Rightarrow> 'w \<Rightarrow> 'e option \<times> 'w" where
  "run_inline body [] w = (None, w)"
| "run_inline body (task # tasks) w =
     (case body task 0 w of
        (Some e, w') \<Rightarrow> (Some e, w')
      | (None, w') \<Rightarrow> run_inline body tasks w')"

lemma run_inline_append:
  "run_inline body (ts @ us) w =
     (case run_inline body ts w of (Some e, w') \<Rightarrow> (Some e, w') | (None, w') \<Rightarrow> run_inline body us w')"
  by (induction ts arbitrary: w) (auto split: prod.splits option.splits)

text \<open>An inline call that returns normally ran every task once, in order, as worker 0; one that throws ran a prefix.\<close>

lemma run_inline_ran:
  "run_inline (\<lambda>task worker log. (throws task, log @ [(task, worker)])) ts log =
     (case List.find (\<lambda>task. throws task \<noteq> None) ts of
        None \<Rightarrow> (None, log @ map (\<lambda>task. (task, 0)) ts)
      | Some task \<Rightarrow> (throws task, log @ map (\<lambda>task. (task, 0)) (takeWhile (\<lambda>task. throws task = None) ts @ [task])))"
  by (induction ts arbitrary: log) (auto split: option.splits)

section \<open>The invariant\<close>

text \<open>Whether a pool thread still has to leave the call of a generation, and what it may be doing of it.\<close>

fun unfinished :: "u64 \<Rightarrow> 'b thread \<Rightarrow> bool" where
  "unfinished gen (Parked seen) \<longleftrightarrow> seen \<noteq> gen"
| "unfinished gen Stopped \<longleftrightarrow> False"
| "unfinished gen _ \<longleftrightarrow> True"

fun thread_ok :: "u64 \<Rightarrow> 'b \<Rightarrow> 'b thread \<Rightarrow> bool" where
  "thread_ok gen body (Parked seen) \<longleftrightarrow> True"
| "thread_ok gen body (Draining seen b) \<longleftrightarrow> seen = gen \<and> b = body"
| "thread_ok gen body (Executing seen b task) \<longleftrightarrow> seen = gen \<and> b = body"
| "thread_ok gen body (Leaving seen) \<longleftrightarrow> seen = gen"
| "thread_ok gen body Stopped \<longleftrightarrow> False"

text \<open>The worker is in the body with the task.\<close>

definition executes :: "('b, 'e) pool \<Rightarrow> nat \<Rightarrow> u64 \<Rightarrow> bool" where
  "executes p w task \<longleftrightarrow>
     (case w of
        0 \<Rightarrow> p_caller p = CallExecuting task
      | Suc i \<Rightarrow> i < length (p_threads p) \<and> (\<exists>seen body. p_threads p ! i = Executing seen body task))"

text \<open>
  Between calls the pool is at rest: nobody is counted, every thread has seen the last generation, and no body or
  exception of an old call is kept.
\<close>

definition rest_inv :: "('b, 'e) pool \<Rightarrow> bool" where
  "rest_inv p \<longleftrightarrow> p_running p = 0 \<and> p_body p = None \<and> p_tasks p = 0 \<and> p_failure p = None \<and>
     (\<forall>t \<in> set (p_threads p). t = Parked (p_generation p) \<or> p_stopping p \<and> t = Stopped)"

text \<open>The tasks of a call: claimed in order, each by one worker, each in its body or ended.\<close>

definition tasks_inv :: "('b, 'e) pool \<Rightarrow> bool" where
  "tasks_inv p \<longleftrightarrow>
     (\<exists>m \<le> p_tasks p. map fst (p_claims p) = [0..<m] \<and> (p_failure p = None \<longrightarrow> p_next p = m)) \<and>
     p_next p \<le> p_tasks p \<and> (p_failure p \<noteq> None \<longrightarrow> p_next p = p_tasks p) \<and>
     p_failure p = (case p_thrown p of [] \<Rightarrow> None | e # _ \<Rightarrow> Some e) \<and>
     (\<forall>(task, w) \<in> set (p_claims p). task \<in> set (p_ended p) \<or> executes p w task) \<and>
     (\<forall>w task. executes p w task \<longrightarrow> (task, w) \<in> set (p_claims p) \<and> task \<notin> set (p_ended p)) \<and>
     distinct (p_ended p) \<and> set (p_ended p) \<subseteq> fst ` set (p_claims p)"

definition call_inv :: "('b, 'e) pool \<Rightarrow> bool" where
  "call_inv p \<longleftrightarrow> \<not> p_stopping p \<and> p_tasks p < two64 \<and>
     (\<exists>body. p_body p = Some body \<and> (\<forall>t \<in> set (p_threads p). thread_ok (p_generation p) body t)) \<and>
     p_running p = length (filter (unfinished (p_generation p)) (p_threads p)) \<and>
     (p_caller p = CallWaiting \<longrightarrow> p_next p = p_tasks p) \<and> tasks_inv p"

definition pool_inv :: "('b, 'e) pool \<Rightarrow> bool" where
  "pool_inv p \<longleftrightarrow> p_generation p < two64 \<and> length (p_threads p) < two64 \<and> (if p_caller p = Idle then rest_inv p else call_inv p)"

lemma executes_0 [simp]: "executes p 0 task \<longleftrightarrow> p_caller p = CallExecuting task"
  by (simp add: executes_def)

lemma executes_Suc [simp]:
  "executes p (Suc i) task \<longleftrightarrow> i < length (p_threads p) \<and> (\<exists>seen body. p_threads p ! i = Executing seen body task)"
  by (simp add: executes_def)

text \<open>One thread changing changes the count by what it counted for before and after.\<close>

lemma filter_length_update:
  "i < length xs \<Longrightarrow>
   length (filter P (xs[i := x])) + of_bool (P (xs ! i)) = length (filter P xs) + (of_bool (P x) :: nat)"
proof (induction xs arbitrary: i)
  case (Cons y ys)
  then show ?case by (cases i) auto
qed simp

lemma unfinished_update:
  assumes "i < length ts" and "unfinished gen t = unfinished gen (ts ! i)"
  shows "length (filter (unfinished gen) (ts[i := t])) = length (filter (unfinished gen) ts)"
  using filter_length_update [OF assms(1), of "unfinished gen" t] assms(2) by simp

subsection \<open>What the steps do to the tasks\<close>

lemma tasks_invD:
  assumes "tasks_inv p"
  shows "\<exists>m \<le> p_tasks p. map fst (p_claims p) = [0..<m] \<and> (p_failure p = None \<longrightarrow> p_next p = m)"
    and "p_next p \<le> p_tasks p" and "p_failure p \<noteq> None \<longrightarrow> p_next p = p_tasks p"
    and "p_failure p = (case p_thrown p of [] \<Rightarrow> None | e # _ \<Rightarrow> Some e)"
    and "\<forall>(task, w) \<in> set (p_claims p). task \<in> set (p_ended p) \<or> executes p w task"
    and "\<forall>w task. executes p w task \<longrightarrow> (task, w) \<in> set (p_claims p) \<and> task \<notin> set (p_ended p)"
    and "distinct (p_ended p)" and "set (p_ended p) \<subseteq> fst ` set (p_claims p)"
  using assms unfolding tasks_inv_def by - (elim conjE, assumption)+

lemma claims_function:
  "map fst claims = [0..<m] \<Longrightarrow> (task, w) \<in> set claims \<Longrightarrow> (task, w') \<in> set claims \<Longrightarrow> w = w'"
  by (metis distinct_map distinct_upt eq_key_imp_eq_value)

lemma tasks_inv_same:
  assumes "tasks_inv p" and "p_tasks p' = p_tasks p" "p_next p' = p_next p" "p_claims p' = p_claims p" "p_failure p' = p_failure p"
    "p_thrown p' = p_thrown p" "p_ended p' = p_ended p" and "\<And>w task. executes p' w task = executes p w task"
  shows "tasks_inv p'"
  using assms(1) unfolding tasks_inv_def assms(2-) .

lemma tasks_inv_claim:
  assumes inv: "tasks_inv p" and "p_next p < p_tasks p" and "p_tasks p < two64"
    and "p_tasks p' = p_tasks p" "p_next p' = add64 (p_next p) 1" "p_claims p' = p_claims p @ [(p_next p, w)]"
    "p_failure p' = p_failure p" "p_thrown p' = p_thrown p" "p_ended p' = p_ended p"
    and ex: "\<And>w' task. executes p' w' task \<longleftrightarrow> (if w' = w then task = p_next p else executes p w' task)"
    and idle: "\<And>task. \<not> executes p w task"
  shows "tasks_inv p'"
proof -
  have none: "p_failure p = None" using inv assms(2) by (auto simp: tasks_inv_def)
  then have claims: "map fst (p_claims p) = [0..<p_next p]" using inv by (auto simp: tasks_inv_def)
  then have fresh: "p_next p \<notin> fst ` set (p_claims p)" by (metis atLeastLessThan_iff less_irrefl list.set_map set_upt)
  have exact: "add64 (p_next p) 1 = p_next p + 1" using assms(2,3) by (intro add64_exact) linarith
  have "\<exists>m \<le> p_tasks p. map fst (p_claims p @ [(p_next p, w)]) = [0..<m] \<and> p_next p + 1 = m"
    using claims assms(2) by (intro exI [of _ "p_next p + 1"]) simp
  moreover have "\<forall>(task, w') \<in> set (p_claims p @ [(p_next p, w)]). task \<in> set (p_ended p) \<or> executes p' w' task"
    using inv ex idle by (auto simp: tasks_inv_def)
  moreover have "\<forall>w' task. executes p' w' task \<longrightarrow> (task, w') \<in> set (p_claims p @ [(p_next p, w)]) \<and> task \<notin> set (p_ended p)"
    using inv ex fresh by (auto simp: tasks_inv_def)
  ultimately show ?thesis using inv assms(2) none unfolding tasks_inv_def assms(4-9) exact by auto
qed

lemma tasks_inv_end:
  assumes inv: "tasks_inv p" and "executes p w task"
    and "p_tasks p' = p_tasks p" "p_claims p' = p_claims p" "p_ended p' = p_ended p @ [task]"
    and ex: "\<And>w' t. executes p' w' t \<longleftrightarrow> w' \<noteq> w \<and> executes p w' t"
    and one: "\<And>t. executes p w t \<Longrightarrow> t = task"
    and fields: "p_next p' = p_next p \<and> p_failure p' = p_failure p \<and> p_thrown p' = p_thrown p \<or>
      p_next p' = p_tasks p \<and> p_failure p' = (case p_failure p of None \<Rightarrow> Some e | Some f \<Rightarrow> Some f) \<and> p_thrown p' = p_thrown p @ [e]"
  shows "tasks_inv p'"
proof -
  have "\<exists>m \<le> p_tasks p. map fst (p_claims p) = [0..<m] \<and> (p_failure p = None \<longrightarrow> p_next p = m)"
    by (rule tasks_invD(1) [OF inv])
  then obtain m where m: "m \<le> p_tasks p" "map fst (p_claims p) = [0..<m]" "p_failure p = None \<longrightarrow> p_next p = m"
    by (elim exE conjE) (rule that)
  have task: "(task, w) \<in> set (p_claims p)" "task \<notin> set (p_ended p)" using tasks_invD(6) [OF inv] assms(2) by blast+
  have others: "t \<noteq> task" if "w' \<noteq> w" "executes p w' t" for w' t
  proof
    assume "t = task"
    moreover have "(t, w') \<in> set (p_claims p)" using tasks_invD(6) [OF inv] that(2) by blast
    ultimately show False using claims_function [OF m(2) task(1)] that(1) by blast
  qed
  have claimed: "t \<in> set (p_ended p @ [task]) \<or> executes p' w' t" if c: "(t, w') \<in> set (p_claims p)" for t w'
  proof (cases "t \<in> set (p_ended p)")
    case False
    then have "executes p w' t" using tasks_invD(5) [OF inv] c by auto
    then show ?thesis using ex one by (cases "w' = w") auto
  qed simp
  have running: "(t, w') \<in> set (p_claims p) \<and> t \<notin> set (p_ended p @ [task])" if "executes p' w' t" for w' t
    using that ex tasks_invD(6) [OF inv] others [of w' t] by auto
  have ended: "distinct (p_ended p @ [task])" "set (p_ended p @ [task]) \<subseteq> fst ` set (p_claims p)"
    using tasks_invD(7,8) [OF inv] task by force+
  have failing: "p_next p' \<le> p_tasks p \<and> (p_failure p' \<noteq> None \<longrightarrow> p_next p' = p_tasks p) \<and> (p_failure p' = None \<longrightarrow> p_next p' = m) \<and>
      p_failure p' = (case p_thrown p' of [] \<Rightarrow> None | e # _ \<Rightarrow> Some e)"
    using fields tasks_invD(2,3,4) [OF inv] m(3) by (auto split: list.splits option.splits)
  show ?thesis unfolding tasks_inv_def assms(3-5)
  proof (intro conjI)
    show "\<exists>m \<le> p_tasks p. map fst (p_claims p) = [0..<m] \<and> (p_failure p' = None \<longrightarrow> p_next p' = m)"
      by (intro exI [of _ m] conjI m(1,2) failing [THEN conjunct2, THEN conjunct2, THEN conjunct1])
    show "\<forall>(t, w') \<in> set (p_claims p). t \<in> set (p_ended p @ [task]) \<or> executes p' w' t" using claimed by blast
    show "\<forall>w' t. executes p' w' t \<longrightarrow> (t, w') \<in> set (p_claims p) \<and> t \<notin> set (p_ended p @ [task])" using running by blast
  qed (rule ended failing [THEN conjunct1] failing [THEN conjunct2, THEN conjunct1] failing [THEN conjunct2, THEN conjunct2, THEN conjunct2])+
qed

subsection \<open>Every step keeps the invariant\<close>

lemma pool_inv_call:
  assumes "pool_inv p" and "p_caller p = Idle" and "\<not> p_stopping p" and "tasks < two64"
  shows "pool_inv (open_call body tasks p)"
proof -
  have rest: "rest_inv p" and gen: "p_generation p < two64" using assms(1,2) by (auto simp: pool_inv_def)
  have parked: "t = Parked (p_generation p)" if "t \<in> set (p_threads p)" for t using rest assms(3) that by (auto simp: rest_inv_def)
  have new: "add64 (p_generation p) 1 \<noteq> p_generation p"
  proof (cases "p_generation p + 1 < two64")
    case False
    then have "p_generation p = two64 - 1" using gen by simp
    then show ?thesis by (simp add: add64_def)
  qed (simp add: add64_exact)
  have "unfinished (add64 (p_generation p) 1) t" if "t \<in> set (p_threads p)" for t using parked [OF that] new by simp
  then have "filter (unfinished (add64 (p_generation p) 1)) (p_threads p) = p_threads p" by (intro filter_True) blast
  moreover have "\<not> executes (open_call body tasks p) w task" for w task
    using parked by (cases w) (fastforce simp: open_call_def dest: nth_mem)+
  then have "tasks_inv (open_call body tasks p)" using rest by (simp add: tasks_inv_def) (simp add: open_call_def rest_inv_def)
  moreover have "thread_ok gen body t" if "t \<in> set (p_threads p)" for t gen using parked [OF that] by simp
  ultimately show ?thesis using assms(1,3,4) by (simp add: pool_inv_def call_inv_def) (simp add: open_call_def)
qed

lemma pool_inv_close:
  assumes "pool_inv p" and "p_caller p = CallWaiting" and "p_running p = 0"
  shows "pool_inv (close_call p)"
    and "p_failure p = None \<Longrightarrow> map fst (p_claims p) = [0..<p_tasks p]"
    and "set (p_ended p) = fst ` set (p_claims p)" and "distinct (p_ended p)" and "\<not> executes p w task"
proof -
  have inv: "call_inv p" using assms(1,2) by (simp add: pool_inv_def)
  obtain body where ok: "\<forall>t \<in> set (p_threads p). thread_ok (p_generation p) body t" using inv by (auto simp: call_inv_def)
  have "filter (unfinished (p_generation p)) (p_threads p) = []" using inv assms(3) by (simp add: call_inv_def)
  then have parked: "t = Parked (p_generation p)" if "t \<in> set (p_threads p)" for t
    using that ok by (cases t) (auto simp: filter_empty_conv)
  then show "pool_inv (close_call p)" using assms(1,3) by (simp add: pool_inv_def close_call_def rest_inv_def)
  show idle: "\<not> executes p w task" for w task using parked assms(2) by (cases w) (fastforce dest: nth_mem)+
  have t: "tasks_inv p" using inv by (simp add: call_inv_def)
  show "map fst (p_claims p) = [0..<p_tasks p]" if "p_failure p = None"
    using t that inv assms(2) by (auto simp: tasks_inv_def call_inv_def)
  show "set (p_ended p) = fst ` set (p_claims p)" "distinct (p_ended p)" using t idle by (force simp: tasks_inv_def)+
qed

lemma call_inv_thread:
  assumes "call_inv p" and "i < length (p_threads p)" and "p_threads p ! i = t"
  obtains body where "p_body p = Some body" and "thread_ok (p_generation p) body t"
  using assms unfolding call_inv_def by (metis nth_mem)

text \<open>A pool thread moving on inside a call.\<close>

lemma call_inv_move:
  assumes inv: "call_inv p" and i: "i < length (p_threads p)" and "p_body p = Some body" and "thread_ok (p_generation p) body t"
    and "unfinished (p_generation p) t = unfinished (p_generation p) (p_threads p ! i)"
    and "p_threads p' = (p_threads p)[i := t]" "p_caller p' = p_caller p" "p_body p' = p_body p" "p_tasks p' = p_tasks p"
    "p_running p' = p_running p" "p_generation p' = p_generation p" "p_stopping p' = p_stopping p"
    and "p_caller p = CallWaiting \<longrightarrow> p_next p' = p_tasks p" and "tasks_inv p'"
  shows "call_inv p'"
proof -
  have "\<forall>t \<in> set (p_threads p'). thread_ok (p_generation p) body t"
    using inv assms(3,4,6) set_update_subset_insert [of "p_threads p" i t] by (auto simp: call_inv_def)
  then show ?thesis using inv assms unfinished_update [OF i assms(5)] by (auto simp: call_inv_def)
qed

lemma executes_move:
  assumes "p_threads p' = (p_threads p)[i := t]" and "i < length (p_threads p)" and "p_caller p' = p_caller p"
  shows "executes p' w task \<longleftrightarrow> (if w = i + 1 then \<exists>seen body. t = Executing seen body task else executes p w task)"
  using assms by (cases w) (auto simp: nth_list_update)

lemma executes_caller:
  assumes "p_threads p' = p_threads p"
  shows "executes p' w task \<longleftrightarrow> (if w = 0 then p_caller p' = CallExecuting task else executes p w task)"
  using assms by (cases w) auto

lemmas step_defs = take_task_def keep_failure_def end_task_def close_call_def

text \<open>A step of the calling thread inside a call: no pool thread moves.\<close>

lemma call_inv_caller:
  assumes inv: "call_inv p" and "p_threads p' = p_threads p" "p_body p' = p_body p" "p_tasks p' = p_tasks p"
    "p_running p' = p_running p" "p_generation p' = p_generation p" "p_stopping p' = p_stopping p"
    and "p_caller p' = CallWaiting \<longrightarrow> p_next p' = p_tasks p" and "tasks_inv p'"
  shows "call_inv p'"
  using assms by (auto simp: call_inv_def)

lemma call_step_caller_inv:
  assumes "call_inv p" and "p_caller p \<noteq> Idle"
  shows "p_caller p = CallDraining \<Longrightarrow> p_next p < p_tasks p \<Longrightarrow> call_inv (take_task 0 p \<lparr>p_caller := CallExecuting (p_next p)\<rparr>)"
    and "p_caller p = CallDraining \<Longrightarrow> p_tasks p \<le> p_next p \<Longrightarrow> call_inv (p \<lparr>p_caller := CallWaiting\<rparr>)"
    and "p_caller p = CallExecuting task \<Longrightarrow> call_inv (end_task task p \<lparr>p_caller := CallDraining\<rparr>)"
    and "p_caller p = CallExecuting task \<Longrightarrow> call_inv (keep_failure e (end_task task p) \<lparr>p_caller := CallWaiting\<rparr>)"
proof -
  have t: "tasks_inv p" and small: "p_tasks p < two64" using assms(1) by (auto simp: call_inv_def)
  show "call_inv (take_task 0 p \<lparr>p_caller := CallExecuting (p_next p)\<rparr>)" if "p_caller p = CallDraining" "p_next p < p_tasks p"
    by (rule call_inv_caller [OF assms(1)]; (rule tasks_inv_claim [OF t that(2) small])?)
      (auto simp: step_defs that executes_def split: nat.splits)
  show "call_inv (p \<lparr>p_caller := CallWaiting\<rparr>)" if "p_caller p = CallDraining" "p_tasks p \<le> p_next p"
    by (rule call_inv_caller [OF assms(1)]; (rule tasks_inv_same [OF t])?)
      (use t that in \<open>auto simp: tasks_inv_def executes_def split: nat.splits\<close>)
  show "call_inv (end_task task p \<lparr>p_caller := CallDraining\<rparr>)" if "p_caller p = CallExecuting task"
    by (rule call_inv_caller [OF assms(1)]; (rule tasks_inv_end [OF t, of 0 task])?)
      (auto simp: step_defs that executes_def split: nat.splits)
  show "call_inv (keep_failure e (end_task task p) \<lparr>p_caller := CallWaiting\<rparr>)" if "p_caller p = CallExecuting task"
    by (rule call_inv_caller [OF assms(1)]; (rule tasks_inv_end [OF t, of 0 task _ e])?)
      (auto simp: step_defs that executes_def split: nat.splits)
qed

lemma call_step_worker_inv:
  assumes "call_inv p" and i: "i < length (p_threads p)"
  shows "p_threads p ! i = Parked seen \<Longrightarrow> p_generation p \<noteq> seen \<Longrightarrow> p_body p = Some body \<Longrightarrow> call_inv (set_thread i (Draining (p_generation p) body) p)"
    and "p_threads p ! i = Draining seen body \<Longrightarrow> p_next p < p_tasks p \<Longrightarrow> call_inv (set_thread i (Executing seen body (p_next p)) (take_task (i + 1) p))"
    and "p_threads p ! i = Draining seen body \<Longrightarrow> p_tasks p \<le> p_next p \<Longrightarrow> call_inv (set_thread i (Leaving seen) p)"
    and "p_threads p ! i = Executing seen body task \<Longrightarrow> call_inv (set_thread i (Draining seen body) (end_task task p))"
    and "p_threads p ! i = Executing seen body task \<Longrightarrow> call_inv (set_thread i (Leaving seen) (keep_failure e (end_task task p)))"
proof -
  have t: "tasks_inv p" and small: "p_tasks p < two64" and wait: "p_caller p = CallWaiting \<longrightarrow> p_next p = p_tasks p"
    using assms(1) by (auto simp: call_inv_def)
  have ok: "p_body p = Some b \<Longrightarrow> thread_ok (p_generation p) b (p_threads p ! i)" for b using assms by (auto simp: call_inv_def)
  obtain b where b: "p_body p = Some b" using assms(1) by (auto simp: call_inv_def)
  show "call_inv (set_thread i (Draining (p_generation p) body) p)"
    if "p_threads p ! i = Parked seen" "p_generation p \<noteq> seen" "p_body p = Some body"
    by (rule call_inv_move [OF assms that(3)]; (rule tasks_inv_same [OF t])?)
      (use that i wait in \<open>auto simp: executes_move\<close>)
  show "call_inv (set_thread i (Executing seen body (p_next p)) (take_task (i + 1) p))"
    if "p_threads p ! i = Draining seen body" "p_next p < p_tasks p"
    by (rule call_inv_move [OF assms b]; (rule tasks_inv_claim [OF t that(2) small])?)
      (use that i wait ok [OF b] in \<open>auto simp: step_defs executes_move\<close>)
  show "call_inv (set_thread i (Leaving seen) p)" if "p_threads p ! i = Draining seen body" "p_tasks p \<le> p_next p"
    by (rule call_inv_move [OF assms b]; (rule tasks_inv_same [OF t])?)
      (use that i wait ok [OF b] in \<open>auto simp: executes_move\<close>)
  show "call_inv (set_thread i (Draining seen body) (end_task task p))" if "p_threads p ! i = Executing seen body task"
    by (rule call_inv_move [OF assms b]; (rule tasks_inv_end [OF t, of "i + 1" task])?)
      (use that i wait ok [OF b] in \<open>auto simp: step_defs executes_move\<close>)
  show "call_inv (set_thread i (Leaving seen) (keep_failure e (end_task task p)))" if "p_threads p ! i = Executing seen body task"
    by (rule call_inv_move [OF assms b]; (rule tasks_inv_end [OF t, of "i + 1" task _ e])?)
      (use that i wait ok [OF b] in \<open>auto simp: step_defs executes_move\<close>)
qed

lemma call_step_leave_inv:
  assumes "call_inv p" and i: "i < length (p_threads p)" and at: "p_threads p ! i = Leaving seen" and "length (p_threads p) < two64"
  shows "call_inv (set_thread i (Parked seen) p \<lparr>p_running := sub64 (p_running p) 1\<rparr>)"
proof -
  let ?p = "set_thread i (Parked seen) p \<lparr>p_running := sub64 (p_running p) 1\<rparr>"
  obtain body where body: "p_body p = Some body" "thread_ok (p_generation p) body (Leaving seen)"
    using call_inv_thread [OF assms(1) i at] by blast
  have count: "length (filter (unfinished (p_generation p)) ((p_threads p)[i := Parked seen])) + 1 = p_running p"
    using filter_length_update [OF i, of "unfinished (p_generation p)" "Parked seen"] assms(1) at body(2) by (simp add: call_inv_def)
  have "p_running p \<le> length (p_threads p)" using assms(1) by (simp add: call_inv_def)
  then have "sub64 (p_running p) 1 = length (filter (unfinished (p_generation p)) ((p_threads p)[i := Parked seen]))"
    using count assms(4) by (simp add: sub64_exact)
  moreover have "tasks_inv p" using assms(1) by (simp add: call_inv_def)
  then have "tasks_inv ?p" by (rule tasks_inv_same) (use i at in \<open>auto simp: executes_def nth_list_update split: nat.splits\<close>)
  moreover have "\<forall>t \<in> set ((p_threads p)[i := Parked seen]). thread_ok (p_generation p) body t"
    using assms(1) body set_update_subset_insert [of "p_threads p" i "Parked seen"] by (auto simp: call_inv_def)
  ultimately show ?thesis using assms(1) body(1) by (simp add: call_inv_def)
qed

lemma step_keeps_size: "call_step p p' \<Longrightarrow> p_generation p' = p_generation p \<and> length (p_threads p') = length (p_threads p)"
  by (induction rule: call_step.induct) (simp_all add: step_defs)

text \<open>At rest no step of a call can be taken.\<close>

lemma rest_no_step:
  assumes "rest_inv p" and "p_caller p = Idle"
  shows "\<not> call_step p p'"
proof
  have at: "p_threads p ! i = Parked (p_generation p) \<or> p_threads p ! i = Stopped" if "i < length (p_threads p)" for i
    using assms(1) that by (metis nth_mem rest_inv_def)
  assume "call_step p p'"
  then show False by (cases rule: call_step.cases) (use assms in \<open>auto simp: rest_inv_def dest: at\<close>)
qed

lemma pool_inv_call_step:
  assumes "pool_inv p" and "call_step p p'"
  shows "pool_inv p'"
proof -
  have busy: "p_caller p \<noteq> Idle" using assms rest_no_step [of p p'] by (auto simp: pool_inv_def)
  then have inv: "call_inv p" and size: "length (p_threads p) < two64" using assms(1) by (auto simp: pool_inv_def)
  have "call_inv p' \<and> p_caller p' \<noteq> Idle \<or> pool_inv p'" using assms(2)
  proof (cases rule: call_step.cases)
    case caller_leaves
    then show ?thesis using pool_inv_close(1) [OF assms(1)] by simp
  qed (use call_step_caller_inv [OF inv busy] call_step_worker_inv [OF inv] call_step_leave_inv [OF inv _ _ size] busy
       in \<open>auto simp: step_defs\<close>)
  then show ?thesis using assms step_keeps_size [OF assms(2)] by (auto simp: pool_inv_def)
qed

lemma pool_inv_rest: "pool_inv p \<Longrightarrow> p_caller p = Idle \<Longrightarrow> rest_inv p"
  and pool_inv_busy: "pool_inv p \<Longrightarrow> p_caller p \<noteq> Idle \<Longrightarrow> call_inv p"
  and call_inv_going: "call_inv p \<Longrightarrow> \<not> p_stopping p"
  by (simp_all add: pool_inv_def call_inv_def)

lemma rest_inv_stop:
  assumes "rest_inv p" and "ts = p_threads p \<or> ts = (p_threads p)[i := Stopped]"
  shows "rest_inv (p \<lparr>p_stopping := True, p_threads := ts\<rparr>)"
proof -
  have "t = Parked (p_generation p) \<or> t = Stopped" if "t \<in> set ts" for t
  proof -
    have "t \<in> set (p_threads p) \<or> t = Stopped" using assms(2) that set_update_subset_insert [of "p_threads p" i Stopped] by blast
    then show ?thesis using assms(1) unfolding rest_inv_def by blast
  qed
  then show ?thesis using assms(1) by (simp add: rest_inv_def)
qed

lemma pool_inv_step:
  assumes "pool_inv p" and "pool_step p p'"
  shows "pool_inv p'"
  using assms(2)
proof (cases rule: pool_step.cases)
  case in_call
  then show ?thesis by (rule pool_inv_call_step [OF assms(1)])
next
  case (call tasks body)
  then show ?thesis using pool_inv_call [OF assms(1) call(2,3,6)] by simp
next
  case stop
  have "rest_inv p'" using rest_inv_stop [OF pool_inv_rest [OF assms(1) stop(2)], of "p_threads p"] stop(1) by simp
  then show ?thesis using assms(1) stop by (simp add: pool_inv_def)
next
  case (worker_stops i seen)
  have idle: "p_caller p = Idle" using pool_inv_busy [OF assms(1)] call_inv_going worker_stops(4) by blast
  have "p' = p \<lparr>p_stopping := True, p_threads := (p_threads p)[i := Stopped]\<rparr>" using worker_stops(1,4) by simp
  then have "rest_inv p'" using rest_inv_stop [OF pool_inv_rest [OF assms(1) idle], of _ i] by simp
  then show ?thesis using assms(1) worker_stops(1) idle by (simp add: pool_inv_def)
qed

lemma pool_reachable_inv: "pool_reachable hardware threads p \<Longrightarrow> hardware < two64 \<Longrightarrow> threads < two64 \<Longrightarrow> pool_inv p"
proof (induction rule: pool_reachable.induct)
  case start
  then show ?case by (auto simp: pool_inv_def rest_inv_def WorkPool_init_def Let_def)
next
  case (step p p')
  then show ?case using pool_inv_step by blast
qed

section \<open>A call returns\<close>

fun thread_weight :: "u64 \<Rightarrow> 'b thread \<Rightarrow> nat" where
  "thread_weight gen (Parked seen) = (if seen \<noteq> gen then 4 else 0)"
| "thread_weight gen (Draining seen body) = 3"
| "thread_weight gen (Executing seen body task) = 4"
| "thread_weight gen (Leaving seen) = 1"
| "thread_weight gen Stopped = 0"

fun caller_weight :: "caller \<Rightarrow> nat" where
  "caller_weight Idle = 0"
| "caller_weight CallDraining = 3"
| "caller_weight (CallExecuting task) = 4"
| "caller_weight CallWaiting = 1"

definition call_measure :: "('b, 'e) pool \<Rightarrow> nat" where
  "call_measure p =
     2 * (p_tasks p - p_next p) + caller_weight (p_caller p) + sum_list (map (thread_weight (p_generation p)) (p_threads p))"

lemma sum_list_update_nat: "i < length xs \<Longrightarrow> sum_list (map f (xs[i := x])) + f (xs ! i) = sum_list (map f xs) + (f x :: nat)"
proof (induction xs arbitrary: i)
  case (Cons y ys)
  then show ?case by (cases i) auto
qed simp

lemma call_step_decreases:
  assumes "pool_inv p" and "call_step p p'"
  shows "call_measure p' < call_measure p"
proof -
  have busy: "p_caller p \<noteq> Idle" using assms rest_no_step [of p p'] by (auto simp: pool_inv_def)
  then have inv: "call_inv p" using assms(1) by (auto simp: pool_inv_def)
  have small: "p_next p \<le> p_tasks p" "p_tasks p < two64" using inv tasks_invD(2) by (auto simp: call_inv_def)
  have add: "add64 (p_next p) 1 = p_next p + 1" if "p_next p < p_tasks p" using that small by (intro add64_exact) linarith
  have gen: "seen = p_generation p" if "i < length (p_threads p)" "p_threads p ! i = Leaving seen" for i seen
    using call_inv_thread [OF inv that] by auto
  note moved = sum_list_update_nat [of _ "p_threads p" "thread_weight (p_generation p)"]
  from assms(2) show ?thesis
  proof (cases rule: call_step.cases)
    case (worker_wakes i seen body)
    then show ?thesis using moved [of i "Draining (p_generation p) body"] by (auto simp: call_measure_def)
  next
    case (worker_claims i seen body)
    then show ?thesis using moved [of i "Executing seen body (p_next p)"] add by (simp add: call_measure_def step_defs)
  next
    case (worker_drained i seen body)
    then show ?thesis using moved [of i "Leaving seen"] by (simp add: call_measure_def)
  next
    case (worker_returns i seen body task)
    then show ?thesis using moved [of i "Draining seen body"] by (simp add: call_measure_def step_defs)
  next
    case (worker_throws i seen body task e)
    then show ?thesis using moved [of i "Leaving seen"] by (simp add: call_measure_def step_defs)
  next
    case (worker_leaves i seen)
    then show ?thesis using moved [of i "Parked seen"] gen [of i seen] by (simp add: call_measure_def)
  qed (use add small in \<open>auto simp: call_measure_def step_defs\<close>)
qed

lemma call_progress:
  assumes "pool_inv p" and "p_caller p \<noteq> Idle"
  shows "\<exists>p'. call_step p p'"
proof -
  have inv: "call_inv p" using assms by (simp add: pool_inv_def)
  show ?thesis
  proof (cases "p_caller p")
    case CallDraining
    then show ?thesis using caller_claims caller_drained by (meson not_less)
  next
    case CallWaiting
    show ?thesis
    proof (cases "p_running p = 0")
      case False
      then obtain t where "t \<in> set (p_threads p)" "unfinished (p_generation p) t" using inv by (auto simp: call_inv_def filter_empty_conv)
      then obtain i where i: "i < length (p_threads p)" "unfinished (p_generation p) (p_threads p ! i)" by (metis in_set_conv_nth)
      obtain body where body: "p_body p = Some body" "thread_ok (p_generation p) body (p_threads p ! i)" "\<not> p_stopping p"
        using inv i(1) by (auto simp: call_inv_def)
      show ?thesis
      proof (cases "p_threads p ! i")
        case (Parked seen)
        then have "p_generation p \<noteq> seen" using i(2) by auto
        from worker_wakes [OF i(1) Parked body(3) this body(1)] show ?thesis by blast
      next
        case (Draining seen b)
        then show ?thesis using worker_claims [OF i(1)] worker_drained [OF i(1)] by (meson not_less)
      qed (use i worker_returns [OF i(1)] worker_leaves [OF i(1)] in \<open>auto\<close>)
    qed (use CallWaiting caller_leaves in blast)
  qed (use assms(2) caller_returns in blast)+
qed

section \<open>What a call promises\<close>

lemma tasks_inv_claimed:
  assumes "tasks_inv p" and "(task, w) \<in> set (p_claims p)"
  shows "task < p_tasks p" and "(task, w') \<in> set (p_claims p) \<Longrightarrow> w' = w"
proof -
  from tasks_invD(1) [OF assms(1)] obtain m where m: "m \<le> p_tasks p" "map fst (p_claims p) = [0..<m]" by blast
  have "task \<in> set (map fst (p_claims p))" using assms(2) by force
  then show "task < p_tasks p" using m by simp
  show "w' = w" if "(task, w') \<in> set (p_claims p)" using claims_function [OF m(2) assms(2) that] by simp
qed

lemma executes_worker:
  assumes "executes p w task"
  shows "w < WorkPool_size p"
  using assms by (cases w) (auto simp: WorkPool_size_def)

lemma executes_busy:
  assumes "pool_inv p" and "executes p w task"
  shows "tasks_inv p" and "(task, w) \<in> set (p_claims p)"
proof -
  have "p_caller p \<noteq> Idle"
  proof
    assume idle: "p_caller p = Idle"
    have "t = Parked (p_generation p) \<or> t = Stopped" if "t \<in> set (p_threads p)" for t
      using pool_inv_rest [OF assms(1) idle] that unfolding rest_inv_def by blast
    then show False using assms(2) idle by (cases w) (fastforce dest: nth_mem)+
  qed
  then show inv: "tasks_inv p" using pool_inv_busy [OF assms(1)] by (simp add: call_inv_def)
  show "(task, w) \<in> set (p_claims p)" using tasks_invD(6) [OF inv] assms(2) by blast
qed

lemma close_only:
  assumes "call_step p p'" and "p_caller p \<noteq> Idle" and "p_caller p' = Idle"
  shows "p' = close_call p \<and> p_caller p = CallWaiting \<and> p_running p = 0"
  using assms by (cases rule: call_step.cases) (simp_all add: step_defs)

lemma call_steps_inv: "(call_step ^^ n) p p' \<Longrightarrow> pool_inv p \<Longrightarrow> pool_inv p' \<and> n + call_measure p' \<le> call_measure p"
proof (induction n arbitrary: p')
  case (Suc n)
  then obtain q where q: "(call_step ^^ n) p q" "call_step q p'" by auto
  with Suc have "pool_inv q" "n + call_measure q \<le> call_measure p" by auto
  then show ?case using pool_inv_call_step [OF _ q(2)] call_step_decreases [OF _ q(2)] by fastforce
qed simp

lemma call_measure_le: "call_measure p \<le> 2 * p_tasks p + 4 * WorkPool_size p"
proof -
  have "thread_weight gen t \<le> 4" for gen and t :: "'a thread" by (cases t) auto
  then have "sum_list (map (thread_weight (p_generation p)) ts) \<le> 4 * length ts" for ts :: "'a thread list"
    by (induction ts) (auto intro: add_mono order_trans)
  from this [of "p_threads p"] have "sum_list (map (thread_weight (p_generation p)) (p_threads p)) \<le> 4 * length (p_threads p)" .
  moreover have "caller_weight (p_caller p) \<le> 4" by (cases "p_caller p") auto
  moreover have "length (p_threads p) + 1 \<le> WorkPool_size p" by (simp add: WorkPool_size_def)
  ultimately show ?thesis unfolding call_measure_def by linarith
qed

text \<open>
  Claim C18. Two threads of a pool are never in the body with the same task, whatever the interleaving: the task a
  worker runs is one of the call's, the worker's number is below the pool's size, so per-worker storage of that size
  is never shared, and another worker runs another task.
\<close>

theorem pool_workers_never_share:
  assumes "pool_reachable hardware threads p" and "hardware < two64" and "threads < two64" and "executes p w task"
  shows "w < WorkPool_size p \<and> task < p_tasks p \<and> (\<forall>w' task'. executes p w' task' \<and> w' \<noteq> w \<longrightarrow> task' \<noteq> task)"
proof -
  have inv: "pool_inv p" using pool_reachable_inv assms(1-3) by blast
  note claimed = executes_busy [OF inv assms(4)]
  have "task' \<noteq> task" if "executes p w' task'" "w' \<noteq> w" for w' task'
    using tasks_inv_claimed(2) [OF claimed] executes_busy(2) [OF inv that(1)] that(2) by blast
  then show ?thesis using executes_worker [OF assms(4)] tasks_inv_claimed(1) [OF claimed] by blast
qed

text \<open>
  Claim C19. What holds when a call returns: no thread is left in a body and every pool thread is parked, the first
  exception thrown is the one the caller is given, no task ran twice, and when nothing was thrown every task of the
  call ran to its end.
\<close>

theorem pool_call_completes:
  assumes "pool_reachable hardware threads p" and "hardware < two64" and "threads < two64"
    and "p_caller p \<noteq> Idle" and "call_step p p'" and "p_caller p' = Idle"
  shows "(\<forall>w task. \<not> executes p' w task) \<and> (\<forall>t \<in> set (p_threads p'). t = Parked (p_generation p')) \<and>
    p_outcome p' = Some (case p_thrown p of [] \<Rightarrow> None | e # _ \<Rightarrow> Some e) \<and> distinct (p_ended p') \<and>
    (p_thrown p = [] \<longrightarrow> set (p_ended p') = {..<p_tasks p})"
proof -
  have inv: "pool_inv p" using pool_reachable_inv assms(1-3) by blast
  note closes = close_only [OF assms(5,4,6)]
  note closed = pool_inv_close [OF inv closes [THEN conjunct2, THEN conjunct1] closes [THEN conjunct2, THEN conjunct2]]
  have tasks: "tasks_inv p" and going: "\<not> p_stopping p" using pool_inv_busy [OF inv assms(4)] by (auto simp: call_inv_def)
  have same: "p_threads p' = p_threads p" "p_ended p' = p_ended p" "p_generation p' = p_generation p" "p_outcome p' = Some (p_failure p)"
    "p_stopping p' = p_stopping p" using closes by (simp_all add: close_call_def)
  have rest: "rest_inv p'" using pool_inv_rest [OF closed(1)] closes assms(6) by simp
  have parked: "t = Parked (p_generation p')" if "t \<in> set (p_threads p')" for t
    using rest that going same unfolding rest_inv_def by blast
  have still: "\<not> executes p' w task" for w task using parked assms(6) by (cases w) (fastforce dest: nth_mem)+
  have all: "set (p_ended p) = {..<p_tasks p}" if "p_thrown p = []"
  proof -
    have "p_failure p = None" using tasks_invD(4) [OF tasks] that by simp
    then have "fst ` set (p_claims p) = {..<p_tasks p}" using closed(2) by (metis atLeast0LessThan list.set_map set_upt)
    then show ?thesis using closed(3) by simp
  qed
  have "p_outcome p' = Some (case p_thrown p of [] \<Rightarrow> None | e # _ \<Rightarrow> Some e)" using same(4) tasks_invD(4) [OF tasks] by simp
  then show ?thesis using still parked same(2) closed(4) all by (intro conjI ballI allI impI) simp_all
qed


section \<open>Rows of a read among its tasks\<close>

lemma PlanRowTasks_le: "1 \<le> most \<Longrightarrow> PlanRowTasks u n most least \<le> most \<and> (0 < n \<longrightarrow> 1 \<le> PlanRowTasks u n most least)"
  by (auto simp: PlanRowTasks_def Let_def)

text \<open>The rows of a task begin where those of the task before end, and the last task's end with the rows.\<close>

lemma TaskRows_exact:
  assumes "0 < tasks" and "task < tasks" and "rows + tasks < two64"
  shows "TaskRows task tasks rows =
     (min (task * ((rows + tasks - 1) div tasks)) rows, min ((task + 1) * ((rows + tasks - 1) div tasks)) rows)"
proof -
  let ?per = "(rows + tasks - 1) div tasks"
  have "(task + 1) * ?per \<le> tasks * ?per" using assms(2) by (intro mult_right_mono) auto
  also have "\<dots> \<le> rows + tasks - 1" using div_times_less_eq_dividend [of "rows + tasks - 1" tasks] by (simp only: mult.commute)
  finally have bound: "(task + 1) * ?per < two64" using assms(3) by linarith
  have "sub64 (add64 rows tasks) 1 = rows + tasks - 1" using assms by (simp add: add64_exact sub64_exact)
  moreover have "mul64 task ?per = task * ?per" using bound by (intro mul64_exact) (auto simp: algebra_simps)
  moreover have "add64 (task * ?per) ?per = (task + 1) * ?per" using bound by (subst add64_exact) (auto simp: algebra_simps)
  ultimately show ?thesis by (simp add: TaskRows_def Let_def)
qed

lemma TaskRows_prefix:
  assumes "0 < tasks" and "n \<le> tasks" and "rows + tasks < two64"
  shows "concat (map (\<lambda>task. [fst (TaskRows task tasks rows)..<snd (TaskRows task tasks rows)]) [0..<n]) =
    [0..<min (n * ((rows + tasks - 1) div tasks)) rows]"
  using assms(2)
proof (induction n)
  case (Suc n)
  let ?per = "(rows + tasks - 1) div tasks"
  have "min (n * ?per) rows \<le> min ((n + 1) * ?per) rows" by (simp add: min.coboundedI1)
  then have "[0..<min (n * ?per) rows] @ [min (n * ?per) rows..<min ((n + 1) * ?per) rows] = [0..<min ((n + 1) * ?per) rows]"
    by (metis le0 le_add_diff_inverse upt_add_eq_append)
  then show ?case using Suc TaskRows_exact [OF assms(1) _ assms(3), of n] by simp
qed simp

lemma TaskSplit_Run_units:
  assumes "units + tasks < two64"
  shows "concat (map (\<lambda>(task, first, last'). [first..<last']) (TaskSplit_Run tasks units)) = [0..<units]"
proof (cases "tasks \<le> 1")
  case False
  have skip: "concat (map (\<lambda>(task, first, last'). [first..<last'])
      (concat (map (\<lambda>task. let share = f task in if fst share = snd share then [] else [(task, fst share, snd share)]) ts))) =
    concat (map (\<lambda>task. [fst (f task)..<snd (f task)]) ts)" for f :: "u64 \<Rightarrow> u64 \<times> u64" and ts
    by (induction ts) (auto simp: Let_def split: prod.splits)
  have "units \<le> tasks * ((units + tasks - 1) div tasks)" using False dividend_less_times_div [of tasks "units + tasks - 1"] by simp
  then show ?thesis using False TaskRows_prefix [of tasks tasks units] assms by (simp add: TaskSplit_Run_def skip)
qed (simp add: TaskSplit_Run_def)

lemma TaskSplit_Run_tasks:
  shows "distinct (map fst (TaskSplit_Run tasks units))" and "call \<in> set (TaskSplit_Run tasks units) \<Longrightarrow> fst call < max 1 tasks"
proof -
  have "distinct (map fst (concat (map (\<lambda>task. let share = f task in if fst share = snd share then [] else [(task, fst share, snd share)]) [0..<n]))) \<and>
     set (map fst (concat (map (\<lambda>task. let share = f task in if fst share = snd share then [] else [(task, fst share, snd share)]) [0..<n]))) \<subseteq> {..<n}"
    for f :: "u64 \<Rightarrow> u64 \<times> u64" and n
    by (induction n) (auto simp: Let_def)
  then show "distinct (map fst (TaskSplit_Run tasks units))" by (simp add: TaskSplit_Run_def)
  show "call \<in> set (TaskSplit_Run tasks units) \<Longrightarrow> fst call < max 1 tasks"
    by (auto simp: TaskSplit_Run_def Let_def split: if_splits)
qed

text \<open>
  A reduction never makes more accumulators than its pool runs threads or its budget affords, a read never
  has more tasks than accumulators, and the bodies it calls take the units of the read once each, in contiguous runs
  in the order of the tasks, each with an accumulator no other of them has.
\<close>

theorem TaskSplit_divides_units:
  assumes "1 \<le> pool_size" and "units + pool_size < two64"
    and "most = TaskSplit_most pool_size budget_bytes accumulator_bytes"
    and "calls = TaskSplit_Run (TaskSplit_Tasks most unit_pixels units) units"
  shows "1 \<le> most \<and> most \<le> pool_size \<and> (1 < most \<longrightarrow> most * accumulator_bytes \<le> budget_bytes) \<and>
    concat (map (\<lambda>(task, first, last'). [first..<last']) calls) = [0..<units] \<and>
    distinct (map fst calls) \<and> (\<forall>(task, first, last') \<in> set calls. task < most)"
proof -
  have most: "1 \<le> most" "most \<le> pool_size" using assms(1) by (auto simp: assms(3) TaskSplit_most_def)
  have afford: "most * accumulator_bytes \<le> budget_bytes" if "1 < most"
  proof -
    have "most \<le> budget_bytes div max 1 accumulator_bytes" using that by (simp add: assms(3) TaskSplit_most_def) linarith
    then have "most * max 1 accumulator_bytes \<le> budget_bytes" using div_times_less_eq_dividend mult_right_mono order_trans by blast
    then show ?thesis using mult_le_mono2 [of accumulator_bytes "max 1 accumulator_bytes" most] by linarith
  qed
  have tasks: "TaskSplit_Tasks most unit_pixels units \<le> most" using PlanRowTasks_le [OF most(1)] by (simp add: TaskSplit_Tasks_def)
  then have "units + TaskSplit_Tasks most unit_pixels units < two64" using most assms(2) by linarith
  then have "concat (map (\<lambda>(task, first, last'). [first..<last']) calls) = [0..<units]" using TaskSplit_Run_units assms(4) by blast
  moreover have "\<forall>call \<in> set calls. fst call < most" using TaskSplit_Run_tasks(2) tasks most(1) assms(4) by fastforce
  ultimately show ?thesis using most afford TaskSplit_Run_tasks(1) assms(4) by auto
qed

section \<open>A call followed step by step\<close>

text \<open>
  A pool of two threads runs a call of two tasks: the calling thread takes task 0, the pool thread wakes and takes task
  1, both bodies return, the pool thread leaves, the calling thread finds no task left and returns.
\<close>

definition pool_at :: "unit thread \<Rightarrow> caller \<Rightarrow> u64 \<Rightarrow> u64 \<Rightarrow> (u64 \<times> nat) list \<Rightarrow> u64 list \<Rightarrow> (unit, nat) pool" where
  "pool_at thread caller next running claims ended =
     \<lparr>p_threads = [thread], p_caller = caller, p_body = Some (), p_tasks = 2, p_next = next, p_running = running,
      p_generation = 1, p_stopping = False, p_failure = None, p_claims = claims, p_ended = ended, p_thrown = [],
      p_outcome = None\<rparr>"

lemma example_opened: "pool_reachable 0 2 (pool_at (Parked 0) CallDraining 0 1 [] [])"
proof -
  have "open_call () 2 (WorkPool_init 0 2) = (pool_at (Parked 0) CallDraining 0 1 [] [] :: (unit, nat) pool)"
    by (simp add: open_call_def WorkPool_init_def pool_at_def add64_def)
  moreover have "pool_step (WorkPool_init 0 2 :: (unit, nat) pool) (open_call () 2 (WorkPool_init 0 2))"
    by (rule pool_step.call) (simp_all add: WorkPool_init_def)
  ultimately show ?thesis by (metis pool_reachable.intros)
qed

lemmas pool_at_simps = pool_at_def step_defs add64_def sub64_def

lemma example_steps:
  shows "call_step (pool_at (Parked 0) CallDraining 0 1 [] []) (pool_at (Parked 0) (CallExecuting 0) 1 1 [(0, 0)] [])"
    and "call_step (pool_at (Parked 0) (CallExecuting 0) 1 1 [(0, 0)] []) (pool_at (Draining 1 ()) (CallExecuting 0) 1 1 [(0, 0)] [])"
    and "call_step (pool_at (Draining 1 ()) (CallExecuting 0) 1 1 [(0, 0)] []) (pool_at (Executing 1 () 1) (CallExecuting 0) 2 1 [(0, 0), (1, 1)] [])"
    and "call_step (pool_at (Executing 1 () 1) (CallExecuting 0) 2 1 [(0, 0), (1, 1)] [])
      (pool_at (Draining 1 ()) (CallExecuting 0) 2 1 [(0, 0), (1, 1)] [1])"
    and "call_step (pool_at (Draining 1 ()) (CallExecuting 0) 2 1 [(0, 0), (1, 1)] [1]) (pool_at (Leaving 1) (CallExecuting 0) 2 1 [(0, 0), (1, 1)] [1])"
    and "call_step (pool_at (Leaving 1) (CallExecuting 0) 2 1 [(0, 0), (1, 1)] [1]) (pool_at (Parked 1) (CallExecuting 0) 2 0 [(0, 0), (1, 1)] [1])"
    and "call_step (pool_at (Parked 1) (CallExecuting 0) 2 0 [(0, 0), (1, 1)] [1]) (pool_at (Parked 1) CallDraining 2 0 [(0, 0), (1, 1)] [1, 0])"
    and "call_step (pool_at (Parked 1) CallDraining 2 0 [(0, 0), (1, 1)] [1, 0]) (pool_at (Parked 1) CallWaiting 2 0 [(0, 0), (1, 1)] [1, 0])"
    and "call_step (pool_at (Parked 1) CallWaiting 2 0 [(0, 0), (1, 1)] [1, 0]) (close_call (pool_at (Parked 1) CallWaiting 2 0 [(0, 0), (1, 1)] [1, 0]))"
  using caller_claims [of "pool_at (Parked 0) CallDraining 0 1 [] []"]
    worker_wakes [of 0 "pool_at (Parked 0) (CallExecuting 0) 1 1 [(0, 0)] []" 0 "()"]
    worker_claims [of 0 "pool_at (Draining 1 ()) (CallExecuting 0) 1 1 [(0, 0)] []" 1 "()"]
    worker_returns [of 0 "pool_at (Executing 1 () 1) (CallExecuting 0) 2 1 [(0, 0), (1, 1)] []" 1 "()" 1]
    worker_drained [of 0 "pool_at (Draining 1 ()) (CallExecuting 0) 2 1 [(0, 0), (1, 1)] [1]" 1 "()"]
    worker_leaves [of 0 "pool_at (Leaving 1) (CallExecuting 0) 2 1 [(0, 0), (1, 1)] [1]" 1]
    caller_returns [of "pool_at (Parked 1) (CallExecuting 0) 2 0 [(0, 0), (1, 1)] [1]" 0]
    caller_drained [of "pool_at (Parked 1) CallDraining 2 0 [(0, 0), (1, 1)] [1, 0]"]
    caller_leaves [of "pool_at (Parked 1) CallWaiting 2 0 [(0, 0), (1, 1)] [1, 0]"]
  by (simp_all add: pool_at_simps numeral_2_eq_2)

lemma example_both_run: "pool_reachable 0 2 (pool_at (Executing 1 () 1) (CallExecuting 0) 2 1 [(0, 0), (1, 1)] [])"
  using example_opened example_steps(1-3) by (meson in_call pool_reachable.step)

lemma example_waiting: "pool_reachable 0 2 (pool_at (Parked 1) CallWaiting 2 0 [(0, 0), (1, 1)] [1, 0])"
  using example_both_run example_steps(4-8) by (meson in_call pool_reachable.step)

theorem pool_workers_never_share_witness:
  "\<exists>p :: (unit, nat) pool. executes p 0 0 \<and> executes p 1 1 \<and> 1 < WorkPool_size p \<and>
    (\<forall>w task. executes p w task \<and> w \<noteq> 1 \<longrightarrow> task \<noteq> 1)"
proof -
  let ?p = "pool_at (Executing 1 () 1) (CallExecuting 0) 2 1 [(0, 0), (1, 1)] []"
  have run: "executes ?p 0 0" "executes ?p 1 1" by (simp_all add: pool_at_def executes_def)
  have "1 < WorkPool_size ?p \<and> 1 < p_tasks ?p \<and> (\<forall>w task. executes ?p w task \<and> w \<noteq> 1 \<longrightarrow> task \<noteq> 1)"
    by (rule pool_workers_never_share [OF example_both_run _ _ run(2)]) simp_all
  then show ?thesis using run by blast
qed

theorem pool_call_completes_witness:
  "\<exists>p :: (unit, nat) pool. pool_reachable 0 2 p \<and> p_outcome p = Some None \<and> set (p_ended p) = {..<2}"
proof -
  let ?p = "pool_at (Parked 1) CallWaiting 2 0 [(0, 0), (1, 1)] [1, 0]"
  have "p_outcome (close_call ?p) = Some None \<and> set (p_ended (close_call ?p)) = {..<2}"
    using pool_call_completes [OF example_waiting _ _ _ example_steps(9)] by (simp add: pool_at_def close_call_def)
  moreover have "pool_reachable 0 2 (close_call ?p)" using example_waiting example_steps(9) by (meson in_call pool_reachable.step)
  ultimately show ?thesis by blast
qed


theorem TaskSplit_divides_units_witness:
  "TaskSplit_most 4 300 100 = 3 \<and> TaskSplit_Run (TaskSplit_Tasks 3 10000 10) 10 = [(0, 0, 4), (1, 4, 8), (2, 8, 10)] \<and>
   concat (map (\<lambda>(task, first, last'). [first..<last']) (TaskSplit_Run (TaskSplit_Tasks 3 10000 10) 10)) = [0..<10]"
proof -
  have most: "TaskSplit_most 4 300 100 = 3" by code_simp
  have run: "TaskSplit_Run (TaskSplit_Tasks 3 10000 10) 10 = [(0, 0, 4), (1, 4, 8), (2, 8, 10)]" by code_simp
  have "(1::nat) \<le> 4" "(10::nat) + 4 < two64" by simp_all
  from TaskSplit_divides_units [OF this most [symmetric] refl, of 10000] show ?thesis using most run by blast
qed

end
