(* ===== verification/Array_Metadata.thy ===== *)
theory Array_Metadata
  imports Pixel_Selection
begin

text \<open>
  \<open>src/zarr/array_metadata.h\<close> and \<open>array_metadata.cc\<close>, which read a Zarr v3 array document and the storage layout in
  it, with \<open>src/zarr/storage_layout.h\<close> and the geometry \<open>src/schema/chunk_geometry.h\<close> makes of a layout.

  A document is a JSON value; its accessors behave as the JSON library documents them, and one that throws is
  \<open>None\<close>. The functions here are written in the option monad, so that a call that would throw out of the library is
  visible, and the lemmas show that none is: parsing is total, and what it accepts the layout and the geometry
  never trip over.
\<close>

section \<open>JSON values and the accessors the code uses\<close>

datatype json =
    JNull | JBool bool | JUnsigned nat | JInteger int | JFloat string | JString string
  | JArray "json list" | JObject "(string \<times> json) list"

fun is_object :: "json \<Rightarrow> bool" where
  "is_object (JObject _) = True" | "is_object _ = False"

fun is_array :: "json \<Rightarrow> bool" where
  "is_array (JArray _) = True" | "is_array _ = False"

fun is_string :: "json \<Rightarrow> bool" where
  "is_string (JString _) = True" | "is_string _ = False"

fun is_number :: "json \<Rightarrow> bool" where
  "is_number (JUnsigned _) = True" | "is_number (JInteger _) = True" | "is_number (JFloat _) = True" | "is_number _ = False"

fun contains :: "json \<Rightarrow> string \<Rightarrow> bool" where
  "contains (JObject kvs) key = (map_of kvs key \<noteq> None)" | "contains _ key = False"

text \<open>\<open>at\<close> throws for a key or an index that is not there and for a value of the wrong kind.\<close>

fun at_key :: "json \<Rightarrow> string \<Rightarrow> json option" where
  "at_key (JObject kvs) key = map_of kvs key" | "at_key _ key = None"

fun at_index :: "json \<Rightarrow> nat \<Rightarrow> json option" where
  "at_index (JArray xs) i = (if i < length xs then Some (xs ! i) else None)" | "at_index _ i = None"

text \<open>What iterating over a value visits: a value that is neither an array nor an object is visited itself.\<close>

fun elements_of :: "json \<Rightarrow> json list" where
  "elements_of (JArray xs) = xs" | "elements_of (JObject kvs) = map snd kvs" | "elements_of JNull = []" | "elements_of v = [v]"

fun size_of :: "json \<Rightarrow> nat" where
  "size_of (JArray xs) = length xs" | "size_of (JObject kvs) = length kvs" | "size_of JNull = 0" | "size_of v = 1"

text \<open>
  Conversions throw for a value of another kind. A number that is not an integer is never converted here, because
  every conversion to an integer is behind a check that the value is one.
\<close>

fun get_string :: "json \<Rightarrow> string option" where
  "get_string (JString s) = Some s" | "get_string _ = None"

fun get_u64 :: "json \<Rightarrow> u64 option" where
  "get_u64 (JUnsigned n) = Some (n mod two64)" | "get_u64 (JInteger i) = Some (nat (i mod int two64))" | "get_u64 _ = None"

text \<open>\<open>value(key, default)\<close> for a string default.\<close>

definition value_string :: "json \<Rightarrow> string \<Rightarrow> string \<Rightarrow> string option" where
  "value_string v key def =
     (if \<not> is_object v then None else case at_key v key of None \<Rightarrow> Some def | Some x \<Rightarrow> get_string x)"

text \<open>A condition that may throw, and the two connectives that stop at the first operand that settles them.\<close>

definition cond :: "bool option \<Rightarrow> 'a option \<Rightarrow> 'a option \<Rightarrow> 'a option" where
  "cond c a b = Option.bind c (\<lambda>x. if x then a else b)"

definition and_also :: "bool option \<Rightarrow> bool option \<Rightarrow> bool option" where
  "and_also a b = cond a b (Some False)"

definition or_else :: "bool option \<Rightarrow> bool option \<Rightarrow> bool option" where
  "or_else a b = cond a (Some True) b"

fun all_of :: "('a \<Rightarrow> bool option) \<Rightarrow> 'a list \<Rightarrow> bool option" where
  "all_of p [] = Some True" | "all_of p (x # xs) = and_also (p x) (all_of p xs)"

section \<open>Array metadata\<close>

record ArrayMetadata =
  md_shape :: "u64 list"
  md_dimension_names :: "string list"
  md_data_type :: string
  md_data_type_configuration :: json
  md_attributes :: json
  md_chunk_shape :: "u64 list"
  md_codecs :: json
  md_chunk_key_encoding :: json
  md_fill_value :: json

definition empty_metadata :: ArrayMetadata where
  "empty_metadata =
     \<lparr>md_shape = [], md_dimension_names = [], md_data_type = [], md_data_type_configuration = JNull, md_attributes = JNull,
      md_chunk_shape = [], md_codecs = JArray [], md_chunk_key_encoding = JObject [], md_fill_value = JNull\<rparr>"

record StorageLayout =
  sl_chunk_shape :: "u64 list"
  sl_shard_shape :: "u64 list"
  sl_compressor :: string
  sl_sharded :: bool

subsection \<open>Predicates on values\<close>

definition IsNonNegativeInteger :: "json \<Rightarrow> bool" where
  "IsNonNegativeInteger v = (case v of JUnsigned n \<Rightarrow> True | JInteger i \<Rightarrow> 0 \<le> i | _ \<Rightarrow> False)"

definition IsPositiveInteger :: "json \<Rightarrow> bool option" where
  "IsPositiveInteger v = (if IsNonNegativeInteger v then map_option (\<lambda>n. 0 < n) (get_u64 v) else Some False)"

definition IsNumericVector :: "json \<Rightarrow> nat \<Rightarrow> bool" where
  "IsNumericVector v len \<longleftrightarrow> is_array v \<and> size_of v = len \<and> list_all is_number (elements_of v)"

definition IsNumericMatrix :: "json \<Rightarrow> nat \<Rightarrow> nat \<Rightarrow> bool" where
  "IsNumericMatrix v rows columns \<longleftrightarrow>
     is_array v \<and> size_of v = rows \<and> list_all (\<lambda>row. IsNumericVector row columns) (elements_of v)"

definition IsRealDataType :: "string \<Rightarrow> bool" where
  "IsRealDataType data_type \<longleftrightarrow> (case FindDataTypeByName data_type of None \<Rightarrow> False | Some info \<Rightarrow> dt_real info)"

definition ParseDataType :: "string \<Rightarrow> DataType" where
  "ParseDataType data_type = (case FindDataTypeByName data_type of None \<Rightarrow> unknown | Some info \<Rightarrow> dt_kind info)"

definition IsFixedLengthUtf32 :: "ArrayMetadata \<Rightarrow> bool option" where
  "IsFixedLengthUtf32 metadata =
     (if md_data_type metadata \<noteq> ''fixed_length_utf32'' \<or> \<not> is_object (md_data_type_configuration metadata) \<or>
         \<not> contains (md_data_type_configuration metadata) ''length_bytes''
      then Some False
      else Option.bind (at_key (md_data_type_configuration metadata) ''length_bytes'') (\<lambda>bytes.
             and_also (IsPositiveInteger bytes) (map_option (\<lambda>n. n mod 4 = 0) (get_u64 bytes))))"

definition FindDimensionIndex :: "ArrayMetadata \<Rightarrow> string \<Rightarrow> nat option" where
  "FindDimensionIndex metadata name =
     List.find (\<lambda>i. md_dimension_names metadata ! i = name) [0..<length (md_dimension_names metadata)]"

subsection \<open>Codecs\<close>

text \<open>
  The position in a chain of the codec with a name. The outer option is the exception of a name that is not a
  string; the inner one is the pointer.
\<close>

fun FindCodec_from :: "nat \<Rightarrow> json list \<Rightarrow> string \<Rightarrow> nat option option" where
  "FindCodec_from i [] name = Some None"
| "FindCodec_from i (codec # codecs) name =
     cond (and_also (Some (is_object codec)) (map_option (\<lambda>n. n = name) (value_string codec ''name'' [])))
       (Some (Some i)) (FindCodec_from (i + 1) codecs name)"

definition FindCodec :: "json \<Rightarrow> string \<Rightarrow> nat option option" where
  "FindCodec codecs name = FindCodec_from 0 (elements_of codecs) name"

definition CodecNamesAreStrings :: "json \<Rightarrow> bool option" where
  "CodecNamesAreStrings codecs =
     all_of (\<lambda>codec. or_else (Some (\<not> is_object codec))
                       (or_else (Some (\<not> contains codec ''name'')) (map_option is_string (at_key codec ''name''))))
       (elements_of codecs)"

fun FindCompressor_among :: "json \<Rightarrow> string list \<Rightarrow> string option" where
  "FindCompressor_among codecs [] = Some []"
| "FindCompressor_among codecs (name # rest) =
     Option.bind (FindCodec codecs name) (\<lambda>found.
       if found \<noteq> None then Some name else FindCompressor_among codecs rest)"

definition FindCompressor :: "json \<Rightarrow> string option" where
  "FindCompressor codecs = FindCompressor_among codecs [''zstd'', ''gzip'', ''blosc'']"

fun TransposeOrder_loop :: "json \<Rightarrow> nat \<Rightarrow> nat list \<Rightarrow> nat list \<Rightarrow> bool list \<Rightarrow> nat list option option" where
  "TransposeOrder_loop order rank [] axes seen = Some (Some axes)"
| "TransposeOrder_loop order rank (i # rest) axes seen =
     Option.bind (at_index order i) (\<lambda>entry.
       if \<not> IsNonNegativeInteger entry then Some None
       else Option.bind (get_u64 entry) (\<lambda>n.
              if rank \<le> n \<or> seen ! n then Some None
              else TransposeOrder_loop order rank rest (axes[i := n]) (seen[n := True])))"

definition TransposeOrder :: "json \<Rightarrow> nat \<Rightarrow> nat list option option" where
  "TransposeOrder codec rank =
     cond (or_else (Some (\<not> contains codec ''configuration''))
             (Option.bind (at_key codec ''configuration'') (\<lambda>configuration.
                or_else (Some (\<not> is_object configuration)) (Some (\<not> contains configuration ''order'')))))
       (Some None)
       (Option.bind (at_key codec ''configuration'') (\<lambda>configuration.
        Option.bind (at_key configuration ''order'') (\<lambda>order.
          if is_string order
          then Option.bind (get_string order) (\<lambda>spelling.
                 if spelling \<noteq> ''C'' \<and> spelling \<noteq> ''F'' then Some None
                 else Some (Some (map (\<lambda>i. if spelling = ''C'' then i else rank - 1 - i) [0..<rank])))
          else if \<not> is_array order \<or> size_of order \<noteq> rank then Some None
          else TransposeOrder_loop order rank [0..<rank] (replicate rank 0) (replicate rank False))))"

text \<open>Whether a codec is a transpose, asked as the code asks it.\<close>

definition is_transpose :: "json \<Rightarrow> bool option" where
  "is_transpose codec =
     and_also (Some (is_object codec)) (and_also (Some (contains codec ''name''))
       (map_option (\<lambda>name. name = JString ''transpose'') (at_key codec ''name'')))"

subsection \<open>Storage layout\<close>

text \<open>The decoded axis each axis of the array is after the transposes of a chain.\<close>

fun compose_transposes :: "nat \<Rightarrow> json list \<Rightarrow> nat list \<Rightarrow> nat list option" where
  "compose_transposes rank [] decoded = Some decoded"
| "compose_transposes rank (codec # codecs) decoded =
     cond (is_transpose codec)
       (Option.bind (TransposeOrder codec rank) (\<lambda>result.
        Option.bind result (\<lambda>order. compose_transposes rank codecs (map (\<lambda>i. decoded ! (order ! i)) [0..<rank]))))
       (compose_transposes rank codecs decoded)"

fun place_inner :: "json \<Rightarrow> nat list \<Rightarrow> nat list \<Rightarrow> u64 list \<Rightarrow> u64 list option" where
  "place_inner inner decoded [] shape = Some shape"
| "place_inner inner decoded (i # rest) shape =
     Option.bind (at_index inner i) (\<lambda>entry.
     Option.bind (get_u64 entry) (\<lambda>n. place_inner inner decoded rest (shape[decoded ! i := n])))"

definition ApplyShardingLayout :: "json \<Rightarrow> nat \<Rightarrow> StorageLayout \<Rightarrow> StorageLayout option" where
  "ApplyShardingLayout codecs at_position layout =
     (let rank = length (sl_chunk_shape layout);
          sharding = elements_of codecs ! at_position
      in Option.bind (compose_transposes rank (take at_position (elements_of codecs)) [0..<rank]) (\<lambda>decoded.
         Option.bind (at_key sharding ''configuration'') (\<lambda>configuration.
         Option.bind (at_key configuration ''chunk_shape'') (\<lambda>inner.
         Option.bind (place_inner inner decoded [0..<rank] (replicate rank 0)) (\<lambda>shape.
           let layout = layout\<lparr>sl_sharded := True, sl_shard_shape := sl_chunk_shape layout, sl_chunk_shape := shape\<rparr>
           in cond (and_also (Some (contains configuration ''codecs''))
                      (map_option is_array (at_key configuration ''codecs'')))
                (Option.bind (at_key configuration ''codecs'') (\<lambda>inner_codecs.
                 map_option (\<lambda>c. layout\<lparr>sl_compressor := c\<rparr>) (FindCompressor inner_codecs)))
                (Some layout))))))"

definition ParseStorageLayout :: "ArrayMetadata \<Rightarrow> StorageLayout option" where
  "ParseStorageLayout metadata =
     (let layout = \<lparr>sl_chunk_shape = md_chunk_shape metadata, sl_shard_shape = [], sl_compressor = [], sl_sharded = False\<rparr>;
          codecs = md_codecs metadata
      in Option.bind (FindCodec codecs ''sharding_indexed'') (\<lambda>sharding.
         Option.bind (case sharding of None \<Rightarrow> Some layout | Some i \<Rightarrow> ApplyShardingLayout codecs i layout) (\<lambda>layout.
           if sl_compressor layout = []
           then map_option (\<lambda>c. layout\<lparr>sl_compressor := c\<rparr>) (FindCompressor codecs)
           else Some layout)))"

subsection \<open>Parsing\<close>

text \<open>A step that may throw, may report an error, or goes on with a value.\<close>

definition steps :: "'a result option \<Rightarrow> ('a \<Rightarrow> 'b result option) \<Rightarrow> 'b result option" where
  "steps a f = Option.bind a (\<lambda>r. case r of Inl e \<Rightarrow> Some (Inl e) | Inr x \<Rightarrow> f x)"

definition refuse :: "bool option \<Rightarrow> Error \<Rightarrow> 'a result option \<Rightarrow> 'a result option" where
  "refuse c e k = cond c (Some (Inl e)) k"

fun parse_extents :: "Error \<Rightarrow> json list \<Rightarrow> u64 list result option" where
  "parse_extents e [] = Some (Inr [])"
| "parse_extents e (v # vs) =
     (if \<not> IsNonNegativeInteger v then Some (Inl e)
      else Option.bind (get_u64 v) (\<lambda>n. steps (parse_extents e vs) (\<lambda>ns. Some (Inr (n # ns)))))"

fun parse_names :: "Error \<Rightarrow> json list \<Rightarrow> string list result option" where
  "parse_names e [] = Some (Inr [])"
| "parse_names e (v # vs) =
     (if \<not> is_string v then Some (Inl e)
      else Option.bind (get_string v) (\<lambda>n. steps (parse_names e vs) (\<lambda>ns. Some (Inr (n # ns)))))"

definition find_dimensions :: "json \<Rightarrow> json option option" where
  "find_dimensions metadata =
     (if contains metadata ''dimension_names'' then map_option Some (at_key metadata ''dimension_names'')
      else cond (and_also (Some (contains metadata ''attributes''))
                  (Option.bind (at_key metadata ''attributes'') (\<lambda>a. Some (is_object a \<and> contains a ''dimension_names''))))
             (Option.bind (at_key metadata ''attributes'') (\<lambda>a. map_option Some (at_key a ''dimension_names'')))
             (Some None))"

definition parse_dimensions :: "string \<Rightarrow> nat \<Rightarrow> json option \<Rightarrow> string list result option" where
  "parse_dimensions node rank dimensions =
     (case dimensions of
        None \<Rightarrow> Some (Inr [])
      | Some v \<Rightarrow>
          if \<not> is_array v \<or> size_of v \<noteq> rank
          then Some (Inl (mk_error invalid_metadata ''Array dimension_names must match shape rank'' node))
          else steps (parse_names (mk_error invalid_metadata ''Array dimension names must be strings'' node) (elements_of v))
                 (\<lambda>names. if card (set names) \<noteq> length names
                          then Some (Inl (mk_error invalid_metadata ''Array dimension names must be unique'' node))
                          else Some (Inr names)))"

definition parse_data_type :: "string \<Rightarrow> json \<Rightarrow> (string \<times> json) result option" where
  "parse_data_type node data_type =
     (if is_string data_type then map_option (\<lambda>s. Inr (s, JNull)) (get_string data_type)
      else cond (and_also (Some (is_object data_type)) (and_also (Some (contains data_type ''name''))
                   (map_option is_string (at_key data_type ''name''))))
             (Option.bind (at_key data_type ''name'') (\<lambda>name.
              Option.bind (get_string name) (\<lambda>s.
                if contains data_type ''configuration''
                then Option.bind (at_key data_type ''configuration'') (\<lambda>configuration.
                       if \<not> is_object configuration
                       then Some (Inl (mk_error invalid_metadata ''Zarr data_type configuration must be an object'' node))
                       else Some (Inr (s, configuration)))
                else Some (Inr (s, JNull)))))
             (Some (Inl (mk_error unsupported_data_type ''Zarr array data_type is not recognized'' node))))"

definition parse_attributes :: "string \<Rightarrow> json \<Rightarrow> json result option" where
  "parse_attributes node metadata =
     (if contains metadata ''attributes''
      then Option.bind (at_key metadata ''attributes'') (\<lambda>a.
             if \<not> is_object a then Some (Inl (mk_error invalid_metadata ''Zarr array attributes must be an object'' node))
             else Some (Inr a))
      else Some (Inr (JObject [])))"

definition parse_codecs :: "string \<Rightarrow> json \<Rightarrow> json result option" where
  "parse_codecs node metadata =
     cond (and_also (Some (contains metadata ''codecs'')) (map_option is_array (at_key metadata ''codecs'')))
       (Option.bind (at_key metadata ''codecs'') (\<lambda>codecs.
          cond (CodecNamesAreStrings codecs) (Some (Inr codecs))
            (Some (Inl (mk_error invalid_metadata ''Zarr codec names must be strings'' node)))))
       (Some (Inr (JArray [])))"

definition regular_chunk_grid :: "json \<Rightarrow> bool option" where
  "regular_chunk_grid metadata =
     and_also (Some (contains metadata ''chunk_grid'')) (Option.bind (at_key metadata ''chunk_grid'') (\<lambda>grid.
       and_also (Some (is_object grid)) (and_also (Some (contains grid ''name''))
         (Option.bind (at_key grid ''name'') (\<lambda>name.
            and_also (Some (is_string name)) (and_also (map_option (\<lambda>s. s = ''regular'') (get_string name))
              (and_also (Some (contains grid ''configuration''))
                (Option.bind (at_key grid ''configuration'') (\<lambda>configuration.
                   Some (is_object configuration \<and> contains configuration ''chunk_shape''))))))))))"

definition positive_shape :: "nat \<Rightarrow> json \<Rightarrow> bool option" where
  "positive_shape rank shape =
     and_also (Some (is_array shape)) (and_also (Some (size_of shape = rank)) (all_of IsPositiveInteger (elements_of shape)))"

fun check_transposes :: "string \<Rightarrow> nat \<Rightarrow> json list \<Rightarrow> unit result option" where
  "check_transposes node rank [] = Some (Inr ())"
| "check_transposes node rank (codec # codecs) =
     cond (and_also (is_transpose codec) (map_option (\<lambda>order. order = None) (TransposeOrder codec rank)))
       (Some (Inl (mk_error invalid_metadata
         (''Transpose codec order must be a permutation of the array'' @ [CHR 0x27] @ ''s axes'') node)))
       (check_transposes node rank codecs)"

definition check_sharding :: "string \<Rightarrow> nat \<Rightarrow> json \<Rightarrow> unit result option" where
  "check_sharding node rank codecs =
     Option.bind (FindCodec codecs ''sharding_indexed'') (\<lambda>found.
       case found of
         None \<Rightarrow> Some (Inr ())
       | Some i \<Rightarrow>
           let sharding = elements_of codecs ! i
           in Option.bind
                (cond (and_also (Some (contains sharding ''configuration''))
                         (Option.bind (at_key sharding ''configuration'') (\<lambda>configuration.
                            Some (is_object configuration \<and> contains configuration ''chunk_shape''))))
                   (Option.bind (at_key sharding ''configuration'') (\<lambda>configuration.
                      map_option Some (at_key configuration ''chunk_shape'')))
                   (Some None))
                (\<lambda>inner.
                   refuse (case inner of None \<Rightarrow> Some True | Some shape \<Rightarrow> map_option Not (positive_shape rank shape))
                     (mk_error invalid_metadata ''Sharding codec chunk_shape must be positive and match the array rank'' node)
                     (Option.bind (at_key sharding ''configuration'') (\<lambda>configuration.
                        refuse (and_also (Some (contains configuration ''codecs''))
                                  (Option.bind (at_key configuration ''codecs'') (\<lambda>inner_codecs.
                                     and_also (Some (is_array inner_codecs)) (map_option Not (CodecNamesAreStrings inner_codecs)))))
                          (mk_error invalid_metadata ''Zarr codec names must be strings'' node)
                          (Some (Inr ()))))))"

definition ParseArrayMetadata :: "json \<Rightarrow> string \<Rightarrow> ArrayMetadata result option" where
  "ParseArrayMetadata metadata node =
     refuse (Some (\<not> is_object metadata))
       (mk_error invalid_metadata ''Zarr array metadata must be a JSON object'' node)
     (refuse (or_else (Some (\<not> contains metadata ''node_type'')) (Option.bind (at_key metadata ''node_type'') (\<lambda>t.
               or_else (Some (\<not> is_string t)) (map_option (\<lambda>s. s \<noteq> ''array'') (get_string t)))))
       (mk_error invalid_metadata ''Zarr node is not an array'' node)
     (refuse (or_else (Some (\<not> contains metadata ''zarr_format''))
                (map_option (\<lambda>f. \<not> IsNonNegativeInteger f) (at_key metadata ''zarr_format'')))
       (mk_error invalid_metadata ''Zarr array metadata has no valid zarr_format'' node)
     (refuse (Option.bind (at_key metadata ''zarr_format'') (\<lambda>f. map_option (\<lambda>n. n \<noteq> 3) (get_u64 f)))
       (mk_error unsupported_zarr_version ''Only Zarr format 3 arrays are supported'' node)
     (refuse (or_else (Some (\<not> contains metadata ''shape'')) (map_option (\<lambda>s. \<not> is_array s) (at_key metadata ''shape'')))
       (mk_error invalid_metadata ''Zarr array metadata requires a shape'' node)
     (Option.bind (at_key metadata ''shape'') (\<lambda>dims.
      steps (parse_extents (mk_error invalid_metadata ''Zarr array shape must contain non-negative integers'' node)
               (elements_of dims)) (\<lambda>shape.
      Option.bind (find_dimensions metadata) (\<lambda>dimensions.
      steps (parse_dimensions node (length shape) dimensions) (\<lambda>names.
      refuse (Some (\<not> contains metadata ''data_type''))
        (mk_error invalid_metadata ''Zarr array metadata requires data_type'' node)
      (Option.bind (at_key metadata ''data_type'') (\<lambda>dt.
      steps (parse_data_type node dt) (\<lambda>(data_type, configuration).
      steps (parse_attributes node metadata) (\<lambda>attributes.
      steps (parse_codecs node metadata) (\<lambda>codecs.
      Option.bind (if contains metadata ''fill_value'' then at_key metadata ''fill_value'' else Some JNull) (\<lambda>fill_value.
      Option.bind (cond (and_also (Some (contains metadata ''chunk_key_encoding''))
                           (map_option is_object (at_key metadata ''chunk_key_encoding'')))
                     (at_key metadata ''chunk_key_encoding'') (Some (JObject []))) (\<lambda>chunk_key_encoding.
      refuse (map_option Not (regular_chunk_grid metadata))
        (mk_error unsupported_codec ''Only regular Zarr chunk grids are supported'' node)
      (Option.bind (at_key metadata ''chunk_grid'') (\<lambda>grid.
       Option.bind (at_key grid ''configuration'') (\<lambda>grid_configuration.
       Option.bind (at_key grid_configuration ''chunk_shape'') (\<lambda>chunks.
      refuse (map_option Not (positive_shape (length shape) chunks))
        (mk_error invalid_metadata ''Zarr chunk_shape must be positive and match shape rank'' node)
      (steps (parse_extents (mk_error invalid_metadata [] node) (elements_of chunks)) (\<lambda>chunk_shape.
      steps (check_transposes node (length shape) (elements_of codecs)) (\<lambda>_.
      steps (check_sharding node (length shape) codecs) (\<lambda>_.
        Some (Inr \<lparr>md_shape = shape, md_dimension_names = names, md_data_type = data_type,
                   md_data_type_configuration = configuration, md_attributes = attributes, md_chunk_shape = chunk_shape,
                   md_codecs = codecs, md_chunk_key_encoding = chunk_key_encoding, md_fill_value = fill_value\<rparr>)))))))))))))))))))))))))"

section \<open>The geometry of a layout\<close>

text \<open>\<open>at\<close> on a vector throws past its end, which is \<open>None\<close>; division by a zero extent has no value either.\<close>

definition vec_at :: "'a list \<Rightarrow> nat \<Rightarrow> 'a option" where
  "vec_at xs i = (if i < length xs then Some (xs ! i) else None)"

fun geometry_axes :: "StorageLayout \<Rightarrow> AxisDescriptor list \<Rightarrow> (u64 \<times> u64 \<times> u64) list option" where
  "geometry_axes layout [] = Some []"
| "geometry_axes layout (axis # axes) =
     Option.bind (vec_at (sl_chunk_shape layout) (ax_storage_index axis)) (\<lambda>chunk.
     Option.bind (if sl_sharded layout then vec_at (sl_shard_shape layout) (ax_storage_index axis) else Some chunk) (\<lambda>shard.
     if chunk = 0 then None
     else Option.bind (geometry_axes layout axes) (\<lambda>rest.
            Some ((chunk, shard, sub64 (add64 (ax_length axis) chunk) 1 div chunk) # rest))))"

definition stored_of_role :: "AxisDescriptor list \<Rightarrow> AxisRole \<Rightarrow> nat" where
  "stored_of_role axes role = foldl (\<lambda>acc axis. if ax_role axis = role then ax_storage_index axis else acc) 0 axes"

definition BuildChunkGeometry :: "ImageDescriptor \<Rightarrow> StorageLayout \<Rightarrow> ChunkGeometry option" where
  "BuildChunkGeometry descriptor layout =
     Option.bind (geometry_axes layout (img_axes descriptor)) (\<lambda>extents.
       Some \<lparr>fastest_spatial_axis =
               (if stored_of_role (img_axes descriptor) spatial_x < stored_of_role (img_axes descriptor) spatial_y
                then spatial_y else spatial_x),
             chunk_shape = map fst extents, shard_shape = map (fst \<circ> snd) extents, grid_shape = map (snd \<circ> snd) extents,
             sharded = sl_sharded layout, compressor = sl_compressor layout\<rparr>)"

section \<open>Nothing throws\<close>

definition defined :: "'a option \<Rightarrow> bool" where
  "defined x \<longleftrightarrow> x \<noteq> None"

named_theorems returns \<open>when a computation that may throw does not\<close>

lemma defined_Some [simp, returns]: "defined (Some x)"
  by (simp add: defined_def)

lemma defined_None [simp]: "\<not> defined None"
  by (simp add: defined_def)

lemma defined_iff: "defined x \<longleftrightarrow> (\<exists>y. x = Some y)"
  by (cases x) (auto simp: defined_def)

lemma defined_if [returns]: "(c \<Longrightarrow> defined a) \<Longrightarrow> (\<not> c \<Longrightarrow> defined b) \<Longrightarrow> defined (if c then a else b)"
  by simp

lemma contains_iff: "contains v key \<longleftrightarrow> (\<exists>x. at_key v key = Some x)"
  by (cases v) auto

lemma bind_returns [returns]: "defined a \<Longrightarrow> (\<And>x. a = Some x \<Longrightarrow> defined (f x)) \<Longrightarrow> defined (Option.bind a f)"
  by (cases a) auto

lemma steps_returns [returns]: "defined a \<Longrightarrow> (\<And>x. a = Some (Inr x) \<Longrightarrow> defined (f x)) \<Longrightarrow> defined (steps a f)"
  by (cases a) (auto simp: steps_def split: sum.splits)

lemma cond_returns [returns]: "defined c \<Longrightarrow> (c = Some True \<Longrightarrow> defined a) \<Longrightarrow> (c = Some False \<Longrightarrow> defined b) \<Longrightarrow> defined (cond c a b)"
  by (cases c) (auto simp: cond_def)

lemma refuse_returns [returns]: "defined c \<Longrightarrow> (c = Some False \<Longrightarrow> defined k) \<Longrightarrow> defined (refuse c e k)"
  by (cases c) (auto simp: refuse_def cond_def)

lemma and_also_returns [returns]: "defined a \<Longrightarrow> (a = Some True \<Longrightarrow> defined b) \<Longrightarrow> defined (and_also a b)"
  by (cases a) (auto simp: and_also_def cond_def)

lemma or_else_returns [returns]: "defined a \<Longrightarrow> (a = Some False \<Longrightarrow> defined b) \<Longrightarrow> defined (or_else a b)"
  by (cases a) (auto simp: or_else_def cond_def)

lemma map_option_returns [returns]: "defined a \<Longrightarrow> defined (map_option f a)"
  by (cases a) simp_all

lemma at_key_returns [returns]: "contains v key \<Longrightarrow> defined (at_key v key)"
  by (simp add: contains_iff defined_iff)

lemma get_string_returns [returns]: "is_string v \<Longrightarrow> defined (get_string v)"
  by (cases v) auto

lemma get_u64_returns [returns]: "IsNonNegativeInteger v \<Longrightarrow> defined (get_u64 v)"
  by (cases v) (auto simp: IsNonNegativeInteger_def)

lemma all_of_returns [returns]: "(\<And>x. x \<in> set xs \<Longrightarrow> defined (p x)) \<Longrightarrow> defined (all_of p xs)"
proof (induction xs)
  case (Cons x xs)
  then show ?case unfolding all_of.simps by (intro and_also_returns) simp_all
qed simp

text \<open>What an operation that did not throw, and did not refuse, says.\<close>

lemma cond_iff: "cond c a b = Some y \<longleftrightarrow> c = Some True \<and> a = Some y \<or> c = Some False \<and> b = Some y"
  by (cases c) (auto simp: cond_def)

lemma and_also_iff:
  "and_also a b = Some True \<longleftrightarrow> a = Some True \<and> b = Some True"
  "and_also a b = Some False \<longleftrightarrow> a = Some False \<or> a = Some True \<and> b = Some False"
  by (auto simp: and_also_def cond_iff)

lemma or_else_iff:
  "or_else a b = Some False \<longleftrightarrow> a = Some False \<and> b = Some False"
  "or_else a b = Some True \<longleftrightarrow> a = Some True \<or> a = Some False \<and> b = Some True"
  by (auto simp: or_else_def cond_iff)

lemma steps_iff: "steps a f = Some (Inr y) \<longleftrightarrow> (\<exists>x. a = Some (Inr x) \<and> f x = Some (Inr y))"
  by (cases a) (auto simp: steps_def split: sum.splits)

lemma refuse_iff: "refuse c e k = Some (Inr y) \<longleftrightarrow> c = Some False \<and> k = Some (Inr y)"
  by (auto simp: refuse_def cond_iff)

lemma all_of_iff: "all_of p xs = Some True \<longleftrightarrow> (\<forall>x \<in> set xs. p x = Some True)"
  by (induction xs) (auto simp: and_also_iff)

lemma map_option_Not: "map_option Not c = Some b \<longleftrightarrow> c = Some (\<not> b)"
  by (cases c) auto

lemmas outcome_iff = cond_iff and_also_iff or_else_iff steps_iff refuse_iff all_of_iff map_option_Not bind_eq_Some_conv

lemma IsPositiveInteger_returns [returns]: "defined (IsPositiveInteger v)"
  unfolding IsPositiveInteger_def by (intro returns)

lemma IsPositiveInteger_iff: "IsPositiveInteger v = Some True \<longleftrightarrow> IsNonNegativeInteger v \<and> (\<exists>n. get_u64 v = Some n \<and> 0 < n)"
  by (auto simp: IsPositiveInteger_def)

lemma get_u64_less: "get_u64 v = Some n \<Longrightarrow> n < two64"
proof (cases v)
  case (JInteger i)
  assume "get_u64 v = Some n"
  then have "n = nat (i mod int two64)" using JInteger by simp
  then show ?thesis by (simp add: nat_less_iff)
qed auto

lemma CodecNamesAreStrings_returns [returns]: "defined (CodecNamesAreStrings codecs)"
  unfolding CodecNamesAreStrings_def by (intro returns) auto

definition codecs_ok :: "json list \<Rightarrow> bool" where
  "codecs_ok cs \<longleftrightarrow> (\<forall>c \<in> set cs. is_object c \<longrightarrow> contains c ''name'' \<longrightarrow> (\<exists>s. at_key c ''name'' = Some (JString s)))"

lemma is_string_iff: "is_string v \<longleftrightarrow> (\<exists>s. v = JString s)"
  by (cases v) auto

lemma CodecNamesAreStrings_iff: "CodecNamesAreStrings codecs = Some True \<longleftrightarrow> codecs_ok (elements_of codecs)"
  by (auto simp: CodecNamesAreStrings_def codecs_ok_def outcome_iff contains_iff is_string_iff)

lemma value_string_returns:
  assumes "codecs_ok cs" and "c \<in> set cs" and "is_object c"
  shows "defined (value_string c ''name'' def)"
  using assms by (force simp: value_string_def codecs_ok_def contains_iff split: option.splits)

lemma FindCodec_from_returns: "codecs_ok cs \<Longrightarrow> defined (FindCodec_from i cs name)"
proof (induction cs arbitrary: i)
  case (Cons c cs)
  have "codecs_ok cs" using Cons.prems by (simp add: codecs_ok_def)
  then show ?case unfolding FindCodec_from.simps using Cons.IH value_string_returns [OF Cons.prems, of c]
    by (intro returns) auto
qed simp

lemma FindCodec_returns [returns]: "codecs_ok (elements_of codecs) \<Longrightarrow> defined (FindCodec codecs name)"
  unfolding FindCodec_def by (rule FindCodec_from_returns)

lemma FindCodec_from_Some:
  "FindCodec_from i cs name = Some (Some j) \<Longrightarrow> i \<le> j \<and> j - i < length cs \<and> is_object (cs ! (j - i))"
proof (induction cs arbitrary: i)
  case (Cons c cs)
  from Cons.prems consider "i = j" "is_object c" | "FindCodec_from (i + 1) cs name = Some (Some j)"
    by (auto simp: outcome_iff)
  then show ?case
  proof cases
    case 2
    then have "i + 1 \<le> j" "j - (i + 1) < length cs" "is_object (cs ! (j - (i + 1)))" using Cons.IH by auto
    moreover have "j - i = Suc (j - (i + 1))" using calculation(1) by simp
    ultimately show ?thesis by simp
  qed simp
qed simp

lemma FindCodec_Some: "FindCodec codecs name = Some (Some j) \<Longrightarrow> j < length (elements_of codecs) \<and> is_object (elements_of codecs ! j)"
  using FindCodec_from_Some [of 0 "elements_of codecs" name j] by (simp add: FindCodec_def)

lemma FindCompressor_returns [returns]: "codecs_ok (elements_of codecs) \<Longrightarrow> defined (FindCompressor codecs)"
proof -
  assume ok: "codecs_ok (elements_of codecs)"
  have "defined (FindCompressor_among codecs names)" for names
  proof (induction names)
    case (Cons n names)
    then show ?case unfolding FindCompressor_among.simps using FindCodec_returns [OF ok] by (intro bind_returns) simp_all
  qed simp
  then show ?thesis unfolding FindCompressor_def .
qed

section \<open>Transposes are permutations\<close>

definition is_permutation :: "nat list \<Rightarrow> nat \<Rightarrow> bool" where
  "is_permutation xs n \<longleftrightarrow> length xs = n \<and> distinct xs \<and> set xs = {..<n}"

lemma is_permutationI:
  assumes "length xs = n" and "distinct xs" and "\<forall>x \<in> set xs. x < n"
  shows "is_permutation xs n"
proof -
  have "card (set xs) = card {..<n}" using assms by (simp add: distinct_card)
  moreover have "set xs \<subseteq> {..<n}" using assms(3) by auto
  ultimately have "set xs = {..<n}" by (intro card_subset_eq) auto
  then show ?thesis using assms by (simp add: is_permutation_def)
qed

lemma is_permutation_identity: "is_permutation [0..<n] n"
  by (auto simp: is_permutation_def)

lemma is_permutation_reversed: "is_permutation (map (\<lambda>i. n - 1 - i) [0..<n]) n"
  using set_reversed [of n] by (auto simp: is_permutation_def distinct_map inj_on_def)

lemma is_permutation_compose:
  assumes "is_permutation p n" and "is_permutation q n"
  shows "is_permutation (map (\<lambda>i. p ! (q ! i)) [0..<n]) n"
proof (rule is_permutationI)
  have q: "q ! i < n" if "i < n" for i using assms(2) that by (metis is_permutation_def lessThan_iff nth_mem)
  have p: "p ! i < n" if "i < n" for i using assms(1) that by (metis is_permutation_def lessThan_iff nth_mem)
  show "distinct (map (\<lambda>i. p ! (q ! i)) [0..<n])"
    using assms q by (auto simp: is_permutation_def distinct_map inj_on_def nth_eq_iff_index_eq)
  show "\<forall>x \<in> set (map (\<lambda>i. p ! (q ! i)) [0..<n]). x < n" using p q by auto
qed simp

lemma TransposeOrder_loop_returns:
  "is_array order \<Longrightarrow> \<forall>i \<in> set is. i < size_of order \<Longrightarrow> defined (TransposeOrder_loop order rank is axes seen)"
proof (induction "is" arbitrary: axes seen)
  case (Cons i "is")
  have "defined (at_index order i)" using Cons.prems by (cases order) auto
  then show ?case unfolding TransposeOrder_loop.simps using Cons get_u64_returns
    by (intro bind_returns) (auto intro!: bind_returns)
qed simp

lemma TransposeOrder_loop_permutation:
  "TransposeOrder_loop order rank [i..<rank] axes seen = Some (Some order') \<Longrightarrow> i \<le> rank \<Longrightarrow>
   length axes = rank \<Longrightarrow> length seen = rank \<Longrightarrow> distinct (take i axes) \<Longrightarrow> \<forall>n \<in> set (take i axes). n < rank \<Longrightarrow>
   \<forall>n < rank. seen ! n \<longleftrightarrow> n \<in> set (take i axes) \<Longrightarrow> is_permutation order' rank"
proof (induction "rank - i" arbitrary: i axes seen)
  case 0
  then show ?case by (auto intro: is_permutationI)
next
  case (Suc m)
  then have i: "i < rank" by simp
  then have upt: "[i..<rank] = i # [Suc i..<rank]" by (simp add: upt_conv_Cons)
  obtain n where n: "n < rank" "\<not> seen ! n"
    and rest: "TransposeOrder_loop order rank [Suc i..<rank] (axes[i := n]) (seen[n := True]) = Some (Some order')"
    using Suc.prems(1) unfolding upt by (auto simp: bind_eq_Some_conv not_le split: if_splits)
  have take: "take (Suc i) (axes[i := n]) = take i axes @ [n]" using i Suc.prems(3) by (simp add: take_Suc_conv_app_nth)
  show ?case
  proof (rule Suc.hyps(1) [OF _ rest])
    show "m = rank - Suc i" using Suc.hyps(2) by simp
    show "distinct (take (Suc i) (axes[i := n]))" using Suc.prems n by (simp add: take)
    show "\<forall>k \<in> set (take (Suc i) (axes[i := n])). k < rank" using Suc.prems n by (simp add: take)
    show "\<forall>k < rank. seen[n := True] ! k \<longleftrightarrow> k \<in> set (take (Suc i) (axes[i := n]))"
      using Suc.prems n by (auto simp: take nth_list_update)
  qed (use Suc.prems i in auto)
qed

lemma TransposeOrder_returns [returns]: "defined (TransposeOrder codec rank)"
  unfolding TransposeOrder_def
  by (intro returns) (auto simp: outcome_iff contains_iff is_string_iff intro!: TransposeOrder_loop_returns)

lemma TransposeOrder_permutation:
  assumes "TransposeOrder codec rank = Some (Some order)"
  shows "is_permutation order rank"
  using assms TransposeOrder_loop_permutation [of _ rank 0 "replicate rank 0" "replicate rank False" order]
    is_permutation_identity [of rank] is_permutation_reversed [of rank]
  by (auto simp: TransposeOrder_def outcome_iff split: if_splits)

lemma is_transpose_returns [returns]: "defined (is_transpose codec)"
  unfolding is_transpose_def by (intro returns) auto

definition transposes_ok :: "nat \<Rightarrow> json list \<Rightarrow> bool" where
  "transposes_ok rank cs \<longleftrightarrow>
     (\<forall>c \<in> set cs. is_transpose c = Some True \<longrightarrow> (\<exists>order. TransposeOrder c rank = Some (Some order)))"

lemma check_transposes_returns [returns]: "defined (check_transposes node rank cs)"
proof (induction cs)
  case (Cons c cs)
  then show ?case unfolding check_transposes.simps by (intro returns) simp_all
qed simp

lemma check_transposes_ok: "check_transposes node rank cs = Some (Inr ()) \<Longrightarrow> transposes_ok rank cs"
proof (induction cs)
  case (Cons c cs)
  have "TransposeOrder c rank = Some None \<or> (\<exists>order. TransposeOrder c rank = Some (Some order))"
    using TransposeOrder_returns [of c rank] by (auto simp: defined_iff)
  then show ?case using Cons by (auto simp: transposes_ok_def outcome_iff)
qed (simp add: transposes_ok_def)

lemma compose_transposes_ok:
  "transposes_ok rank cs \<Longrightarrow> is_permutation decoded rank \<Longrightarrow>
   \<exists>result. compose_transposes rank cs decoded = Some result \<and> is_permutation result rank"
proof (induction cs arbitrary: decoded)
  case (Cons c cs)
  have rest: "transposes_ok rank cs" using Cons.prems by (simp add: transposes_ok_def)
  show ?case
  proof (cases "is_transpose c = Some True")
    case True
    then obtain order where order: "TransposeOrder c rank = Some (Some order)"
      using Cons.prems by (auto simp: transposes_ok_def)
    then have "is_permutation (map (\<lambda>i. decoded ! (order ! i)) [0..<rank]) rank"
      using Cons.prems TransposeOrder_permutation by (intro is_permutation_compose)
    then show ?thesis using Cons.IH [OF rest] True order by (simp add: cond_def)
  next
    case False
    then have "is_transpose c = Some False" using is_transpose_returns [of c] by (auto simp: defined_iff)
    then show ?thesis using Cons.IH [OF rest Cons.prems(2)] by (simp add: cond_def)
  qed
qed simp

section \<open>Parsing is total, and what it accepts is well formed\<close>

lemma parse_extents_returns [returns]: "defined (parse_extents e vs)"
proof (induction vs)
  case (Cons v vs)
  then show ?case unfolding parse_extents.simps by (intro returns) simp_all
qed simp

lemma parse_names_returns [returns]: "defined (parse_names e vs)"
proof (induction vs)
  case (Cons v vs)
  then show ?case unfolding parse_names.simps by (intro returns) simp_all
qed simp

lemma find_dimensions_returns [returns]: "defined (find_dimensions metadata)"
  unfolding find_dimensions_def by (intro returns) (auto simp: outcome_iff contains_iff)

lemma parse_dimensions_returns [returns]: "defined (parse_dimensions node rank dimensions)"
  unfolding parse_dimensions_def by (cases dimensions) (auto intro!: returns)

lemma parse_data_type_returns [returns]: "defined (parse_data_type node dt)"
  unfolding parse_data_type_def by (intro returns) (auto simp: outcome_iff is_string_iff)

lemma parse_attributes_returns [returns]: "defined (parse_attributes node metadata)"
  unfolding parse_attributes_def by (intro returns)

lemma parse_codecs_returns [returns]: "defined (parse_codecs node metadata)"
  unfolding parse_codecs_def by (intro returns) (auto simp: outcome_iff)

lemma regular_chunk_grid_returns [returns]: "defined (regular_chunk_grid metadata)"
  unfolding regular_chunk_grid_def by (intro returns) auto

lemma positive_shape_returns [returns]: "defined (positive_shape rank shape)"
  unfolding positive_shape_def by (intro returns)

lemma check_sharding_returns [returns]:
  "codecs_ok (elements_of codecs) \<Longrightarrow> defined (check_sharding node rank codecs)"
  unfolding check_sharding_def Let_def
  by (intro returns) (auto simp: outcome_iff contains_iff split: option.splits intro!: returns)

lemma parse_codecs_ok: "parse_codecs node metadata = Some (Inr codecs) \<Longrightarrow> is_array codecs \<and> codecs_ok (elements_of codecs)"
  by (auto simp: parse_codecs_def outcome_iff CodecNamesAreStrings_iff codecs_ok_def)

lemma ParseArrayMetadata_returns: "defined (ParseArrayMetadata metadata node)"
  unfolding ParseArrayMetadata_def
  by (intro returns) (auto simp: outcome_iff regular_chunk_grid_def dest: parse_codecs_ok split: prod.splits intro!: returns)

lemma is_array_size: "is_array v \<Longrightarrow> size_of v = length (elements_of v)"
  by (cases v) auto

lemma parse_extents_values:
  "parse_extents e vs = Some (Inr ns) \<Longrightarrow> list_all2 (\<lambda>v n. get_u64 v = Some n) vs ns"
  by (induction vs arbitrary: ns) (auto simp: outcome_iff split: if_splits)

lemma positive_shape_iff:
  "positive_shape rank v = Some True \<longleftrightarrow>
     is_array v \<and> length (elements_of v) = rank \<and> (\<forall>x \<in> set (elements_of v). \<exists>n. get_u64 x = Some n \<and> 0 < n \<and> IsNonNegativeInteger x)"
  by (auto simp: positive_shape_def outcome_iff IsPositiveInteger_iff is_array_size)

text \<open>What the sharding codec of an accepted chain is: an inner shape of the array's rank, and codecs with names.\<close>

definition sharding_ok :: "nat \<Rightarrow> json \<Rightarrow> bool" where
  "sharding_ok rank codecs \<longleftrightarrow>
     (\<forall>i. FindCodec codecs ''sharding_indexed'' = Some (Some i) \<longrightarrow>
        (\<exists>configuration inner. at_key (elements_of codecs ! i) ''configuration'' = Some configuration \<and>
           at_key configuration ''chunk_shape'' = Some inner \<and> positive_shape rank inner = Some True \<and>
           (\<forall>cs. at_key configuration ''codecs'' = Some cs \<longrightarrow> is_array cs \<longrightarrow> codecs_ok (elements_of cs))))"

lemma check_sharding_ok:
  assumes "check_sharding node rank codecs = Some (Inr ())"
  shows "sharding_ok rank codecs"
  unfolding sharding_ok_def
proof (intro allI impI)
  fix i assume found: "FindCodec codecs ''sharding_indexed'' = Some (Some i)"
  let ?s = "elements_of codecs ! i"
  from assms found obtain configuration inner where
    c: "at_key ?s ''configuration'' = Some configuration" and s: "at_key configuration ''chunk_shape'' = Some inner"
    and p: "positive_shape rank inner = Some True"
    and names: "\<forall>cs. at_key configuration ''codecs'' = Some cs \<longrightarrow> is_array cs \<longrightarrow> CodecNamesAreStrings cs = Some True"
    by (auto simp: check_sharding_def Let_def outcome_iff contains_iff)
  have "codecs_ok (elements_of cs)" if "at_key configuration ''codecs'' = Some cs" "is_array cs" for cs
    using names that by (simp add: CodecNamesAreStrings_iff)
  then show "\<exists>configuration inner. at_key ?s ''configuration'' = Some configuration \<and>
      at_key configuration ''chunk_shape'' = Some inner \<and> positive_shape rank inner = Some True \<and>
      (\<forall>cs. at_key configuration ''codecs'' = Some cs \<longrightarrow> is_array cs \<longrightarrow> codecs_ok (elements_of cs))"
    using c s p by blast
qed

definition metadata_ok :: "ArrayMetadata \<Rightarrow> bool" where
  "metadata_ok md \<longleftrightarrow>
     length (md_chunk_shape md) = length (md_shape md) \<and>
     (\<forall>c \<in> set (md_chunk_shape md). 0 < c \<and> c < two64) \<and> (\<forall>n \<in> set (md_shape md). n < two64) \<and>
     (md_dimension_names md = [] \<or> length (md_dimension_names md) = length (md_shape md) \<and> distinct (md_dimension_names md)) \<and>
     is_object (md_attributes md) \<and> is_array (md_codecs md) \<and> is_object (md_chunk_key_encoding md) \<and>
     codecs_ok (elements_of (md_codecs md)) \<and> transposes_ok (length (md_shape md)) (elements_of (md_codecs md)) \<and>
     sharding_ok (length (md_shape md)) (md_codecs md)"

lemma parse_names_length: "parse_names e vs = Some (Inr names) \<Longrightarrow> length names = length vs"
  by (induction vs arbitrary: names) (auto simp: outcome_iff split: if_splits)

lemma parse_dimensions_ok:
  "parse_dimensions node rank dimensions = Some (Inr names) \<Longrightarrow> names = [] \<or> length names = rank \<and> distinct names"
  by (auto simp: parse_dimensions_def outcome_iff is_array_size card_distinct split: option.splits if_splits
      dest!: parse_names_length)

lemma parse_attributes_ok: "parse_attributes node metadata = Some (Inr a) \<Longrightarrow> is_object a"
  by (auto simp: parse_attributes_def outcome_iff split: if_splits)

lemma extents_bounds:
  assumes "list_all2 (\<lambda>v n. get_u64 v = Some n) vs ns"
  shows "length ns = length vs" and "\<forall>n \<in> set ns. n < two64"
    and "\<forall>x \<in> set vs. \<exists>n. get_u64 x = Some n \<and> 0 < n \<and> IsNonNegativeInteger x \<Longrightarrow> \<forall>n \<in> set ns. 0 < n"
  using assms by (auto simp: list_all2_conv_all_nth in_set_conv_nth get_u64_less) (metis get_u64_less, metis nth_mem option.inject)

lemma ParseArrayMetadata_ok:
  assumes "ParseArrayMetadata metadata node = Some (Inr md)"
  shows "metadata_ok md"
proof -
  from assms obtain dims shape dimensions names dt data_type configuration attributes codecs fill_value cke chunks chunk_shape
    where shape: "parse_extents (mk_error invalid_metadata ''Zarr array shape must contain non-negative integers'' node)
        (elements_of dims) = Some (Inr shape)"
      and names: "parse_dimensions node (length shape) dimensions = Some (Inr names)"
      and attributes: "parse_attributes node metadata = Some (Inr attributes)"
      and codecs: "parse_codecs node metadata = Some (Inr codecs)"
      and cke: "cond (and_also (Some (contains metadata ''chunk_key_encoding''))
          (map_option is_object (at_key metadata ''chunk_key_encoding''))) (at_key metadata ''chunk_key_encoding'') (Some (JObject [])) = Some cke"
      and chunks: "positive_shape (length shape) chunks = Some True"
      and chunk_shape: "parse_extents (mk_error invalid_metadata [] node) (elements_of chunks) = Some (Inr chunk_shape)"
      and transposes: "check_transposes node (length shape) (elements_of codecs) = Some (Inr ())"
      and sharding: "check_sharding node (length shape) codecs = Some (Inr ())"
      and md: "md = \<lparr>md_shape = shape, md_dimension_names = names, md_data_type = data_type,
        md_data_type_configuration = configuration, md_attributes = attributes, md_chunk_shape = chunk_shape,
        md_codecs = codecs, md_chunk_key_encoding = cke, md_fill_value = fill_value\<rparr>"
    unfolding ParseArrayMetadata_def refuse_iff steps_iff bind_eq_Some_conv map_option_Not
    by (auto simp: refuse_iff steps_iff bind_eq_Some_conv map_option_Not)
  note s = extents_bounds [OF parse_extents_values [OF shape]] and c = extents_bounds [OF parse_extents_values [OF chunk_shape]]
  have p: "length (elements_of chunks) = length shape" "\<forall>n \<in> set chunk_shape. 0 < n"
    using chunks c(3) by (auto simp: positive_shape_iff)
  have "is_object cke" using cke by (auto simp: outcome_iff)
  then show ?thesis using s c p parse_dimensions_ok [OF names] parse_attributes_ok [OF attributes] parse_codecs_ok [OF codecs]
      check_transposes_ok [OF transposes] check_sharding_ok [OF sharding] by (simp add: metadata_ok_def md)
qed

section \<open>The layout and the geometry of accepted metadata\<close>

definition layout_ok :: "nat \<Rightarrow> StorageLayout \<Rightarrow> bool" where
  "layout_ok rank layout \<longleftrightarrow>
     length (sl_chunk_shape layout) = rank \<and> (\<forall>c \<in> set (sl_chunk_shape layout). 0 < c \<and> c < two64) \<and>
     (sl_sharded layout \<longrightarrow> length (sl_shard_shape layout) = rank \<and> (\<forall>c \<in> set (sl_shard_shape layout). 0 < c \<and> c < two64))"

definition inner_extents :: "json \<Rightarrow> u64 list" where
  "inner_extents inner = map (\<lambda>v. the (get_u64 v)) (elements_of inner)"

lemma place_inner_values:
  assumes "positive_shape rank inner = Some True"
  shows "\<forall>i \<in> set is. i < rank \<Longrightarrow>
    place_inner inner decoded is shape = Some (upd_all shape (map (\<lambda>i. (decoded ! i, inner_extents inner ! i)) is))"
proof (induction "is" arbitrary: shape)
  case (Cons i "is")
  have i: "i < length (elements_of inner)" and arr: "is_array inner" using assms Cons.prems by (auto simp: positive_shape_iff)
  then have at: "at_index inner i = Some (elements_of inner ! i)" by (cases inner) auto
  obtain n where n: "get_u64 (elements_of inner ! i) = Some n" using assms i by (metis nth_mem positive_shape_iff)
  then have "inner_extents inner ! i = n" using i by (simp add: inner_extents_def)
  then show ?case using Cons at n by simp
qed simp

lemma inner_extents_bounds:
  assumes "positive_shape rank inner = Some True"
  shows "length (inner_extents inner) = rank" and "\<forall>n \<in> set (inner_extents inner). 0 < n \<and> n < two64"
  using assms by (auto simp: positive_shape_iff inner_extents_def) (metis get_u64_less option.sel)+

lemma permuted_values:
  assumes "is_permutation decoded n" and "length vs = n"
  shows "i < n \<Longrightarrow> upd_all (replicate n z) (map (\<lambda>i. (decoded ! i, vs ! i)) [0..<n]) ! (decoded ! i) = vs ! i"
    and "set (upd_all (replicate n z) (map (\<lambda>i. (decoded ! i, vs ! i)) [0..<n])) \<subseteq> set vs"
proof -
  let ?kvs = "map (\<lambda>i. (decoded ! i, vs ! i)) [0..<n]" and ?xs = "upd_all (replicate n z) (map (\<lambda>i. (decoded ! i, vs ! i)) [0..<n])"
  have "map fst ?kvs = decoded" using assms by (intro nth_equalityI) (auto simp: is_permutation_def)
  then have dist: "distinct (map fst ?kvs)" using assms by (simp add: is_permutation_def del: map_map)
  have at: "?xs ! (decoded ! i) = vs ! i" if "i < n" for i
  proof (rule upd_all_in [OF dist])
    show "(decoded ! i, vs ! i) \<in> set ?kvs" using that by auto
    show "decoded ! i < length (replicate n z)" using assms that by (metis is_permutation_def length_replicate lessThan_iff nth_mem)
  qed
  then show "i < n \<Longrightarrow> ?xs ! (decoded ! i) = vs ! i" .
  show "set ?xs \<subseteq> set vs"
  proof
    fix x assume "x \<in> set ?xs"
    then obtain k where k: "k < n" "x = ?xs ! k" by (auto simp: in_set_conv_nth)
    then obtain i where "i < n" "decoded ! i = k" using assms(1) by (metis in_set_conv_nth is_permutation_def lessThan_iff)
    then show "x \<in> set vs" using at k assms(2) by auto
  qed
qed

lemma ApplyShardingLayout_ok:
  assumes md: "metadata_ok md" and found: "FindCodec (md_codecs md) ''sharding_indexed'' = Some (Some i)"
    and layout: "sl_chunk_shape layout = md_chunk_shape md"
  shows "\<exists>result. ApplyShardingLayout (md_codecs md) i layout = Some result \<and> layout_ok (length (md_shape md)) result \<and>
    sl_sharded result \<and> sl_shard_shape result = md_chunk_shape md \<and>
    (\<exists>configuration inner decoded. at_key (elements_of (md_codecs md) ! i) ''configuration'' = Some configuration \<and>
       at_key configuration ''chunk_shape'' = Some inner \<and> is_permutation decoded (length (md_shape md)) \<and>
       compose_transposes (length (md_shape md)) (take i (elements_of (md_codecs md))) [0..<length (md_shape md)] = Some decoded \<and>
       (\<forall>k < length (md_shape md). sl_chunk_shape result ! (decoded ! k) = inner_extents inner ! k))"
proof -
  let ?n = "length (md_shape md)" and ?cs = "elements_of (md_codecs md)"
  have len: "length (md_chunk_shape md) = ?n" using md by (simp add: metadata_ok_def)
  have "transposes_ok ?n (take i ?cs)" using md by (auto simp: metadata_ok_def transposes_ok_def dest: in_set_takeD)
  then obtain decoded where dec: "compose_transposes ?n (take i ?cs) [0..<?n] = Some decoded" "is_permutation decoded ?n"
    using compose_transposes_ok [OF _ is_permutation_identity] by blast
  obtain configuration inner where conf: "at_key (?cs ! i) ''configuration'' = Some configuration"
    and inner: "at_key configuration ''chunk_shape'' = Some inner" and pos: "positive_shape ?n inner = Some True"
    and names: "\<forall>cs. at_key configuration ''codecs'' = Some cs \<longrightarrow> is_array cs \<longrightarrow> codecs_ok (elements_of cs)"
    using md found by (auto simp: metadata_ok_def sharding_ok_def)
  let ?shape = "upd_all (replicate ?n 0) (map (\<lambda>k. (decoded ! k, inner_extents inner ! k)) [0..<?n])"
  have place: "place_inner inner decoded [0..<?n] (replicate ?n 0) = Some ?shape" using place_inner_values [OF pos] by simp
  let ?layout = "layout\<lparr>sl_sharded := True, sl_shard_shape := md_chunk_shape md, sl_chunk_shape := ?shape\<rparr>"
  have applied: "ApplyShardingLayout (md_codecs md) i layout =
      cond (and_also (Some (contains configuration ''codecs'')) (map_option is_array (at_key configuration ''codecs'')))
        (Option.bind (at_key configuration ''codecs'') (\<lambda>cs. map_option (\<lambda>c. ?layout\<lparr>sl_compressor := c\<rparr>) (FindCompressor cs)))
        (Some ?layout)"
    using dec(1) conf inner place by (simp add: ApplyShardingLayout_def Let_def layout len)
  have "defined (ApplyShardingLayout (md_codecs md) i layout)"
    unfolding applied using names by (intro returns) (auto simp: outcome_iff)
  then obtain result where result: "ApplyShardingLayout (md_codecs md) i layout = Some result" by (auto simp: defined_iff)
  then have r: "sl_chunk_shape result = ?shape" "sl_sharded result" "sl_shard_shape result = md_chunk_shape md"
    unfolding applied by (auto simp: outcome_iff)
  note ext = inner_extents_bounds [OF pos] and perm = permuted_values [OF dec(2) inner_extents_bounds(1) [OF pos], where z = 0]
  have "layout_ok ?n result" unfolding layout_ok_def r using perm(2) ext(2) len md by (auto simp: metadata_ok_def)
  then show ?thesis using result r conf inner dec perm(1) by auto
qed

lemma ParseStorageLayout_ok:
  assumes md: "metadata_ok md"
  shows "\<exists>layout. ParseStorageLayout md = Some layout \<and> layout_ok (length (md_shape md)) layout"
proof -
  let ?n = "length (md_shape md)"
  let ?l0 = "\<lparr>sl_chunk_shape = md_chunk_shape md, sl_shard_shape = [], sl_compressor = [], sl_sharded = False\<rparr>"
  have names: "codecs_ok (elements_of (md_codecs md))" using md by (simp add: metadata_ok_def)
  obtain found where found: "FindCodec (md_codecs md) ''sharding_indexed'' = Some found"
    using FindCodec_returns [OF names] by (auto simp: defined_iff)
  obtain c where c: "FindCompressor (md_codecs md) = Some c" using FindCompressor_returns [OF names] by (auto simp: defined_iff)
  have "\<exists>l. (case found of None \<Rightarrow> Some ?l0 | Some i \<Rightarrow> ApplyShardingLayout (md_codecs md) i ?l0) = Some l \<and> layout_ok ?n l"
  proof (cases found)
    case None
    then show ?thesis using md by (simp add: layout_ok_def metadata_ok_def)
  next
    case (Some i)
    then show ?thesis using ApplyShardingLayout_ok [OF md, of i ?l0] found by auto
  qed
  then obtain l where l: "(case found of None \<Rightarrow> Some ?l0 | Some i \<Rightarrow> ApplyShardingLayout (md_codecs md) i ?l0) = Some l"
    "layout_ok ?n l" by blast
  then show ?thesis using found c by (auto simp: ParseStorageLayout_def Let_def layout_ok_def)
qed

lemma ceil_div_rounding:
  assumes "0 < chunk" and "len + chunk < two64"
  shows "sub64 (add64 len chunk) 1 div chunk = ceil_div len chunk"
proof -
  have "sub64 (add64 len chunk) 1 = len + chunk - 1" using assms by (simp add: add64_exact sub64_exact)
  moreover have "(len + chunk - 1) div chunk \<le> k \<longleftrightarrow> ceil_div len chunk \<le> k" for k
  proof -
    have "(len + chunk - 1) div chunk \<le> k \<longleftrightarrow> (len + chunk - 1) div chunk < k + 1" by linarith
    also have "\<dots> \<longleftrightarrow> len + chunk - 1 < (k + 1) * chunk" using assms(1) by (simp add: div_less_iff_less_mult)
    also have "\<dots> \<longleftrightarrow> len \<le> k * chunk" using assms(1) by (simp add: algebra_simps) linarith
    finally show ?thesis using assms(1) by (simp add: ceil_div_le_iff)
  qed
  ultimately show ?thesis by (metis order_antisym order_refl)
qed

lemma geometry_axes_ok:
  assumes "layout_ok rank layout"
  shows "\<forall>a \<in> set axes. ax_storage_index a < rank \<Longrightarrow>
    \<exists>xs. geometry_axes layout axes = Some xs \<and> length xs = length axes \<and>
      (\<forall>i < length axes. let chunk = sl_chunk_shape layout ! ax_storage_index (axes ! i)
         in 0 < chunk \<and> chunk < two64 \<and> fst (xs ! i) = chunk \<and>
            snd (snd (xs ! i)) = sub64 (add64 (ax_length (axes ! i)) chunk) 1 div chunk)"
proof (induction axes)
  case (Cons a axes)
  then obtain xs where xs: "geometry_axes layout axes = Some xs" "length xs = length axes"
    "\<forall>i < length axes. let chunk = sl_chunk_shape layout ! ax_storage_index (axes ! i)
         in 0 < chunk \<and> chunk < two64 \<and> fst (xs ! i) = chunk \<and>
            snd (snd (xs ! i)) = sub64 (add64 (ax_length (axes ! i)) chunk) 1 div chunk" by auto
  let ?c = "sl_chunk_shape layout ! ax_storage_index a"
  have a: "ax_storage_index a < length (sl_chunk_shape layout)" "sl_sharded layout \<longrightarrow> ax_storage_index a < length (sl_shard_shape layout)"
    using Cons.prems assms by (auto simp: layout_ok_def)
  then have c: "0 < ?c" "?c < two64" using assms by (auto simp: layout_ok_def)
  obtain shard where g: "geometry_axes layout (a # axes) = Some ((?c, shard, sub64 (add64 (ax_length a) ?c) 1 div ?c) # xs)"
    using xs(1) a c by (cases "sl_sharded layout") (auto simp: vec_at_def)
  show ?case unfolding g using xs(2,3) c by (auto simp: Let_def less_Suc_eq_0_disj)
qed simp

lemma BuildChunkGeometry_ok:
  assumes d: "descriptor_ok d" and l: "layout_ok (length (img_axes d)) layout"
  shows "\<exists>g. BuildChunkGeometry d layout = Some g \<and> length (chunk_shape g) = length (img_axes d) \<and>
    (\<forall>i < length (img_axes d). let chunk = sl_chunk_shape layout ! ax_storage_index (img_axes d ! i)
       in chunk_shape g ! i = chunk \<and> 0 < chunk \<and> chunk < two64 \<and>
          (ax_length (img_axes d ! i) + chunk < two64 \<longrightarrow> grid_shape g ! i = ceil_div (ax_length (img_axes d ! i)) chunk))"
proof -
  have "\<forall>a \<in> set (img_axes d). ax_storage_index a < length (img_axes d)" using descriptor_ok_storage [OF d] by blast
  from geometry_axes_ok [OF l this] obtain xs where xs: "geometry_axes layout (img_axes d) = Some xs"
    "length xs = length (img_axes d)"
    "\<forall>i < length (img_axes d). let chunk = sl_chunk_shape layout ! ax_storage_index (img_axes d ! i)
         in 0 < chunk \<and> chunk < two64 \<and> fst (xs ! i) = chunk \<and>
            snd (snd (xs ! i)) = sub64 (add64 (ax_length (img_axes d ! i)) chunk) 1 div chunk" by blast
  then show ?thesis by (auto simp: BuildChunkGeometry_def Let_def ceil_div_rounding [unfolded One_nat_def])
qed

section \<open>Properties\<close>

definition example_document :: json where
  "example_document = JObject
     [(''zarr_format'', JUnsigned 3), (''node_type'', JString ''array''),
      (''shape'', JArray [JUnsigned 4, JUnsigned 8, JUnsigned 10]), (''data_type'', JString ''float32''),
      (''dimension_names'', JArray [JString ''frequency'', JString ''m'', JString ''l'']),
      (''chunk_grid'', JObject [(''name'', JString ''regular''),
         (''configuration'', JObject [(''chunk_shape'', JArray [JUnsigned 2, JUnsigned 8, JUnsigned 10])])]),
      (''codecs'', JArray
         [JObject [(''name'', JString ''transpose''), (''configuration'', JObject [(''order'', JArray [JUnsigned 2, JUnsigned 0, JUnsigned 1])])],
          JObject [(''name'', JString ''sharding_indexed''),
            (''configuration'', JObject [(''chunk_shape'', JArray [JUnsigned 5, JUnsigned 1, JUnsigned 4]),
               (''codecs'', JArray [JObject [(''name'', JString ''bytes'')], JObject [(''name'', JString ''zstd'')]])])]])]"

definition example_metadata :: ArrayMetadata where
  "example_metadata = (case ParseArrayMetadata example_document ''SKY'' of Some (Inr md) \<Rightarrow> md | _ \<Rightarrow> empty_metadata)"

lemma example_document_parses: "ParseArrayMetadata example_document ''SKY'' = Some (Inr example_metadata)"
proof -
  have "case ParseArrayMetadata example_document ''SKY'' of Some (Inr md) \<Rightarrow> True | _ \<Rightarrow> False" by code_simp
  then show ?thesis by (auto simp: example_metadata_def split: option.splits sum.splits)
qed

text \<open>
  Claim C11. Whatever JSON value it is given, \<open>ParseArrayMetadata\<close> never lets an exception of the JSON library out: it
  returns metadata or an error. The metadata it accepts has a positive chunk shape of the array's rank, dimension
  names that are absent or distinct and of that rank, codec names that are strings, transposes that are permutations,
  and a sharding codec, if there is one, whose inner chunk shape is positive and of that rank.
\<close>

theorem ParseArrayMetadata_total_and_sound:
  "\<exists>r. ParseArrayMetadata metadata node = Some r \<and> (\<forall>md. r = Inr md \<longrightarrow> metadata_ok md)"
  using ParseArrayMetadata_returns [of metadata node] ParseArrayMetadata_ok [of metadata node]
  by (auto simp: defined_iff)

theorem ParseArrayMetadata_total_and_sound_witness:
  "metadata_ok example_metadata \<and> md_chunk_shape example_metadata = [2, 8, 10]"
proof
  show "metadata_ok example_metadata"
    using ParseArrayMetadata_total_and_sound [of example_document "''SKY''"] example_document_parses by auto
  show "md_chunk_shape example_metadata = [2, 8, 10]" by code_simp
qed





text \<open>
  Where the sum of an axis length and an extent leaves 64 bits, the grid is wrong: an axis of ten elements in one
  chunk of \<open>2 ^ 64 - 1\<close>, an extent the parse accepts, gets a grid of no chunks.
\<close>

lemma grid_shape_wraps:
  "map_option grid_shape (BuildChunkGeometry (example_image\<lparr>img_axes := [example_axis ''l'' spatial_x 10 0]\<rparr>)
     \<lparr>sl_chunk_shape = [18446744073709551615], sl_shard_shape = [], sl_compressor = [], sl_sharded = False\<rparr>) = Some [0] \<and>
   positive_shape 1 (JArray [JUnsigned 18446744073709551615]) = Some True"
  by code_simp

end
