(* ===== verification/Node_Names.thy ===== *)
theory Node_Names
  imports Array_Metadata "HOL-Library.List_Lexorder" "HOL-Library.Char_ord"
begin

text \<open>
  The names of the nodes of a store and the copy of their documents the root may hold, of \<open>src/store.cc\<close>: the canonical
  name of a node, the keys of consolidated metadata and the walk that files every document of the copy under its node's
  canonical name. Paths are those of a POSIX system. The members of a JSON object are listed in the order of their keys.
\<close>

section \<open>Paths\<close>

text \<open>The text between separators, the empty text included.\<close>

fun split_slash :: "string \<Rightarrow> string list" where
  "split_slash [] = [[]]"
| "split_slash (c # cs) =
     (if c = CHR ''/'' then [] # split_slash cs
      else case split_slash cs of [] \<Rightarrow> [[c]] | part # parts \<Rightarrow> (c # part) # parts)"

text \<open>What iterating over a relative path visits: the names in it, and an empty one after a separator at its end.\<close>

definition path_parts :: "string \<Rightarrow> string list" where
  "path_parts path =
     filter (\<lambda>part. part \<noteq> []) (split_slash path) @ (if path \<noteq> [] \<and> last path = CHR ''/'' then [[]] else [])"

definition is_absolute :: "string \<Rightarrow> bool" where
  "is_absolute path \<longleftrightarrow> path \<noteq> [] \<and> hd path = CHR ''/''"

text \<open>\<open>path /= part\<close> for a part that is not empty and holds no separator.\<close>

definition append_part :: "string \<Rightarrow> string \<Rightarrow> string" where
  "append_part path part = (if path = [] then part else path @ ''/'' @ part)"

section \<open>Node names\<close>

definition invalid_node :: "string \<Rightarrow> Error" where
  "invalid_node node = mk_error invalid_argument ''Invalid Zarr node path'' node"

fun normalize_parts :: "string \<Rightarrow> string list \<Rightarrow> string \<Rightarrow> string result" where
  "normalize_parts node [] normalized = Inr normalized"
| "normalize_parts node (part # parts) normalized =
     (if part = ''..'' then Inl (invalid_node node)
      else if part = ''.'' \<or> part = [] then normalize_parts node parts normalized
      else normalize_parts node parts (append_part normalized part))"

definition NormalizeNodeName :: "string \<Rightarrow> string result" where
  "NormalizeNodeName node =
     (if node = [] \<or> is_absolute node then Inl (invalid_node node)
      else case normalize_parts node (path_parts node) [] of
             Inl e \<Rightarrow> Inl e
           | Inr normalized \<Rightarrow> if normalized = [] then Inl (invalid_node node) else Inr normalized)"

section \<open>Consolidated metadata\<close>

definition metadata_suffix :: string where "metadata_suffix = ''/zarr.json''"

definition NormalizeMetadataKey :: "string \<Rightarrow> string" where
  "NormalizeMetadataKey key =
     (let key = dropWhile (\<lambda>c. c = CHR ''/'') key;
          key = (if length metadata_suffix \<le> length key \<and> drop (length key - length metadata_suffix) key = metadata_suffix
                 then take (length key - length metadata_suffix) key else key)
      in if key = ''zarr.json'' then [] else key)"

text \<open>The documents filed so far, by the name of their node.\<close>

type_synonym documents = "(string \<times> json) list"

definition spelled_key :: "string \<Rightarrow> string \<Rightarrow> string" where
  "spelled_key prefix key = (if prefix = [] then key else prefix @ ''/'' @ key)"

definition not_a_node_path :: "string \<Rightarrow> Error" where
  "not_a_node_path spelled =
     mk_error invalid_metadata
       (''Zarr consolidated_metadata lists '' @ [CHR 0x27] @ spelled @ [CHR 0x27] @ '', which is not a node path'') ''zarr.json''"

definition listed_twice :: "string \<Rightarrow> string \<Rightarrow> Error" where
  "listed_twice node spelled =
     mk_error invalid_metadata
       (''Zarr consolidated_metadata lists the node '' @ [CHR 0x27] @ node @ [CHR 0x27] @ '' twice, once as '' @
        [CHR 0x27] @ spelled @ [CHR 0x27]) ''zarr.json''"

fun collect_members :: "string \<Rightarrow> (string \<times> json) list \<Rightarrow> documents \<Rightarrow> documents result" where
  "collect_members prefix [] output = Inr output"
| "collect_members prefix ((key, value) # rest) output =
     (let spelled = spelled_key prefix key;
          path = NormalizeMetadataKey spelled
      in case value of
           JObject members \<Rightarrow>
             if contains (JObject members) ''node_type''
             then if path = [] then collect_members prefix rest output
                  else (case NormalizeNodeName path of
                          Inl _ \<Rightarrow> Inl (not_a_node_path spelled)
                        | Inr node \<Rightarrow>
                            if map_of output node \<noteq> None then Inl (listed_twice node spelled)
                            else collect_members prefix rest (output @ [(node, value)]))
             else (case collect_members path members output of
                     Inl e \<Rightarrow> Inl e
                   | Inr output \<Rightarrow> collect_members prefix rest output)
         | _ \<Rightarrow> collect_members prefix rest output)"

definition CollectConsolidatedMetadata :: "json \<Rightarrow> string \<Rightarrow> documents \<Rightarrow> documents result" where
  "CollectConsolidatedMetadata metadata prefix output =
     (case metadata of JObject members \<Rightarrow> collect_members prefix members output | _ \<Rightarrow> Inr output)"

section \<open>Canonical names\<close>

text \<open>A name that is one: not empty, not a dot or two, and within one level.\<close>

definition proper_part :: "string \<Rightarrow> bool" where
  "proper_part part \<longleftrightarrow> part \<noteq> [] \<and> part \<noteq> ''.'' \<and> part \<noteq> ''..'' \<and> CHR ''/'' \<notin> set part"

definition join_parts :: "string list \<Rightarrow> string" where
  "join_parts parts = foldl append_part [] parts"

definition canonical :: "string \<Rightarrow> bool" where
  "canonical name \<longleftrightarrow> (\<exists>parts. parts \<noteq> [] \<and> (\<forall>part \<in> set parts. proper_part part) \<and> name = join_parts parts)"

lemma split_slash_nonempty [simp]: "split_slash cs \<noteq> []"
  by (induction cs) (auto split: list.splits)

lemma split_slash_parts: "part \<in> set (split_slash cs) \<Longrightarrow> CHR ''/'' \<notin> set part"
  by (induction cs arbitrary: part) (auto split: list.splits if_splits)

lemma split_slash_part: "CHR ''/'' \<notin> set part \<Longrightarrow> split_slash part = [part]"
  by (induction part) auto

lemma split_slash_append: "split_slash (xs @ ''/'' @ ys) = split_slash xs @ split_slash ys"
proof (induction xs)
  case (Cons x xs)
  then show ?case by (cases "split_slash xs") auto
qed simp

lemma join_parts_snoc: "parts \<noteq> [] \<Longrightarrow> join_parts parts \<noteq> [] \<Longrightarrow> join_parts (parts @ [part]) = join_parts parts @ ''/'' @ part"
  by (simp add: join_parts_def append_part_def)

lemma join_parts_proper:
  "\<forall>part \<in> set parts. proper_part part \<Longrightarrow> parts \<noteq> [] \<Longrightarrow>
   join_parts parts \<noteq> [] \<and> split_slash (join_parts parts) = parts \<and> hd (join_parts parts) \<noteq> CHR ''/'' \<and> last (join_parts parts) \<noteq> CHR ''/''"
proof (induction parts rule: rev_induct)
  case (snoc part parts)
  have part: "part \<noteq> []" "CHR ''/'' \<notin> set part" using snoc.prems by (simp_all add: proper_part_def)
  have ends: "hd part \<noteq> CHR ''/''" "last part \<noteq> CHR ''/''" using part by (metis hd_in_set, metis last_in_set)
  show ?case
  proof (cases "parts = []")
    case True
    then show ?thesis using part ends by (simp add: join_parts_def append_part_def split_slash_part)
  next
    case False
    then have IH: "join_parts parts \<noteq> []" "split_slash (join_parts parts) = parts" "hd (join_parts parts) \<noteq> CHR ''/''"
      using snoc by simp_all
    then show ?thesis using part ends split_slash_append [of "join_parts parts" part]
      by (simp add: join_parts_snoc [OF False IH(1)] split_slash_part)
  qed
qed simp

lemma normalize_parts_eq:
  "normalize_parts node parts normalized =
     (if ''..'' \<in> set parts then Inl (invalid_node node)
      else Inr (foldl append_part normalized (filter (\<lambda>part. part \<noteq> ''.'' \<and> part \<noteq> []) parts)))"
  by (induction parts arbitrary: normalized) auto

text \<open>The names a node name keeps.\<close>

definition kept_parts :: "string \<Rightarrow> string list" where
  "kept_parts node = filter (\<lambda>part. part \<noteq> ''.'' \<and> part \<noteq> []) (split_slash node)"

lemma kept_path_parts: "filter (\<lambda>part. part \<noteq> ''.'' \<and> part \<noteq> []) (path_parts node) = kept_parts node"
  by (auto simp: path_parts_def kept_parts_def intro: filter_cong)

lemma dots_path_parts: "''..'' \<in> set (path_parts node) \<longleftrightarrow> ''..'' \<in> set (split_slash node)"
  by (auto simp: path_parts_def)

lemma kept_parts_proper: "''..'' \<notin> set (split_slash node) \<Longrightarrow> \<forall>part \<in> set (kept_parts node). proper_part part"
  using split_slash_parts by (fastforce simp: kept_parts_def proper_part_def)

lemma NormalizeNodeName_eq:
  "NormalizeNodeName node =
     (if is_absolute node \<or> ''..'' \<in> set (split_slash node) \<or> kept_parts node = [] then Inl (invalid_node node)
      else Inr (join_parts (kept_parts node)))"
proof -
  have "join_parts (kept_parts node) \<noteq> []" if "''..'' \<notin> set (split_slash node)" "kept_parts node \<noteq> []"
    using join_parts_proper kept_parts_proper that by blast
  then show ?thesis
    by (auto simp: NormalizeNodeName_def normalize_parts_eq kept_path_parts dots_path_parts join_parts_def kept_parts_def)
qed

lemma NormalizeNodeName_canonical: "NormalizeNodeName node = Inr name \<Longrightarrow> canonical name"
  using kept_parts_proper by (auto simp: NormalizeNodeName_eq canonical_def split: if_splits)

lemma canonical_NormalizeNodeName:
  assumes "canonical name"
  shows "NormalizeNodeName name = Inr name"
proof -
  obtain parts where parts: "parts \<noteq> []" "\<forall>part \<in> set parts. proper_part part" "name = join_parts parts"
    using assms by (auto simp: canonical_def)
  note split = join_parts_proper [OF parts(2,1)]
  have kept: "kept_parts name = parts" using split parts(2,3) by (auto simp: kept_parts_def proper_part_def)
  have "\<not> is_absolute name" using split parts(3) by (simp add: is_absolute_def)
  moreover have "''..'' \<notin> set (split_slash name)" using split parts(2,3) by (auto simp: proper_part_def)
  ultimately show ?thesis unfolding NormalizeNodeName_eq kept using parts(1) by (simp flip: parts(3))
qed

text \<open>
  Claim C25. A node has one canonical name: what a name is filed under is a canonical name, a canonical name is filed
  under itself, and a name is refused exactly when it is absolute, climbs with two dots, or names nothing.
\<close>

theorem NormalizeNodeName_canonical_form:
  "(\<forall>name. NormalizeNodeName node = Inr name \<longrightarrow> canonical name \<and> NormalizeNodeName name = Inr name \<and> kept_parts name = kept_parts node) \<and>
   (isl (NormalizeNodeName node) \<longleftrightarrow> is_absolute node \<or> ''..'' \<in> set (split_slash node) \<or> set (split_slash node) \<subseteq> {[], ''.''}) \<and>
   (\<forall>e. NormalizeNodeName node = Inl e \<longrightarrow> e = mk_error invalid_argument ''Invalid Zarr node path'' node)"
proof (intro conjI allI impI)
  fix name
  assume name: "NormalizeNodeName node = Inr name"
  then show "canonical name" by (rule NormalizeNodeName_canonical)
  then show "NormalizeNodeName name = Inr name" by (rule canonical_NormalizeNodeName)
  have parts: "''..'' \<notin> set (split_slash node)" "kept_parts node \<noteq> []" "name = join_parts (kept_parts node)"
    using name by (auto simp: NormalizeNodeName_eq split: if_splits)
  have "split_slash name = kept_parts node" using join_parts_proper [OF kept_parts_proper [OF parts(1)] parts(2)] parts(3) by simp
  then show "kept_parts name = kept_parts node" by (simp add: kept_parts_def)
next
  show "isl (NormalizeNodeName node) \<longleftrightarrow> is_absolute node \<or> ''..'' \<in> set (split_slash node) \<or> set (split_slash node) \<subseteq> {[], ''.''}"
    by (auto simp: NormalizeNodeName_eq kept_parts_def filter_empty_conv)
next
  fix e
  assume "NormalizeNodeName node = Inl e"
  then show "e = mk_error invalid_argument ''Invalid Zarr node path'' node"
    by (simp add: NormalizeNodeName_eq invalid_node_def split: if_splits)
qed

theorem NormalizeNodeName_canonical_form_witness:
  "NormalizeNodeName ''./SKY//./beam/'' = Inr ''SKY/beam'' \<and> canonical ''SKY/beam'' \<and> NormalizeNodeName ''SKY/beam'' = Inr ''SKY/beam'' \<and>
   isl (NormalizeNodeName ''SKY/../beam'')"
proof -
  have "NormalizeNodeName ''./SKY//./beam/'' = Inr ''SKY/beam''" by code_simp
  moreover have "isl (NormalizeNodeName ''SKY/../beam'')" by code_simp
  ultimately show ?thesis using NormalizeNodeName_canonical_form [of "''./SKY//./beam/''"] by blast
qed

section \<open>The documents a copy lists\<close>

text \<open>Every document of the copy, with its key as spelled out from the root, in the order the walk meets them.\<close>

fun listed :: "string \<Rightarrow> (string \<times> json) list \<Rightarrow> (string \<times> json) list" where
  "listed prefix [] = []"
| "listed prefix ((key, v) # rest) =
     (case v of
        JObject members \<Rightarrow>
          if contains v ''node_type'' then [(spelled_key prefix key, v)]
          else listed (NormalizeMetadataKey (spelled_key prefix key)) members
      | _ \<Rightarrow> []) @ listed prefix rest"

definition documents_of :: "string \<Rightarrow> (string \<times> json) list \<Rightarrow> (string \<times> json) list" where
  "documents_of prefix members = filter (\<lambda>(spelled, v). NormalizeMetadataKey spelled \<noteq> []) (listed prefix members)"

definition node_of_key :: "string \<Rightarrow> string result" where
  "node_of_key spelled = NormalizeNodeName (NormalizeMetadataKey spelled)"

text \<open>Filing the documents one after the other.\<close>

fun file_documents :: "(string \<times> json) list \<Rightarrow> documents \<Rightarrow> documents result" where
  "file_documents [] out = Inr out"
| "file_documents ((spelled, v) # docs) out =
     (case node_of_key spelled of
        Inl _ \<Rightarrow> Inl (not_a_node_path spelled)
      | Inr node \<Rightarrow> if map_of out node \<noteq> None then Inl (listed_twice node spelled)
                    else file_documents docs (out @ [(node, v)]))"

lemma file_documents_append:
  "file_documents (xs @ ys) out = (case file_documents xs out of Inl e \<Rightarrow> Inl e | Inr out \<Rightarrow> file_documents ys out)"
  by (induction xs out rule: file_documents.induct) (auto split: sum.splits)

lemma collect_members_files: "collect_members prefix members out = file_documents (documents_of prefix members) out"
proof (induction prefix members out rule: collect_members.induct)
  case (2 prefix key v rest out)
  show ?case
  proof (cases v)
    case (JObject members)
    show ?thesis
    proof (cases "contains v ''node_type''")
      case True
      then show ?thesis using 2 JObject
        by (auto simp: documents_of_def node_of_key_def Let_def split: sum.splits)
    next
      case False
      then show ?thesis using 2 JObject
        by (auto simp: documents_of_def Let_def file_documents_append split: sum.splits)
    qed
  qed (use 2 in \<open>simp_all add: documents_of_def Let_def\<close>)
qed (simp add: documents_of_def)

lemma file_documents_iff:
  "file_documents docs out = Inr filed \<longleftrightarrow>
     (\<exists>nodes. map (\<lambda>(spelled, v). node_of_key spelled) docs = map Inr nodes \<and>
        distinct nodes \<and> set nodes \<inter> fst ` set out = {} \<and> filed = out @ zip nodes (map snd docs))"
proof (induction docs arbitrary: out)
  case (Cons doc docs)
  obtain spelled v where doc: "doc = (spelled, v)" by force
  show ?case
  proof (cases "node_of_key spelled")
    case (Inl e)
    then show ?thesis by (auto simp: doc Cons_eq_map_conv)
  next
    case (Inr node)
    have nodes: "(\<exists>nodes. map (\<lambda>(spelled, v). node_of_key spelled) (doc # docs) = map Inr nodes \<and> P nodes) \<longleftrightarrow>
        (\<exists>nodes. map (\<lambda>(spelled, v). node_of_key spelled) docs = map Inr nodes \<and> P (node # nodes))" for P
      using Inr by (auto simp: doc Cons_eq_map_conv)
    show ?thesis
    proof (cases "node \<in> fst ` set out")
      case True
      then show ?thesis using Inr unfolding nodes by (auto simp: doc map_of_eq_None_iff)
    next
      case False
      then have turn: "file_documents (doc # docs) out = file_documents docs (out @ [(node, v)])"
        using Inr by (simp add: doc map_of_eq_None_iff)
      show ?thesis unfolding nodes turn Cons.IH using False by (intro ex_cong1) (auto simp: doc)
    qed
  qed
qed auto

lemma file_documents_error: "file_documents docs out = Inl e \<Longrightarrow> err_code e = invalid_metadata"
  by (induction docs out rule: file_documents.induct) (auto simp: not_a_node_path_def listed_twice_def split: sum.splits if_splits)

text \<open>
  The root's copy is taken whole or not at all: it is accepted exactly when every document in it, at any depth
  of nesting, is listed under a key that names a node and no two name the same node, and then every document is filed
  under its node's canonical name, in order; otherwise the copy is refused as invalid metadata. The root's own document
  is passed over.
\<close>

theorem CollectConsolidatedMetadata_files_all:
  "(CollectConsolidatedMetadata (JObject members) prefix [] = Inr filed \<longleftrightarrow>
      (\<exists>nodes. map (\<lambda>(spelled, v). NormalizeNodeName (NormalizeMetadataKey spelled)) (documents_of prefix members) = map Inr nodes \<and>
         distinct nodes \<and> filed = zip nodes (map snd (documents_of prefix members)))) \<and>
   (case CollectConsolidatedMetadata (JObject members) prefix [] of Inl e \<Rightarrow> err_code e = invalid_metadata | Inr _ \<Rightarrow> True)"
proof
  have files: "CollectConsolidatedMetadata (JObject members) prefix [] = file_documents (documents_of prefix members) []"
    by (simp add: CollectConsolidatedMetadata_def collect_members_files)
  show "CollectConsolidatedMetadata (JObject members) prefix [] = Inr filed \<longleftrightarrow>
      (\<exists>nodes. map (\<lambda>(spelled, v). NormalizeNodeName (NormalizeMetadataKey spelled)) (documents_of prefix members) = map Inr nodes \<and>
         distinct nodes \<and> filed = zip nodes (map snd (documents_of prefix members)))"
    unfolding files file_documents_iff node_of_key_def by simp
  show "case CollectConsolidatedMetadata (JObject members) prefix [] of Inl e \<Rightarrow> err_code e = invalid_metadata | Inr _ \<Rightarrow> True"
    unfolding files by (auto split: sum.splits dest: file_documents_error)
qed

lemma collected_names:
  assumes "CollectConsolidatedMetadata metadata prefix [] = Inr filed"
  shows "distinct (map fst filed)" and "\<forall>name \<in> set (map fst filed). canonical name" and "\<forall>v \<in> set (map snd filed). is_object v"
proof -
  have "distinct (map fst filed) \<and> (\<forall>name \<in> set (map fst filed). canonical name) \<and> (\<forall>v \<in> set (map snd filed). is_object v)"
  proof (cases metadata)
    case (JObject members)
    then have "file_documents (documents_of prefix members) [] = Inr filed"
      using assms by (simp add: CollectConsolidatedMetadata_def collect_members_files)
    then obtain nodes where nodes: "map (\<lambda>(spelled, v). node_of_key spelled) (documents_of prefix members) = map Inr nodes" "distinct nodes"
      "filed = zip nodes (map snd (documents_of prefix members))" by (auto simp: file_documents_iff)
    have len: "length nodes = length (documents_of prefix members)" using arg_cong [OF nodes(1), of length] by simp
    have "canonical name" if "name \<in> set nodes" for name
    proof -
      have "Inr name \<in> set (map (\<lambda>(spelled, v). node_of_key spelled) (documents_of prefix members))" unfolding nodes(1) using that by simp
      then show ?thesis by (auto simp: node_of_key_def dest!: sym NormalizeNodeName_canonical)
    qed
    moreover have "is_object v" if "(spelled, v) \<in> set (listed p ms)" for spelled v p ms
      using that by (induction p ms rule: listed.induct) (auto split: json.splits if_splits)
    ultimately show ?thesis using nodes(2,3) len by (auto simp: documents_of_def)
  qed (use assms in \<open>simp_all add: CollectConsolidatedMetadata_def\<close>)
  then show "distinct (map fst filed)" and "\<forall>name \<in> set (map fst filed). canonical name" and "\<forall>v \<in> set (map snd filed). is_object v" by blast+
qed

end
