(* ===== verification/Numeric_Array.thy ===== *)
theory Numeric_Array
  imports Array_Metadata
begin

text \<open>
  \<open>src/zarr/numeric_array.cc\<close>: the values of a numeric array with the document they were decoded with, addressed by
  dimension name. Values are opaque 64-bit patterns. An access past the end of the values throws, which is \<open>None\<close>.
\<close>

type_synonym f64 = "64 word"

record NumericArray =
  na_node :: string
  na_metadata :: ArrayMetadata
  na_values :: "f64 list"

fun count_declared :: "u64 list \<Rightarrow> u64 \<Rightarrow> u64 option" where
  "count_declared [] declared = Some declared"
| "count_declared (extent # extents) declared =
     (if extent \<noteq> 0 \<and> (two64 - 1) div extent < declared then None else count_declared extents (mul64 declared extent))"

definition NumericArray_Make :: "string \<Rightarrow> ArrayMetadata \<Rightarrow> f64 list \<Rightarrow> NumericArray result" where
  "NumericArray_Make node metadata vals =
     (case count_declared (md_shape metadata) 1 of
        None \<Rightarrow> Inl (mk_error invalid_metadata ''Array shape declares more values than can be counted'' node)
      | Some declared \<Rightarrow>
          if length vals \<noteq> declared
          then Inl (mk_error invalid_metadata
                 (''Array holds '' @ to_string (length vals) @ '' values where its shape declares '' @ to_string declared) node)
          else Inr \<lparr>na_node = node, na_metadata = metadata, na_values = vals\<rparr>)"

fun fill_strides :: "u64 list \<Rightarrow> nat \<Rightarrow> u64 list \<Rightarrow> u64 list" where
  "fill_strides shape 0 strides = strides"
| "fill_strides shape (Suc d) strides = fill_strides shape d (strides[d := mul64 (strides ! Suc d) (shape ! Suc d)])"

fun offset_of :: "NumericArray \<Rightarrow> u64 list \<Rightarrow> (string \<times> u64) list \<Rightarrow> u64 \<Rightarrow> u64 result" where
  "offset_of array strides [] offset = Inr offset"
| "offset_of array strides ((name, index) # indices) offset =
     (case FindDimensionIndex (na_metadata array) name of
        None \<Rightarrow> Inl (mk_error invalid_slice (''Array has no dimension named '' @ name) (na_node array))
      | Some dimension \<Rightarrow>
          if md_shape (na_metadata array) ! dimension \<le> index
          then Inl (mk_error invalid_slice
                 (''Index '' @ to_string index @ '' is past the end of dimension '' @ name) (na_node array))
          else offset_of array strides indices (add64 offset (mul64 index (strides ! dimension))))"

definition NumericArray_At :: "NumericArray \<Rightarrow> (string \<times> u64) list \<Rightarrow> f64 result option" where
  "NumericArray_At array indices =
     (let shape = md_shape (na_metadata array);
          rank = length shape
      in if length (md_dimension_names (na_metadata array)) \<noteq> rank
         then Some (Inl (mk_error invalid_metadata ''Array cannot be addressed by name without dimension names'' (na_node array)))
         else (case offset_of array (fill_strides shape (rank - 1) (replicate rank 1)) indices 0 of
                 Inl e \<Rightarrow> Some (Inl e)
               | Inr offset \<Rightarrow> map_option Inr (vec_at (na_values array) offset)))"

section \<open>Elements in C order\<close>

text \<open>The position of an element, the last dimension varying fastest.\<close>

fun c_position :: "nat list \<Rightarrow> nat list \<Rightarrow> nat" where
  "c_position (n # ns) (i # is) = i * prod_list ns + c_position ns is"
| "c_position _ _ = 0"

text \<open>The index each dimension is taken at: the one named, or the first.\<close>

definition index_along :: "string list \<Rightarrow> (string \<times> nat) list \<Rightarrow> nat list" where
  "index_along names indices = map (\<lambda>name. case map_of indices name of None \<Rightarrow> 0 | Some i \<Rightarrow> i) names"

lemma count_declared_prod:
  "count_declared extents declared = Some n \<Longrightarrow> declared < two64 \<Longrightarrow> n = declared * prod_list extents \<and> n < two64"
proof (induction extents arbitrary: declared)
  case (Cons extent extents)
  have "declared * extent < two64"
  proof (cases "extent = 0")
    case False
    then have "declared \<le> (two64 - 1) div extent" using Cons.prems(1) by (auto split: if_splits)
    then have "declared * extent \<le> two64 - 1" using False by (simp add: less_eq_div_iff_mult_less_eq)
    then show ?thesis by linarith
  qed simp
  then have "mul64 declared extent = declared * extent" by (rule mul64_exact)
  then show ?case using Cons.IH [of "declared * extent"] Cons.prems \<open>declared * extent < two64\<close>
    by (auto simp: mult.assoc split: if_splits)
qed simp

lemma fill_strides_length [simp]: "length (fill_strides shape d strides) = length strides"
  by (induction d arbitrary: strides) simp_all

lemma fill_strides_prod:
  assumes "prod_list shape < two64" and "0 \<notin> set shape"
  shows "d < length shape \<Longrightarrow> length strides = length shape \<Longrightarrow>
    (\<forall>i < length shape. d \<le> i \<longrightarrow> strides ! i = prod_list (drop (Suc i) shape)) \<Longrightarrow> k < length shape \<Longrightarrow>
    fill_strides shape d strides ! k = prod_list (drop (Suc k) shape)"
proof (induction d arbitrary: strides)
  case (Suc d)
  have d: "drop (Suc d) shape = shape ! Suc d # drop (Suc (Suc d)) shape" using Suc.prems(1) by (simp add: Cons_nth_drop_Suc)
  have "prod_list (take (Suc d) shape) * prod_list (drop (Suc d) shape) = prod_list shape"
    by (metis append_take_drop_id prod_list.append)
  moreover have "0 < prod_list (take (Suc d) shape)" using assms(2) by (auto simp: prod_list_zero_iff dest: in_set_takeD intro!: Nat.gr0I)
  ultimately have "prod_list (drop (Suc d) shape) \<le> prod_list shape" by (metis One_nat_def Suc_leI mult_le_mono1 nat_mult_1)
  then have "mul64 (strides ! Suc d) (shape ! Suc d) = prod_list (drop (Suc d) shape)"
    using Suc.prems(1,3) assms(1) d by (subst mul64_exact) (simp_all add: mult.commute)
  then show ?case using Suc.prems by (simp, intro Suc.IH) (auto simp: nth_list_update)
qed auto

lemma c_position_sum: "length ixs = length ns \<Longrightarrow> c_position ns ixs = (\<Sum>d < length ns. ixs ! d * prod_list (drop (Suc d) ns))"
proof (induction ns ixs rule: c_position.induct)
  case (1 n ns i ixs)
  then show ?case by (simp add: sum.lessThan_Suc_shift del: sum.lessThan_Suc)
qed auto

lemma c_position_less: "length ixs = length ns \<Longrightarrow> \<forall>d < length ns. ixs ! d < ns ! d \<Longrightarrow> c_position ns ixs < prod_list ns"
proof (induction ns ixs rule: c_position.induct)
  case (1 n ns i ixs)
  then have "c_position ns ixs < prod_list ns" "i < n" by (auto simp: All_less_Suc2)
  then have "i * prod_list ns + c_position ns ixs < Suc i * prod_list ns" by simp
  also have "\<dots> \<le> n * prod_list ns" using \<open>i < n\<close> by (intro mult_le_mono1) simp
  finally show ?case by simp
qed auto

lemma FindDimensionIndex_at:
  assumes "distinct (md_dimension_names md)" and "d < length (md_dimension_names md)"
  shows "FindDimensionIndex md (md_dimension_names md ! d) = Some d"
  using assms unfolding FindDimensionIndex_def find_Some_iff
  by (intro exI [of _ d]) (auto simp: nth_eq_iff_index_eq)

text \<open>The sum the code takes over the indices named is the sum over the dimensions.\<close>

lemma index_sum:
  assumes "distinct names" and "distinct (map fst indices)" and "fst ` set indices \<subseteq> set names"
    and pos: "\<And>d. d < length names \<Longrightarrow> pos (names ! d) = d"
  shows "(\<Sum>(name, i) \<leftarrow> indices. i * s (pos name)) = (\<Sum>d < length names. index_along names indices ! d * s d)"
  using assms(2,3)
proof (induction indices)
  case Nil
  then show ?case by (simp add: index_along_def)
next
  case (Cons x indices)
  obtain name i where x: "x = (name, i)" by force
  obtain d where d: "d < length names" "name = names ! d" using Cons.prems x by (auto simp: in_set_conv_nth)
  have same: "index_along names (x # indices) ! e = index_along names indices ! e" if "e < length names" "e \<noteq> d" for e
    using that d assms(1) by (auto simp: index_along_def x nth_eq_iff_index_eq)
  have here: "index_along names (x # indices) ! d = i" "index_along names indices ! d = 0"
    using Cons.prems(1) d by (auto simp: index_along_def x map_of_eq_None_iff split: option.splits dest!: map_of_SomeD)
       (force simp: image_iff)+
  have split: "(\<Sum>e < length names. g e) = g d + (\<Sum>e \<in> {..<length names} - {d}. g e)" for g :: "nat \<Rightarrow> nat"
    using d(1) by (intro sum.remove) auto
  have "(\<Sum>e < length names. index_along names (x # indices) ! e * s e) = i * s d + (\<Sum>e < length names. index_along names indices ! e * s e)"
    unfolding split here using same by (auto intro!: sum.cong)
  then show ?case using Cons.IH Cons.prems x d pos by simp
qed

lemma offset_of_sum:
  assumes "\<forall>(name, i) \<in> set indices. \<exists>d < length (md_shape (na_metadata array)). FindDimensionIndex (na_metadata array) name = Some d \<and>
      i < md_shape (na_metadata array) ! d \<and> pos name = d"
    and "offset + (\<Sum>(name, i) \<leftarrow> indices. i * strides ! pos name) < two64"
  shows "offset_of array strides indices offset = Inr (offset + (\<Sum>(name, i) \<leftarrow> indices. i * strides ! pos name))"
  using assms
proof (induction indices arbitrary: offset)
  case (Cons x indices)
  obtain name i where x: "x = (name, i)" by force
  have here: "mul64 i (strides ! pos name) = i * strides ! pos name" "add64 offset (i * strides ! pos name) = offset + i * strides ! pos name"
    using Cons.prems(2) by (simp_all add: x mul64_exact add64_exact)
  have "offset_of array strides indices (offset + i * strides ! pos name) =
      Inr (offset + i * strides ! pos name + (\<Sum>(name, i) \<leftarrow> indices. i * strides ! pos name))"
    using Cons.prems by (intro Cons.IH) (simp_all add: x add.assoc)
  then show ?case using Cons.prems(1) here by (auto simp: x add.assoc)
qed simp

text \<open>The indices a caller may give: each of a dimension of the array, none twice, inside it.\<close>

definition indices_ok :: "NumericArray \<Rightarrow> (string \<times> u64) list \<Rightarrow> bool" where
  "indices_ok array indices \<longleftrightarrow> distinct (map fst indices) \<and>
     (\<forall>(name, i) \<in> set indices. \<exists>d < length (md_shape (na_metadata array)).
        md_dimension_names (na_metadata array) ! d = name \<and> i < md_shape (na_metadata array) ! d)"


definition beam_metadata :: ArrayMetadata where
  "beam_metadata =
     empty_metadata\<lparr>md_shape := [2, 3], md_chunk_shape := [2, 3], md_dimension_names := [''frequency'', ''beam_param''],
       md_attributes := JObject []\<rparr>"

definition beam_array :: NumericArray where
  "beam_array = \<lparr>na_node = ''BEAM'', na_metadata = beam_metadata, na_values = [10, 11, 12, 20, 21, 22]\<rparr>"


text \<open>An array with an empty dimension has no element to give for it: not naming that dimension throws out of the access.\<close>

lemma NumericArray_At_empty_throws:
  "\<exists>array. NumericArray_Make ''BEAM'' (beam_metadata\<lparr>md_shape := [0, 3]\<rparr>) [] = Inr array \<and> NumericArray_At array [(''beam_param'', 1)] = None"
proof (intro exI conjI)
  show "NumericArray_Make ''BEAM'' (beam_metadata\<lparr>md_shape := [0, 3]\<rparr>) [] = Inr \<lparr>na_node = ''BEAM'', na_metadata = beam_metadata\<lparr>md_shape := [0, 3]\<rparr>, na_values = []\<rparr>"
    by code_simp
  show "NumericArray_At \<lparr>na_node = ''BEAM'', na_metadata = beam_metadata\<lparr>md_shape := [0, 3]\<rparr>, na_values = []\<rparr> [(''beam_param'', 1)] = None"
    by code_simp
qed

end
