(* ===== verification/String_Array.thy ===== *)
theory String_Array
  imports Array_Metadata
begin

unbundle bit_operations_syntax

text \<open>
  \<open>src/zarr/string_array.cc\<close>: one-dimensional arrays of fixed-length UTF-32 strings, decoded by hand chunk by chunk into
  UTF-8, with the codec chain, the CRC32C checksums and the decompression around each chunk. The decompressors, the file
  system and the texts of library exceptions are the fields of two records the definitions take as arguments. The file
  system does not change while an array is read. Memory is not modelled, so \<open>std::bad_alloc\<close> does not happen.
\<close>

type_synonym u32 = "32 word"

section \<open>Failures\<close>

text \<open>What a helper throws: the reader's own exception, or one of the standard library or the JSON library.\<close>

datatype failure = DecodeFailure ErrorCode string | Exception string

type_synonym 'a decode = "failure + 'a"

definition Fail :: "ErrorCode \<Rightarrow> string \<Rightarrow> 'a decode" where
  "Fail code message = Inl (DecodeFailure code message)"

definition and_then :: "'a decode \<Rightarrow> ('a \<Rightarrow> 'b decode) \<Rightarrow> 'b decode" where
  "and_then a f = (case a of Inl e \<Rightarrow> Inl e | Inr x \<Rightarrow> f x)"

record StringLibs =
  lib_zstd :: "u8 list \<Rightarrow> nat \<Rightarrow> string + u8 list"
  lib_inflate_init :: int
  lib_inflate :: "u8 list \<Rightarrow> nat \<Rightarrow> int \<times> u8 list"
  lib_zError :: "int \<Rightarrow> string"
  lib_blosc_sizes :: "u8 list \<Rightarrow> nat \<times> nat"
  lib_blosc :: "u8 list \<Rightarrow> nat \<Rightarrow> int \<times> u8 list"
  lib_float_zero :: "string \<Rightarrow> bool"
  lib_json_what :: string
  lib_length_what :: string
  lib_max_strings :: nat
  lib_max_bytes :: nat

text \<open>Whether a path exists, or why that cannot be told, and what an open file holds.\<close>

record Files =
  fs_exists :: "string \<Rightarrow> string + bool"
  fs_read :: "string \<Rightarrow> u8 list option"

section \<open>Code points\<close>

definition kUnicodeMax :: u32 where "kUnicodeMax = 0x10FFFF"
definition kSurrogateMin :: u32 where "kSurrogateMin = 0xD800"
definition kSurrogateMax :: u32 where "kSurrogateMax = 0xDFFF"

text \<open>\<open>static_cast<char>\<close>, which keeps the low byte.\<close>

definition to_char :: "u32 \<Rightarrow> char" where
  "to_char w = char_of (unat w)"

definition AppendUtf8 :: "string \<Rightarrow> u32 \<Rightarrow> string decode" where
  "AppendUtf8 out code_point =
     (if kUnicodeMax < code_point \<or> kSurrogateMin \<le> code_point \<and> code_point \<le> kSurrogateMax
      then Fail decode_error ''Invalid Unicode code point''
      else if code_point < 0x80 then Inr (out @ [to_char code_point])
      else if code_point < 0x800
      then Inr (out @ [to_char (0xC0 OR drop_bit 6 code_point), to_char (0x80 OR (code_point AND 0x3F))])
      else if code_point < 0x10000
      then Inr (out @ [to_char (0xE0 OR drop_bit 12 code_point), to_char (0x80 OR (drop_bit 6 code_point AND 0x3F)),
                       to_char (0x80 OR (code_point AND 0x3F))])
      else Inr (out @ [to_char (0xF0 OR drop_bit 18 code_point), to_char (0x80 OR (drop_bit 12 code_point AND 0x3F)),
                       to_char (0x80 OR (drop_bit 6 code_point AND 0x3F)), to_char (0x80 OR (code_point AND 0x3F))]))"

definition ReadUint32 :: "u8 list \<Rightarrow> bool \<Rightarrow> u32" where
  "ReadUint32 bytes little_endian =
     (if little_endian
      then ucast (bytes ! 0) OR push_bit 8 (ucast (bytes ! 1)) OR push_bit 16 (ucast (bytes ! 2)) OR push_bit 24 (ucast (bytes ! 3))
      else ucast (bytes ! 3) OR push_bit 8 (ucast (bytes ! 2)) OR push_bit 16 (ucast (bytes ! 1)) OR push_bit 24 (ucast (bytes ! 0)))"

fun decode_element :: "u8 list \<Rightarrow> u64 \<Rightarrow> bool \<Rightarrow> u64 \<Rightarrow> u64 list \<Rightarrow> string \<Rightarrow> string decode" where
  "decode_element bytes length_bytes little_endian element [] value = Inr value"
| "decode_element bytes length_bytes little_endian element (code_index # rest) value =
     (let offset = add64 (mul64 element length_bytes) (mul64 code_index 4)
      in if length bytes < add64 offset 4
         then Fail decode_error ''String array chunk ended before the last element''
         else let code_point = ReadUint32 (drop offset bytes) little_endian
              in if code_point = 0 then Inr value
                 else and_then (AppendUtf8 value code_point) (decode_element bytes length_bytes little_endian element rest))"

fun decode_elements :: "u8 list \<Rightarrow> u64 \<Rightarrow> bool \<Rightarrow> u64 list \<Rightarrow> string list decode" where
  "decode_elements bytes length_bytes little_endian [] = Inr []"
| "decode_elements bytes length_bytes little_endian (element # rest) =
     and_then (decode_element bytes length_bytes little_endian element [0..<length_bytes div 4] []) (\<lambda>value.
     and_then (decode_elements bytes length_bytes little_endian rest) (\<lambda>values. Inr (value # values)))"

definition DecodeFixedLengthUtf32 :: "u8 list \<Rightarrow> u64 \<Rightarrow> u64 \<Rightarrow> bool \<Rightarrow> string list decode" where
  "DecodeFixedLengthUtf32 bytes num_elements length_bytes little_endian =
     decode_elements bytes length_bytes little_endian [0..<num_elements]"

section \<open>Decompression\<close>

datatype BytesCodec = blosc | gzip | zstd

text \<open>A buffer of \<open>n\<close> zero bytes after a library has written to its front.\<close>

definition written_to :: "nat \<Rightarrow> u8 list \<Rightarrow> u8 list" where
  "written_to n out = out @ replicate (n - length out) 0"

definition ZstdDecompress :: "StringLibs \<Rightarrow> u8 list \<Rightarrow> nat \<Rightarrow> (nat \<times> u8 list) decode" where
  "ZstdDecompress libs compressed n =
     (case lib_zstd libs compressed n of
        Inl name \<Rightarrow> Fail decode_error (''Zstd decompression failed: '' @ name)
      | Inr out \<Rightarrow> Inr (length out, written_to n out))"

definition uint_max :: nat where "uint_max = 0xFFFFFFFF"

text \<open>\<open>inflate\<close> says how it ended and what it wrote; 0 is \<open>Z_OK\<close> and 1 is \<open>Z_STREAM_END\<close>.\<close>

definition GzipDecompress :: "StringLibs \<Rightarrow> u8 list \<Rightarrow> nat \<Rightarrow> (nat \<times> u8 list) decode" where
  "GzipDecompress libs compressed n =
     (if uint_max < length compressed then Fail decode_error ''Gzip buffer is too large to decompress''
      else if uint_max < n then Fail decode_error ''Gzip expected output is too large to decompress''
      else if lib_inflate_init libs \<noteq> 0 then Fail decode_error ''Failed to initialize gzip decompression''
      else case lib_inflate libs compressed n of
             (status, out) \<Rightarrow>
               if status \<noteq> 1
               then if status = 0 \<and> n - length out = 0
                    then Fail decode_error ''Gzip decompressed size exceeds the expected array size''
                    else Fail decode_error (''Gzip decompression failed: '' @ lib_zError libs status)
               else Inr (length out, written_to n out))"

definition blosc_min_header_length :: nat where "blosc_min_header_length = 16"

definition BloscDecompress :: "StringLibs \<Rightarrow> u8 list \<Rightarrow> nat \<Rightarrow> (nat \<times> u8 list) decode" where
  "BloscDecompress libs compressed n =
     (if length compressed < blosc_min_header_length then Fail decode_error ''Blosc buffer is smaller than the header''
      else case lib_blosc_sizes libs compressed of
             (decompressed_bytes, compressed_bytes) \<Rightarrow>
               if length compressed < compressed_bytes then Fail decode_error ''Blosc buffer is truncated''
               else if decompressed_bytes \<noteq> n
               then Fail decode_error ''Blosc decompressed size does not match the expected chunk size''
               else case lib_blosc libs compressed n of
                      (decompressed_size, out) \<Rightarrow>
                        if decompressed_size < 0 then Fail decode_error ''Blosc decompression failed''
                        else if nat decompressed_size \<noteq> n then Fail decode_error ''Blosc produced an unexpected decompressed size''
                        else Inr (nat decompressed_size, written_to n out))"

definition DecompressBytesCodec :: "StringLibs \<Rightarrow> u8 list \<Rightarrow> BytesCodec \<Rightarrow> nat \<Rightarrow> (nat \<times> u8 list) decode" where
  "DecompressBytesCodec libs compressed codec n =
     (case codec of
        blosc \<Rightarrow> BloscDecompress libs compressed n
      | gzip \<Rightarrow> GzipDecompress libs compressed n
      | zstd \<Rightarrow> ZstdDecompress libs compressed n)"

section \<open>Checksums\<close>

definition reversed_polynomial :: u32 where "reversed_polynomial = 0x82F63B78"

definition crc_shift :: "u32 \<Rightarrow> u32" where
  "crc_shift crc = (if crc AND 1 \<noteq> 0 then drop_bit 1 crc XOR reversed_polynomial else drop_bit 1 crc)"

definition crc_table :: "u32 list" where
  "crc_table = map (\<lambda>index. (crc_shift ^^ 8) (word_of_nat index)) [0..<256]"

definition crc_turn :: "u32 \<Rightarrow> u8 \<Rightarrow> u32" where
  "crc_turn crc byte = crc_table ! unat ((crc XOR ucast byte) AND 0xFF) XOR drop_bit 8 crc"

definition Crc32c :: "u8 list \<Rightarrow> nat \<Rightarrow> u32" where
  "Crc32c data n = foldl crc_turn 0xFFFFFFFF (take n data) XOR 0xFFFFFFFF"

definition StripCrc32c :: "u8 list \<Rightarrow> nat \<Rightarrow> nat decode" where
  "StripCrc32c data n =
     (if n < 4 then Fail decode_error ''String array chunk is too small to contain a CRC32C checksum''
      else let payload_size = n - 4
           in if ReadUint32 (drop payload_size data) True \<noteq> Crc32c data payload_size
              then Fail decode_error ''String array CRC32C checksum mismatch''
              else Inr payload_size)"

text \<open>The loop that strips several checksums one after the other.\<close>

fun strip_all :: "nat \<Rightarrow> u8 list \<Rightarrow> nat \<Rightarrow> nat decode" where
  "strip_all 0 data n = Inr n"
| "strip_all (Suc i) data n = and_then (StripCrc32c data n) (strip_all i data)"

section \<open>The codec chain\<close>

record StringCodecInfo =
  ci_bytes_codec :: "BytesCodec option"
  ci_little_endian :: bool
  ci_crc_before_compressor :: nat
  ci_crc_after_compressor :: nat

definition SetBytesCodec :: "StringCodecInfo \<Rightarrow> BytesCodec \<Rightarrow> StringCodecInfo decode" where
  "SetBytesCodec info codec =
     (if ci_bytes_codec info \<noteq> None
      then Fail unsupported_codec
             ''String array uses multiple bytes compressors; only one of zstd, gzip, or blosc is supported''
      else Inr (info\<lparr>ci_bytes_codec := Some codec\<rparr>))"

text \<open>A conversion of the JSON library, whose exception carries the library's text.\<close>

definition json_get :: "StringLibs \<Rightarrow> 'a option \<Rightarrow> 'a decode" where
  "json_get libs x = (case x of None \<Rightarrow> Inl (Exception (lib_json_what libs)) | Some v \<Rightarrow> Inr v)"

text \<open>Numbers of different kinds are equal when their values are.\<close>

definition is_json_zero :: "StringLibs \<Rightarrow> json \<Rightarrow> bool" where
  "is_json_zero libs v =
     (case v of JUnsigned n \<Rightarrow> n = 0 | JInteger i \<Rightarrow> i = 0 | JFloat s \<Rightarrow> lib_float_zero libs s | _ \<Rightarrow> False)"

definition declared_endian :: "json \<Rightarrow> string option" where
  "declared_endian codec =
     (case at_key codec ''configuration'' of
        None \<Rightarrow> None
      | Some configuration \<Rightarrow> Option.bind (at_key configuration ''endian'') get_string)"

definition identity_transpose :: "StringLibs \<Rightarrow> json \<Rightarrow> bool" where
  "identity_transpose libs codec =
     (case at_key codec ''configuration'' of
        None \<Rightarrow> False
      | Some configuration \<Rightarrow>
          (case at_key configuration ''order'' of
             Some (JArray [v]) \<Rightarrow> is_json_zero libs v
           | _ \<Rightarrow> False))"

definition quoted :: "string \<Rightarrow> string" where
  "quoted s = CHR 0x27 # s @ [CHR 0x27]"

definition take_string_codec :: "StringLibs \<Rightarrow> json \<Rightarrow> StringCodecInfo \<times> bool \<Rightarrow> (StringCodecInfo \<times> bool) decode" where
  "take_string_codec libs codec state =
     (let (info, seen_bytes) = state
      in and_then (if is_object codec then json_get libs (value_string codec ''name'' []) else Inr []) (\<lambda>codec_name.
           if codec_name = ''blosc'' then and_then (SetBytesCodec info blosc) (\<lambda>info. Inr (info, seen_bytes))
           else if codec_name = ''gzip'' then and_then (SetBytesCodec info gzip) (\<lambda>info. Inr (info, seen_bytes))
           else if codec_name = ''zstd'' then and_then (SetBytesCodec info zstd) (\<lambda>info. Inr (info, seen_bytes))
           else if codec_name = ''bytes''
           then if seen_bytes then Fail unsupported_codec ''String array has multiple bytes codecs in its codec chain''
                else Inr (case declared_endian codec of None \<Rightarrow> info | Some e \<Rightarrow> info\<lparr>ci_little_endian := e \<noteq> ''big''\<rparr>, True)
           else if codec_name = ''crc32c''
           then Inr (if ci_bytes_codec info \<noteq> None
                     then info\<lparr>ci_crc_after_compressor := add64 (ci_crc_after_compressor info) 1\<rparr>
                     else info\<lparr>ci_crc_before_compressor := add64 (ci_crc_before_compressor info) 1\<rparr>, seen_bytes)
           else if codec_name = ''transpose''
           then if identity_transpose libs codec then Inr (info, seen_bytes)
                else Fail unsupported_codec ''String array uses a non-identity transpose; unsupported for 1-D string decode''
           else Fail unsupported_codec
                  (''String array uses unsupported codec '' @ quoted codec_name @
                   ''; only bytes, transpose, zstd, gzip, blosc, and crc32c are supported'')))"

fun take_string_codecs :: "StringLibs \<Rightarrow> json list \<Rightarrow> StringCodecInfo \<times> bool \<Rightarrow> (StringCodecInfo \<times> bool) decode" where
  "take_string_codecs libs [] state = Inr state"
| "take_string_codecs libs (codec # codecs) state = and_then (take_string_codec libs codec state) (take_string_codecs libs codecs)"

definition ParseStringCodecs :: "StringLibs \<Rightarrow> json \<Rightarrow> StringCodecInfo decode" where
  "ParseStringCodecs libs codecs =
     and_then (take_string_codecs libs (elements_of codecs)
         (\<lparr>ci_bytes_codec = None, ci_little_endian = True, ci_crc_before_compressor = 0, ci_crc_after_compressor = 0\<rparr>, False))
       (\<lambda>(info, seen_bytes). Inr info)"

section \<open>The layout and the chunks\<close>

record StringArrayLayout =
  sa_num_elements :: u64
  sa_chunk_elements :: u64
  sa_length_bytes :: u64
  sa_fill_value :: string

definition ParseStringFillValue :: "json \<Rightarrow> string decode" where
  "ParseStringFillValue fill_value =
     (case fill_value of
        JNull \<Rightarrow> Inr []
      | JString s \<Rightarrow> Inr s
      | _ \<Rightarrow> Fail invalid_metadata ''String array fill_value is not a string'')"

definition ParseStringArrayLayout :: "StringLibs \<Rightarrow> ArrayMetadata \<Rightarrow> StringArrayLayout decode" where
  "ParseStringArrayLayout libs md =
     and_then (json_get libs (IsFixedLengthUtf32 md)) (\<lambda>strings.
       if \<not> strings then Fail unsupported_data_type ''Array is not a valid fixed_length_utf32 string array''
       else if length (md_shape md) \<noteq> 1 \<or> length (md_chunk_shape md) \<noteq> 1
       then Fail unsupported_data_type ''Only 1-D string arrays are supported''
       else if hd (md_chunk_shape md) = 0 then Fail invalid_metadata ''String array has a chunk of no elements''
       else and_then (json_get libs (Option.bind (at_key (md_data_type_configuration md) ''length_bytes'') get_u64)) (\<lambda>length_bytes.
            and_then (ParseStringFillValue (md_fill_value md)) (\<lambda>fill_value.
              Inr \<lparr>sa_num_elements = hd (md_shape md), sa_chunk_elements = hd (md_chunk_shape md),
                   sa_length_bytes = length_bytes, sa_fill_value = fill_value\<rparr>)))"

text \<open>\<open>path / relative\<close>, for a relative path that is not empty.\<close>

definition path_append :: "string \<Rightarrow> string \<Rightarrow> string" where
  "path_append dir rel = (if dir = [] \<or> last dir = CHR ''/'' then dir @ rel else dir @ ''/'' @ rel)"

definition string_member :: "json \<Rightarrow> string \<Rightarrow> string \<Rightarrow> string" where
  "string_member v key def = (case at_key v key of Some (JString s) \<Rightarrow> s | _ \<Rightarrow> def)"

definition GetStringChunkPath :: "string \<Rightarrow> json \<Rightarrow> u64 \<Rightarrow> string decode" where
  "GetStringChunkPath array_dir encoding index =
     (let key_encoding = string_member encoding ''name'' ''default'';
          separator = (case at_key encoding ''configuration'' of
                         None \<Rightarrow> ''/'' | Some configuration \<Rightarrow> string_member configuration ''separator'' ''/'')
      in if key_encoding = ''default''
         then if separator \<noteq> ''/'' \<and> separator \<noteq> ''.''
              then Fail unsupported_codec (''String array has invalid chunk key separator '' @ quoted separator)
              else Inr (path_append array_dir (''c'' @ separator @ to_string index))
         else if key_encoding = ''v2'' then Inr (path_append array_dir (to_string index))
         else Fail unsupported_codec (''String array uses unsupported chunk key encoding '' @ quoted key_encoding))"

definition ReadChunkFile :: "Files \<Rightarrow> string \<Rightarrow> u8 list decode" where
  "ReadChunkFile files path =
     (case fs_read files path of
        None \<Rightarrow> Fail io_error (''Failed to open array data '' @ path)
      | Some bytes \<Rightarrow> Inr bytes)"

definition decompress_chunk :: "StringLibs \<Rightarrow> StringCodecInfo \<Rightarrow> nat \<Rightarrow> u8 list \<Rightarrow> nat \<Rightarrow> (nat \<times> u8 list) decode" where
  "decompress_chunk libs info expected_chunk_bytes bytes bytes_size =
     (case ci_bytes_codec info of
        None \<Rightarrow> Inr (bytes_size, bytes)
      | Some codec \<Rightarrow>
          if (two64 - 1 - expected_chunk_bytes) div 4 < ci_crc_before_compressor info
          then Fail invalid_metadata ''String array expected checksum byte count overflows size_t''
          else let capacity = expected_chunk_bytes + 4 * ci_crc_before_compressor info
               in if lib_max_bytes libs < capacity then Inl (Exception (lib_length_what libs))
                  else DecompressBytesCodec libs (take bytes_size bytes) codec capacity)"

definition DecodeStringChunk :: "StringLibs \<Rightarrow> u8 list \<Rightarrow> StringCodecInfo \<Rightarrow> StringArrayLayout \<Rightarrow> u8 list decode" where
  "DecodeStringChunk libs bytes info layout =
     (if sa_length_bytes layout \<noteq> 0 \<and> (two64 - 1) div sa_length_bytes layout < sa_chunk_elements layout
      then Fail invalid_metadata ''String array expected byte count overflows size_t''
      else let expected_chunk_bytes = sa_chunk_elements layout * sa_length_bytes layout
           in and_then (strip_all (ci_crc_after_compressor info) bytes (length bytes)) (\<lambda>bytes_size.
              and_then (decompress_chunk libs info expected_chunk_bytes bytes bytes_size) (\<lambda>(bytes_size, bytes).
              and_then (strip_all (ci_crc_before_compressor info) bytes bytes_size) (\<lambda>bytes_size.
                if bytes_size < expected_chunk_bytes then Fail decode_error ''String array chunk is smaller than expected''
                else if expected_chunk_bytes < bytes_size
                then Fail decode_error ''String array chunk is larger than its chunk shape accounts for''
                else Inr (take bytes_size bytes)))))"

section \<open>Reading an array\<close>

definition caught :: "ErrorCode \<Rightarrow> string \<Rightarrow> failure \<Rightarrow> Error" where
  "caught code node failure =
     (case failure of DecodeFailure c message \<Rightarrow> mk_error c message node | Exception what \<Rightarrow> mk_error code what node)"

definition CheckFixedLengthUtf32StringArray :: "StringLibs \<Rightarrow> ArrayMetadata \<Rightarrow> string \<Rightarrow> unit result" where
  "CheckFixedLengthUtf32StringArray libs md node =
     (case and_then (ParseStringArrayLayout libs md) (\<lambda>_.
           and_then (ParseStringCodecs libs (md_codecs md)) (\<lambda>_.
           and_then (GetStringChunkPath [] (md_chunk_key_encoding md) 0) (\<lambda>_. Inr ()))) of
        Inl failure \<Rightarrow> Inl (caught invalid_metadata node failure)
      | Inr _ \<Rightarrow> Inr ())"

text \<open>The loop over the chunks. An error returned from inside it is the same value as the one its exception would become.\<close>

partial_function (option) read_chunks ::
  "StringLibs \<Rightarrow> Files \<Rightarrow> string \<Rightarrow> json \<Rightarrow> StringArrayLayout \<Rightarrow> StringCodecInfo \<Rightarrow> u64 \<Rightarrow> string list \<Rightarrow> string list decode option"
where
  "read_chunks libs files dir encoding layout info index values =
     (if length values < sa_num_elements layout
      then (case GetStringChunkPath dir encoding index of
              Inl failure \<Rightarrow> Some (Inl failure)
            | Inr path \<Rightarrow>
                let n = min (sa_chunk_elements layout) (sub64 (sa_num_elements layout) (length values))
                in case fs_exists files path of
                     Inl message \<Rightarrow> Some (Fail io_error (''Unable to inspect string array chunk: '' @ message))
                   | Inr there \<Rightarrow>
                       if \<not> there
                       then read_chunks libs files dir encoding layout info (add64 index 1)
                              (values @ replicate n (sa_fill_value layout))
                       else (case and_then (ReadChunkFile files path) (\<lambda>bytes.
                                  and_then (DecodeStringChunk libs bytes info layout) (\<lambda>bytes.
                                    DecodeFixedLengthUtf32 bytes n (sa_length_bytes layout) (ci_little_endian info))) of
                               Inl failure \<Rightarrow> Some (Inl failure)
                             | Inr decoded \<Rightarrow>
                                 read_chunks libs files dir encoding layout info (add64 index 1) (values @ decoded)))
      else Some (Inr values))"

declare read_chunks.simps [code]

definition ReadFixedLengthUtf32StringArray ::
  "StringLibs \<Rightarrow> Files \<Rightarrow> string \<Rightarrow> ArrayMetadata \<Rightarrow> string \<Rightarrow> string list result option"
where
  "ReadFixedLengthUtf32StringArray libs files array_directory md node =
     map_option (\<lambda>outcome. case outcome of Inl failure \<Rightarrow> Inl (caught decode_error node failure) | Inr values \<Rightarrow> Inr values)
       (case ParseStringArrayLayout libs md of
          Inl failure \<Rightarrow> Some (Inl failure)
        | Inr layout \<Rightarrow>
            (case ParseStringCodecs libs (md_codecs md) of
               Inl failure \<Rightarrow> Some (Inl failure)
             | Inr info \<Rightarrow>
                 if lib_max_strings libs < sa_num_elements layout then Some (Inl (Exception (lib_length_what libs)))
                 else read_chunks libs files array_directory (md_chunk_key_encoding md) layout info 0 []))"

section \<open>Words as bytes\<close>

definition word_bytes :: "bool \<Rightarrow> u32 \<Rightarrow> u8 list" where
  "word_bytes little_endian w =
     (let bytes = [ucast w, ucast (drop_bit 8 w), ucast (drop_bit 16 w), ucast (drop_bit 24 w)]
      in if little_endian then bytes else rev bytes)"

lemma length_word_bytes [simp]: "length (word_bytes little_endian w) = 4"
  by (simp add: word_bytes_def Let_def)

lemma join_bytes:
  "ucast (ucast w :: u8) OR push_bit 8 (ucast (ucast (drop_bit 8 w) :: u8)) OR push_bit 16 (ucast (ucast (drop_bit 16 w) :: u8)) OR
   push_bit 24 (ucast (ucast (drop_bit 24 w) :: u8)) = (w :: u32)"
proof (rule bit_word_eqI)
  fix n
  assume "n < LENGTH(32)"
  then consider "n < 8" | "8 \<le> n" "n < 16" | "16 \<le> n" "n < 24" | "24 \<le> n" "n < 32" by fastforce
  then show "bit (ucast (ucast w :: u8) OR push_bit 8 (ucast (ucast (drop_bit 8 w) :: u8)) OR push_bit 16 (ucast (ucast (drop_bit 16 w) :: u8)) OR
   push_bit 24 (ucast (ucast (drop_bit 24 w) :: u8)) :: u32) n = bit w n"
    by cases (auto simp: bit_simps)
qed

lemma ReadUint32_word_bytes [simp]: "ReadUint32 (word_bytes little_endian w @ rest) little_endian = w"
  by (simp add: ReadUint32_def word_bytes_def Let_def join_bytes numeral_2_eq_2 numeral_3_eq_3)

section \<open>UTF-8\<close>

text \<open>A decoder of UTF-8 that refuses what is not the shortest form of a code point, to state what is produced.\<close>

abbreviation continues :: "nat \<Rightarrow> bool" where
  "continues b \<equiv> 0x80 \<le> b \<and> b < 0xC0"

definition scalar :: "nat \<Rightarrow> bool" where
  "scalar n \<longleftrightarrow> n < 0xD800 \<or> 0xDFFF < n \<and> n \<le> 0x10FFFF"

fun utf8_decode :: "nat list \<Rightarrow> nat list option" where
  "utf8_decode [] = Some []"
| "utf8_decode (b # bs) =
     (if b < 0x80 then map_option ((#) b) (utf8_decode bs)
      else if b < 0xC0 then None
      else if b < 0xE0
      then (case bs of
              c # cs \<Rightarrow>
                let n = (b - 0xC0) * 0x40 + (c - 0x80)
                in if continues c \<and> 0x80 \<le> n then map_option ((#) n) (utf8_decode cs) else None
            | _ \<Rightarrow> None)
      else if b < 0xF0
      then (case bs of
              c # d # cs \<Rightarrow>
                let n = (b - 0xE0) * 0x1000 + (c - 0x80) * 0x40 + (d - 0x80)
                in if continues c \<and> continues d \<and> 0x800 \<le> n \<and> scalar n then map_option ((#) n) (utf8_decode cs) else None
            | _ \<Rightarrow> None)
      else (case bs of
              c # d # e # cs \<Rightarrow>
                let n = (b - 0xF0) * 0x40000 + (c - 0x80) * 0x1000 + (d - 0x80) * 0x40 + (e - 0x80)
                in if b < 0xF8 \<and> continues c \<and> continues d \<and> continues e \<and> 0x10000 \<le> n \<and> scalar n
                   then map_option ((#) n) (utf8_decode cs) else None
            | _ \<Rightarrow> None))"

definition code_points :: "string \<Rightarrow> nat list option" where
  "code_points s = utf8_decode (map of_char s)"

lemma or_low:
  assumes "(m :: nat) < 2 ^ k" and "2 ^ k dvd a"
  shows "a OR m = a + m"
proof -
  have "a AND m = a AND take_bit k m" using assms(1) by (simp add: take_bit_nat_eq_self)
  also have "\<dots> = take_bit k a AND m" by (simp add: take_bit_eq_mask ac_simps)
  also have "\<dots> = 0" using assms(2) by (simp add: take_bit_eq_mod dvd_eq_mod_eq_0)
  finally show ?thesis by (simp add: disjunctive_add_eq_or)
qed

lemma unat_shift: "unat (drop_bit j w) = unat w div 2 ^ j"
  unfolding unat_drop_bit_eq by (rule drop_bit_eq_div)

lemma of_char_lead:
  assumes "unat w div 2 ^ j < 2 ^ k" and "2 ^ k dvd unat a" and "unat a + unat w div 2 ^ j < 256"
  shows "(of_char :: char \<Rightarrow> nat) (to_char (a OR drop_bit j w)) = unat a + unat w div 2 ^ j"
proof -
  have "unat (a OR drop_bit j w) = unat a OR (unat w div 2 ^ j)" by (simp only: unsigned_or_eq unat_shift)
  also have "\<dots> = unat a + unat w div 2 ^ j" using or_low [OF assms(1,2)] .
  finally show ?thesis using assms(3) by (simp add: to_char_def of_char_of)
qed

lemma of_char_tail: "(of_char :: char \<Rightarrow> nat) (to_char (0x80 OR (drop_bit j w AND 0x3F))) = 128 + unat w div 2 ^ j mod 64"
proof -
  have "unat (drop_bit j w AND 0x3F) = unat w div 2 ^ j mod 64"
    using take_bit_eq_mask [of 6 "unat w div 2 ^ j"]
    by (simp add: unsigned_and_eq unat_shift take_bit_eq_mod mask_eq_exp_minus_1 del: drop_bit_eq_div)
  then have "unat (0x80 OR (drop_bit j w AND 0x3F)) = 128 + unat w div 2 ^ j mod 64"
    using or_low [of "unat w div 2 ^ j mod 64" 6 128] by (simp add: unsigned_or_eq)
  moreover have "128 + unat w div 2 ^ j mod 64 < 256" by (rule less_le_trans [of _ "128 + 64"]) simp_all
  ultimately show ?thesis by (simp add: to_char_def of_char_of)
qed

lemma of_char_tail_0: "(of_char :: char \<Rightarrow> nat) (to_char (0x80 OR (w AND 0x3F))) = 128 + unat w mod 64"
  using of_char_tail [of 0 w] by simp

lemma sextets:
  fixes n :: nat
  shows "n div 64 * 64 + n mod 64 = n"
    and "n div 4096 * 4096 + n div 64 mod 64 * 64 + n mod 64 = n"
    and "n div 262144 * 262144 + n div 4096 mod 64 * 4096 + n div 64 mod 64 * 64 + n mod 64 = n"
proof -
  have a: "n div 4096 = n div 64 div 64" "n div 262144 = n div 4096 div 64" by (simp_all flip: div_mult2_eq)
  have split: "m div 64 * 64 + m mod 64 = m" for m :: nat by simp
  show "n div 64 * 64 + n mod 64 = n" by (rule split)
  show two: "n div 4096 * 4096 + n div 64 mod 64 * 64 + n mod 64 = n" using split [of n] split [of "n div 64"] a(1) by linarith
  show "n div 262144 * 262144 + n div 4096 mod 64 * 4096 + n div 64 mod 64 * 64 + n mod 64 = n"
    using split [of "n div 4096"] two a(2) by linarith
qed

definition utf8_bytes :: "u32 \<Rightarrow> string" where
  "utf8_bytes code_point = (case AppendUtf8 [] code_point of Inl _ \<Rightarrow> [] | Inr s \<Rightarrow> s)"

lemma scalar_iff: "scalar (unat w) \<longleftrightarrow> \<not> (kUnicodeMax < w \<or> kSurrogateMin \<le> w \<and> w \<le> kSurrogateMax)"
  by (auto simp: scalar_def kUnicodeMax_def kSurrogateMin_def kSurrogateMax_def word_less_nat_alt word_le_nat_alt)

lemma AppendUtf8_eq:
  "AppendUtf8 out code_point =
     (if scalar (unat code_point) then Inr (out @ utf8_bytes code_point) else Fail decode_error ''Invalid Unicode code point'')"
  unfolding scalar_iff utf8_bytes_def AppendUtf8_def by (auto simp: Fail_def)

lemma code_point_decodes:
  assumes "scalar (unat w)"
  shows "utf8_decode (map of_char (utf8_bytes w) @ rest) = map_option ((#) (unat w)) (utf8_decode rest)"
proof -
  let ?n = "unat w"
  have ok: "\<not> (kUnicodeMax < w \<or> kSurrogateMin \<le> w \<and> w \<le> kSurrogateMax)" using assms scalar_iff by blast
  have less: "w < 0x80 \<longleftrightarrow> ?n < 128" "w < 0x800 \<longleftrightarrow> ?n < 2048" "w < 0x10000 \<longleftrightarrow> ?n < 65536" by (simp_all add: word_less_nat_alt)
  have top: "?n \<le> 0x10FFFF" using assms by (auto simp: scalar_def)
  note tails = of_char_tail_0 unat_shift
  consider "?n < 128" | "128 \<le> ?n" "?n < 2048" | "2048 \<le> ?n" "?n < 65536" | "65536 \<le> ?n" by linarith
  then show ?thesis
  proof cases
    case 1
    then have "utf8_bytes w = [to_char w]" using ok less by (auto simp: utf8_bytes_def AppendUtf8_def)
    then show ?thesis using 1 by (simp add: to_char_def of_char_of)
  next
    case 2
    then have bytes: "utf8_bytes w = [to_char (0xC0 OR drop_bit 6 w), to_char (0x80 OR (w AND 0x3F))]"
      using ok less by (auto simp: utf8_bytes_def AppendUtf8_def)
    have "(of_char :: char \<Rightarrow> nat) (to_char (0xC0 OR drop_bit 6 w)) = 192 + ?n div 64"
      using of_char_lead [of w 6 5 "0xC0"] 2 by (simp add: dvd_def)
    moreover have lead: "?n div 64 < 32" using 2 by simp
    ultimately show ?thesis using 2 sextets(1) [of ?n] unfolding bytes by (simp add: tails Let_def lead)
  next
    case 3
    then have bytes: "utf8_bytes w = [to_char (0xE0 OR drop_bit 12 w), to_char (0x80 OR (drop_bit 6 w AND 0x3F)), to_char (0x80 OR (w AND 0x3F))]"
      using ok less by (auto simp: utf8_bytes_def AppendUtf8_def)
    have "(of_char :: char \<Rightarrow> nat) (to_char (0xE0 OR drop_bit 12 w)) = 224 + ?n div 4096"
      using of_char_lead [of w 12 4 "0xE0"] 3 by (simp add: dvd_def)
    moreover have "?n div 4096 < 16" using 3 by simp
    ultimately show ?thesis using 3 sextets(2) [of ?n] assms unfolding bytes by (simp add: tails Let_def)
  next
    case 4
    then have bytes: "utf8_bytes w = [to_char (0xF0 OR drop_bit 18 w), to_char (0x80 OR (drop_bit 12 w AND 0x3F)),
        to_char (0x80 OR (drop_bit 6 w AND 0x3F)), to_char (0x80 OR (w AND 0x3F))]"
      using ok less by (auto simp: utf8_bytes_def AppendUtf8_def)
    have small: "?n div 262144 < 8" using top by simp
    then have "(of_char :: char \<Rightarrow> nat) (to_char (0xF0 OR drop_bit 18 w)) = 240 + ?n div 262144"
      using of_char_lead [of w 18 3 "0xF0"] by (simp add: dvd_def)
    then show ?thesis using 4 sextets(3) [of ?n] assms small unfolding bytes by (simp add: tails Let_def)
  qed
qed

definition utf8 :: "u32 list \<Rightarrow> string" where
  "utf8 ws = concat (map utf8_bytes ws)"

lemma utf8_Nil [simp]: "utf8 [] = []" and utf8_Cons [simp]: "utf8 (w # ws) = utf8_bytes w @ utf8 ws"
  by (simp_all add: utf8_def)

lemma code_points_utf8: "\<forall>w \<in> set ws. scalar (unat w) \<Longrightarrow> code_points (utf8 ws) = Some (map unat ws)"
  by (induction ws) (simp_all add: code_points_def code_point_decodes)

section \<open>Elements\<close>

lemma and_then_simps [simp]: "and_then (Inr x) f = f x" "and_then (Inl e) f = Inl e"
  by (simp_all add: and_then_def)

lemma and_then_Inr: "and_then a f = Inr y \<longleftrightarrow> (\<exists>x. a = Inr x \<and> f x = Inr y)"
  by (cases a) simp_all

text \<open>An element as it is written: its code points, padded with zeros to the length of an element.\<close>

definition encode_element :: "bool \<Rightarrow> nat \<Rightarrow> u32 list \<Rightarrow> u8 list" where
  "encode_element little_endian length_bytes ws =
     concat (map (word_bytes little_endian) (ws @ replicate (length_bytes div 4 - length ws) 0))"

text \<open>A label that fits an element: code points that are scalar values and not zero, as many as fit.\<close>

definition label_ok :: "nat \<Rightarrow> u32 list \<Rightarrow> bool" where
  "label_ok length_bytes ws \<longleftrightarrow> length ws \<le> length_bytes div 4 \<and> (\<forall>w \<in> set ws. w \<noteq> 0 \<and> scalar (unat w))"

lemma length_concat_words: "length (concat (map (word_bytes little_endian) ws)) = 4 * length ws"
  by (induction ws) simp_all

lemma length_encode_element: "label_ok n ws \<Longrightarrow> 4 dvd n \<Longrightarrow> length (encode_element little_endian n ws) = n"
  unfolding encode_element_def length_concat_words label_ok_def by auto

lemma drop_concat_words: "drop (i * 4) (concat (map (word_bytes little_endian) ws)) = concat (map (word_bytes little_endian) (drop i ws))"
proof (induction ws arbitrary: i)
  case (Cons w ws)
  then show ?case by (cases i) simp_all
qed simp

lemma ReadUint32_concat:
  assumes "i < length ws"
  shows "ReadUint32 (drop (i * 4) (concat (map (word_bytes little_endian) ws)) @ rest) little_endian = ws ! i"
proof -
  have "drop i ws = ws ! i # drop (Suc i) ws" using assms by (simp add: Cons_nth_drop_Suc)
  then show ?thesis unfolding drop_concat_words by simp
qed

text \<open>The code points of one element, read in turn from where the element begins.\<close>

lemma decode_element_from:
  assumes "label_ok length_bytes ws" and "length bytes < two64" and "j \<le> length ws"
    and "element * length_bytes + length_bytes \<le> length bytes" and "4 dvd length_bytes"
    and "take length_bytes (drop (element * length_bytes) bytes) = encode_element little_endian length_bytes ws"
  shows "decode_element bytes length_bytes little_endian element [j..<length_bytes div 4] out = Inr (out @ utf8 (drop j ws))"
  using assms(3)
proof (induction "length_bytes div 4 - j" arbitrary: j out)
  case 0
  then show ?case using assms(1) by (simp add: label_ok_def)
next
  case (Suc k)
  let ?padded = "ws @ replicate (length_bytes div 4 - length ws) 0"
  have j: "j < length_bytes div 4" using Suc.hyps(2) by simp
  then have inside: "j * 4 + 4 \<le> length_bytes" using assms(5) by (auto elim!: dvdE)
  have offset: "add64 (mul64 element length_bytes) (mul64 j 4) = element * length_bytes + j * 4"
    using inside assms(2,4) by (simp add: add64_exact mul64_exact)
  have room: "\<not> length bytes < add64 (element * length_bytes + j * 4) 4" using inside assms(2,4) by (simp add: add64_exact)
  have "drop (element * length_bytes) bytes = encode_element little_endian length_bytes ws @ drop length_bytes (drop (element * length_bytes) bytes)"
    using assms(6) by (metis append_take_drop_id)
  then have "drop (element * length_bytes + j * 4) bytes =
      drop (j * 4) (encode_element little_endian length_bytes ws) @ drop length_bytes (drop (element * length_bytes) bytes)"
    using inside length_encode_element [OF assms(1,5), of little_endian]
    by (simp only: drop_drop [symmetric] add.commute [of "element * length_bytes"]) (simp add: drop_append)
  then have word: "ReadUint32 (drop (element * length_bytes + j * 4) bytes) little_endian = ?padded ! j"
    using ReadUint32_concat [of j ?padded little_endian] j assms(1) by (simp add: encode_element_def label_ok_def)
  have step: "[j..<length_bytes div 4] = j # [Suc j..<length_bytes div 4]" using j by (simp add: upt_conv_Cons)
  show ?case
  proof (cases "j < length ws")
    case True
    then have w: "?padded ! j = ws ! j" "ws ! j \<noteq> 0" "scalar (unat (ws ! j))" "drop j ws = ws ! j # drop (Suc j) ws"
      using assms(1) by (auto simp: nth_append label_ok_def Cons_nth_drop_Suc)
    have "decode_element bytes length_bytes little_endian element [Suc j..<length_bytes div 4] (out @ utf8_bytes (ws ! j)) =
        Inr ((out @ utf8_bytes (ws ! j)) @ utf8 (drop (Suc j) ws))"
      using Suc.hyps(2) True by (intro Suc.hyps(1)) simp_all
    then show ?thesis unfolding step using w word room by (simp add: Let_def offset AppendUtf8_eq)
  next
    case False
    then have "?padded ! j = 0" "drop j ws = []" using j by (simp_all add: nth_append)
    then show ?thesis unfolding step using word room by (simp add: Let_def offset)
  qed
qed

lemma decode_elements_labels:
  assumes "\<forall>ws \<in> set labels. label_ok length_bytes ws" and "length bytes < two64" and "4 dvd length_bytes"
    and "take (length labels * length_bytes) bytes = concat (map (encode_element little_endian length_bytes) labels)"
    and "length labels * length_bytes \<le> length bytes" and "length labels = n"
  shows "DecodeFixedLengthUtf32 bytes n length_bytes little_endian = Inr (map utf8 labels)"
proof -
  have slot: "take length_bytes (drop (k * length_bytes) bytes) = encode_element little_endian length_bytes (labels ! k)" if "k < length labels" for k
  proof -
    have fits: "k * length_bytes + length_bytes \<le> length labels * length_bytes"
      using that mult_le_mono1 [of "Suc k" "length labels" length_bytes] by simp
    have "take length_bytes (drop (k * length_bytes) bytes) = take length_bytes (drop (k * length_bytes) (take (length labels * length_bytes) bytes))"
      using fits by (simp add: take_drop min_def)
    also have "\<dots> = encode_element little_endian length_bytes (labels ! k)"
      unfolding assms(4) using that assms(1,3)
    proof (induction labels arbitrary: k)
      case (Cons ws labels)
      then show ?case using length_encode_element [of length_bytes ws little_endian] by (cases k) (simp_all add: add.commute)
    qed simp
    finally show ?thesis .
  qed
  have one: "decode_element bytes length_bytes little_endian k [0..<length_bytes div 4] [] = Inr (utf8 (labels ! k))" if "k < length labels" for k
  proof -
    have "k * length_bytes + length_bytes \<le> length bytes"
      using that mult_le_mono1 [of "Suc k" "length labels" length_bytes] assms(5) by simp
    then show ?thesis using decode_element_from [of length_bytes "labels ! k" bytes 0 k little_endian "[]"] slot [OF that] assms(1,2,3) that by simp
  qed
  have "decode_elements bytes length_bytes little_endian ks = Inr (map (\<lambda>k. utf8 (labels ! k)) ks)" if "\<forall>k \<in> set ks. k < length labels" for ks
    using that by (induction ks) (simp_all add: one)
  moreover have "map (\<lambda>k. utf8 (labels ! k)) [0..<length labels] = map utf8 labels" by (rule nth_equalityI) simp_all
  ultimately show ?thesis unfolding DecodeFixedLengthUtf32_def assms(6) [symmetric] by simp
qed

section \<open>The checksum\<close>

text \<open>The checksum one bit at a time, as its definition has it: every byte is added and divided out.\<close>

definition crc_byte :: "u32 \<Rightarrow> u8 \<Rightarrow> u32" where
  "crc_byte crc byte = (crc_shift ^^ 8) (crc XOR ucast byte)"

definition crc32c :: "u8 list \<Rightarrow> u32" where
  "crc32c data = foldl crc_byte (NOT 0) data XOR NOT 0"

lemma crc_shift_xor: "crc_shift (a XOR b) = crc_shift a XOR crc_shift b"
proof -
  have odd: "c AND 1 \<noteq> 0 \<longleftrightarrow> bit c 0" for c :: u32 by (simp add: and_one_eq bit_0 odd_iff_mod_2_eq_one)
  have cancel: "(x XOR p) XOR (y XOR p) = x XOR y" for x y p :: u32 by (rule bit_word_eqI) (auto simp: bit_simps)
  show ?thesis unfolding crc_shift_def odd
    by (cases "bit a 0"; cases "bit b 0") (simp_all add: drop_bit_xor bit_xor_iff cancel xor.assoc xor.commute [of reversed_polynomial])
qed

lemma crc_shifts_xor: "(crc_shift ^^ n) (a XOR b) = (crc_shift ^^ n) a XOR (crc_shift ^^ n) b"
  by (induction n) (simp_all add: crc_shift_xor)

lemma crc_shifts_high: "take_bit n x = 0 \<Longrightarrow> (crc_shift ^^ n) x = drop_bit n x"
proof (induction n arbitrary: x)
  case (Suc n)
  have "\<not> bit x i" if "i < Suc n" for i
    using Suc.prems that by (metis bit_take_bit_iff bit_0_eq bot_apply bot_bool_def)
  then have "\<not> bit x 0" "take_bit n (drop_bit 1 x) = 0" by (auto simp: bit_eq_iff bit_simps)
  then have "crc_shift x = drop_bit 1 x" by (simp add: crc_shift_def and_one_eq bit_0 even_iff_mod_2_eq_zero)
  moreover have "(crc_shift ^^ n) (drop_bit 1 x) = drop_bit n (drop_bit 1 x)" by (rule Suc.IH) fact
  ultimately show ?case by (simp only: funpow_Suc_right o_apply) (simp add: drop_bit_drop_bit)
qed simp

lemma crc_turn_eq: "crc_turn crc byte = crc_byte crc byte"
proof -
  let ?x = "crc XOR ucast byte"
  have low: "unat (?x AND 0xFF) < 256" using word_and_le1 [of ?x "0xFF"] by (simp add: word_le_nat_alt)
  have table: "crc_table ! unat (?x AND 0xFF) = (crc_shift ^^ 8) (?x AND 0xFF)" using low by (simp add: crc_table_def)
  have split: "?x = (?x AND 0xFF) XOR (?x AND NOT 0xFF)" by (simp add: bit_eq_iff bit_simps) blast
  have "take_bit 8 (?x AND NOT 0xFF) = 0" by (simp add: take_bit_eq_mask mask_eq_exp_minus_1 and.assoc)
  then have high: "(crc_shift ^^ 8) (?x AND NOT 0xFF) = drop_bit 8 (?x AND NOT 0xFF)" by (rule crc_shifts_high)
  have "drop_bit 8 (?x AND NOT 0xFF) = take_bit 24 (drop_bit 8 ?x)" by (simp add: take_bit_eq_mask mask_eq_exp_minus_1)
  also have "\<dots> = drop_bit 8 (take_bit 32 ?x)" by (simp add: take_bit_drop_bit)
  also have "\<dots> = drop_bit 8 crc" by (rule bit_word_eqI) (auto simp: bit_simps dest: bit_imp_le_length)
  finally have drop: "drop_bit 8 (?x AND NOT 0xFF) = drop_bit 8 crc" .
  have "(crc_shift ^^ 8) ?x = (crc_shift ^^ 8) (?x AND 0xFF) XOR (crc_shift ^^ 8) (?x AND NOT 0xFF)"
    using arg_cong [OF split, of "crc_shift ^^ 8"] unfolding crc_shifts_xor .
  then show ?thesis unfolding crc_turn_def crc_byte_def table high drop by (rule sym)
qed

lemma Crc32c_eq: "Crc32c data n = crc32c (take n data)"
proof -
  have "crc_turn = crc_byte" by (intro ext) (rule crc_turn_eq)
  moreover have "(0xFFFFFFFF :: u32) = NOT 0" by simp
  ultimately show ?thesis by (simp only: Crc32c_def crc32c_def)
qed

definition add_crc :: "u8 list \<Rightarrow> u8 list" where
  "add_crc data = data @ word_bytes True (crc32c data)"

lemma length_add_crc [simp]: "length (add_crc data) = length data + 4"
  by (simp add: add_crc_def)

lemma length_add_crcs [simp]: "length ((add_crc ^^ k) data) = length data + 4 * k"
  by (induction k) simp_all

lemma StripCrc32c_add_crc: "StripCrc32c (add_crc data @ rest) (length data + 4) = Inr (length data)"
  by (simp add: StripCrc32c_def Let_def Crc32c_eq add_crc_def)

lemma strip_all_add_crcs: "strip_all k ((add_crc ^^ k) data @ rest) (length data + 4 * k) = Inr (length data)"
proof (induction k arbitrary: rest)
  case (Suc k)
  have "StripCrc32c ((add_crc ^^ Suc k) data @ rest) (length data + 4 * k + 4) = Inr (length data + 4 * k)"
    using StripCrc32c_add_crc [of "(add_crc ^^ k) data" rest] by simp
  moreover have "strip_all k ((add_crc ^^ Suc k) data @ rest) (length data + 4 * k) = Inr (length data)"
    using Suc.IH [of "word_bytes True (crc32c ((add_crc ^^ k) data)) @ rest"]
    by (simp add: add_crc_def [of "(add_crc ^^ k) data"])
  ultimately show ?case by (simp add: ac_simps)
qed simp

section \<open>Chunks\<close>

text \<open>What the documentation of a decompressor promises of a compressor that goes with it, for data of one length.\<close>

definition library_inverts :: "StringLibs \<Rightarrow> BytesCodec \<Rightarrow> (u8 list \<Rightarrow> u8 list) \<Rightarrow> nat \<Rightarrow> bool" where
  "library_inverts libs codec compress n \<longleftrightarrow>
     (\<forall>data. length data = n \<longrightarrow>
        (case codec of
           zstd \<Rightarrow> lib_zstd libs (compress data) n = Inr data
         | gzip \<Rightarrow> lib_inflate_init libs = 0 \<and> lib_inflate libs (compress data) n = (1, data) \<and>
             length (compress data) \<le> uint_max \<and> n \<le> uint_max
         | blosc \<Rightarrow> blosc_min_header_length \<le> length (compress data) \<and>
             lib_blosc_sizes libs (compress data) = (n, length (compress data)) \<and> lib_blosc libs (compress data) n = (int n, data)))"

lemma DecompressBytesCodec_inverts:
  assumes "library_inverts libs codec compress n" and "length data = n"
  shows "DecompressBytesCodec libs (compress data) codec n = Inr (n, data)"
proof -
  have "written_to n data = data" using assms(2) by (simp add: written_to_def)
  then show ?thesis using assms
    by (cases codec) (auto simp: library_inverts_def DecompressBytesCodec_def ZstdDecompress_def GzipDecompress_def BloscDecompress_def)
qed

text \<open>A chunk as it is stored: the checksums before the compressor, the compressor, the checksums after it.\<close>

definition store_chunk :: "StringCodecInfo \<Rightarrow> (u8 list \<Rightarrow> u8 list) \<Rightarrow> u8 list \<Rightarrow> u8 list" where
  "store_chunk info compress raw =
     (add_crc ^^ ci_crc_after_compressor info)
       ((if ci_bytes_codec info = None then id else compress) ((add_crc ^^ ci_crc_before_compressor info) raw))"

definition codec_ok :: "StringLibs \<Rightarrow> StringCodecInfo \<Rightarrow> StringArrayLayout \<Rightarrow> (u8 list \<Rightarrow> u8 list) \<Rightarrow> bool" where
  "codec_ok libs info layout compress \<longleftrightarrow>
     (let n = sa_chunk_elements layout * sa_length_bytes layout + 4 * ci_crc_before_compressor info
      in n < two64 \<and> n \<le> lib_max_bytes libs \<and>
         (\<forall>codec. ci_bytes_codec info = Some codec \<longrightarrow> library_inverts libs codec compress n))"

lemma add_crcs_prefix: "\<exists>rest. (add_crc ^^ k) data = data @ rest"
proof (induction k)
  case (Suc k)
  then obtain rest where "(add_crc ^^ k) data = data @ rest" by blast
  then show ?case by (simp add: add_crc_def [of "data @ rest"])
qed simp

lemma strip_all_stored: "strip_all k ((add_crc ^^ k) data) (length ((add_crc ^^ k) data)) = Inr (length data)"
  using strip_all_add_crcs [of k data "[]"] by simp

lemma DecodeStringChunk_store_chunk:
  assumes ok: "codec_ok libs info layout compress" and len: "length raw = sa_chunk_elements layout * sa_length_bytes layout"
  shows "DecodeStringChunk libs (store_chunk info compress raw) info layout = Inr raw"
proof -
  let ?n = "sa_chunk_elements layout * sa_length_bytes layout" and ?k = "ci_crc_before_compressor info"
  let ?inner = "(add_crc ^^ ?k) raw"
  let ?stored = "(if ci_bytes_codec info = None then id else compress) ?inner"
  have small: "?n + 4 * ?k < two64" "?n + 4 * ?k \<le> lib_max_bytes libs" using ok by (simp_all add: codec_ok_def Let_def)
  have fits: "\<not> (sa_length_bytes layout \<noteq> 0 \<and> (two64 - 1) div sa_length_bytes layout < sa_chunk_elements layout)"
    using small(1) less_eq_div_iff_mult_less_eq [of "sa_length_bytes layout" "sa_chunk_elements layout" "two64 - 1"] by auto
  obtain rest where rest: "store_chunk info compress raw = ?stored @ rest"
    using add_crcs_prefix [of "ci_crc_after_compressor info" ?stored] by (auto simp: store_chunk_def)
  have outer: "strip_all (ci_crc_after_compressor info) (store_chunk info compress raw) (length (store_chunk info compress raw)) = Inr (length ?stored)"
    unfolding store_chunk_def by (rule strip_all_stored)
  have "\<exists>rest. decompress_chunk libs info ?n (store_chunk info compress raw) (length ?stored) = Inr (length ?inner, ?inner @ rest)"
  proof (cases "ci_bytes_codec info")
    case None
    then show ?thesis by (simp add: decompress_chunk_def rest)
  next
    case (Some codec)
    have room: "\<not> (two64 - 1 - ?n) div 4 < ?k" using small(1) by (simp add: not_less less_eq_div_iff_mult_less_eq)
    have "library_inverts libs codec compress (?n + 4 * ?k)" using ok Some by (simp add: codec_ok_def Let_def)
    then have "DecompressBytesCodec libs (compress ?inner) codec (?n + 4 * ?k) = Inr (length ?inner, ?inner)"
      using DecompressBytesCodec_inverts [of libs codec compress "?n + 4 * ?k" ?inner] len by simp
    then show ?thesis using Some room small(2) by (simp add: decompress_chunk_def rest Let_def)
  qed
  then obtain more' where inner: "decompress_chunk libs info ?n (store_chunk info compress raw) (length ?stored) = Inr (length ?inner, ?inner @ more')"
    by blast
  have "strip_all ?k (?inner @ more') (length ?inner) = Inr (length raw)" using strip_all_add_crcs [of ?k raw more'] by simp
  moreover obtain rest' where "?inner = raw @ rest'" using add_crcs_prefix by blast
  ultimately show ?thesis
    unfolding DecodeStringChunk_def if_not_P [OF fits] Let_def outer and_then_simps inner split using len by simp
qed

section \<open>Arrays\<close>

lemma take_slice: "take (k * c) xs @ take c (drop (k * c) xs) = take (Suc k * c) (xs :: 'a list)"
proof -
  have "Suc k * c = k * c + c" by simp
  then show ?thesis by (simp only: take_add)
qed

lemma utf8_slice: "map utf8 (take (k * c) labels) @ map utf8 (take c (drop (k * c) labels)) = map utf8 (take (Suc k * c) labels)"
  by (simp only: take_slice flip: map_append)

text \<open>
  How the files of an array hold its labels: a chunk that is missing stands for labels that are all the fill value, and
  a chunk that is there is stored as written, the elements past the end of the array being anything.
\<close>

definition chunk_labels :: "StringArrayLayout \<Rightarrow> u32 list list \<Rightarrow> nat \<Rightarrow> u32 list list" where
  "chunk_labels layout labels k = take (sa_chunk_elements layout) (drop (k * sa_chunk_elements layout) labels)"

definition chunk_stored ::
  "Files \<Rightarrow> string \<Rightarrow> StringArrayLayout \<Rightarrow> StringCodecInfo \<Rightarrow> (u8 list \<Rightarrow> u8 list) \<Rightarrow> u32 list list \<Rightarrow> bool" where
  "chunk_stored files path layout info compress ls \<longleftrightarrow>
     (if fs_exists files path = Inr False then \<forall>ws \<in> set ls. utf8 ws = sa_fill_value layout
      else fs_exists files path = Inr True \<and>
        (\<exists>pad. length (concat (map (encode_element (ci_little_endian info) (sa_length_bytes layout)) ls) @ pad) =
               sa_chunk_elements layout * sa_length_bytes layout \<and>
           fs_read files path =
             Some (store_chunk info compress (concat (map (encode_element (ci_little_endian info) (sa_length_bytes layout)) ls) @ pad))))"

definition array_stored ::
  "Files \<Rightarrow> string \<Rightarrow> json \<Rightarrow> StringArrayLayout \<Rightarrow> StringCodecInfo \<Rightarrow> (u8 list \<Rightarrow> u8 list) \<Rightarrow> u32 list list \<Rightarrow> bool" where
  "array_stored files dir encoding layout info compress labels \<longleftrightarrow>
     (\<forall>k. k * sa_chunk_elements layout < length labels \<longrightarrow>
        (\<exists>path. GetStringChunkPath dir encoding k = Inr path \<and>
           chunk_stored files path layout info compress (chunk_labels layout labels k)))"

lemma length_concat_elements:
  assumes "\<forall>ws \<in> set labels. label_ok n ws" and "4 dvd n"
  shows "length (concat (map (encode_element little_endian n) labels)) = length labels * n"
  using assms(1) by (induction labels) (simp_all add: length_encode_element [OF _ assms(2)])

lemma chunk_decodes:
  assumes "codec_ok libs info layout compress" and "\<forall>ws \<in> set ls. label_ok (sa_length_bytes layout) ws"
    and "4 dvd sa_length_bytes layout" and "chunk_stored files path layout info compress ls" and "fs_exists files path \<noteq> Inr False"
  shows "and_then (ReadChunkFile files path) (\<lambda>bytes. and_then (DecodeStringChunk libs bytes info layout) (\<lambda>bytes.
           DecodeFixedLengthUtf32 bytes (length ls) (sa_length_bytes layout) (ci_little_endian info))) = Inr (map utf8 ls)"
proof -
  let ?raw = "concat (map (encode_element (ci_little_endian info) (sa_length_bytes layout)) ls)"
  obtain pad where pad: "length (?raw @ pad) = sa_chunk_elements layout * sa_length_bytes layout"
    "fs_read files path = Some (store_chunk info compress (?raw @ pad))"
    using assms(4,5) by (auto simp: chunk_stored_def)
  have raw: "length ?raw = length ls * sa_length_bytes layout" using length_concat_elements assms(2,3) by blast
  have small: "length (?raw @ pad) < two64" using assms(1) pad(1) by (simp add: codec_ok_def Let_def)
  have "DecodeFixedLengthUtf32 (?raw @ pad) (length ls) (sa_length_bytes layout) (ci_little_endian info) = Inr (map utf8 ls)"
    by (rule decode_elements_labels [OF assms(2) small assms(3)]) (use raw in simp_all)
  then show ?thesis using DecodeStringChunk_store_chunk [OF assms(1) pad(1)] by (simp add: ReadChunkFile_def pad(2))
qed

lemma read_chunks_round_trip:
  assumes codec: "codec_ok libs info layout compress" and labels: "\<forall>ws \<in> set labels. label_ok (sa_length_bytes layout) ws"
    and width: "4 dvd sa_length_bytes layout" and chunk: "0 < sa_chunk_elements layout"
    and n: "length labels = sa_num_elements layout" "sa_num_elements layout < two64"
    and stored: "array_stored files dir encoding layout info compress labels"
  shows "read_chunks libs files dir encoding layout info k (map utf8 (take (k * sa_chunk_elements layout) labels)) = Some (Inr (map utf8 labels))"
proof (induction "length labels - k * sa_chunk_elements layout" arbitrary: k rule: less_induct)
  case less
  let ?c = "sa_chunk_elements layout" and ?held = "map utf8 (take (k * sa_chunk_elements layout) labels)"
  show ?case
  proof (cases "k * ?c < length labels")
    case False
    then show ?thesis by (subst read_chunks.simps) (simp add: n(1))
  next
    case True
    let ?ls = "chunk_labels layout labels k"
    obtain path where path: "GetStringChunkPath dir encoding k = Inr path" "chunk_stored files path layout info compress ?ls"
      using stored True by (auto simp: array_stored_def)
    have taken: "length ?held = k * ?c" using True by simp
    have len: "min ?c (sub64 (sa_num_elements layout) (k * ?c)) = length ?ls"
      using True n by (simp add: chunk_labels_def sub64_exact min_def)
    have "k \<le> k * ?c" using chunk by simp
    then have "k + 1 < two64" using True n by linarith
    then have next': "add64 k (Suc 0) = Suc k" by (simp add: add64_exact)
    have rest: "read_chunks libs files dir encoding layout info (Suc k) (?held @ map utf8 ?ls) = Some (Inr (map utf8 labels))"
      using less.hyps [of "Suc k"] True chunk unfolding chunk_labels_def utf8_slice by (simp add: diff_less_mono2)
    have ok: "\<forall>ws \<in> set ?ls. label_ok (sa_length_bytes layout) ws" using labels by (auto simp: chunk_labels_def dest: in_set_takeD in_set_dropD)
    show ?thesis
    proof (cases "fs_exists files path = Inr False")
      case False
      then have there: "fs_exists files path = Inr True" using path(2) by (simp add: chunk_stored_def)
      show ?thesis using chunk_decodes [OF codec ok width path(2) False] True taken rest n(1)
        by (subst read_chunks.simps) (simp add: path(1) there len next' Let_def)
    next
      case gone: True
      then have "map utf8 ?ls = replicate (length ?ls) (sa_fill_value layout)"
        using path(2) by (intro nth_equalityI) (simp_all add: chunk_stored_def)
      then show ?thesis using True taken rest n(1) by (subst read_chunks.simps) (simp add: path(1) gone len next' Let_def)
    qed
  qed
qed

section \<open>What any read gives\<close>

text \<open>A label read from a chunk: at most as many code points as an element holds, none of them zero.\<close>

definition label_read :: "nat \<Rightarrow> string \<Rightarrow> bool" where
  "label_read length_bytes s \<longleftrightarrow> (\<exists>ws. label_ok length_bytes ws \<and> s = utf8 ws)"

lemma utf8_append: "utf8 (ws @ ws') = utf8 ws @ utf8 ws'"
  by (simp add: utf8_def)

lemma decode_element_labels:
  assumes "decode_element bytes length_bytes little_endian element ks (utf8 ws) = Inr s"
    and "\<forall>w \<in> set ws. w \<noteq> 0 \<and> scalar (unat w)" and "length ws + length ks \<le> length_bytes div 4"
  shows "label_read length_bytes s"
  using assms
proof (induction ks arbitrary: ws)
  case Nil
  then show ?case by (auto simp: label_read_def label_ok_def)
next
  case (Cons k ks)
  let ?w = "ReadUint32 (drop (add64 (mul64 element length_bytes) (mul64 k 4)) bytes) little_endian"
  show ?case
  proof (cases "?w = 0")
    case True
    then have "s = utf8 ws" using Cons.prems(1) by (auto simp: Let_def Fail_def split: if_splits)
    then show ?thesis using Cons.prems(2,3) unfolding label_read_def by (intro exI [of _ ws]) (simp add: label_ok_def)
  next
    case False
    then have w: "scalar (unat ?w)" "decode_element bytes length_bytes little_endian element ks (utf8 (ws @ [?w])) = Inr s"
      using Cons.prems(1) by (simp_all add: Let_def Fail_def AppendUtf8_eq utf8_append split: if_splits)
    show ?thesis by (rule Cons.IH [OF w(2)]) (use w(1) False Cons.prems in auto)
  qed
qed

lemma decode_elements_read:
  "decode_elements bytes length_bytes little_endian ks = Inr vs \<Longrightarrow> length vs = length ks \<and> (\<forall>s \<in> set vs. label_read length_bytes s)"
proof (induction ks arbitrary: vs)
  case (Cons k ks)
  then obtain s vs' where vs: "decode_element bytes length_bytes little_endian k [0..<length_bytes div 4] [] = Inr s"
    "decode_elements bytes length_bytes little_endian ks = Inr vs'" "vs = s # vs'" by (auto simp: and_then_Inr)
  have "label_read length_bytes s" using decode_element_labels [of bytes length_bytes little_endian k _ "[]"] vs(1) by simp
  then show ?case using Cons.IH [OF vs(2)] vs(3) by simp
qed simp

definition values_ok :: "StringArrayLayout \<Rightarrow> string list \<Rightarrow> bool" where
  "values_ok layout vs \<longleftrightarrow>
     (\<forall>s \<in> set vs. s = sa_fill_value layout \<or> label_read (sa_length_bytes layout) s)"

lemma values_ok_append: "values_ok layout (xs @ ys) \<longleftrightarrow> values_ok layout xs \<and> values_ok layout ys"
  by (auto simp: values_ok_def)

text \<open>The loop over the chunks always returns: each turn adds at least one element, whatever the files hold.\<close>

lemma read_chunks_returns:
  assumes "0 < sa_chunk_elements layout" and "sa_num_elements layout < two64"
    and "length held \<le> sa_num_elements layout" and "values_ok layout held"
  shows "\<exists>r. read_chunks libs files dir encoding layout info index held = Some r \<and>
    (\<forall>vs. r = Inr vs \<longrightarrow> length vs = sa_num_elements layout \<and> values_ok layout vs)"
  using assms(3,4)
proof (induction "sa_num_elements layout - length held" arbitrary: held index rule: less_induct)
  case less
  let ?n = "min (sa_chunk_elements layout) (sub64 (sa_num_elements layout) (length held))"
  have goes_on: "\<exists>r. read_chunks libs files dir encoding layout info (add64 index 1) (held @ new) = Some r \<and>
      (\<forall>vs. r = Inr vs \<longrightarrow> length vs = sa_num_elements layout \<and> values_ok layout vs)"
    if "length held < sa_num_elements layout" "length new = ?n" "values_ok layout new" for new
    using that less.prems assms(1,2) by (intro less.hyps) (auto simp: sub64_exact values_ok_append min_def split: if_splits)
  show ?case
  proof (cases "length held < sa_num_elements layout")
    case False
    then show ?thesis using less.prems by (subst read_chunks.simps) simp
  next
    case True
    have fill: "values_ok layout (replicate ?n (sa_fill_value layout))" by (auto simp: values_ok_def)
    have decoded: "length vs = ?n \<and> values_ok layout vs"
      if "and_then (ReadChunkFile files path) (\<lambda>bytes. and_then (DecodeStringChunk libs bytes info layout) (\<lambda>bytes.
            DecodeFixedLengthUtf32 bytes ?n (sa_length_bytes layout) (ci_little_endian info))) = Inr vs" for path vs
      using that by (auto simp: and_then_Inr DecodeFixedLengthUtf32_def values_ok_def dest: decode_elements_read)
    show ?thesis
    proof (cases "GetStringChunkPath dir encoding index")
      case (Inl failure)
      then show ?thesis using True by (subst read_chunks.simps) simp
    next
      case path: (Inr path)
      consider message where "fs_exists files path = Inl message" | "fs_exists files path = Inr False" | "fs_exists files path = Inr True"
        by (cases "fs_exists files path") auto
      then show ?thesis
      proof cases
        case 1
        then show ?thesis using True path by (subst read_chunks.simps) (simp add: Let_def Fail_def)
      next
        case 2
        then show ?thesis using goes_on [OF True _ fill] True path by (subst read_chunks.simps) (simp add: Let_def)
      next
        case 3
        let ?d = "and_then (ReadChunkFile files path) (\<lambda>bytes. and_then (DecodeStringChunk libs bytes info layout) (\<lambda>bytes.
            DecodeFixedLengthUtf32 bytes ?n (sa_length_bytes layout) (ci_little_endian info)))"
        show ?thesis
        proof (cases ?d)
          case (Inl failure)
          then show ?thesis using True path 3 by (subst read_chunks.simps) (simp add: Let_def)
        next
          case (Inr vs)
          then show ?thesis using goes_on [OF True] decoded [OF Inr] True path 3 by (subst read_chunks.simps) (simp add: Let_def)
        qed
      qed
    qed
  qed
qed

section \<open>What the reader promises\<close>

lemma ParseStringArrayLayout_parts:
  assumes "ParseStringArrayLayout libs md = Inr layout"
  shows "0 < sa_chunk_elements layout" and "4 dvd sa_length_bytes layout" and "md_shape md = [sa_num_elements layout]"
proof -
  from assms have ok: "IsFixedLengthUtf32 md = Some True" "length (md_shape md) = 1" "hd (md_chunk_shape md) \<noteq> 0"
    and layout: "\<exists>v n fill. at_key (md_data_type_configuration md) ''length_bytes'' = Some v \<and> get_u64 v = Some n \<and>
      layout = \<lparr>sa_num_elements = hd (md_shape md), sa_chunk_elements = hd (md_chunk_shape md), sa_length_bytes = n, sa_fill_value = fill\<rparr>"
    by (auto simp: ParseStringArrayLayout_def json_get_def Fail_def and_then_Inr bind_eq_Some_conv split: option.splits if_splits)
  then show "0 < sa_chunk_elements layout" by auto
  show "md_shape md = [sa_num_elements layout]" using ok(2) layout by (auto simp: length_Suc_conv)
  show "4 dvd sa_length_bytes layout" using ok(1) layout
    by (auto simp: IsFixedLengthUtf32_def outcome_iff dvd_eq_mod_eq_0 split: if_splits)
qed

text \<open>
  Claim C24. An array of labels that was written is read back: for any split into chunks, either byte order, any
  checksums on either side of the compressor and any of the compressors whose library keeps its promise, a chunk never
  written included, the strings returned are the UTF-8 of the labels, as many as the array has.
\<close>

theorem string_array_round_trip:
  assumes "ParseStringArrayLayout libs md = Inr layout" and "ParseStringCodecs libs (md_codecs md) = Inr info"
    and "metadata_ok md" and "codec_ok libs info layout compress"
    and "length labels = sa_num_elements layout" and "sa_num_elements layout \<le> lib_max_strings libs"
    and "\<forall>ws \<in> set labels. label_ok (sa_length_bytes layout) ws"
    and "array_stored files dir (md_chunk_key_encoding md) layout info compress labels"
  shows "\<exists>vs. ReadFixedLengthUtf32StringArray libs files dir md node = Some (Inr vs) \<and>
    map code_points vs = map (\<lambda>ws. Some (map unat ws)) labels"
proof -
  note parts = ParseStringArrayLayout_parts [OF assms(1)]
  have n: "sa_num_elements layout < two64" using assms(3) parts(3) by (simp add: metadata_ok_def)
  have "read_chunks libs files dir (md_chunk_key_encoding md) layout info 0 [] = Some (Inr (map utf8 labels))"
    using read_chunks_round_trip [OF assms(4,7) parts(2,1) assms(5) n assms(8), of 0] by simp
  then have "ReadFixedLengthUtf32StringArray libs files dir md node = Some (Inr (map utf8 labels))"
    using assms(1,2,6) by (simp add: ReadFixedLengthUtf32StringArray_def)
  moreover have "map code_points (map utf8 labels) = map (\<lambda>ws. Some (map unat ws)) labels"
    using assms(7) by (auto simp: label_ok_def intro!: code_points_utf8)
  ultimately show ?thesis by blast
qed

lemma word_bytes_ReadUint32:
  assumes "4 \<le> length bytes"
  shows "word_bytes True (ReadUint32 bytes True) = take 4 bytes"
proof -
  let ?w = "ReadUint32 bytes True"
  have ext: "bit (ucast (b :: u8) :: u32) i \<longleftrightarrow> bit b i" for b i using bit_imp_le_length [of b i] by (auto simp: bit_ucast_iff)
  have bits: "bit ?w i \<longleftrightarrow> i < 32 \<and> (bit (bytes ! 0) i \<or> 8 \<le> i \<and> bit (bytes ! 1) (i - 8) \<or> 16 \<le> i \<and> bit (bytes ! 2) (i - 16) \<or>
      24 \<le> i \<and> bit (bytes ! 3) (i - 24))" for i
    using bit_imp_le_length [of ?w i] bit_imp_le_length [of "bytes ! 0" i]
    by (auto simp: ReadUint32_def bit_or_iff bit_push_bit_iff ext)
  have short: "\<not> bit (b :: u8) i" if "8 \<le> i" for b i using that bit_imp_le_length [of b i] by fastforce
  have byte: "(ucast ?w :: u8) = bytes ! 0" "(ucast (drop_bit 8 ?w) :: u8) = bytes ! 1" "(ucast (drop_bit 16 ?w) :: u8) = bytes ! 2"
    "(ucast (drop_bit 24 ?w) :: u8) = bytes ! 3"
    by (rule bit_word_eqI; simp add: bit_ucast_iff bit_drop_bit_eq bits short)+
  have "take 4 bytes = [bytes ! 0, bytes ! 1, bytes ! 2, bytes ! 3]"
    using assms by (intro nth_equalityI) (auto simp: less_Suc_eq numeral_2_eq_2 numeral_3_eq_3 eval_nat_numeral)
  then show ?thesis by (simp add: word_bytes_def byte)
qed

text \<open>
  A checksum is accepted exactly when the last four bytes are, in little-endian order, the CRC32C of those
  before them; the table the code computes it with gives what dividing bit by bit gives.
\<close>

theorem StripCrc32c_accepts_exactly:
  assumes "n \<le> length data"
  shows "StripCrc32c data n = Inr m \<longleftrightarrow> n = m + 4 \<and> take n data = take m data @ word_bytes True (crc32c (take m data))"
proof (cases "4 \<le> n")
  case True
  then obtain k where k: "n = k + 4" by (metis add.commute le_Suc_ex)
  have bytes: "word_bytes True (ReadUint32 (drop k data) True) = take 4 (drop k data)" using assms k by (intro word_bytes_ReadUint32) simp
  have "ReadUint32 (drop k data) True = crc32c (take k data) \<longleftrightarrow> take 4 (drop k data) = word_bytes True (crc32c (take k data))"
    using bytes ReadUint32_word_bytes [of True _ "[]"] by (metis append_Nil2)
  moreover have "take n data = take k data @ take 4 (drop k data)" unfolding k by (rule take_add)
  ultimately show ?thesis unfolding StripCrc32c_def Crc32c_eq Fail_def using k by auto
next
  case False
  then show ?thesis by (auto simp: StripCrc32c_def Fail_def)
qed

lemma ReadFixedLengthUtf32StringArray_total:
  assumes "metadata_ok md"
  shows "\<exists>r. ReadFixedLengthUtf32StringArray libs files dir md node = Some r"
proof (cases "ParseStringArrayLayout libs md")
  case (Inr layout)
  note parts = ParseStringArrayLayout_parts [OF Inr]
  have n: "sa_num_elements layout < two64" using assms parts(3) by (simp add: metadata_ok_def)
  show ?thesis
  proof (cases "ParseStringCodecs libs (md_codecs md)")
    case info: (Inr info)
    then show ?thesis
      using read_chunks_returns [OF parts(1) n, of "[]" libs files dir "md_chunk_key_encoding md" info 0] Inr
      by (auto simp: ReadFixedLengthUtf32StringArray_def values_ok_def)
  qed (simp add: ReadFixedLengthUtf32StringArray_def Inr)
qed (simp add: ReadFixedLengthUtf32StringArray_def)

text \<open>
  Reading an array whose metadata was accepted always returns, whatever the files hold and whatever the
  decompressors do: with an error, or with as many strings as the array has elements, each the fill value or valid UTF-8
  of at most as many code points as an element holds, none of them zero.
\<close>

theorem string_array_read_returns:
  assumes "metadata_ok md"
  shows "\<exists>r. ReadFixedLengthUtf32StringArray libs files dir md node = Some r \<and>
    (\<forall>vs. r = Inr vs \<longrightarrow> (\<exists>layout. ParseStringArrayLayout libs md = Inr layout \<and> length vs = hd (md_shape md) \<and>
       (\<forall>s \<in> set vs. s = sa_fill_value layout \<or>
          (\<exists>cps. code_points s = Some cps \<and> length cps \<le> sa_length_bytes layout div 4 \<and> 0 \<notin> set cps))))"
proof (cases "ParseStringArrayLayout libs md")
  case (Inl failure)
  then show ?thesis by (simp add: ReadFixedLengthUtf32StringArray_def)
next
  case layout: (Inr layout)
  note parts = ParseStringArrayLayout_parts [OF layout]
  have n: "sa_num_elements layout < two64" using assms parts(3) by (simp add: metadata_ok_def)
  have read: "\<exists>cps. code_points s = Some cps \<and> length cps \<le> sa_length_bytes layout div 4 \<and> 0 \<notin> set cps"
    if s: "label_read (sa_length_bytes layout) s" for s
  proof -
    obtain ws where ws: "label_ok (sa_length_bytes layout) ws" "s = utf8 ws" using s by (auto simp: label_read_def)
    then have "code_points s = Some (map unat ws)" by (simp add: code_points_utf8 label_ok_def)
    then show ?thesis using ws(1) by (auto simp: label_ok_def unat_eq_0)
  qed
  show ?thesis
  proof (cases "ParseStringCodecs libs (md_codecs md)")
    case (Inl failure)
    then show ?thesis using layout by (simp add: ReadFixedLengthUtf32StringArray_def)
  next
    case (Inr info)
    obtain r where r: "read_chunks libs files dir (md_chunk_key_encoding md) layout info 0 [] = Some r"
      "\<forall>vs. r = Inr vs \<longrightarrow> length vs = sa_num_elements layout \<and> values_ok layout vs"
      using read_chunks_returns [OF parts(1) n, of "[]" libs files dir "md_chunk_key_encoding md" info 0] by (auto simp: values_ok_def)
    have "length vs = sa_num_elements layout \<and> (\<forall>s \<in> set vs. s = sa_fill_value layout \<or>
        (\<exists>cps. code_points s = Some cps \<and> length cps \<le> sa_length_bytes layout div 4 \<and> 0 \<notin> set cps))" if "r = Inr vs" for vs
      using r(2) that read unfolding values_ok_def by blast
    then show ?thesis using layout Inr parts(3) r(1)
      by (cases r) (auto simp: ReadFixedLengthUtf32StringArray_def)
  qed
qed

section \<open>What a check of the metadata promises\<close>

lemma and_then_Inl: "and_then a f = Inl e \<longleftrightarrow> a = Inl e \<or> (\<exists>x. a = Inr x \<and> f x = Inl e)"
  by (cases a) simp_all

lemma IsFixedLengthUtf32_returns: "defined (IsFixedLengthUtf32 md)"
  unfolding IsFixedLengthUtf32_def IsPositiveInteger_def by (intro returns) (auto simp: contains_iff intro!: returns split: if_splits)

text \<open>Metadata that was accepted gives the JSON library nothing to throw about.\<close>

lemma take_string_codec_own:
  assumes "codecs_ok codecs" and "codec \<in> set codecs"
  shows "take_string_codec libs codec state \<noteq> Inl (Exception what)"
proof -
  have "is_object codec \<Longrightarrow> value_string codec ''name'' [] \<noteq> None"
    using assms by (fastforce simp: codecs_ok_def value_string_def contains_iff split: option.splits)
  then show ?thesis
    by (auto simp: take_string_codec_def SetBytesCodec_def Fail_def json_get_def and_then_Inl Let_def split: prod.splits if_splits option.splits)
qed

lemma take_string_codecs_own: "codecs_ok codecs \<Longrightarrow> take_string_codecs libs codecs state \<noteq> Inl (Exception what)"
proof (induction codecs arbitrary: state)
  case (Cons codec codecs)
  have "codecs_ok codecs" using Cons.prems by (simp add: codecs_ok_def)
  then show ?case using Cons.IH take_string_codec_own [OF Cons.prems, of codec] by (auto simp: and_then_Inl)
qed simp

lemma ParseStringCodecs_own: "metadata_ok md \<Longrightarrow> ParseStringCodecs libs (md_codecs md) \<noteq> Inl (Exception what)"
  using take_string_codecs_own [of "elements_of (md_codecs md)"]
  by (auto simp: ParseStringCodecs_def and_then_Inl metadata_ok_def split: prod.splits)

lemma ParseStringArrayLayout_own: "ParseStringArrayLayout libs md \<noteq> Inl (Exception what)"
proof
  assume thrown: "ParseStringArrayLayout libs md = Inl (Exception what)"
  obtain b where b: "IsFixedLengthUtf32 md = Some b" using IsFixedLengthUtf32_returns [of md] by (auto simp: defined_iff)
  have "b \<Longrightarrow> Option.bind (at_key (md_data_type_configuration md) ''length_bytes'') get_u64 \<noteq> None"
    using b by (auto simp: IsFixedLengthUtf32_def outcome_iff split: if_splits)
  then show False using thrown b
    by (auto simp: ParseStringArrayLayout_def json_get_def Fail_def and_then_Inl ParseStringFillValue_def
        split: if_splits option.splits json.splits)
qed

lemma GetStringChunkPath_same:
  "GetStringChunkPath dir encoding k = Inl failure \<longleftrightarrow> GetStringChunkPath dir' encoding k' = Inl failure"
  "GetStringChunkPath dir encoding k \<noteq> Inl (Exception what)"
  by (auto simp: GetStringChunkPath_def Let_def Fail_def)

text \<open>The failures left to a read: of a file, of a chunk, and of a size that does not fit.\<close>

definition late :: "failure \<Rightarrow> bool" where
  "late failure = (case failure of DecodeFailure code _ \<Rightarrow> code \<in> {io_error, decode_error, invalid_metadata} | Exception _ \<Rightarrow> True)"

lemma late_Fail [simp]: "late (DecodeFailure io_error m)" "late (DecodeFailure decode_error m)" "late (DecodeFailure invalid_metadata m)"
  "late (Exception w)"
  by (simp_all add: late_def)

lemma strip_all_late: "strip_all k data n = Inl failure \<Longrightarrow> late failure"
  by (induction k arbitrary: n) (auto simp: and_then_Inl StripCrc32c_def Fail_def Let_def split: if_splits)

lemma decompress_chunk_late: "decompress_chunk libs info expected bytes n = Inl failure \<Longrightarrow> late failure"
  by (auto simp: decompress_chunk_def DecompressBytesCodec_def ZstdDecompress_def GzipDecompress_def BloscDecompress_def Fail_def Let_def
      split: option.splits if_splits BytesCodec.splits sum.splits prod.splits)

lemma DecodeStringChunk_late: "DecodeStringChunk libs bytes info layout = Inl failure \<Longrightarrow> late failure"
  unfolding DecodeStringChunk_def
  by (auto simp: and_then_Inl Fail_def Let_def dest: strip_all_late decompress_chunk_late split: if_splits prod.splits)

lemma decode_element_late: "decode_element bytes n little_endian e ks out = Inl failure \<Longrightarrow> late failure"
  by (induction ks arbitrary: out) (auto simp: and_then_Inl Fail_def Let_def AppendUtf8_eq split: if_splits)

lemma decode_elements_late: "decode_elements bytes n little_endian es = Inl failure \<Longrightarrow> late failure"
  by (induction es) (auto simp: and_then_Inl dest: decode_element_late)

lemma chunk_late:
  "and_then (ReadChunkFile files path) (\<lambda>bytes. and_then (DecodeStringChunk libs bytes info layout) (\<lambda>bytes.
     DecodeFixedLengthUtf32 bytes n (sa_length_bytes layout) (ci_little_endian info))) = Inl failure \<Longrightarrow> late failure"
  by (auto simp: and_then_Inl ReadChunkFile_def Fail_def DecodeFixedLengthUtf32_def dest: DecodeStringChunk_late decode_elements_late
      split: option.splits)

lemma read_chunks_late:
  "read_chunks libs files dir encoding layout info index held = Some y \<Longrightarrow>
   \<forall>k. \<exists>path. GetStringChunkPath dir encoding k = Inr path \<Longrightarrow> y = Inl failure \<Longrightarrow> late failure"
proof (induction rule: read_chunks.raw_induct [rotated, consumes 1, case_names turn])
  case (turn loop libs files dir encoding layout info index held y)
  obtain path where "GetStringChunkPath dir encoding index = Inr path" using turn.prems(1) by blast
  then show ?case using turn.hyps turn.IH [OF _ turn.prems(1)] turn.prems(2)
    by (auto simp: Let_def Fail_def dest: chunk_late split: if_splits sum.splits)
qed

text \<open>
  The check made when an image is listed agrees with the read made when it is opened: an array with elements
  that the check refuses is refused by the read with the same error, and one it accepts is read, or fails for its files,
  its chunks or the size of a chunk, never for its type, its rank, its codecs or its chunk keys.
\<close>

theorem string_array_check_agrees_with_read:
  assumes "metadata_ok md" and "\<forall>n \<in> set (md_shape md). 0 < n \<and> n \<le> lib_max_strings libs"
  shows "case CheckFixedLengthUtf32StringArray libs md node of
      Inl e \<Rightarrow> ReadFixedLengthUtf32StringArray libs files dir md node = Some (Inl e)
    | Inr _ \<Rightarrow> \<exists>r. ReadFixedLengthUtf32StringArray libs files dir md node = Some r \<and>
        (\<forall>e. r = Inl e \<longrightarrow> err_code e \<in> {io_error, decode_error, invalid_metadata})"
proof -
  have same: "caught code node failure = caught code' node failure" if "\<And>what. failure \<noteq> Exception what" for failure code code'
  proof (cases failure)
    case (Exception what)
    then show ?thesis using that [of what] by simp
  qed (simp add: caught_def)
  show ?thesis
  proof (cases "ParseStringArrayLayout libs md")
    case (Inl failure)
    then show ?thesis using same [of failure] ParseStringArrayLayout_own [of libs md]
      by (simp add: CheckFixedLengthUtf32StringArray_def ReadFixedLengthUtf32StringArray_def)
  next
    case layout: (Inr layout)
    note parts = ParseStringArrayLayout_parts [OF layout]
    have n: "sa_num_elements layout < two64" "0 < sa_num_elements layout" "sa_num_elements layout \<le> lib_max_strings libs"
      using assms parts(3) by (simp_all add: metadata_ok_def)
    show ?thesis
    proof (cases "ParseStringCodecs libs (md_codecs md)")
      case (Inl failure)
      then show ?thesis using same [of failure] ParseStringCodecs_own [OF assms(1), of libs] layout
        by (simp add: CheckFixedLengthUtf32StringArray_def ReadFixedLengthUtf32StringArray_def)
    next
      case info: (Inr info)
      show ?thesis
      proof (cases "GetStringChunkPath [] (md_chunk_key_encoding md) 0")
        case (Inl failure)
        then have "GetStringChunkPath dir (md_chunk_key_encoding md) 0 = Inl failure" using GetStringChunkPath_same(1) by blast
        then have "read_chunks libs files dir (md_chunk_key_encoding md) layout info 0 [] = Some (Inl failure)"
          using n(2) by (subst read_chunks.simps) simp
        moreover have "failure \<noteq> Exception what" for what using GetStringChunkPath_same(2) Inl by metis
        ultimately show ?thesis using Inl layout info n(3) same [of failure]
          by (simp add: CheckFixedLengthUtf32StringArray_def ReadFixedLengthUtf32StringArray_def)
      next
        case (Inr path)
        then have paths: "\<forall>k. \<exists>path. GetStringChunkPath dir (md_chunk_key_encoding md) k = Inr path"
          using GetStringChunkPath_same(1) by (metis Inl_Inr_False sum.exhaust)
        obtain r where r: "read_chunks libs files dir (md_chunk_key_encoding md) layout info 0 [] = Some r"
          using read_chunks_returns [OF parts(1) n(1), of "[]" libs files dir "md_chunk_key_encoding md" info 0] by (auto simp: values_ok_def)
        have "err_code (caught decode_error node failure) \<in> {io_error, decode_error, invalid_metadata}" if "r = Inl failure" for failure
          using read_chunks_late [OF r paths that] by (cases failure) (auto simp: late_def caught_def)
        then show ?thesis using Inr layout info n(3) r
          by (cases r) (auto simp: CheckFixedLengthUtf32StringArray_def ReadFixedLengthUtf32StringArray_def)
      qed
    qed
  qed
qed

section \<open>An array followed through\<close>

definition plain_libs :: StringLibs where
  "plain_libs =
     \<lparr>lib_zstd = (\<lambda>data n. if length data \<le> n then Inr data else Inl ''Destination buffer is too small''), lib_inflate_init = 0,
      lib_inflate = (\<lambda>data n. (1, take n data)), lib_zError = (\<lambda>_. ''error''), lib_blosc_sizes = (\<lambda>data. (0, 0)),
      lib_blosc = (\<lambda>data n. (-1, [])), lib_float_zero = (\<lambda>s. s = ''0.0''), lib_json_what = ''type_error'',
      lib_length_what = ''length_error'', lib_max_strings = 2 ^ 58, lib_max_bytes = 2 ^ 62\<rparr>"

definition label_metadata :: ArrayMetadata where
  "label_metadata =
     empty_metadata\<lparr>md_shape := [5], md_chunk_shape := [2], md_data_type := ''fixed_length_utf32'',
       md_data_type_configuration := JObject [(''length_bytes'', JUnsigned 8)], md_attributes := JObject [],
       md_codecs := JArray [JObject [(''name'', JString ''bytes''), (''configuration'', JObject [(''endian'', JString ''big'')])],
         JObject [(''name'', JString ''crc32c'')], JObject [(''name'', JString ''zstd'')], JObject [(''name'', JString ''crc32c'')]],
       md_fill_value := JString ''I''\<rparr>"

definition label_layout :: StringArrayLayout where
  "label_layout = \<lparr>sa_num_elements = 5, sa_chunk_elements = 2, sa_length_bytes = 8, sa_fill_value = ''I''\<rparr>"

definition label_codecs :: StringCodecInfo where
  "label_codecs = \<lparr>ci_bytes_codec = Some zstd, ci_little_endian = False, ci_crc_before_compressor = 1, ci_crc_after_compressor = 1\<rparr>"

definition example_labels :: "u32 list list" where
  "example_labels = [[0x49], [0x51, 0xE9], [0x1F300], [], [0x49]]"

definition label_chunk :: "nat \<Rightarrow> u8 list" where
  "label_chunk k = store_chunk label_codecs id (concat (map (encode_element False 8) (chunk_labels label_layout example_labels k)))"

definition label_files :: Files where
  "label_files =
     \<lparr>fs_exists = (\<lambda>path. Inr (path = ''a/c/0'' \<or> path = ''a/c/1'')),
      fs_read = (\<lambda>path. if path = ''a/c/0'' then Some (label_chunk 0) else if path = ''a/c/1'' then Some (label_chunk 1) else None)\<rparr>"

lemma label_parsed: "ParseStringArrayLayout plain_libs label_metadata = Inr label_layout"
  "ParseStringCodecs plain_libs (md_codecs label_metadata) = Inr label_codecs"
  by code_simp+

definition label_document :: json where
  "label_document =
     JObject [(''node_type'', JString ''array''), (''zarr_format'', JUnsigned 3), (''shape'', JArray [JUnsigned 5]),
       (''data_type'', JObject [(''name'', JString ''fixed_length_utf32''), (''configuration'', JObject [(''length_bytes'', JUnsigned 8)])]),
       (''codecs'', md_codecs label_metadata), (''fill_value'', JString ''I''),
       (''chunk_grid'', JObject [(''name'', JString ''regular''), (''configuration'', JObject [(''chunk_shape'', JArray [JUnsigned 2])])])]"

lemma label_metadata_ok: "metadata_ok label_metadata"
proof -
  have "ParseArrayMetadata label_document ''polarization'' = Some (Inr label_metadata)" by code_simp
  then show ?thesis by (rule ParseArrayMetadata_ok)
qed

lemma label_codec_ok: "codec_ok plain_libs label_codecs label_layout id"
  by (simp add: codec_ok_def label_codecs_def label_layout_def plain_libs_def library_inverts_def)

lemma label_array_stored: "array_stored label_files ''a'' (md_chunk_key_encoding label_metadata) label_layout label_codecs id example_labels"
  unfolding array_stored_def
proof (intro allI impI)
  fix k
  assume "k * sa_chunk_elements label_layout < length example_labels"
  then have k: "k = 0 \<or> k = 1 \<or> k = 2" by (auto simp: label_layout_def example_labels_def)
  have path: "GetStringChunkPath ''a'' (md_chunk_key_encoding label_metadata) k = Inr (''a/c/'' @ to_string k)"
    by (simp add: GetStringChunkPath_def label_metadata_def empty_metadata_def string_member_def path_append_def)
  have name: "to_string 0 = ''0''" "to_string (Suc 0) = ''1''" "to_string 2 = ''2''" by code_simp+
  have "chunk_stored label_files (''a/c/'' @ to_string k) label_layout label_codecs id (chunk_labels label_layout example_labels k)"
  proof (cases "k = 2")
    case True
    have "map utf8 (chunk_labels label_layout example_labels 2) = [''I'']" by code_simp
    then have "\<forall>ws \<in> set (chunk_labels label_layout example_labels 2). utf8 ws = ''I''" by auto
    then show ?thesis using True by (simp add: chunk_stored_def name label_files_def label_layout_def)
  next
    case False
    have "length (concat (map (encode_element False 8) (chunk_labels label_layout example_labels 0))) = 16"
      "length (concat (map (encode_element False 8) (chunk_labels label_layout example_labels 1))) = 16" by code_simp+
    then show ?thesis using k False unfolding chunk_stored_def
      by (auto simp: name label_files_def label_chunk_def label_codecs_def label_layout_def intro!: exI [of _ "[]"])
  qed
  then show "\<exists>path. GetStringChunkPath ''a'' (md_chunk_key_encoding label_metadata) k = Inr path \<and>
      chunk_stored label_files path label_layout label_codecs id (chunk_labels label_layout example_labels k)"
    using path by blast
qed

theorem string_array_round_trip_witness:
  "\<exists>vs. ReadFixedLengthUtf32StringArray plain_libs label_files ''a'' label_metadata ''polarization'' = Some (Inr vs) \<and>
    map code_points vs = [Some [0x49], Some [0x51, 0xE9], Some [0x1F300], Some [], Some [0x49]]"
proof -
  have ok: "length example_labels = sa_num_elements label_layout" "sa_num_elements label_layout \<le> lib_max_strings plain_libs"
    "\<forall>ws \<in> set example_labels. label_ok (sa_length_bytes label_layout) ws"
    by (simp_all add: example_labels_def label_layout_def plain_libs_def label_ok_def scalar_def)
  from string_array_round_trip [OF label_parsed label_metadata_ok label_codec_ok ok label_array_stored]
  show ?thesis by (simp add: example_labels_def)
qed

theorem StripCrc32c_accepts_exactly_witness:
  "StripCrc32c [0x31, 0x32, 0x33, 0x34, 0x35, 0x36, 0x37, 0x38, 0x39, 0x83, 0x92, 0x06, 0xE3] 13 = Inr 9"
proof -
  let ?data = "[0x31, 0x32, 0x33, 0x34, 0x35, 0x36, 0x37, 0x38, 0x39, 0x83, 0x92, 0x06, 0xE3] :: u8 list"
  have eight: "(f ^^ 8) x = f (f (f (f (f (f (f (f x)))))))" for f :: "u32 \<Rightarrow> u32" and x by (simp add: eval_nat_numeral)
  have "crc32c [0x31, 0x32, 0x33, 0x34, 0x35, 0x36, 0x37, 0x38, 0x39] = 0xE3069283"
    by (simp add: crc32c_def crc_byte_def crc_shift_def reversed_polynomial_def eight)
  then have "take 13 ?data = take 9 ?data @ word_bytes True (crc32c (take 9 ?data))" by (simp add: word_bytes_def)
  then show ?thesis using StripCrc32c_accepts_exactly [of 13 ?data 9] by simp
qed

theorem string_array_read_returns_witness:
  "\<exists>r. ReadFixedLengthUtf32StringArray plain_libs label_files ''b'' label_metadata ''polarization'' = Some r \<and>
    r = Inr [''I'', ''I'', ''I'', ''I'', ''I'']"
proof -
  have "ReadFixedLengthUtf32StringArray plain_libs label_files ''b'' label_metadata ''polarization'' = Some (Inr [''I'', ''I'', ''I'', ''I'', ''I''])"
    by code_simp
  then show ?thesis using string_array_read_returns [OF label_metadata_ok, of plain_libs label_files "''b''" "''polarization''"] by auto
qed

definition wide_metadata :: ArrayMetadata where
  "wide_metadata = label_metadata\<lparr>md_shape := [5], md_chunk_shape := [2 ^ 62]\<rparr>"

theorem string_array_check_agrees_with_read_witness:
  "ReadFixedLengthUtf32StringArray plain_libs label_files ''a'' (label_metadata\<lparr>md_fill_value := JBool True\<rparr>) ''polarization'' =
     Some (Inl (mk_error invalid_metadata ''String array fill_value is not a string'' ''polarization''))"
proof -
  let ?md = "label_metadata\<lparr>md_fill_value := JBool True\<rparr>"
  have ok: "metadata_ok ?md" using label_metadata_ok by (simp add: metadata_ok_def)
  have few: "\<forall>n \<in> set (md_shape ?md). 0 < n \<and> n \<le> lib_max_strings plain_libs" by (simp add: label_metadata_def plain_libs_def)
  have "CheckFixedLengthUtf32StringArray plain_libs ?md ''polarization'' =
      Inl (mk_error invalid_metadata ''String array fill_value is not a string'' ''polarization'')" by code_simp
  then show ?thesis
    using string_array_check_agrees_with_read [OF ok few, where node = "''polarization''" and files = label_files and dir = "''a''"]
    by (simp only: sum.case)
qed

text \<open>A chunk whose bytes cannot be counted is refused from the metadata alone, but only by the read: the check accepts it.\<close>

lemma check_accepts_uncountable_chunk:
  "CheckFixedLengthUtf32StringArray plain_libs wide_metadata ''polarization'' = Inr () \<and>
   ReadFixedLengthUtf32StringArray plain_libs \<lparr>fs_exists = \<lambda>_. Inr True, fs_read = \<lambda>_. Some []\<rparr> ''a'' wide_metadata ''polarization'' =
     Some (Inl (mk_error invalid_metadata ''String array expected byte count overflows size_t'' ''polarization''))"
  by (intro conjI) code_simp+

end
