(* ===== verification/Store.thy ===== *)
theory Store
  imports Node_Names Numeric_Array String_Array
begin

text \<open>
  \<open>src/memo.h\<close> and \<open>src/store.cc\<close>: the tables of values computed on first use, and the store that reads a Zarr
  hierarchy over a transport through six of them. A table is held locked while a value is computed, and a computation
  that came back to a table it holds would wait for itself; that, and an exception, is \<open>None\<close>. The transport, the JSON
  parser and the reader of numeric values are fields of the store, and act on a world of type \<open>'w\<close>.
\<close>

section \<open>Tables\<close>

definition AskAgain :: "'a result \<Rightarrow> bool" where
  "AskAgain r = (case r of Inl e \<Rightarrow> err_code e = io_error \<or> err_code e = cancelled | Inr _ \<Rightarrow> False)"

datatype table = NodeMetadata | ArrayMetadataTable | VerifiedArrays | InventoryTable | DoubleArrays | StringArrays

datatype NodeKind = group | array | unrecognised

record NodeEntry =
  ne_name :: string
  ne_kind :: NodeKind
  ne_array :: "ArrayMetadata result option"
  ne_reason :: "Error option"

text \<open>
  The answers of a key in the order they were computed, the last the current one. A table with nothing to key on has the
  one key \<open>()\<close>.
\<close>

type_synonym ('k, 'v) answers = "'k \<Rightarrow> 'v result list"

record 'w StoreCaches =
  node_metadata :: "(string, json) answers"
  array_metadata :: "(string, ArrayMetadata) answers"
  verified_arrays :: "(string, ArrayMetadata) answers"
  inventory :: "(unit, NodeEntry list) answers"
  double_arrays :: "(string, NumericArray) answers"
  string_arrays :: "(string, string list) answers"
  locked :: "table list"
  world :: 'w

type_synonym ('a, 'w) action = "'w StoreCaches \<Rightarrow> ('a \<times> 'w StoreCaches) option"

definition GetOrCompute ::
  "table \<Rightarrow> ('w StoreCaches \<Rightarrow> ('k, 'v) answers) \<Rightarrow> ((('k, 'v) answers \<Rightarrow> ('k, 'v) answers) \<Rightarrow> 'w StoreCaches \<Rightarrow> 'w StoreCaches) \<Rightarrow>
   'k \<Rightarrow> ('v result, 'w) action \<Rightarrow> ('v result, 'w) action"
where
  "GetOrCompute table entries update key compute s =
     (if table \<in> set (locked s) then None
      else if entries s key = [] \<or> AskAgain (last (entries s key))
      then (case compute (s\<lparr>locked := table # locked s\<rparr>) of
              None \<Rightarrow> None
            | Some (v, s') \<Rightarrow> Some (v, (update (\<lambda>m. m(key := m key @ [v])) s')\<lparr>locked := locked s\<rparr>))
      else Some (last (entries s key), s))"

definition Memo_Insert :: "('k, 'v) answers \<Rightarrow> 'k \<Rightarrow> 'v result \<Rightarrow> ('k, 'v) answers" where
  "Memo_Insert m key v = (if m key = [] then m(key := [v]) else m)"

text \<open>Doing one thing after another, and going on only with a value.\<close>

definition andthen :: "('a, 'w) action \<Rightarrow> ('a \<Rightarrow> ('b, 'w) action) \<Rightarrow> ('b, 'w) action" where
  "andthen a f s = (case a s of None \<Rightarrow> None | Some (x, s') \<Rightarrow> f x s')"

definition give :: "'a \<Rightarrow> ('a, 'w) action" where
  "give x s = Some (x, s)"

definition attempt :: "('a result, 'w) action \<Rightarrow> ('a \<Rightarrow> ('b result, 'w) action) \<Rightarrow> ('b result, 'w) action" where
  "attempt a f = andthen a (\<lambda>r. case r of Inl e \<Rightarrow> give (Inl e) | Inr x \<Rightarrow> f x)"

text \<open>A call of the world, and a computation that may throw.\<close>

definition ask :: "('w \<Rightarrow> 'a \<times> 'w) \<Rightarrow> ('a, 'w) action" where
  "ask f s = (case f (world s) of (x, w) \<Rightarrow> Some (x, s\<lparr>world := w\<rparr>))"

definition calculate :: "'a option \<Rightarrow> ('a, 'w) action" where
  "calculate x s = map_option (\<lambda>v. (v, s)) x"

section \<open>The store\<close>

text \<open>What the JSON parser throws, with what it says.\<close>

datatype thrown = parse_error string | other_exception string

record 'w Transport =
  ReadNodeBytes :: "string \<Rightarrow> 'w \<Rightarrow> string result \<times> 'w"
  ListNodes :: "'w \<Rightarrow> string list result \<times> 'w"
  ArrayDirectory :: "string \<Rightarrow> 'w \<Rightarrow> string result \<times> 'w"
  StoredSizeBytes :: "u64 \<Rightarrow> 'w \<Rightarrow> u64 result \<times> 'w"

record 'w Store =
  st_transport :: "'w Transport"
  st_root_attributes :: json
  st_consolidated_nodes :: "string list"
  st_has_consolidated_metadata :: bool
  st_parse :: "string \<Rightarrow> thrown + json"
  st_ReadNumericValues :: "string \<Rightarrow> string \<Rightarrow> 'w \<Rightarrow> f64 list result \<times> 'w"
  st_string_libs :: StringLibs
  st_files :: Files

definition ParseNodeMetadata :: "(string \<Rightarrow> thrown + json) \<Rightarrow> string \<Rightarrow> string \<Rightarrow> json result" where
  "ParseNodeMetadata parse bytes node_path =
     (case parse bytes of
        Inl (parse_error what) \<Rightarrow> Inl (mk_error invalid_metadata (''Invalid JSON in Zarr metadata: '' @ what) node_path)
      | Inl (other_exception what) \<Rightarrow> Inl (mk_error io_error (''Unable to read Zarr metadata: '' @ what) node_path)
      | Inr metadata \<Rightarrow> Inr metadata)"

definition differs :: "string \<Rightarrow> string \<Rightarrow> Error" where
  "differs node what =
     mk_error invalid_metadata
       (''The array'' @ [CHR 0x27] @ ''s '' @ what @ '' in the root'' @ [CHR 0x27] @
        ''s consolidated metadata differs from its own zarr.json'') node"

definition RequireSameArray :: "ArrayMetadata \<Rightarrow> ArrayMetadata \<Rightarrow> string \<Rightarrow> unit result option" where
  "RequireSameArray copy own node =
     (if md_shape copy \<noteq> md_shape own then Some (Inl (differs node ''shape''))
      else if md_dimension_names copy \<noteq> md_dimension_names own then Some (Inl (differs node ''dimension names''))
      else if md_data_type copy \<noteq> md_data_type own then Some (Inl (differs node ''data type''))
      else Option.bind (ParseStorageLayout copy) (\<lambda>copy_layout.
           Option.bind (ParseStorageLayout own) (\<lambda>own_layout.
             if sl_chunk_shape copy_layout \<noteq> sl_chunk_shape own_layout \<or> sl_shard_shape copy_layout \<noteq> sl_shard_shape own_layout
             then Some (Inl (differs node ''chunk layout''))
             else if md_attributes copy \<noteq> md_attributes own then Some (Inl (differs node ''attributes''))
             else Some (Inr ()))))"

text \<open>The tables of a store that has just been built: the root's copies are node metadata already read.\<close>

definition empty_caches :: "'w \<Rightarrow> 'w StoreCaches" where
  "empty_caches w =
     \<lparr>node_metadata = (\<lambda>_. []), array_metadata = (\<lambda>_. []), verified_arrays = (\<lambda>_. []), inventory = (\<lambda>_. []),
      double_arrays = (\<lambda>_. []), string_arrays = (\<lambda>_. []), locked = [], world = w\<rparr>"

definition mk_store ::
  "'w Transport \<Rightarrow> json \<Rightarrow> documents \<Rightarrow> bool \<Rightarrow> (string \<Rightarrow> thrown + json) \<Rightarrow> (string \<Rightarrow> string \<Rightarrow> 'w \<Rightarrow> f64 list result \<times> 'w) \<Rightarrow>
   StringLibs \<Rightarrow> Files \<Rightarrow> 'w \<Rightarrow> 'w Store \<times> 'w StoreCaches"
where
  "mk_store transport root_attributes consolidated has_consolidated parse read_values libs files w =
     (let sorted = map (\<lambda>node. (node, the (map_of consolidated node))) (sort (map fst consolidated))
      in (\<lparr>st_transport = transport, st_root_attributes = root_attributes, st_consolidated_nodes = map fst sorted,
           st_has_consolidated_metadata = has_consolidated, st_parse = parse, st_ReadNumericValues = read_values,
           st_string_libs = libs, st_files = files\<rparr>,
          (empty_caches w)\<lparr>node_metadata := foldl (\<lambda>m (node, metadata). Memo_Insert m node (Inr metadata)) (\<lambda>_. []) sorted\<rparr>))"

definition check_root :: "json \<Rightarrow> unit result option" where
  "check_root metadata =
     (if \<not> is_object metadata then Some (Inl (mk_error invalid_metadata ''Root Zarr metadata must be a JSON object'' ''zarr.json''))
      else cond (or_else (Some (\<not> contains metadata ''zarr_format''))
                   (map_option (\<lambda>f. \<not> IsNonNegativeInteger f) (at_key metadata ''zarr_format'')))
        (Some (Inl (mk_error invalid_metadata ''Root Zarr metadata has no valid zarr_format'' ''zarr.json'')))
      (cond (Option.bind (at_key metadata ''zarr_format'') (\<lambda>f. map_option (\<lambda>n. n \<noteq> 3) (get_u64 f)))
        (Some (Inl (mk_error unsupported_zarr_version ''Only Zarr format 3 is supported'' ''zarr.json'')))
      (cond (map_option (\<lambda>t. t \<noteq> ''group'') (value_string metadata ''node_type'' []))
        (Some (Inl (mk_error not_zarr ''The Zarr root must be a group'' ''zarr.json'')))
        (Some (Inr ())))))"

definition root_consolidated :: "json \<Rightarrow> (documents \<times> bool) result" where
  "root_consolidated metadata =
     (case at_key metadata ''consolidated_metadata'' of
        None \<Rightarrow> Inr ([], False)
      | Some JNull \<Rightarrow> Inr ([], False)
      | Some block \<Rightarrow>
          (case at_key block ''metadata'' of
             Some (JObject members) \<Rightarrow>
               (case CollectConsolidatedMetadata (JObject members) [] [] of
                  Inl e \<Rightarrow> Inl e
                | Inr consolidated \<Rightarrow> Inr (consolidated, True))
           | _ \<Rightarrow> Inl (mk_error invalid_metadata ''Zarr consolidated_metadata must contain an object metadata member'' ''zarr.json'')))"

definition OpenStore ::
  "'w Transport option \<Rightarrow> (string \<Rightarrow> thrown + json) \<Rightarrow> (string \<Rightarrow> string \<Rightarrow> 'w \<Rightarrow> f64 list result \<times> 'w) \<Rightarrow> StringLibs \<Rightarrow> Files \<Rightarrow> 'w \<Rightarrow>
   (('w Store \<times> 'w StoreCaches) result \<times> 'w) option"
where
  "OpenStore transport parse read_values libs files w =
     (case transport of
        None \<Rightarrow> Some (Inl (mk_error invalid_argument ''Zarr transport must not be null'' []), w)
      | Some transport \<Rightarrow>
          (case ReadNodeBytes transport [] w of
             (Inl e, w) \<Rightarrow>
               Some (Inl (if err_code e = not_found then mk_error not_zarr ''Zarr store is missing zarr.json'' (err_node_path e) else e), w)
           | (Inr bytes, w) \<Rightarrow>
               (case ParseNodeMetadata parse bytes ''zarr.json'' of
                  Inl e \<Rightarrow> Some (Inl e, w)
                | Inr metadata \<Rightarrow>
                    (case check_root metadata of
                       None \<Rightarrow> None
                     | Some (Inl e) \<Rightarrow> Some (Inl e, w)
                     | Some (Inr _) \<Rightarrow>
                         let root_attributes = (case at_key metadata ''attributes'' of None \<Rightarrow> JObject [] | Some a \<Rightarrow> a)
                         in (case root_consolidated metadata of
                               Inl e \<Rightarrow> Some (Inl e, w)
                             | Inr (consolidated, has_consolidated) \<Rightarrow>
                                 Some (Inr (mk_store transport root_attributes consolidated has_consolidated parse read_values libs files w), w))))))"

section \<open>Reading through the tables\<close>

definition read_document :: "'w Store \<Rightarrow> string \<Rightarrow> string \<Rightarrow> (json result, 'w) action" where
  "read_document store name node =
     attempt (ask (ReadNodeBytes (st_transport store) name)) (\<lambda>bytes. give (ParseNodeMetadata (st_parse store) bytes node))"

definition ReadNodeMetadata :: "'w Store \<Rightarrow> string \<Rightarrow> (json result, 'w) action" where
  "ReadNodeMetadata store node =
     (case NormalizeNodeName node of
        Inl e \<Rightarrow> GetOrCompute NodeMetadata node_metadata node_metadata_update node (give (Inl e))
      | Inr name \<Rightarrow> GetOrCompute NodeMetadata node_metadata node_metadata_update name (read_document store name node))"

definition cache_key :: "string \<Rightarrow> string" where
  "cache_key node = (case NormalizeNodeName node of Inl _ \<Rightarrow> node | Inr name \<Rightarrow> name)"

definition ReadArrayMetadata :: "'w Store \<Rightarrow> string \<Rightarrow> (ArrayMetadata result, 'w) action" where
  "ReadArrayMetadata store node =
     GetOrCompute ArrayMetadataTable array_metadata array_metadata_update (cache_key node)
       (case NormalizeNodeName node of
          Inl e \<Rightarrow> give (Inl e)
        | Inr _ \<Rightarrow> attempt (ReadNodeMetadata store node) (\<lambda>document. calculate (ParseArrayMetadata document node)))"

text \<open>The own document of an array, held to the root's copy of it.\<close>

definition own_document :: "'w Store \<Rightarrow> ArrayMetadata \<Rightarrow> string \<Rightarrow> (ArrayMetadata result, 'w) action" where
  "own_document store copy name =
     andthen (ask (ReadNodeBytes (st_transport store) name)) (\<lambda>bytes.
       case bytes of
         Inl e \<Rightarrow>
           give (Inl (if err_code e = not_found
                      then mk_error invalid_metadata
                             (''The root'' @ [CHR 0x27] @ ''s consolidated metadata describes this array, but its own zarr.json is missing'') name
                      else e))
       | Inr bytes \<Rightarrow>
           attempt (give (ParseNodeMetadata (st_parse store) bytes name)) (\<lambda>document.
           attempt (calculate (ParseArrayMetadata document name)) (\<lambda>own.
           attempt (calculate (RequireSameArray copy own name)) (\<lambda>_. give (Inr own)))))"

text \<open>\<open>value()\<close> on an error throws.\<close>

definition VerifyArray :: "'w Store \<Rightarrow> string \<Rightarrow> (ArrayMetadata result, 'w) action" where
  "VerifyArray store node =
     GetOrCompute VerifiedArrays verified_arrays verified_arrays_update node
       (attempt (ReadArrayMetadata store node) (\<lambda>copy.
          case NormalizeNodeName node of
            Inl _ \<Rightarrow> calculate None
          | Inr name \<Rightarrow> if name \<notin> set (st_consolidated_nodes store) then give (Inr copy) else own_document store copy name))"

section \<open>The inventory\<close>

fun canonical_names :: "string list \<Rightarrow> string list result" where
  "canonical_names [] = Inr []"
| "canonical_names (name # names) =
     (case NormalizeNodeName name of
        Inl _ \<Rightarrow> Inl (mk_error io_error ''Zarr transport listed a node by an invalid path'' name)
      | Inr node \<Rightarrow> (case canonical_names names of Inl e \<Rightarrow> Inl e | Inr nodes \<Rightarrow> Inr (node # nodes)))"

definition list_names :: "'w Store \<Rightarrow> (string list result, 'w) action" where
  "list_names store =
     (if st_has_consolidated_metadata store then give (Inr (st_consolidated_nodes store))
      else attempt (ask (ListNodes (st_transport store))) (\<lambda>listed. give (canonical_names listed)))"

definition declared_type :: "json \<Rightarrow> string" where
  "declared_type document = (case at_key document ''node_type'' of Some (JString s) \<Rightarrow> s | _ \<Rightarrow> [])"

definition take_entry :: "'w Store \<Rightarrow> string \<Rightarrow> (NodeEntry result, 'w) action" where
  "take_entry store node =
     andthen (ReadNodeMetadata store node) (\<lambda>metadata.
       case metadata of
         Inl e \<Rightarrow>
           if err_code e \<noteq> invalid_metadata then give (Inl e)
           else give (Inr \<lparr>ne_name = node, ne_kind = unrecognised, ne_array = None, ne_reason = Some e\<rparr>)
       | Inr document \<Rightarrow>
           if declared_type document = ''group''
           then give (Inr \<lparr>ne_name = node, ne_kind = group, ne_array = None, ne_reason = None\<rparr>)
           else if declared_type document = ''array''
           then andthen (ReadArrayMetadata store node) (\<lambda>r.
                  give (Inr \<lparr>ne_name = node, ne_kind = array, ne_array = Some r, ne_reason = None\<rparr>))
           else give (Inr \<lparr>ne_name = node, ne_kind = unrecognised, ne_array = None,
                          ne_reason = Some (mk_error invalid_metadata ''Zarr node is neither a group nor an array'' node)\<rparr>))"

fun take_entries :: "'w Store \<Rightarrow> string list \<Rightarrow> (NodeEntry list result, 'w) action" where
  "take_entries store [] = give (Inr [])"
| "take_entries store (node # nodes) =
     attempt (take_entry store node) (\<lambda>entry. attempt (take_entries store nodes) (\<lambda>entries. give (Inr (entry # entries))))"

definition Inventory :: "'w Store \<Rightarrow> (NodeEntry list result, 'w) action" where
  "Inventory store =
     GetOrCompute InventoryTable inventory inventory_update ()
       (attempt (list_names store) (\<lambda>names. take_entries store (remdups_adj (sort names))))"

definition FindNode :: "'w Store \<Rightarrow> string \<Rightarrow> (NodeEntry option, 'w) action" where
  "FindNode store name =
     andthen (Inventory store) (\<lambda>r. give (case r of
       Inl _ \<Rightarrow> None
     | Inr entries \<Rightarrow>
         (case dropWhile (\<lambda>entry. ne_name entry < name) entries of
            [] \<Rightarrow> None
          | entry # _ \<Rightarrow> if ne_name entry = name then Some entry else None)))"

section \<open>Reading values\<close>

text \<open>
  An exception of the code behind the store is its own answer here, an error of the world's call; the calls the store
  makes of its own code never throw (\<open>ReadStringArray1D_ensures\<close>, \<open>ReadPixelsInto_ensures\<close>), so the handlers around
  them have nothing to catch.
\<close>

definition ResolveArrayDirectory :: "'w Store \<Rightarrow> string \<Rightarrow> (string result, 'w) action" where
  "ResolveArrayDirectory store node =
     (case NormalizeNodeName node of Inl e \<Rightarrow> give (Inl e) | Inr name \<Rightarrow> ask (ArrayDirectory (st_transport store) name))"

definition ReadNumericArrayUncached :: "'w Store \<Rightarrow> string \<Rightarrow> (NumericArray result, 'w) action" where
  "ReadNumericArrayUncached store node =
     attempt (VerifyArray store node) (\<lambda>own.
     attempt (ResolveArrayDirectory store node) (\<lambda>array_path.
     attempt (ask (st_ReadNumericValues store array_path node)) (\<lambda>vals. give (NumericArray_Make node own vals))))"

definition ReadNumericArray :: "'w Store \<Rightarrow> string \<Rightarrow> (NumericArray result, 'w) action" where
  "ReadNumericArray store node =
     GetOrCompute DoubleArrays double_arrays double_arrays_update (cache_key node) (ReadNumericArrayUncached store node)"

definition ReadStringArray1DUncached :: "'w Store \<Rightarrow> string \<Rightarrow> (string list result, 'w) action" where
  "ReadStringArray1DUncached store node =
     attempt (VerifyArray store node) (\<lambda>own.
     attempt (ResolveArrayDirectory store node) (\<lambda>array_path.
       calculate (ReadFixedLengthUtf32StringArray (st_string_libs store) (st_files store) array_path own node)))"

definition ReadStringArray1D :: "'w Store \<Rightarrow> string \<Rightarrow> (string list result, 'w) action" where
  "ReadStringArray1D store node =
     (case NormalizeNodeName node of
        Inl e \<Rightarrow> give (Inl e)
      | Inr name \<Rightarrow> GetOrCompute StringArrays string_arrays string_arrays_update name (ReadStringArray1DUncached store node))"

text \<open>The reader of pixels, for either element type, is what the caller hands over.\<close>

definition ReadPixelsInto ::
  "'w Store \<Rightarrow> (string \<Rightarrow> string \<Rightarrow> 'w \<Rightarrow> unit result \<times> 'w) \<Rightarrow> string \<Rightarrow> (unit result, 'w) action"
where
  "ReadPixelsInto store read node =
     attempt (VerifyArray store node) (\<lambda>_.
     attempt (ResolveArrayDirectory store node) (\<lambda>target_path. ask (read target_path node)))"

section \<open>The size of a dataset\<close>

datatype SizeBasis = measured | declared

definition ElementSizeBytes :: "ArrayMetadata \<Rightarrow> string \<Rightarrow> u64 result option" where
  "ElementSizeBytes metadata node =
     (case FindDataTypeByName (md_data_type metadata) of
        Some info \<Rightarrow> Some (Inr (dt_element_bytes info))
      | None \<Rightarrow>
          let refused = Some (Inl (mk_error unsupported_data_type
                (''Array '' @ node @ '' has unsupported data_type '' @ md_data_type metadata) node))
          in (case at_key (md_data_type_configuration metadata) ''length_bytes'' of
                None \<Rightarrow> refused
              | Some length_bytes \<Rightarrow> cond (IsPositiveInteger length_bytes) (map_option Inr (get_u64 length_bytes)) refused))"

fun array_bytes_from :: "string \<Rightarrow> u64 list \<Rightarrow> u64 \<Rightarrow> u64 result" where
  "array_bytes_from node [] array_bytes = Inr array_bytes"
| "array_bytes_from node (dimension # dimensions) array_bytes =
     (if dimension = 0 then Inr 0
      else if (two64 - 1) div dimension < array_bytes
      then Inl (mk_error invalid_metadata (''Array '' @ node @ '' byte size overflows uint64_t'') node)
      else array_bytes_from node dimensions (mul64 array_bytes dimension))"

fun total_bytes_from :: "NodeEntry list \<Rightarrow> u64 \<Rightarrow> nat \<Rightarrow> u64 result option" where
  "total_bytes_from [] total_bytes array_count =
     Some (if array_count = 0 then Inl (mk_error invalid_metadata ''Zarr store contains no arrays'' []) else Inr total_bytes)"
| "total_bytes_from (entry # entries) total_bytes array_count =
     (if ne_kind entry \<noteq> array then total_bytes_from entries total_bytes array_count
      else Option.bind (ne_array entry) (\<lambda>r.
        case r of
          Inl e \<Rightarrow> Some (Inl e)
        | Inr metadata \<Rightarrow>
            steps (ElementSizeBytes metadata (ne_name entry)) (\<lambda>element.
              case array_bytes_from (ne_name entry) (md_shape metadata) element of
                Inl e \<Rightarrow> Some (Inl e)
              | Inr bytes \<Rightarrow>
                  if two64 - 1 - bytes < total_bytes
                  then Some (Inl (mk_error invalid_metadata ''Total Zarr array byte size overflows uint64_t'' []))
                  else total_bytes_from entries (add64 total_bytes bytes) (Suc array_count))))"

definition TotalArraySizeBytes :: "'w Store \<Rightarrow> (u64 result, 'w) action" where
  "TotalArraySizeBytes store = attempt (Inventory store) (\<lambda>entries. calculate (total_bytes_from entries 0 0))"

definition DatasetSizeBytes :: "'w Store \<Rightarrow> u64 \<Rightarrow> ((u64 \<times> SizeBasis) result, 'w) action" where
  "DatasetSizeBytes store deadline =
     andthen (ask (StoredSizeBytes (st_transport store) deadline)) (\<lambda>stored.
       case stored of
         Inr bytes \<Rightarrow> give (Inr (bytes, measured))
       | Inl _ \<Rightarrow> attempt (TotalArraySizeBytes store) (\<lambda>bytes. give (Inr (bytes, declared))))"

section \<open>How the tables change\<close>

text \<open>The answers of one table after some work: what was there stays in place, and a settled answer is the last.\<close>

definition settled :: "'v result list \<Rightarrow> bool" where
  "settled answers \<longleftrightarrow> answers \<noteq> [] \<and> \<not> AskAgain (last answers)"

definition grows :: "('k, 'v) answers \<Rightarrow> ('k, 'v) answers \<Rightarrow> bool" where
  "grows m m' \<longleftrightarrow> (\<forall>k. (\<exists>added. m' k = m k @ added) \<and> (settled (m k) \<longrightarrow> m' k = m k))"

fun same :: "table \<Rightarrow> 'w StoreCaches \<Rightarrow> 'w StoreCaches \<Rightarrow> bool" where
  "same NodeMetadata s s' \<longleftrightarrow> node_metadata s = node_metadata s'"
| "same ArrayMetadataTable s s' \<longleftrightarrow> array_metadata s = array_metadata s'"
| "same VerifiedArrays s s' \<longleftrightarrow> verified_arrays s = verified_arrays s'"
| "same InventoryTable s s' \<longleftrightarrow> inventory s = inventory s'"
| "same DoubleArrays s s' \<longleftrightarrow> double_arrays s = double_arrays s'"
| "same StringArrays s s' \<longleftrightarrow> string_arrays s = string_arrays s'"

fun grown :: "table \<Rightarrow> 'w StoreCaches \<Rightarrow> 'w StoreCaches \<Rightarrow> bool" where
  "grown NodeMetadata s s' \<longleftrightarrow> grows (node_metadata s) (node_metadata s')"
| "grown ArrayMetadataTable s s' \<longleftrightarrow> grows (array_metadata s) (array_metadata s')"
| "grown VerifiedArrays s s' \<longleftrightarrow> grows (verified_arrays s) (verified_arrays s')"
| "grown InventoryTable s s' \<longleftrightarrow> grows (inventory s) (inventory s')"
| "grown DoubleArrays s s' \<longleftrightarrow> grows (double_arrays s) (double_arrays s')"
| "grown StringArrays s s' \<longleftrightarrow> grows (string_arrays s) (string_arrays s')"

text \<open>What any call leaves: every lock as it was, every table grown, and a table that was locked untouched.\<close>

definition evolves :: "'w StoreCaches \<Rightarrow> 'w StoreCaches \<Rightarrow> bool" where
  "evolves s s' \<longleftrightarrow> locked s' = locked s \<and> (\<forall>t. grown t s s') \<and> (\<forall>t \<in> set (locked s). same t s s')"

lemma grows_refl [simp]: "grows m m"
  by (simp add: grows_def)

lemma grows_trans: "grows a b \<Longrightarrow> grows b c \<Longrightarrow> grows a c"
  unfolding grows_def by (metis append_assoc)

lemma grows_add: "\<not> settled (m k) \<Longrightarrow> grows m (m(k := m k @ [v]))"
  by (auto simp: grows_def)

lemma grows_settled: "grows m m' \<Longrightarrow> settled (m k) \<Longrightarrow> m' k = m k"
  by (simp add: grows_def)

lemma same_grown: "same t s s' \<Longrightarrow> grown t s s'"
  by (cases t) simp_all

lemma same_refl [simp]: "same t s s"
  by (cases t) simp_all

lemma same_trans: "same t a b \<Longrightarrow> same t b c \<Longrightarrow> same t a c"
  by (cases t) simp_all

lemma grown_trans: "grown t a b \<Longrightarrow> grown t b c \<Longrightarrow> grown t a c"
  by (cases t) (auto intro: grows_trans)

lemma same_outside [simp]: "same t (s\<lparr>locked := l\<rparr>) s' = same t s s'" "same t s (s'\<lparr>locked := l\<rparr>) = same t s s'"
  "same t s (s'\<lparr>world := w\<rparr>) = same t s s'"
  by (cases t; simp)+

lemma grown_outside [simp]: "grown t (s\<lparr>locked := l\<rparr>) s' = grown t s s'" "grown t s (s'\<lparr>locked := l\<rparr>) = grown t s s'"
  by (cases t; simp)+

lemma evolves_refl [simp]: "evolves s s"
  by (simp add: evolves_def same_grown)

lemma evolves_trans: "evolves a b \<Longrightarrow> evolves b c \<Longrightarrow> evolves a c"
  unfolding evolves_def by (metis grown_trans same_trans)

lemma evolves_world [simp]: "evolves s (s\<lparr>world := w\<rparr>)"
  by (simp add: evolves_def same_grown)

text \<open>Whether a call returns, with what, from every state in which the tables it may lock are free and an invariant holds.\<close>

definition ensures ::
  "('w StoreCaches \<Rightarrow> bool) \<Rightarrow> table set \<Rightarrow> ('w StoreCaches \<Rightarrow> bool) \<Rightarrow> ('a, 'w) action \<Rightarrow> ('a \<Rightarrow> 'w StoreCaches \<Rightarrow> bool) \<Rightarrow> bool"
where
  "ensures ok tables pre act post \<longleftrightarrow>
     (\<forall>s. ok s \<longrightarrow> set (locked s) \<inter> tables = {} \<longrightarrow> pre s \<longrightarrow>
        (\<exists>r s'. act s = Some (r, s') \<and> evolves s s' \<and> ok s' \<and> post r s'))"

named_theorems ensuring \<open>what the calls of a store ensure\<close>

lemma ensures_give: "(\<And>s. ok s \<Longrightarrow> pre s \<Longrightarrow> post x s) \<Longrightarrow> ensures ok tables pre (give x) post"
  by (auto simp: ensures_def give_def)

lemma ensures_calculate: "(\<And>s. ok s \<Longrightarrow> pre s \<Longrightarrow> \<exists>r. x = Some r \<and> post r s) \<Longrightarrow> ensures ok tables pre (calculate x) post"
  by (fastforce simp: ensures_def calculate_def)

lemma ensures_andthen:
  assumes "ensures ok tables pre a mid" and "\<And>x. ensures ok tables (mid x) (f x) post"
  shows "ensures ok tables pre (andthen a f) post"
  unfolding ensures_def
proof (intro allI impI)
  fix s
  assume s: "ok s" "set (locked s) \<inter> tables = {}" "pre s"
  then obtain x s1 where s1: "a s = Some (x, s1)" "evolves s s1" "ok s1" "mid x s1" using assms(1) by (auto simp: ensures_def)
  then have "set (locked s1) \<inter> tables = {}" using s(2) by (simp add: evolves_def)
  then obtain r s2 where "f x s1 = Some (r, s2)" "evolves s1 s2" "ok s2" "post r s2"
    using assms(2) [of x] s1 by (auto simp: ensures_def)
  then show "\<exists>r s'. andthen a f s = Some (r, s') \<and> evolves s s' \<and> ok s' \<and> post r s'"
    using s1 by (auto simp: andthen_def intro: evolves_trans)
qed

lemma ensures_attempt:
  assumes "ensures ok tables pre a mid" and "\<And>x. ensures ok tables (mid (Inr x)) (f x) post"
    and "\<And>e s. ok s \<Longrightarrow> mid (Inl e) s \<Longrightarrow> post (Inl e) s"
  shows "ensures ok tables pre (attempt a f) post"
  unfolding attempt_def using assms by (intro ensures_andthen [OF assms(1)]) (auto split: sum.split intro: ensures_give)

lemma ensures_weaken:
  "ensures ok tables pre act post \<Longrightarrow> tables \<subseteq> tables' \<Longrightarrow> (\<And>s. ok s \<Longrightarrow> pre' s \<Longrightarrow> pre s) \<Longrightarrow>
   (\<And>r s. ok s \<Longrightarrow> post r s \<Longrightarrow> post' r s) \<Longrightarrow> ensures ok tables' pre' act post'"
  unfolding ensures_def by (meson disjoint_iff subset_iff)

section \<open>A table as its callers see it\<close>

locale memo_table =
  fixes table :: table
    and entries :: "'w StoreCaches \<Rightarrow> ('k, 'v) answers"
    and update :: "(('k, 'v) answers \<Rightarrow> ('k, 'v) answers) \<Rightarrow> 'w StoreCaches \<Rightarrow> 'w StoreCaches"
  assumes entries_update: "entries (update f s) = f (entries s)"
    and locked_update: "locked (update f s) = locked s"
    and entries_locked: "entries (s\<lparr>locked := l\<rparr>) = entries s"
    and same_update: "t \<noteq> table \<Longrightarrow> same t s (update f s)"
    and grown_table: "grown table s s' \<longleftrightarrow> grows (entries s) (entries s')"
    and same_table: "same table s s' \<longleftrightarrow> entries s = entries s'"
begin

lemma update_evolves:
  assumes "evolves (s\<lparr>locked := table # locked s\<rparr>) s'" and "\<not> settled (entries s key)" and "table \<notin> set (locked s)"
  shows "evolves s ((update (\<lambda>m. m(key := m key @ [v])) s')\<lparr>locked := locked s\<rparr>)"
proof -
  let ?new = "update (\<lambda>m. m(key := m key @ [v])) s'"
  have held: "\<And>t. grown t s s'" "\<And>t. t \<in> set (locked s) \<Longrightarrow> same t s s'" and own: "same table s s'"
    using assms(1) by (simp_all add: evolves_def)
  have own: "entries s = entries s'" using own unfolding same_table .
  have "grown table s' ?new" unfolding grown_table entries_update using assms(2) own by (intro grows_add) simp
  then have "grown t s' ?new" for t using same_update same_grown by (cases "t = table") blast+
  then have "grown t s ?new" for t using held(1) grown_trans by blast
  moreover have "same t s ?new" if t: "t \<in> set (locked s)" for t
  proof (rule same_trans [OF held(2) [OF t]])
    show "same t s' ?new" by (rule same_update) (use t assms(3) in blast)
  qed
  ultimately show ?thesis by (simp add: evolves_def)
qed

lemma GetOrCompute_ensures:
  assumes compute: "ensures ok tables (\<lambda>_. True) compute mid" and fresh: "table \<notin> tables"
    and lock: "\<And>s l. ok s \<Longrightarrow> ok (s\<lparr>locked := l\<rparr>)"
    and add: "\<And>s r. ok s \<Longrightarrow> mid r s \<Longrightarrow> \<not> settled (entries s key) \<Longrightarrow> ok (update (\<lambda>m. m(key := m key @ [r])) s)"
  shows "ensures ok (insert table tables) (\<lambda>_. True) (GetOrCompute table entries update key compute)
    (\<lambda>r s. entries s key \<noteq> [] \<and> last (entries s key) = r)"
  unfolding ensures_def
proof (intro allI impI)
  fix s
  assume s: "ok s" "set (locked s) \<inter> insert table tables = {}"
  then have free: "table \<notin> set (locked s)" by blast
  show "\<exists>r s'. GetOrCompute table entries update key compute s = Some (r, s') \<and> evolves s s' \<and> ok s' \<and> entries s' key \<noteq> [] \<and> last (entries s' key) = r"
  proof (cases "settled (entries s key)")
    case True
    then show ?thesis using s free by (simp add: GetOrCompute_def settled_def)
  next
    case False
    have "ok (s\<lparr>locked := table # locked s\<rparr>)" "set (locked (s\<lparr>locked := table # locked s\<rparr>)) \<inter> tables = {}" using lock s fresh by auto
    then obtain r s1 where s1: "compute (s\<lparr>locked := table # locked s\<rparr>) = Some (r, s1)" "evolves (s\<lparr>locked := table # locked s\<rparr>) s1" "ok s1" "mid r s1"
      using compute unfolding ensures_def by blast
    let ?new = "(update (\<lambda>m. m(key := m key @ [r])) s1)\<lparr>locked := locked s\<rparr>"
    have "GetOrCompute table entries update key compute s = Some (r, ?new)" using False free s1(1) by (auto simp: GetOrCompute_def settled_def)
    moreover have "evolves s ?new" by (rule update_evolves [OF s1(2) False free])
    moreover have "entries s = entries s1" using s1(2) same_table by (simp add: evolves_def)
    then have "ok ?new" using lock add [OF s1(3,4)] False by simp
    moreover have "entries ?new key = entries s1 key @ [r]" by (simp add: entries_locked entries_update)
    ultimately show ?thesis by auto
  qed
qed

text \<open>An answer that settles a key is given again as it is, whatever was computed since, and nothing is asked for it.\<close>

lemma GetOrCompute_stable:
  assumes "GetOrCompute table entries update key compute s = Some (r, s1)" and "\<not> AskAgain r" and "evolves s1 s2" and "table \<notin> set (locked s2)"
  shows "GetOrCompute table entries update key compute s2 = Some (r, s2)"
proof -
  have "settled (entries s1 key) \<and> last (entries s1 key) = r"
    using assms(1,2) by (auto simp: GetOrCompute_def settled_def entries_locked entries_update split: if_splits option.splits)
  moreover have "grows (entries s1) (entries s2)" using assms(3) grown_table by (auto simp: evolves_def)
  ultimately have "settled (entries s2 key)" "last (entries s2 key) = r" using grows_settled by metis+
  then show ?thesis using assms(4) by (auto simp: GetOrCompute_def settled_def)
qed

end

interpretation nodes: memo_table NodeMetadata node_metadata node_metadata_update
proof
  show "t \<noteq> NodeMetadata \<Longrightarrow> same t s (node_metadata_update f s)" for t and s :: "'w StoreCaches" and f by (cases t) simp_all
qed simp_all

interpretation arrays: memo_table ArrayMetadataTable array_metadata array_metadata_update
proof
  show "t \<noteq> ArrayMetadataTable \<Longrightarrow> same t s (array_metadata_update f s)" for t and s :: "'w StoreCaches" and f by (cases t) simp_all
qed simp_all

interpretation verified: memo_table VerifiedArrays verified_arrays verified_arrays_update
proof
  show "t \<noteq> VerifiedArrays \<Longrightarrow> same t s (verified_arrays_update f s)" for t and s :: "'w StoreCaches" and f by (cases t) simp_all
qed simp_all

interpretation listing: memo_table InventoryTable inventory inventory_update
proof
  show "t \<noteq> InventoryTable \<Longrightarrow> same t s (inventory_update f s)" for t and s :: "'w StoreCaches" and f by (cases t) simp_all
qed simp_all

interpretation numbers: memo_table DoubleArrays double_arrays double_arrays_update
proof
  show "t \<noteq> DoubleArrays \<Longrightarrow> same t s (double_arrays_update f s)" for t and s :: "'w StoreCaches" and f by (cases t) simp_all
qed simp_all

interpretation strings: memo_table StringArrays string_arrays string_arrays_update
proof
  show "t \<noteq> StringArrays \<Longrightarrow> same t s (string_arrays_update f s)" for t and s :: "'w StoreCaches" and f by (cases t) simp_all
qed simp_all

section \<open>What the tables hold\<close>

text \<open>What the store takes from the root's copy of an array, and so what the copy and the array's own document agree on.\<close>

definition same_array :: "ArrayMetadata \<Rightarrow> ArrayMetadata \<Rightarrow> bool" where
  "same_array copy own \<longleftrightarrow>
     md_shape copy = md_shape own \<and> md_dimension_names copy = md_dimension_names own \<and> md_data_type copy = md_data_type own \<and>
     md_attributes copy = md_attributes own \<and>
     map_option (\<lambda>l. (sl_chunk_shape l, sl_shard_shape l)) (ParseStorageLayout copy) =
       map_option (\<lambda>l. (sl_chunk_shape l, sl_shard_shape l)) (ParseStorageLayout own)"

definition copy_found :: "'w StoreCaches \<Rightarrow> string \<Rightarrow> ArrayMetadata \<Rightarrow> bool" where
  "copy_found s name copy \<longleftrightarrow> array_metadata s name \<noteq> [] \<and> last (array_metadata s name) = Inr copy"

definition array_answer :: "string \<Rightarrow> ArrayMetadata \<Rightarrow> bool" where
  "array_answer key md \<longleftrightarrow> metadata_ok md \<and> (\<exists>name. NormalizeNodeName key = Inr name)"

definition verified_answer :: "'w Store \<Rightarrow> string \<Rightarrow> ArrayMetadata \<Rightarrow> 'w StoreCaches \<Rightarrow> bool" where
  "verified_answer store node own s \<longleftrightarrow> metadata_ok own \<and>
     (\<exists>name copy. NormalizeNodeName node = Inr name \<and> copy_found s name copy \<and>
        (if name \<in> set (st_consolidated_nodes store) then same_array copy own else own = copy))"

text \<open>An entry of the inventory says what the document of its node says, and an array's the metadata parsed from it.\<close>

definition document_kind :: "json result \<Rightarrow> NodeKind" where
  "document_kind r =
     (case r of
        Inl _ \<Rightarrow> unrecognised
      | Inr document \<Rightarrow> if declared_type document = ''group'' then group else if declared_type document = ''array'' then array else unrecognised)"

definition entry_ok :: "NodeEntry \<Rightarrow> 'w StoreCaches \<Rightarrow> bool" where
  "entry_ok e s \<longleftrightarrow> settled (node_metadata s (ne_name e)) \<and> ne_kind e = document_kind (last (node_metadata s (ne_name e))) \<and>
     (ne_kind e = unrecognised \<longrightarrow> ne_reason e \<noteq> None) \<and>
     (ne_kind e = array \<longrightarrow> (\<exists>r \<in> set (array_metadata s (ne_name e)). ne_array e = Some r \<and> (isl r \<or> last (array_metadata s (ne_name e)) = r)))"

definition entries_ok :: "'w Store \<Rightarrow> NodeEntry list \<Rightarrow> 'w StoreCaches \<Rightarrow> bool" where
  "entries_ok store es s \<longleftrightarrow> sorted_wrt (<) (map ne_name es) \<and> (\<forall>e \<in> set es. canonical (ne_name e) \<and> entry_ok e s) \<and>
     (st_has_consolidated_metadata store \<longrightarrow> map ne_name es = st_consolidated_nodes store)"

definition store_ok :: "'w Store \<Rightarrow> 'w StoreCaches \<Rightarrow> bool" where
  "store_ok store s \<longleftrightarrow>
     (\<forall>k md. Inr md \<in> set (array_metadata s k) \<longrightarrow> array_answer k md) \<and>
     (\<forall>k own. Inr own \<in> set (verified_arrays s k) \<longrightarrow> verified_answer store k own s) \<and>
     (\<forall>es. Inr es \<in> set (inventory s ()) \<longrightarrow> entries_ok store es s)"

text \<open>A store as \<open>OpenStore\<close> makes one.\<close>

definition store_wf :: "'w Store \<Rightarrow> bool" where
  "store_wf store \<longleftrightarrow> sorted_wrt (<) (st_consolidated_nodes store) \<and> (\<forall>node \<in> set (st_consolidated_nodes store). canonical node)"

lemma entry_ok_grows:
  assumes "grows (node_metadata s) (node_metadata s')" and "grows (array_metadata s) (array_metadata s')" and "entry_ok e s"
  shows "entry_ok e s'"
proof -
  have "\<exists>r \<in> set (array_metadata s' (ne_name e)). ne_array e = Some r \<and> (isl r \<or> last (array_metadata s' (ne_name e)) = r)"
    if "r \<in> set (array_metadata s (ne_name e))" "ne_array e = Some r" "isl r \<or> last (array_metadata s (ne_name e)) = r" for r
  proof (cases r)
    case (Inl a)
    then show ?thesis using that assms(2) unfolding grows_def by (metis Un_iff set_append sum.disc(1))
  next
    case (Inr md)
    then have "settled (array_metadata s (ne_name e))" using that by (auto simp: settled_def AskAgain_def)
    then show ?thesis using that grows_settled [OF assms(2)] by auto
  qed
  then show ?thesis using assms(3) grows_settled [OF assms(1), of "ne_name e"] unfolding entry_ok_def by metis
qed

lemma entry_ok_evolves: "evolves s s' \<Longrightarrow> entry_ok e s \<Longrightarrow> entry_ok e s'"
  unfolding evolves_def by (metis entry_ok_grows grown.simps(1,2))

lemma entries_ok_grows:
  "grows (node_metadata s) (node_metadata s') \<Longrightarrow> grows (array_metadata s) (array_metadata s') \<Longrightarrow> entries_ok store es s \<Longrightarrow> entries_ok store es s'"
  unfolding entries_ok_def using entry_ok_grows by blast

lemmas held_defs = store_ok_def verified_answer_def copy_found_def entries_ok_def entry_ok_def

lemma store_ok_outside [simp]: "store_ok store (s\<lparr>locked := l\<rparr>) = store_ok store s" "store_ok store (s\<lparr>world := w\<rparr>) = store_ok store s"
  "store_ok store (double_arrays_update g s) = store_ok store s" "store_ok store (string_arrays_update h s) = store_ok store s"
  by (simp_all add: held_defs)

lemma store_ok_node:
  assumes "store_ok store s" and "\<not> settled (node_metadata s key)"
  shows "store_ok store (node_metadata_update (\<lambda>m. m(key := m key @ [r])) s)" (is "store_ok store ?new")
proof -
  have "entries_ok store es ?new" if "entries_ok store es s" for es
    by (rule entries_ok_grows [OF _ _ that]) (simp_all add: grows_add assms(2))
  moreover have "verified_answer store k own ?new = verified_answer store k own s" for k own
    by (simp add: verified_answer_def copy_found_def)
  ultimately show ?thesis using assms(1) by (simp add: store_ok_def)
qed

lemma store_ok_array:
  assumes "store_ok store s" and "\<forall>md. r = Inr md \<longrightarrow> array_answer key md" and "\<not> settled (array_metadata s key)"
  shows "store_ok store (array_metadata_update (\<lambda>m. m(key := m key @ [r])) s)" (is "store_ok store ?new")
proof -
  have "copy_found ?new name copy" if "copy_found s name copy" for name copy
    using that assms(3) by (auto simp: copy_found_def settled_def AskAgain_def)
  then have "verified_answer store k own ?new" if "verified_answer store k own s" for k own
    using that unfolding verified_answer_def by blast
  moreover have "entries_ok store es ?new" if "entries_ok store es s" for es
    by (rule entries_ok_grows [OF _ _ that]) (simp_all add: grows_add assms(3))
  ultimately show ?thesis using assms(1,2) by (auto simp: store_ok_def)
qed

lemma store_ok_verified:
  "store_ok store s \<Longrightarrow> \<forall>own. r = Inr own \<longrightarrow> verified_answer store key own s \<Longrightarrow>
   store_ok store (verified_arrays_update (\<lambda>m. m(key := m key @ [r])) s)"
  by (auto simp: held_defs)

lemma store_ok_inventory:
  assumes "store_ok store s" and "\<forall>es. r = Inr es \<longrightarrow> entries_ok store es s"
  shows "store_ok store (inventory_update (\<lambda>m. m(() := m () @ [r])) s)" (is "store_ok store ?new")
proof -
  have "entries_ok store es ?new = entries_ok store es s" "verified_answer store k own ?new = verified_answer store k own s" for es k own
    by (simp_all add: held_defs)
  then show ?thesis using assms by (auto simp: store_ok_def)
qed

lemma ensures_ask: "(\<And>s w. pre s \<Longrightarrow> pre (s\<lparr>world := w\<rparr>)) \<Longrightarrow> ensures (store_ok store) tables pre (ask f) (\<lambda>_. pre)"
  by (auto simp: ensures_def ask_def split: prod.split)

lemma cache_key_normalizes: "NormalizeNodeName (cache_key node) = Inr name \<longleftrightarrow> NormalizeNodeName node = Inr name"
proof (cases "NormalizeNodeName node")
  case (Inr n)
  then have "NormalizeNodeName n = Inr n" by (intro canonical_NormalizeNodeName NormalizeNodeName_canonical)
  then show ?thesis using Inr by (simp add: cache_key_def)
qed (simp add: cache_key_def)

lemma RequireSameArray_returns:
  assumes "metadata_ok copy" and "metadata_ok own"
  shows "\<exists>r. RequireSameArray copy own node = Some r \<and> (r = Inr () \<longrightarrow> same_array copy own)"
proof -
  obtain l l' where "ParseStorageLayout copy = Some l" "ParseStorageLayout own = Some l'"
    using ParseStorageLayout_ok [OF assms(1)] ParseStorageLayout_ok [OF assms(2)] by blast
  then show ?thesis by (auto simp: RequireSameArray_def same_array_def)
qed

section \<open>What every call ensures\<close>

lemma ReadNodeMetadata_ensures [ensuring]:
  "ensures (store_ok store) {NodeMetadata} (\<lambda>_. True) (ReadNodeMetadata store node)
     (\<lambda>r s. node_metadata s (cache_key node) \<noteq> [] \<and> last (node_metadata s (cache_key node)) = r)"
proof -
  have "ensures (store_ok store) {} (\<lambda>_. True) (read_document store name node) (\<lambda>_ _. True)" for name
    unfolding read_document_def by (rule ensures_attempt [OF ensures_ask]) (auto intro: ensures_give)
  then have "ensures (store_ok store) {NodeMetadata} (\<lambda>_. True)
      (GetOrCompute NodeMetadata node_metadata node_metadata_update name (read_document store name node))
      (\<lambda>r s. node_metadata s name \<noteq> [] \<and> last (node_metadata s name) = r)" for name
    by (rule nodes.GetOrCompute_ensures) (auto intro: store_ok_node)
  moreover have "ensures (store_ok store) {NodeMetadata} (\<lambda>_. True)
      (GetOrCompute NodeMetadata node_metadata node_metadata_update node (give (Inl e)))
      (\<lambda>r s. node_metadata s node \<noteq> [] \<and> last (node_metadata s node) = r)" for e
    by (rule nodes.GetOrCompute_ensures [where mid = "\<lambda>_ _. True"]) (auto intro: store_ok_node ensures_give)
  ultimately show ?thesis by (simp add: ReadNodeMetadata_def cache_key_def split: sum.split)
qed

lemma calculate_metadata:
  "ensures (store_ok store) tables pre (calculate (ParseArrayMetadata document node))
     (\<lambda>r s. pre s \<and> (\<forall>md. r = Inr md \<longrightarrow> metadata_ok md))"
  using ParseArrayMetadata_returns [of document node] ParseArrayMetadata_ok [of document node]
  by (intro ensures_calculate) (auto simp: defined_iff)

lemma ReadArrayMetadata_ensures [ensuring]:
  "ensures (store_ok store) {ArrayMetadataTable, NodeMetadata} (\<lambda>_. True) (ReadArrayMetadata store node)
     (\<lambda>r s. array_metadata s (cache_key node) \<noteq> [] \<and> last (array_metadata s (cache_key node)) = r)"
proof -
  let ?mid = "\<lambda>r s. \<forall>md. r = Inr md \<longrightarrow> array_answer (cache_key node) md"
  have "ensures (store_ok store) {NodeMetadata} (\<lambda>_. True)
     (case NormalizeNodeName node of
        Inl e \<Rightarrow> give (Inl e)
      | Inr _ \<Rightarrow> attempt (ReadNodeMetadata store node) (\<lambda>document. calculate (ParseArrayMetadata document node))) ?mid"
  proof (cases "NormalizeNodeName node")
    case (Inr name)
    then have "NormalizeNodeName (cache_key node) = Inr name" by (simp add: cache_key_normalizes)
    then show ?thesis using Inr
      by (auto simp: array_answer_def intro!: ensures_attempt [OF ReadNodeMetadata_ensures] ensures_weaken [OF calculate_metadata])
  qed (auto intro: ensures_give)
  then show ?thesis unfolding ReadArrayMetadata_def
    by (rule arrays.GetOrCompute_ensures) (auto intro: store_ok_array)
qed

lemma store_ok_answers:
  "store_ok store s \<Longrightarrow> verified_arrays s node \<noteq> [] \<Longrightarrow> last (verified_arrays s node) = Inr own \<Longrightarrow> verified_answer store node own s"
  "store_ok store s \<Longrightarrow> inventory s () \<noteq> [] \<Longrightarrow> last (inventory s ()) = Inr es \<Longrightarrow> entries_ok store es s"
  unfolding store_ok_def by (metis last_in_set)+

lemma ensures_given: "(P \<Longrightarrow> ensures ok tables (\<lambda>_. True) act post) \<Longrightarrow> ensures ok tables (\<lambda>_. P) act post"
  unfolding ensures_def by blast

lemma own_document_ensures:
  assumes "metadata_ok copy"
  shows "ensures (store_ok store) tables (\<lambda>s. copy_found s name copy) (own_document store copy name)
    (\<lambda>r s. \<forall>own. r = Inr own \<longrightarrow> copy_found s name copy \<and> metadata_ok own \<and> same_array copy own)"
proof -
  let ?pre = "\<lambda>s. copy_found s name copy" and ?post = "\<lambda>r s. \<forall>own. r = Inr own \<longrightarrow> copy_found s name copy \<and> metadata_ok own \<and> same_array copy own"
  have compared: "ensures (store_ok store) tables (\<lambda>s. ?pre s \<and> metadata_ok own)
      (attempt (calculate (RequireSameArray copy own name)) (\<lambda>_. give (Inr own))) ?post" for own
  proof (rule ensures_attempt [where mid = "\<lambda>r s. ?pre s \<and> metadata_ok own \<and> (r = Inr () \<longrightarrow> same_array copy own)"])
    show "ensures (store_ok store) tables (\<lambda>s. ?pre s \<and> metadata_ok own) (calculate (RequireSameArray copy own name))
        (\<lambda>r s. ?pre s \<and> metadata_ok own \<and> (r = Inr () \<longrightarrow> same_array copy own))"
      using RequireSameArray_returns [OF assms, of own name] by (intro ensures_calculate) blast
  qed (auto intro: ensures_give)
  have parsed: "ensures (store_ok store) tables ?pre
      (attempt (give (ParseNodeMetadata (st_parse store) bytes name)) (\<lambda>document.
       attempt (calculate (ParseArrayMetadata document name)) (\<lambda>own.
       attempt (calculate (RequireSameArray copy own name)) (\<lambda>_. give (Inr own))))) ?post" for bytes
    by (rule ensures_attempt [where mid = "\<lambda>_. ?pre"])
      (auto intro: ensures_give intro!: ensures_attempt [OF calculate_metadata] ensures_weaken [OF compared])
  show ?thesis unfolding own_document_def
  proof (rule ensures_andthen [OF ensures_ask])
    show "copy_found s name copy \<Longrightarrow> copy_found (s\<lparr>world := w\<rparr>) name copy" for s w by (simp add: copy_found_def)
  qed (use parsed in \<open>auto split: sum.split intro: ensures_give\<close>)
qed

lemma VerifyArray_ensures [ensuring]:
  "ensures (store_ok store) {VerifiedArrays, ArrayMetadataTable, NodeMetadata} (\<lambda>_. True) (VerifyArray store node)
     (\<lambda>r s. \<forall>own. r = Inr own \<longrightarrow> verified_answer store node own s)"
proof -
  let ?mid = "\<lambda>r s. \<forall>own. r = Inr own \<longrightarrow> verified_answer store node own s"
  let ?rest = "\<lambda>copy. case NormalizeNodeName node of
      Inl _ \<Rightarrow> calculate None
    | Inr name \<Rightarrow> if name \<notin> set (st_consolidated_nodes store) then give (Inr copy) else own_document store copy name"
  have rest: "ensures (store_ok store) tables (\<lambda>s. array_metadata s (cache_key node) \<noteq> [] \<and> last (array_metadata s (cache_key node)) = Inr copy)
      (?rest copy) ?mid" for copy tables
    unfolding ensures_def
  proof (intro allI impI)
    fix s
    assume s: "store_ok store s" "set (locked s) \<inter> tables = {}"
      "array_metadata s (cache_key node) \<noteq> [] \<and> last (array_metadata s (cache_key node)) = Inr copy"
    then have "array_answer (cache_key node) copy" unfolding store_ok_def by (metis last_in_set)
    then obtain name where name: "NormalizeNodeName node = Inr name" "metadata_ok copy" by (auto simp: array_answer_def cache_key_normalizes)
    then have found: "copy_found s name copy" using s(3) by (simp add: copy_found_def cache_key_def)
    show "\<exists>r s'. ?rest copy s = Some (r, s') \<and> evolves s s' \<and> store_ok store s' \<and> ?mid r s'"
    proof (cases "name \<in> set (st_consolidated_nodes store)")
      case True
      obtain r s' where "own_document store copy name s = Some (r, s')" "evolves s s'" "store_ok store s'"
        "\<forall>own. r = Inr own \<longrightarrow> copy_found s' name copy \<and> metadata_ok own \<and> same_array copy own"
        using own_document_ensures [OF name(2), of store tables name] s(1,2) found unfolding ensures_def by blast
      then show ?thesis using True name(1) by (auto simp: verified_answer_def)
    next
      case False
      then show ?thesis using name s(1) found by (auto simp: give_def verified_answer_def)
    qed
  qed
  have "ensures (store_ok store) {ArrayMetadataTable, NodeMetadata} (\<lambda>_. True) (attempt (ReadArrayMetadata store node) ?rest) ?mid"
    by (rule ensures_attempt [OF ReadArrayMetadata_ensures rest]) simp
  then have "ensures (store_ok store) {VerifiedArrays, ArrayMetadataTable, NodeMetadata} (\<lambda>_. True) (VerifyArray store node)
      (\<lambda>r s. verified_arrays s node \<noteq> [] \<and> last (verified_arrays s node) = r)"
    unfolding VerifyArray_def by (rule verified.GetOrCompute_ensures) (auto intro: store_ok_verified)
  then show ?thesis by (rule ensures_weaken) (auto intro: store_ok_answers)
qed

lemma canonical_names_ok: "canonical_names names = Inr nodes \<Longrightarrow> \<forall>node \<in> set nodes. canonical node"
  by (induction names arbitrary: nodes) (auto split: sum.splits intro: NormalizeNodeName_canonical)

lemma list_names_ensures:
  assumes "store_wf store"
  shows "ensures (store_ok store) {} (\<lambda>_. True) (list_names store)
    (\<lambda>r _. \<forall>names. r = Inr names \<longrightarrow> (\<forall>name \<in> set names. canonical name) \<and> (st_has_consolidated_metadata store \<longrightarrow> names = st_consolidated_nodes store))"
  using assms canonical_names_ok unfolding list_names_def store_wf_def
  by (auto intro!: ensures_give ensures_attempt [OF ensures_ask])

lemma ensures_if:
  "(c \<Longrightarrow> ensures ok tables pre a post) \<Longrightarrow> (\<not> c \<Longrightarrow> ensures ok tables pre b post) \<Longrightarrow> ensures ok tables pre (if c then a else b) post"
  by simp

lemma ensures_frame:
  assumes "ensures ok tables pre act post" and "\<And>s s'. evolves s s' \<Longrightarrow> P s \<Longrightarrow> P s'"
  shows "ensures ok tables (\<lambda>s. pre s \<and> P s) act (\<lambda>r s. post r s \<and> P s)"
  using assms unfolding ensures_def by blast

lemma take_entry_ensures:
  assumes "canonical node"
  shows "ensures (store_ok store) {ArrayMetadataTable, NodeMetadata} (\<lambda>_. True) (take_entry store node)
    (\<lambda>r s. \<forall>e. r = Inr e \<longrightarrow> ne_name e = node \<and> entry_ok e s)"
proof -
  have key: "cache_key node = node" using canonical_NormalizeNodeName [OF assms] by (simp add: cache_key_def)
  let ?read = "\<lambda>r s. node_metadata s node \<noteq> [] \<and> last (node_metadata s node) = r"
  have read: "ensures (store_ok store) {ArrayMetadataTable, NodeMetadata} (\<lambda>_. True) (ReadNodeMetadata store node) ?read"
    by (rule ensures_weaken [OF ReadNodeMetadata_ensures [of store node, unfolded key]]) auto
  have kept: "?read (Inr document) s'" if "evolves s s'" "?read (Inr document) s" for s s' document
  proof -
    have "grows (node_metadata s) (node_metadata s')" using that(1) unfolding evolves_def by (metis grown.simps(1))
    then show ?thesis using that(2) grows_settled [of "node_metadata s" "node_metadata s'" node] by (simp add: settled_def AskAgain_def)
  qed
  have parsed: "ensures (store_ok store) {ArrayMetadataTable, NodeMetadata} (?read (Inr document)) (ReadArrayMetadata store node)
      (\<lambda>r s. (array_metadata s node \<noteq> [] \<and> last (array_metadata s node) = r) \<and> ?read (Inr document) s)" for document
    by (rule ensures_weaken [OF ensures_frame [OF ReadArrayMetadata_ensures [of store node, unfolded key] kept]]) auto
  show ?thesis unfolding take_entry_def
  proof (rule ensures_andthen [OF read])
    fix metadata
    let ?post = "\<lambda>r s. \<forall>e. r = Inr e \<longrightarrow> ne_name e = node \<and> entry_ok e s"
    have given: "ensures (store_ok store) {ArrayMetadataTable, NodeMetadata} (?read metadata) (give (Inr e)) ?post"
      if "ne_name e = node" "ne_kind e = document_kind metadata" "ne_kind e \<noteq> array" "\<not> AskAgain metadata"
        "ne_kind e = unrecognised \<longrightarrow> ne_reason e \<noteq> None" for e
      by (rule ensures_give) (use that in \<open>auto simp: entry_ok_def settled_def\<close>)
    show "ensures (store_ok store) {ArrayMetadataTable, NodeMetadata} (?read metadata)
        (case metadata of
           Inl e \<Rightarrow>
             if err_code e \<noteq> invalid_metadata then give (Inl e)
             else give (Inr \<lparr>ne_name = node, ne_kind = unrecognised, ne_array = None, ne_reason = Some e\<rparr>)
         | Inr document \<Rightarrow>
             if declared_type document = ''group'' then give (Inr \<lparr>ne_name = node, ne_kind = group, ne_array = None, ne_reason = None\<rparr>)
             else if declared_type document = ''array''
             then andthen (ReadArrayMetadata store node) (\<lambda>r. give (Inr \<lparr>ne_name = node, ne_kind = array, ne_array = Some r, ne_reason = None\<rparr>))
             else give (Inr \<lparr>ne_name = node, ne_kind = unrecognised, ne_array = None,
                            ne_reason = Some (mk_error invalid_metadata ''Zarr node is neither a group nor an array'' node)\<rparr>)) ?post"
    proof (cases metadata)
      case (Inl e)
      show ?thesis unfolding Inl sum.case
        by (intro ensures_if given [unfolded Inl] ensures_give) (simp_all add: document_kind_def AskAgain_def)
    next
      case (Inr document)
      have parsed_entry: "ensures (store_ok store) {ArrayMetadataTable, NodeMetadata} (?read (Inr document))
        (andthen (ReadArrayMetadata store node) (\<lambda>r. give (Inr \<lparr>ne_name = node, ne_kind = array, ne_array = Some r, ne_reason = None\<rparr>))) ?post"
        if "declared_type document = ''array''"
      proof (rule ensures_andthen [OF parsed [of document]])
        show "ensures (store_ok store) {ArrayMetadataTable, NodeMetadata}
            (\<lambda>s. (array_metadata s node \<noteq> [] \<and> last (array_metadata s node) = r) \<and> ?read (Inr document) s)
            (give (Inr \<lparr>ne_name = node, ne_kind = array, ne_array = Some r, ne_reason = None\<rparr>)) ?post" for r
          by (rule ensures_give) (use that in \<open>auto simp: entry_ok_def settled_def AskAgain_def document_kind_def\<close>)
      qed
      show ?thesis unfolding Inr sum.case
        by (intro ensures_if parsed_entry given [unfolded Inr]) (simp_all add: document_kind_def AskAgain_def)
    qed
  qed
qed

lemma take_entries_ensures:
  assumes "\<forall>node \<in> set nodes. canonical node"
  shows "ensures (store_ok store) {ArrayMetadataTable, NodeMetadata} (\<lambda>_. True) (take_entries store nodes)
    (\<lambda>r s. \<forall>es. r = Inr es \<longrightarrow> map ne_name es = nodes \<and> (\<forall>e \<in> set es. entry_ok e s))"
  using assms
proof (induction nodes)
  case (Cons node nodes)
  let ?e = "\<lambda>e s. ne_name e = node \<and> entry_ok e s"
  let ?post = "\<lambda>nodes r s. \<forall>es. r = Inr es \<longrightarrow> map ne_name es = nodes \<and> (\<forall>e \<in> set es. entry_ok e s)"
  have "ensures (store_ok store) {ArrayMetadataTable, NodeMetadata} (\<lambda>s. True \<and> ?e entry s) (take_entries store nodes)
      (\<lambda>r s. ?post nodes r s \<and> ?e entry s)" for entry
    by (rule ensures_frame) (use Cons entry_ok_evolves in auto)
  then have "ensures (store_ok store) {ArrayMetadataTable, NodeMetadata} (\<lambda>s. True \<and> ?e entry s)
      (attempt (take_entries store nodes) (\<lambda>entries. give (Inr (entry # entries)))) (?post (node # nodes))" for entry
    by (rule ensures_attempt) (rule ensures_give, simp_all)
  then have rest: "ensures (store_ok store) {ArrayMetadataTable, NodeMetadata} (\<lambda>s. \<forall>e. (Inr entry :: NodeEntry result) = Inr e \<longrightarrow> ?e e s)
      (attempt (take_entries store nodes) (\<lambda>entries. give (Inr (entry # entries)))) (?post (node # nodes))" for entry by simp
  have "canonical node" using Cons.prems by simp
  from ensures_attempt [OF take_entry_ensures [OF this] rest] show ?case by simp
qed (auto intro: ensures_give)

lemma sorted_unique: "sorted_wrt (<) (xs :: string list) \<Longrightarrow> remdups_adj (sort xs) = xs"
  by (simp add: sorted_sort_id strict_sorted_imp_sorted remdups_adj_distinct strict_sorted_iff)

lemma strictly_sorted: "sorted xs \<Longrightarrow> sorted_wrt (<) (remdups_adj (xs :: string list))"
  by (induction xs rule: remdups_adj.induct) (auto simp: order_less_le)

lemma unique_sorted: "sorted_wrt (<) (remdups_adj (sort (xs :: string list)))" "set (remdups_adj (sort xs)) = set xs"
  by (simp_all add: strictly_sorted)

lemma listed_entries_ok:
  assumes "map ne_name es = remdups_adj (sort names)" and "\<forall>e \<in> set es. entry_ok e s"
    and "\<forall>name \<in> set names. canonical name"
    and "st_has_consolidated_metadata store \<Longrightarrow> remdups_adj (sort names) = st_consolidated_nodes store"
  shows "entries_ok store es s"
proof -
  have "ne_name ` set es = set names" using arg_cong [OF assms(1), of set] unique_sorted(2) [of names] by simp
  then show ?thesis using assms unique_sorted(1) [of names] by (auto simp: entries_ok_def)
qed

lemma Inventory_held:
  fixes store :: "'a Store"
  assumes "store_wf store"
  shows "ensures (store_ok store) {InventoryTable, ArrayMetadataTable, NodeMetadata} (\<lambda>_. True) (Inventory store)
    (\<lambda>r s. inventory s () \<noteq> [] \<and> last (inventory s ()) = r)"
proof -
  let ?listed = "\<lambda>r :: string list result. \<forall>names. r = Inr names \<longrightarrow>
    (\<forall>name \<in> set names. canonical name) \<and> (st_has_consolidated_metadata store \<longrightarrow> names = st_consolidated_nodes store)"
  have "ensures (store_ok store) {ArrayMetadataTable, NodeMetadata} (\<lambda>_. True)
      (attempt (list_names store) (\<lambda>names. take_entries store (remdups_adj (sort names)))) (\<lambda>r s. \<forall>es. r = Inr es \<longrightarrow> entries_ok store es s)"
  proof (rule ensures_attempt [where mid = "\<lambda>r _. ?listed r"])
    show "ensures (store_ok store) {ArrayMetadataTable, NodeMetadata} (\<lambda>_. True) (list_names store) (\<lambda>r _. ?listed r)"
      by (rule ensures_weaken [OF list_names_ensures [OF assms]]) auto
    fix names :: "string list"
    let ?nodes = "remdups_adj (sort names)"
    show "ensures (store_ok store) {ArrayMetadataTable, NodeMetadata} (\<lambda>_. ?listed (Inr names)) (take_entries store ?nodes)
        (\<lambda>r s. \<forall>es. r = Inr es \<longrightarrow> entries_ok store es s)"
    proof (rule ensures_given)
      assume named: "?listed (Inr names)"
      then have "\<forall>node \<in> set ?nodes. canonical node" by simp
      moreover have "st_has_consolidated_metadata store \<Longrightarrow> ?nodes = st_consolidated_nodes store"
        using named assms sorted_unique by (auto simp: store_wf_def)
      ultimately show "ensures (store_ok store) {ArrayMetadataTable, NodeMetadata} (\<lambda>_. True) (take_entries store ?nodes)
          (\<lambda>r s. \<forall>es. r = Inr es \<longrightarrow> entries_ok store es s)"
        using named by (intro ensures_weaken [OF take_entries_ensures]) (auto intro: listed_entries_ok)
    qed
  qed auto
  then show ?thesis unfolding Inventory_def by (rule listing.GetOrCompute_ensures) (auto intro: store_ok_inventory)
qed

lemma Inventory_ensures [ensuring]:
  assumes "store_wf store"
  shows "ensures (store_ok store) {InventoryTable, ArrayMetadataTable, NodeMetadata} (\<lambda>_. True) (Inventory store)
    (\<lambda>r s. \<forall>es. r = Inr es \<longrightarrow> entries_ok store es s)"
  by (rule ensures_weaken [OF Inventory_held [OF assms]]) (auto intro: store_ok_answers)

section \<open>Values and sizes\<close>

lemma ResolveArrayDirectory_ensures:
  "ensures (store_ok store) tables (\<lambda>_. P) (ResolveArrayDirectory store node) (\<lambda>_ _. P)"
  unfolding ResolveArrayDirectory_def by (auto split: sum.split intro!: ensures_give ensures_ask)

lemma ReadNumericArray_ensures [ensuring]:
  "ensures (store_ok store) {DoubleArrays, VerifiedArrays, ArrayMetadataTable, NodeMetadata} (\<lambda>_. True) (ReadNumericArray store node)
     (\<lambda>_ _. True)"
proof -
  have "ensures (store_ok store) {VerifiedArrays, ArrayMetadataTable, NodeMetadata} (\<lambda>_. True) (ReadNumericArrayUncached store node) (\<lambda>_ _. True)"
    unfolding ReadNumericArrayUncached_def
    by (auto intro!: ensures_attempt [OF ensures_weaken [OF VerifyArray_ensures], where mid = "\<lambda>_ _. True"]
        ensures_attempt [OF ResolveArrayDirectory_ensures] ensures_attempt [OF ensures_ask] ensures_give)
  then show ?thesis unfolding ReadNumericArray_def
    by (intro ensures_weaken [OF numbers.GetOrCompute_ensures]) auto
qed

lemma ReadStringArray1D_ensures [ensuring]:
  "ensures (store_ok store) {StringArrays, VerifiedArrays, ArrayMetadataTable, NodeMetadata} (\<lambda>_. True) (ReadStringArray1D store node)
     (\<lambda>_ _. True)"
proof -
  have values_of: "ensures (store_ok store) tables (\<lambda>_. metadata_ok own)
      (attempt (ResolveArrayDirectory store node) (\<lambda>array_path.
         calculate (ReadFixedLengthUtf32StringArray (st_string_libs store) (st_files store) array_path own node))) (\<lambda>_ _. True)" for own tables
    by (rule ensures_attempt [OF ResolveArrayDirectory_ensures])
      (auto intro!: ensures_calculate ReadFixedLengthUtf32StringArray_total)
  have "ensures (store_ok store) {VerifiedArrays, ArrayMetadataTable, NodeMetadata} (\<lambda>_. True) (ReadStringArray1DUncached store node) (\<lambda>_ _. True)"
    unfolding ReadStringArray1DUncached_def
    by (rule ensures_attempt [OF VerifyArray_ensures], rule ensures_weaken [OF values_of]) (auto simp: verified_answer_def)
  then show ?thesis unfolding ReadStringArray1D_def
    by (auto split: sum.split intro!: ensures_give ensures_weaken [OF strings.GetOrCompute_ensures])
qed

lemma ReadPixelsInto_ensures [ensuring]:
  "ensures (store_ok store) {VerifiedArrays, ArrayMetadataTable, NodeMetadata} (\<lambda>_. True) (ReadPixelsInto store read node) (\<lambda>_ _. True)"
  unfolding ReadPixelsInto_def
  by (auto intro!: ensures_attempt [OF ensures_weaken [OF VerifyArray_ensures], where mid = "\<lambda>_ _. True"]
      ensures_attempt [OF ResolveArrayDirectory_ensures] ensures_ask)

lemma FindNode_ensures [ensuring]:
  "store_wf store \<Longrightarrow> ensures (store_ok store) {InventoryTable, ArrayMetadataTable, NodeMetadata} (\<lambda>_. True) (FindNode store name) (\<lambda>_ _. True)"
  unfolding FindNode_def by (rule ensures_andthen [OF Inventory_ensures]) (auto intro: ensures_give)

lemma entries_ok_arrays: "entries_ok store es s \<Longrightarrow> \<forall>e \<in> set es. ne_kind e = array \<longrightarrow> (\<exists>r. ne_array e = Some r)"
  unfolding entries_ok_def entry_ok_def by blast

lemma ElementSizeBytes_returns: "defined (ElementSizeBytes md node)"
proof (cases "FindDataTypeByName (md_data_type md)")
  case None
  show ?thesis
  proof (cases "at_key (md_data_type_configuration md) ''length_bytes''")
    case (Some v)
    then show ?thesis using None by (auto simp: ElementSizeBytes_def IsPositiveInteger_iff intro!: returns)
  qed (use None in \<open>simp add: ElementSizeBytes_def\<close>)
qed (simp add: ElementSizeBytes_def)

lemma total_bytes_returns:
  "\<forall>e \<in> set es. ne_kind e = array \<longrightarrow> (\<exists>r. ne_array e = Some r) \<Longrightarrow> defined (total_bytes_from es total_bytes array_count)"
proof (induction es arbitrary: total_bytes array_count)
  case (Cons e es)
  then show ?case
    by (auto split: sum.split intro!: steps_returns bind_returns ElementSizeBytes_returns)
qed simp

lemma DatasetSizeBytes_ensures [ensuring]:
  assumes "store_wf store"
  shows "ensures (store_ok store) {InventoryTable, ArrayMetadataTable, NodeMetadata} (\<lambda>_. True) (DatasetSizeBytes store deadline) (\<lambda>_ _. True)"
proof -
  have "ensures (store_ok store) {InventoryTable, ArrayMetadataTable, NodeMetadata} (\<lambda>_. True) (TotalArraySizeBytes store) (\<lambda>_ _. True)"
    unfolding TotalArraySizeBytes_def
  proof (rule ensures_attempt [OF Inventory_ensures [OF assms]])
    show "ensures (store_ok store) {InventoryTable, ArrayMetadataTable, NodeMetadata}
        (\<lambda>s. \<forall>es'. (Inr es :: NodeEntry list result) = Inr es' \<longrightarrow> entries_ok store es' s) (calculate (total_bytes_from es 0 0)) (\<lambda>_ _. True)" for es
      by (rule ensures_calculate) (use total_bytes_returns [OF entries_ok_arrays] in \<open>auto simp: defined_iff\<close>)
  qed simp
  then show ?thesis unfolding DatasetSizeBytes_def
    by (intro ensures_andthen [OF ensures_ask]) (auto split: sum.split intro!: ensures_give ensures_attempt)
qed

section \<open>A store that is open\<close>

lemma inserted_settle:
  "foldl (\<lambda>m (node, metadata). Memo_Insert m node (Inr metadata)) (\<lambda>_. []) documents =
   (\<lambda>node. case map_of documents node of None \<Rightarrow> [] | Some metadata \<Rightarrow> [Inr metadata])"
proof (induction documents rule: rev_induct)
  case (snoc d documents)
  show ?case unfolding foldl_append snoc.IH
    by (cases d) (auto simp: Memo_Insert_def map_add_def fun_eq_iff split: option.splits)
qed simp

lemma OpenStore_parts:
  assumes "OpenStore (Some transport) parse read_values libs files w = Some (Inr (store, s), w')"
  obtains root_attributes consolidated has_consolidated where
    "(store, s) = mk_store transport root_attributes consolidated has_consolidated parse read_values libs files w'"
    and "distinct (map fst consolidated)" and "\<forall>name \<in> set (map fst consolidated). canonical name"
proof -
  have "\<exists>metadata consolidated has_consolidated root_attributes. root_consolidated metadata = Inr (consolidated, has_consolidated) \<and>
      mk_store transport root_attributes consolidated has_consolidated parse read_values libs files w' = (store, s)"
    using assms by (auto simp: OpenStore_def Let_def split: prod.splits sum.splits option.splits)
  then obtain metadata consolidated has_consolidated root_attributes where
    root: "root_consolidated metadata = Inr (consolidated, has_consolidated)" and
    made: "mk_store transport root_attributes consolidated has_consolidated parse read_values libs files w' = (store, s)" by blast
  have "distinct (map fst consolidated) \<and> (\<forall>name \<in> set (map fst consolidated). canonical name)"
    using root collected_names [of _ "[]" consolidated]
    by (auto simp: root_consolidated_def split: option.splits json.splits sum.splits)
  then show ?thesis using that [of root_attributes consolidated has_consolidated] made by simp
qed

text \<open>A node the root has a copy of is never read: the copy was put in the table when the store was built.\<close>

lemma opened_copies:
  assumes "OpenStore (Some transport) parse read_values libs files w = Some (Inr (store, s), w')" and "node \<in> set (st_consolidated_nodes store)"
  shows "\<exists>copy. ReadNodeMetadata store node s = Some (Inr copy, s)"
proof -
  obtain root_attributes consolidated has_consolidated where
    made: "(store, s) = mk_store transport root_attributes consolidated has_consolidated parse read_values libs files w'"
    and names: "\<forall>name \<in> set (map fst consolidated). canonical name" using OpenStore_parts [OF assms(1)] .
  have node: "node \<in> set (map fst consolidated)" using made assms(2) by (auto simp: mk_store_def Let_def o_def)
  then have "NormalizeNodeName node = Inr node" using names canonical_NormalizeNodeName by blast
  moreover have "node_metadata s node = [Inr (the (map_of consolidated node))]" "locked s = []"
    using made node by (auto simp: mk_store_def Let_def inserted_settle empty_caches_def map_of_map_restrict o_def)
  ultimately show ?thesis by (simp add: ReadNodeMetadata_def GetOrCompute_def AskAgain_def)
qed

lemma OpenStore_ok:
  assumes "OpenStore (Some transport) parse read_values libs files w = Some (Inr (store, s), w')"
  shows "store_wf store" and "store_ok store s" and "locked s = []"
proof -
  obtain root_attributes consolidated has_consolidated where
    made: "(store, s) = mk_store transport root_attributes consolidated has_consolidated parse read_values libs files w'"
    and names: "distinct (map fst consolidated)" "\<forall>name \<in> set (map fst consolidated). canonical name"
    using OpenStore_parts [OF assms] .
  then show "store_wf store" by (auto simp: mk_store_def Let_def store_wf_def o_def strict_sorted_iff)
  show "store_ok store s" "locked s = []"
    using made by (simp_all add: mk_store_def Let_def empty_caches_def store_ok_def)
qed

section \<open>Any sequence of calls\<close>

text \<open>A caller's calls of an open store, and what each hands back.\<close>

datatype 'w query =
    AskNode string | AskArray string | AskVerified string | AskInventory | AskFind string
  | AskNumbers string | AskStrings string | AskPixels "string \<Rightarrow> string \<Rightarrow> 'w \<Rightarrow> unit result \<times> 'w" string | AskSize u64

datatype reply =
    NodeReply "json result" | ArrayReply "ArrayMetadata result" | InventoryReply "NodeEntry list result"
  | FoundReply "NodeEntry option" | NumbersReply "NumericArray result" | StringsReply "string list result"
  | PixelsReply "unit result" | SizeReply "(u64 \<times> SizeBasis) result"

definition replying :: "('a \<Rightarrow> reply) \<Rightarrow> ('a, 'w) action \<Rightarrow> (reply, 'w) action" where
  "replying f act = andthen act (\<lambda>r. give (f r))"

fun perform :: "'w Store \<Rightarrow> 'w query \<Rightarrow> (reply, 'w) action" where
  "perform store (AskNode node) = replying NodeReply (ReadNodeMetadata store node)"
| "perform store (AskArray node) = replying ArrayReply (ReadArrayMetadata store node)"
| "perform store (AskVerified node) = replying ArrayReply (VerifyArray store node)"
| "perform store AskInventory = replying InventoryReply (Inventory store)"
| "perform store (AskFind name) = replying FoundReply (FindNode store name)"
| "perform store (AskNumbers node) = replying NumbersReply (ReadNumericArray store node)"
| "perform store (AskStrings node) = replying StringsReply (ReadStringArray1D store node)"
| "perform store (AskPixels read node) = replying PixelsReply (ReadPixelsInto store read node)"
| "perform store (AskSize deadline) = replying SizeReply (DatasetSizeBytes store deadline)"

fun performs :: "'w Store \<Rightarrow> 'w query list \<Rightarrow> (reply list, 'w) action" where
  "performs store [] = give []"
| "performs store (q # qs) = andthen (perform store q) (\<lambda>r. andthen (performs store qs) (\<lambda>rs. give (r # rs)))"

lemma replying_ensures:
  assumes "ensures ok tables (\<lambda>_. True) act post"
  shows "ensures ok UNIV (\<lambda>_. True) (replying f act) (\<lambda>_ _. True)"
  unfolding replying_def by (rule ensures_andthen [OF ensures_weaken [OF assms]]) (auto intro: ensures_give)

lemma perform_ensures:
  assumes "store_wf store"
  shows "ensures (store_ok store) UNIV (\<lambda>_. True) (perform store q) (\<lambda>_ _. True)"
  using assms by (cases q) (auto intro!: replying_ensures ensuring)

lemma performs_ensures:
  assumes "store_wf store"
  shows "ensures (store_ok store) UNIV (\<lambda>_. True) (performs store qs) (\<lambda>rs _. length rs = length qs)"
proof (induction qs)
  case (Cons q qs)
  show ?case unfolding performs.simps
    by (rule ensures_andthen [OF perform_ensures [OF assms]], rule ensures_andthen [OF Cons.IH], rule ensures_give) simp
qed (auto intro: ensures_give)

lemma ensures_run:
  assumes "ensures ok UNIV (\<lambda>_. True) act post" and "ok s" and "locked s = []"
  obtains r s' where "act s = Some (r, s')" "evolves s s'" "ok s'" "locked s' = []" "post r s'"
proof -
  have "set (locked s) \<inter> UNIV = {}" using assms(3) by simp
  then obtain r s' where "act s = Some (r, s')" "evolves s s'" "ok s'" "post r s'" using assms(1,2) unfolding ensures_def by blast
  then show ?thesis using that assms(3) by (auto simp: evolves_def)
qed

lemma performs_open:
  assumes "OpenStore (Some transport) parse read_values libs files w = Some (Inr (store, s), w')" and "performs store qs s = Some (rs, s1)"
  shows "store_wf store" and "store_ok store s1" and "locked s1 = []" and "evolves s s1"
proof -
  note opened = OpenStore_ok [OF assms(1)]
  then show "store_wf store" by simp
  obtain r s' where "performs store qs s = Some (r, s')" "evolves s s'" "store_ok store s'" "locked s' = []"
    using ensures_run [OF performs_ensures [OF opened(1)] opened(2,3)] .
  then show "store_ok store s1" "locked s1 = []" "evolves s s1" using assms(2) by auto
qed

lemma ensures_after:
  assumes "ensures ok tables (\<lambda>_. True) act post" and "ok s" and "locked s = []" and "act s = Some (r, s')"
  shows "evolves s s'" and "ok s'" and "locked s' = []" and "post r s'"
proof -
  have "set (locked s) \<inter> tables = {}" using assms(3) by simp
  then have "evolves s s' \<and> ok s' \<and> post r s'" using assms(1,2,4) unfolding ensures_def by fastforce
  then show "evolves s s'" "ok s'" "locked s' = []" "post r s'" using assms(3) by (auto simp: evolves_def)
qed

section \<open>Properties\<close>

subsection \<open>A store with one array\<close>

definition example_root :: json where
  "example_root = JObject
     [(''zarr_format'', JUnsigned 3), (''node_type'', JString ''group''),
      (''consolidated_metadata'', JObject [(''metadata'', JObject [(''./SKY'', example_document)])])]"

definition example_parse :: "string \<Rightarrow> thrown + json" where
  "example_parse bytes =
     (if bytes = ''root'' then Inr example_root else if bytes = ''sky'' then Inr example_document else Inl (parse_error ''unexpected end of input''))"

text \<open>The world counts the requests made of it.\<close>

definition example_transport :: "nat Transport" where
  "example_transport =
     \<lparr>ReadNodeBytes = (\<lambda>name w. (if name = [] then Inr ''root'' else if name = ''SKY'' then Inr ''sky''
                                  else Inl (mk_error not_found ''No such node'' name), Suc w)),
      ListNodes = (\<lambda>w. (Inr [''SKY''], Suc w)),
      ArrayDirectory = (\<lambda>name w. (Inr (''/data/'' @ name), w)),
      StoredSizeBytes = (\<lambda>deadline w. (Inl (mk_error io_error ''Not a directory'' []), Suc w))\<rparr>"

definition example_files :: Files where
  "example_files = \<lparr>fs_exists = (\<lambda>_. Inr False), fs_read = (\<lambda>_. None)\<rparr>"

definition example_numbers :: "string \<Rightarrow> string \<Rightarrow> nat \<Rightarrow> f64 list result \<times> nat" where
  "example_numbers path node w = (Inr [], Suc w)"

definition example_opened :: "nat Store \<times> nat StoreCaches" where
  "example_opened = (case OpenStore (Some example_transport) example_parse example_numbers plain_libs example_files 0 of Some (Inr opened, _) \<Rightarrow> opened)"

definition example_store :: "nat Store" where
  "example_store = fst example_opened"

definition example_state :: "nat StoreCaches" where
  "example_state = snd example_opened"

lemma example_opens:
  "OpenStore (Some example_transport) example_parse example_numbers plain_libs example_files 0 = Some (Inr (example_store, example_state), 1)"
proof -
  have "case OpenStore (Some example_transport) example_parse example_numbers plain_libs example_files 0 of Some (Inr _, w) \<Rightarrow> w = 1 | _ \<Rightarrow> False"
    by code_simp
  then show ?thesis by (auto simp: example_store_def example_state_def example_opened_def split: option.splits prod.splits sum.splits)
qed


text \<open>What the calls of the examples give, by running them.\<close>

lemma example_verifies:
  obtains own s1 where "VerifyArray example_store ''SKY'' example_state = Some (Inr own, s1)" and "world s1 = 2"
proof -
  have "case VerifyArray example_store ''SKY'' example_state of Some (Inr _, s1) \<Rightarrow> world s1 = 2 | _ \<Rightarrow> False" by code_simp
  then show ?thesis using that by (auto split: option.splits prod.splits sum.splits)
qed

lemma example_lists:
  obtains es s1 where "Inventory example_store example_state = Some (Inr es, s1)" and "map ne_kind es = [array]"
proof -
  have "case Inventory example_store example_state of Some (Inr es, s1) \<Rightarrow> map ne_kind es = [array] | _ \<Rightarrow> False" by code_simp
  then show ?thesis using that by (auto split: option.splits prod.splits sum.splits)
qed

lemma example_sizes:
  obtains s1 where "DatasetSizeBytes example_store 0 example_state = Some (Inr (1280, declared), s1)"
proof -
  have "case DatasetSizeBytes example_store 0 example_state of Some (Inr (n, basis), s1) \<Rightarrow> n = 1280 \<and> basis = declared | _ \<Rightarrow> False" by code_simp
  then show ?thesis using that by (auto split: option.splits prod.splits sum.splits)
qed

lemma performs_nothing: "performs store [] s = Some ([], s)"
  by (simp add: give_def)

subsection \<open>What the calls of an open store promise\<close>

text \<open>
  Claim C27. Whatever calls are made of an opened store, in whatever order, every one returns: no computation waits for a
  table it holds itself, nothing throws, and every table is free again afterwards.
\<close>
theorem store_calls_return:
  assumes "OpenStore (Some transport) parse read_values libs files w = Some (Inr (store, s), w')"
  shows "\<exists>replies s'. performs store qs s = Some (replies, s') \<and> length replies = length qs \<and> locked s' = []"
  using ensures_run [OF performs_ensures [OF OpenStore_ok(1) [OF assms]] OpenStore_ok(2,3) [OF assms]] by blast

theorem store_calls_return_witness:
  "\<exists>replies s'. performs example_store [AskVerified ''SKY'', AskInventory, AskNumbers ''SKY'', AskStrings ''../SKY'', AskSize 0] example_state =
     Some (replies, s') \<and> length replies = 5 \<and> locked s' = []"
  using store_calls_return [OF example_opens, of "[AskVerified ''SKY'', AskInventory, AskNumbers ''SKY'', AskStrings ''../SKY'', AskSize 0]"]
  by (simp add: eval_nat_numeral del: performs.simps)

text \<open>What a call is held to: a reply that is an answer about the store, not a read that could not be made.\<close>

fun lasting :: "'w query \<Rightarrow> reply \<Rightarrow> bool" where
  "lasting (AskNode _) (NodeReply r) \<longleftrightarrow> \<not> AskAgain r"
| "lasting (AskArray _) (ArrayReply r) \<longleftrightarrow> \<not> AskAgain r"
| "lasting (AskVerified _) (ArrayReply r) \<longleftrightarrow> \<not> AskAgain r"
| "lasting AskInventory (InventoryReply r) \<longleftrightarrow> \<not> AskAgain r"
| "lasting (AskNumbers _) (NumbersReply r) \<longleftrightarrow> \<not> AskAgain r"
| "lasting (AskStrings _) (StringsReply r) \<longleftrightarrow> \<not> AskAgain r"
| "lasting _ _ \<longleftrightarrow> False"

lemma replying_some: "replying f act s = Some (r, s') \<longleftrightarrow> (\<exists>x. act s = Some (x, s') \<and> r = f x)"
  by (auto simp: replying_def andthen_def give_def split: option.splits)

lemma perform_stable:
  assumes "perform store q s = Some (r, s1)" and "lasting q r" and "evolves s1 s2" and "locked s2 = []"
  shows "perform store q s2 = Some (r, s2)"
proof (cases q)
  case (AskNode node)
  then show ?thesis using assms nodes.GetOrCompute_stable
    by (fastforce simp: replying_some ReadNodeMetadata_def split: sum.splits)
next
  case (AskArray node)
  then show ?thesis using assms arrays.GetOrCompute_stable by (fastforce simp: replying_some ReadArrayMetadata_def)
next
  case (AskVerified node)
  then show ?thesis using assms verified.GetOrCompute_stable by (fastforce simp: replying_some VerifyArray_def)
next
  case AskInventory
  then show ?thesis using assms listing.GetOrCompute_stable by (fastforce simp: replying_some Inventory_def)
next
  case (AskNumbers node)
  then show ?thesis using assms numbers.GetOrCompute_stable by (fastforce simp: replying_some ReadNumericArray_def)
next
  case (AskStrings node)
  then show ?thesis using assms strings.GetOrCompute_stable
    by (fastforce simp: replying_some ReadStringArray1D_def give_def split: sum.splits)
qed (use assms(2) in simp_all)

text \<open>
  Claim C28. An answer of an opened store does not change under its callers: once a call has been answered with something
  that is not a failed or cancelled read, the same call after any further calls gives the same answer, and asks
  nothing of the world and leaves every table as it is.
\<close>
theorem store_answers_last:
  assumes opened: "OpenStore (Some transport) parse read_values libs files w = Some (Inr (store, s), w')"
    and before: "performs store earlier s = Some (replies, s0)" and asked: "perform store q s0 = Some (r, s1)" and lasts: "lasting q r"
    and since: "performs store later s1 = Some (others, s2)"
  shows "perform store q s2 = Some (r, s2)"
proof -
  note s0 = performs_open [OF opened before]
  note s1 = ensures_after [OF perform_ensures [OF s0(1)] s0(2,3) asked]
  note s2 = ensures_after [OF performs_ensures [OF s0(1)] s1(2,3) since]
  show ?thesis using perform_stable [OF asked lasts s2(1,3)] .
qed

theorem store_answers_last_witness:
  "\<exists>r s1 others s2. perform example_store (AskVerified ''SKY'') example_state = Some (r, s1) \<and> lasting (AskVerified ''SKY'' :: nat query) r \<and>
     performs example_store [AskInventory, AskSize 0] s1 = Some (others, s2) \<and> perform example_store (AskVerified ''SKY'') s2 = Some (r, s2)"
proof -
  obtain own s1 where own: "VerifyArray example_store ''SKY'' example_state = Some (Inr own, s1)" by (rule example_verifies)
  then have asked: "perform example_store (AskVerified ''SKY'') example_state = Some (ArrayReply (Inr own), s1)" by (simp add: replying_some)
  note opened = OpenStore_ok [OF example_opens]
  note s1 = ensures_after [OF VerifyArray_ensures opened(2,3) own]
  obtain others s2 where later: "performs example_store [AskInventory, AskSize 0] s1 = Some (others, s2)"
    using ensures_run [OF performs_ensures [OF opened(1)] s1(2,3)] .
  have lasts: "lasting (AskVerified ''SKY'' :: nat query) (ArrayReply (Inr own))" by (simp add: AskAgain_def)
  have "perform example_store (AskVerified ''SKY'') s2 = Some (ArrayReply (Inr own), s2)"
    by (rule store_answers_last [OF example_opens performs_nothing asked lasts later])
  then show ?thesis using asked lasts later by blast
qed

lemma settled_array: "array_metadata s key \<noteq> [] \<Longrightarrow> last (array_metadata s key) = Inr md \<Longrightarrow> locked s = [] \<Longrightarrow> cache_key node = key \<Longrightarrow>
   ReadArrayMetadata store node s = Some (Inr md, s)"
  by (simp add: ReadArrayMetadata_def GetOrCompute_def AskAgain_def)



lemma lower_bound_finds:
  assumes "sorted_wrt (<) (map ne_name es)"
  shows "(case dropWhile (\<lambda>e. ne_name e < name) es of [] \<Rightarrow> None | e # _ \<Rightarrow> if ne_name e = name then Some e else None) =
    List.find (\<lambda>e. ne_name e = name) es"
  using assms
proof (induction es)
  case (Cons e es)
  have "List.find (\<lambda>e. ne_name e = name) es = None" if "\<not> ne_name e < name"
    using that Cons.prems by (fastforce simp: find_None_iff)
  then show ?case using Cons by auto
qed simp

lemma Inventory_again:
  assumes "Inventory store s = Some (Inr es, s1)" and "locked s1 = []"
  shows "Inventory store s1 = Some (Inr es, s1)"
  using listing.GetOrCompute_stable [OF assms(1) [unfolded Inventory_def] _ evolves_refl] assms(2) by (simp add: Inventory_def AskAgain_def)

lemma settled_node: "settled (node_metadata s node) \<Longrightarrow> locked s = [] \<Longrightarrow> canonical node \<Longrightarrow>
   ReadNodeMetadata store node s = Some (last (node_metadata s node), s)"
  using canonical_NormalizeNodeName [of node] by (simp add: ReadNodeMetadata_def GetOrCompute_def settled_def)



section \<open>The declared size\<close>

definition declared_bytes :: "NodeEntry \<Rightarrow> nat" where
  "declared_bytes e =
     (case ne_array e of
        Some (Inr md) \<Rightarrow> (case ElementSizeBytes md (ne_name e) of Some (Inr element) \<Rightarrow> element * prod_list (md_shape md) | _ \<Rightarrow> 0)
      | _ \<Rightarrow> 0)"

lemma array_bytes_exact:
  "array_bytes_from node dims bytes = Inr n \<Longrightarrow> bytes < two64 \<Longrightarrow> n = bytes * prod_list dims \<and> n < two64"
proof (induction dims arbitrary: bytes)
  case (Cons d dims)
  show ?case
  proof (cases "d = 0")
    case False
    have "bytes * d < two64"
    proof -
      have "bytes \<le> (two64 - 1) div d" using Cons.prems(1) False by (simp split: if_splits)
      then have "bytes * d \<le> two64 - 1" using False by (simp add: less_eq_div_iff_mult_less_eq)
      then show ?thesis by simp
    qed
    then show ?thesis using Cons.prems(1) Cons.IH [of "bytes * d"] False by (simp add: mul64_exact split: if_splits)
  qed (use Cons.prems in simp)
qed simp

lemma ElementSizeBytes_less: "ElementSizeBytes md node = Some (Inr n) \<Longrightarrow> n < two64"
proof (cases "FindDataTypeByName (md_data_type md)")
  case (Some info)
  assume n: "ElementSizeBytes md node = Some (Inr n)"
  have "info \<in> set kDataTypes" using Some by (auto simp: FindDataTypeByName_def find_Some_iff)
  then have "dt_element_bytes info < two64" by (auto simp: kDataTypes_def data_type_info_def)
  then show ?thesis using n Some by (simp add: ElementSizeBytes_def)
next
  case None
  assume "ElementSizeBytes md node = Some (Inr n)"
  then obtain v where "get_u64 v = Some n" using None
    by (auto simp: ElementSizeBytes_def Let_def cond_def bind_eq_Some_conv split: option.splits if_splits)
  then show ?thesis by (rule get_u64_less)
qed

lemma total_bytes_exact:
  assumes "total_bytes_from es bytes arrays = Some (Inr n)" and "bytes < two64"
  shows "n = bytes + sum_list (map declared_bytes (filter (\<lambda>e. ne_kind e = array) es)) \<and> n < two64"
  using assms
proof (induction es arbitrary: bytes arrays)
  case (Cons e es)
  show ?case
  proof (cases "ne_kind e = array")
    case True
    obtain md where md: "ne_array e = Some (Inr md)"
      using Cons.prems(1) True by (cases "ne_array e") (auto split: sum.splits)
    obtain element where element: "ElementSizeBytes md (ne_name e) = Some (Inr element)"
      using Cons.prems(1) True md ElementSizeBytes_returns [of md "ne_name e"]
      by (cases "ElementSizeBytes md (ne_name e)") (auto simp: steps_def split: sum.splits)
    obtain b where b: "array_bytes_from (ne_name e) (md_shape md) element = Inr b" "bytes \<le> two64 - 1 - b"
      "total_bytes_from es (add64 bytes b) (Suc arrays) = Some (Inr n)"
      using Cons.prems(1) True md element by (auto simp: steps_def split: sum.splits if_splits)
    then have "b = declared_bytes e" "b < two64"
      using array_bytes_exact [OF b(1) ElementSizeBytes_less [OF element]] md element by (simp_all add: declared_bytes_def)
    moreover have "bytes + b < two64" using b(2) \<open>b < two64\<close> by simp
    ultimately show ?thesis using Cons.IH [of "bytes + b" "Suc arrays"] b(3) True by (simp add: add64_exact)
  qed (use Cons in auto)
qed (auto split: if_splits)



text \<open>An empty array is refused when extents before its empty one overflow.\<close>

lemma empty_array_overflows: "array_bytes_from ''SKY'' [2 ^ 40, 2 ^ 40, 0] 4 =
   Inl (mk_error invalid_metadata ''Array SKY byte size overflows uint64_t'' ''SKY'')" "array_bytes_from ''SKY'' [0, 2 ^ 40, 2 ^ 40] 4 = Inr 0"
  by (simp_all add: mul64_def)

end
