(* ===== verification/Image_Variables.thy ===== *)
theory Image_Variables
  imports Store Pixel_Selection
begin

text \<open>
  Which variables of a store the XRADIO profile opens as images, from metadata alone: \<open>src/schema/xradio/attributes.h\<close>,
  \<open>coordinates.cc\<close>, \<open>flag.cc\<close> and \<open>qualification.cc\<close>. Everything is asked of a store, and so acts on its tables; a
  pointer or an optional that is followed without a check is a calculation that may not return.
\<close>

section \<open>Attributes\<close>

definition AttributeString :: "json \<Rightarrow> string \<Rightarrow> string" where
  "AttributeString attributes name = (case at_key attributes name of Some (JString s) \<Rightarrow> s | _ \<Rightarrow> [])"

definition Member :: "json \<Rightarrow> string \<Rightarrow> json option" where
  "Member v name = (if \<not> is_object v \<or> \<not> contains v name then None else at_key v name)"

definition MemberObject :: "json \<Rightarrow> string \<Rightarrow> json option" where
  "MemberObject v name = (case Member v name of None \<Rightarrow> None | Some member \<Rightarrow> if is_object member then Some member else None)"

section \<open>Diagnostics\<close>

datatype DiagnosticCode =
    invalid_metadata_found | unsupported_data_type_found | ambiguous_schema_found | unrecognised_node | unreadable_array
  | unsupported_coordinate_plane | ambiguous_pixel_mask | nonuniform_axis | inexact_reference_pixel | degenerate_axis

record Diagnostic =
  dg_code :: DiagnosticCode
  dg_message :: string
  dg_node_path :: string

section \<open>Coordinates\<close>

datatype CoordinateKind = numeric | labels

datatype Plane = both | sky | aperture

record Coordinate =
  co_name :: string
  co_role :: AxisRole
  co_kind :: CoordinateKind
  co_plane :: Plane

definition coordinate :: "string \<Rightarrow> AxisRole \<Rightarrow> CoordinateKind \<Rightarrow> Plane \<Rightarrow> Coordinate" where
  "coordinate name role kind plane = \<lparr>co_name = name, co_role = role, co_kind = kind, co_plane = plane\<rparr>"

definition kCoordinates :: "Coordinate list" where
  "kCoordinates =
     [coordinate ''l'' spatial_x numeric sky, coordinate ''m'' spatial_y numeric sky,
      coordinate ''frequency'' spectral numeric both, coordinate ''polarization'' polarization labels both,
      coordinate ''time'' time numeric both, coordinate ''u'' other numeric aperture, coordinate ''v'' other numeric aperture]"

definition OnPlane :: "Coordinate \<Rightarrow> Plane \<Rightarrow> bool" where
  "OnPlane c plane \<longleftrightarrow> co_plane c = both \<or> co_plane c = plane"

definition AxisCount :: "Plane \<Rightarrow> nat" where
  "AxisCount plane = length (filter (\<lambda>c. OnPlane c plane) kCoordinates)"

definition CarriesPlane :: "ArrayMetadata \<Rightarrow> Plane \<Rightarrow> bool" where
  "CarriesPlane variable plane = list_all (\<lambda>c. \<not> OnPlane c plane \<or> FindDimensionIndex variable (co_name c) \<noteq> None) kCoordinates"

definition CheckCoordinate :: "StringLibs \<Rightarrow> ArrayMetadata \<Rightarrow> Coordinate \<Rightarrow> unit result option" where
  "CheckCoordinate libs md c =
     (if length (md_dimension_names md) \<noteq> 1 \<or> hd (md_dimension_names md) \<noteq> co_name c
      then Some (Inl (mk_error invalid_metadata ''Coordinate shape or dimension name does not match image dataset'' (co_name c)))
      else Option.bind (if co_kind c = labels then IsFixedLengthUtf32 md else Some (IsRealDataType (md_data_type md))) (\<lambda>typed.
        if \<not> typed then Some (Inl (mk_error unsupported_data_type ''Coordinate array has an unsupported data type'' (co_name c)))
        else if co_kind c = labels then Some (CheckFixedLengthUtf32StringArray libs md (co_name c))
        else Some (Inr ())))"

fun extents_from :: "'w Store \<Rightarrow> string \<Rightarrow> (string \<times> u64) list \<Rightarrow> (Diagnostic option, 'w) action" where
  "extents_from store node [] = give None"
| "extents_from store node ((name, extent) # axes) =
     andthen (ReadArrayMetadata store name) (\<lambda>found.
       case found of
         Inl _ \<Rightarrow> extents_from store node axes
       | Inr md \<Rightarrow>
           if length (md_shape md) \<noteq> 1 \<or> hd (md_shape md) \<noteq> extent
           then give (Some \<lparr>dg_code = invalid_metadata_found,
                           dg_message = ''Image dimension '' @ [CHR 0x27] @ name @ [CHR 0x27] @ '' is not the length of the coordinate of that name'',
                           dg_node_path = node\<rparr>)
           else extents_from store node axes)"

definition ExtentDisagreement :: "'w Store \<Rightarrow> ArrayMetadata \<Rightarrow> string \<Rightarrow> (Diagnostic option, 'w) action" where
  "ExtentDisagreement store img node =
     (let rank = min (length (md_dimension_names img)) (length (md_shape img))
      in extents_from store node (zip (take rank (md_dimension_names img)) (take rank (md_shape img))))"

definition CoordinateUnit :: "'w Store \<Rightarrow> Coordinate \<Rightarrow> (string, 'w) action" where
  "CoordinateUnit store c =
     andthen (ReadArrayMetadata store (co_name c)) (\<lambda>found.
       give (case found of
         Inl _ \<Rightarrow> []
       | Inr md \<Rightarrow>
           let unit = AttributeString (md_attributes md) ''units''
           in if unit = [] \<and> co_role c = spectral
              then (case Option.bind (MemberObject (md_attributes md) ''reference_frequency'') (\<lambda>reference. MemberObject reference ''attrs'') of
                      None \<Rightarrow> unit
                    | Some attrs \<Rightarrow> AttributeString attrs ''units'')
              else unit))"

fun axes_from :: "'w Store \<Rightarrow> ArrayMetadata \<Rightarrow> Coordinate list \<Rightarrow> (AxisDescriptor list, 'w) action" where
  "axes_from store img [] = give []"
| "axes_from store img (c # cs) =
     (if \<not> OnPlane c sky then axes_from store img cs
      else case FindDimensionIndex img (co_name c) of
             None \<Rightarrow> axes_from store img cs
           | Some index \<Rightarrow>
               andthen (calculate (if index < length (md_shape img) then Some (md_shape img ! index) else None)) (\<lambda>len.
               andthen (CoordinateUnit store c) (\<lambda>unit.
               andthen (axes_from store img cs) (\<lambda>axes.
                 give (\<lparr>ax_name = co_name c, ax_role = co_role c, ax_length = len, ax_unit = unit, ax_storage_index = index\<rparr> # axes)))))"

definition DescribeAxes :: "'w Store \<Rightarrow> ArrayMetadata \<Rightarrow> (AxisDescriptor list, 'w) action" where
  "DescribeAxes store img = axes_from store img kCoordinates"

record CoordinateValues =
  cv_l :: "f64 list"
  cv_m :: "f64 list"
  cv_frequency :: "f64 list"
  cv_time :: "f64 list"
  cv_polarization :: "string list"

definition set_numeric :: "AxisRole \<Rightarrow> f64 list \<Rightarrow> CoordinateValues \<Rightarrow> CoordinateValues option" where
  "set_numeric role samples vs =
     (case role of
        spatial_x \<Rightarrow> Some (vs\<lparr>cv_l := samples\<rparr>)
      | spatial_y \<Rightarrow> Some (vs\<lparr>cv_m := samples\<rparr>)
      | spectral \<Rightarrow> Some (vs\<lparr>cv_frequency := samples\<rparr>)
      | time \<Rightarrow> Some (vs\<lparr>cv_time := samples\<rparr>)
      | _ \<Rightarrow> None)"

fun read_values_from :: "'w Store \<Rightarrow> Coordinate list \<Rightarrow> CoordinateValues \<Rightarrow> (CoordinateValues result, 'w) action" where
  "read_values_from store [] vs = give (Inr vs)"
| "read_values_from store (c # cs) vs =
     (if \<not> OnPlane c sky then read_values_from store cs vs
      else if co_kind c = labels
      then attempt (ReadStringArray1D store (co_name c)) (\<lambda>strings. read_values_from store cs (vs\<lparr>cv_polarization := strings\<rparr>))
      else attempt (ReadNumericArray store (co_name c)) (\<lambda>samples.
             andthen (calculate (set_numeric (co_role c) (na_values samples) vs)) (read_values_from store cs)))"

definition ReadCoordinateValues :: "'w Store \<Rightarrow> (CoordinateValues result, 'w) action" where
  "ReadCoordinateValues store =
     read_values_from store kCoordinates \<lparr>cv_l = [], cv_m = [], cv_frequency = [], cv_time = [], cv_polarization = []\<rparr>"

section \<open>Flags\<close>

definition IsFlag :: "ArrayMetadata \<Rightarrow> bool" where
  "IsFlag md \<longleftrightarrow> at_key (md_attributes md) ''type'' = Some (JString ''flag'')"

definition HoldsBooleans :: "ArrayMetadata \<Rightarrow> bool" where
  "HoldsBooleans md \<longleftrightarrow>
     md_data_type md = ''bool'' \<or> md_data_type md = ''int8'' \<and> at_key (md_attributes md) ''dtype'' = Some (JString ''bool'')"

definition RequireUsableFlag :: "ArrayMetadata \<Rightarrow> ArrayMetadata \<Rightarrow> string \<Rightarrow> unit result" where
  "RequireUsableFlag flag img node =
     (if \<not> IsFlag flag then Inl (mk_error invalid_metadata ''Pixel mask variable is not marked as a flag'' node)
      else if \<not> HoldsBooleans flag then Inl (mk_error unsupported_data_type ''Pixel mask variable is not boolean'' node)
      else if md_dimension_names flag \<noteq> md_dimension_names img \<or> md_shape flag \<noteq> md_shape img
      then Inl (mk_error invalid_metadata (''Pixel mask variable does not share the image'' @ [CHR 0x27] @ ''s dimensions'') node)
      else Inr ())"

definition Canonical :: "string \<Rightarrow> string" where
  "Canonical node = (case NormalizeNodeName node of Inl _ \<Rightarrow> node | Inr name \<Rightarrow> name)"

text \<open>The sets of flags the data groups declare, own and others', as lists without repetitions.\<close>

definition FlagsOfDataGroups :: "json \<Rightarrow> string \<Rightarrow> string list \<times> string list" where
  "FlagsOfDataGroups root_attributes image_id =
     (case MemberObject root_attributes ''data_groups'' of
        Some (JObject groups) \<Rightarrow>
          foldl (\<lambda>(own, others) (name, g).
              if \<not> is_object g \<or> AttributeString g ''flag'' = [] then (own, others)
              else let flag = Canonical (AttributeString g ''flag'')
                   in if Canonical (AttributeString g ''sky'') = image_id then (List.insert flag own, others)
                      else (own, List.insert flag others))
            ([], []) groups
      | _ \<Rightarrow> ([], []))"

definition RequireDeclaredFlag :: "'w Store \<Rightarrow> ArrayMetadata \<Rightarrow> string \<Rightarrow> (string result, 'w) action" where
  "RequireDeclaredFlag store img spelt =
     (let declared = Canonical spelt
      in attempt (ReadArrayMetadata store declared) (\<lambda>flag.
           give (case RequireUsableFlag flag img declared of Inl e \<Rightarrow> Inl e | Inr _ \<Rightarrow> Inr declared)))"

definition DeclaredFlag :: "'w Store \<Rightarrow> ArrayMetadata \<Rightarrow> string \<Rightarrow> (string result, 'w) action" where
  "DeclaredFlag store img image_id =
     (let declared = AttributeString (md_attributes img) ''flag'';
          own = fst (FlagsOfDataGroups (st_root_attributes store) image_id)
      in if declared \<noteq> [] then RequireDeclaredFlag store img declared
         else if 1 < length own
         then give (Inl (mk_error invalid_metadata ''data_groups name more than one flag for the image'' image_id))
         else if length own = 1 then RequireDeclaredFlag store img (hd own)
         else give (Inr []))"

definition matches_image :: "ArrayMetadata \<Rightarrow> string list \<Rightarrow> NodeEntry \<Rightarrow> bool option" where
  "matches_image img others entry =
     (if ne_kind entry \<noteq> array then Some False
      else map_option (\<lambda>r. case r of
             Inl _ \<Rightarrow> False
           | Inr md \<Rightarrow> ne_name entry \<notin> set others \<and> RequireUsableFlag md img (ne_name entry) = Inr ()) (ne_array entry))"

fun matching_flags :: "ArrayMetadata \<Rightarrow> string list \<Rightarrow> NodeEntry list \<Rightarrow> string list option" where
  "matching_flags img others [] = Some []"
| "matching_flags img others (entry # entries) =
     Option.bind (matches_image img others entry) (\<lambda>matches.
       map_option (\<lambda>names. if matches then ne_name entry # names else names) (matching_flags img others entries))"

definition DetermineFlag ::
  "'w Store \<Rightarrow> ArrayMetadata \<Rightarrow> string \<Rightarrow> Diagnostic list \<Rightarrow> (string result \<times> Diagnostic list, 'w) action"
where
  "DetermineFlag store img image_id diagnostics =
     andthen (DeclaredFlag store img image_id) (\<lambda>declared.
       if isl declared \<or> declared \<noteq> Inr [] then give (declared, diagnostics)
       else andthen (Inventory store) (\<lambda>inventory.
         case inventory of
           Inl e \<Rightarrow> give (Inl e, diagnostics)
         | Inr entries \<Rightarrow>
             andthen (calculate (matching_flags img (snd (FlagsOfDataGroups (st_root_attributes store) image_id)) entries)) (\<lambda>names.
               give (if length names = 1 then (Inr (hd names), diagnostics)
                     else if 1 < length names
                     then (Inr [], diagnostics @ [\<lparr>dg_code = ambiguous_pixel_mask,
                             dg_message = ''More than one flag variable matches the image; no pixel mask was selected'', dg_node_path = image_id\<rparr>])
                     else (Inr [], diagnostics)))))"

section \<open>Qualification\<close>

record NodeQualification =
  nq_listed :: bool
  nq_openable :: bool
  nq_diagnostic :: "Diagnostic option"
  nq_malformed :: bool

definition not_listed :: NodeQualification where
  "not_listed = \<lparr>nq_listed = False, nq_openable = False, nq_diagnostic = None, nq_malformed = False\<rparr>"

definition qualification :: "bool \<Rightarrow> DiagnosticCode \<Rightarrow> string \<Rightarrow> string \<Rightarrow> bool \<Rightarrow> NodeQualification" where
  "qualification in_listing code message node malformed =
     \<lparr>nq_listed = in_listing, nq_openable = False, nq_diagnostic = Some \<lparr>dg_code = code, dg_message = message, dg_node_path = node\<rparr>,
      nq_malformed = malformed\<rparr>"

definition UnusableDeclaredFlag :: "'w Store \<Rightarrow> ArrayMetadata \<Rightarrow> string \<Rightarrow> (Diagnostic option, 'w) action" where
  "UnusableDeclaredFlag store img node =
     andthen (DeclaredFlag store img node) (\<lambda>declared.
       give (case declared of
         Inr _ \<Rightarrow> None
       | Inl e \<Rightarrow> Some \<lparr>dg_code = invalid_metadata_found,
                        dg_message = ''Declared flag '' @ [CHR 0x27] @ err_node_path e @ [CHR 0x27] @ '' cannot mask this image: '' @ err_message e,
                        dg_node_path = node\<rparr>))"

definition refused :: "Diagnostic \<Rightarrow> NodeQualification" where
  "refused diagnostic = \<lparr>nq_listed = True, nq_openable = False, nq_diagnostic = Some diagnostic, nq_malformed = True\<rparr>"

definition qualify_array :: "'w Store \<Rightarrow> string \<Rightarrow> ArrayMetadata \<Rightarrow> (NodeQualification, 'w) action" where
  "qualify_array store node md =
     (if IsFlag md then give not_listed
      else if CarriesPlane md sky
      then if \<not> IsRealDataType (md_data_type md)
           then give (qualification True unsupported_data_type_found ''Complex sky-plane variables are not openable'' node False)
           else if length (md_dimension_names md) \<noteq> AxisCount sky
           then give (qualification True invalid_metadata_found
                        ''Sky-plane variable has dimensions beyond time, frequency, polarization, l and m'' node True)
           else andthen (ExtentDisagreement store md node) (\<lambda>disagreement.
                  case disagreement of
                    Some diagnostic \<Rightarrow> give (refused diagnostic)
                  | None \<Rightarrow>
                      andthen (UnusableDeclaredFlag store md node) (\<lambda>unusable.
                        give (case unusable of
                          Some diagnostic \<Rightarrow> refused diagnostic
                        | None \<Rightarrow> \<lparr>nq_listed = True, nq_openable = True, nq_diagnostic = None, nq_malformed = False\<rparr>)))
      else if CarriesPlane md aperture
      then give (qualification True unsupported_coordinate_plane ''Aperture-plane variables are not openable'' node False)
      else give not_listed)"

definition QualifyNode :: "'w Store \<Rightarrow> NodeEntry \<Rightarrow> (NodeQualification, 'w) action" where
  "QualifyNode store entry =
     (case ne_kind entry of
        group \<Rightarrow> give not_listed
      | unrecognised \<Rightarrow>
          andthen (calculate (ne_reason entry)) (\<lambda>reason. give (qualification False unrecognised_node (err_message reason) (ne_name entry) True))
      | array \<Rightarrow>
          andthen (calculate (ne_array entry)) (\<lambda>metadata.
            case metadata of
              Inl e \<Rightarrow> give (qualification False unreadable_array (err_message e) (ne_name entry) True)
            | Inr md \<Rightarrow> qualify_array store (ne_name entry) md))"

definition RequireQualified :: "'w Store \<Rightarrow> string \<Rightarrow> (unit result, 'w) action" where
  "RequireQualified store image_id =
     attempt (Inventory store) (\<lambda>_.
     andthen (FindNode store image_id) (\<lambda>found.
       case found of
         None \<Rightarrow> give (Inl (mk_error not_found ''Image variable was not found'' image_id))
       | Some entry \<Rightarrow>
           andthen (QualifyNode store entry) (\<lambda>q.
             if nq_openable q then give (Inr ())
             else if nq_listed q
             then andthen (calculate (nq_diagnostic q)) (\<lambda>diagnostic.
                    give (Inl (mk_error (if nq_malformed q then invalid_metadata else unsupported_data_type) (dg_message diagnostic) image_id)))
             else if nq_diagnostic q \<noteq> None
             then andthen (calculate (if ne_kind entry = array then (case ne_array entry of Some (Inl e) \<Rightarrow> Some e | _ \<Rightarrow> None) else ne_reason entry))
                    (\<lambda>e. give (Inl e))
             else give (Inl (mk_error not_found ''Image variable was not found'' image_id)))))"

section \<open>What the calls ensure\<close>

lemma ensures_everywhere: "ensures ok tables pre act post \<Longrightarrow> (\<And>r s. ok s \<Longrightarrow> post r s \<Longrightarrow> post' r s) \<Longrightarrow> ensures ok UNIV pre act post'"
  by (erule ensures_weaken) auto

lemma ensures_keep:
  assumes "ensures ok tables (\<lambda>_. True) act post" and "\<And>s s'. evolves s s' \<Longrightarrow> P s \<Longrightarrow> P s'"
  shows "ensures ok tables P act (\<lambda>r s. post r s \<and> P s)"
  using ensures_frame [OF assms] by simp

text \<open>What a table holds of a node, and that later calls keep it.\<close>

definition holds_array :: "'w StoreCaches \<Rightarrow> string \<Rightarrow> ArrayMetadata \<Rightarrow> bool" where
  "holds_array s node md \<longleftrightarrow> array_metadata s (cache_key node) \<noteq> [] \<and> last (array_metadata s (cache_key node)) = Inr md"

definition agrees :: "'w StoreCaches \<Rightarrow> string \<Rightarrow> u64 \<Rightarrow> bool" where
  "agrees s node extent \<longleftrightarrow>
     (\<exists>e. Inl e \<in> set (array_metadata s (cache_key node))) \<or> (\<exists>md. holds_array s node md \<and> md_shape md = [extent])"

lemma holds_array_evolves:
  assumes "evolves s s'" and "holds_array s node md"
  shows "holds_array s' node md"
proof -
  have "grows (array_metadata s) (array_metadata s')" using assms(1) unfolding evolves_def by (metis grown.simps(2))
  then show ?thesis using assms(2) grows_settled [of "array_metadata s" "array_metadata s'" "cache_key node"]
    by (auto simp: holds_array_def settled_def AskAgain_def)
qed

lemma agrees_evolves:
  assumes "evolves s s'" and "agrees s node extent"
  shows "agrees s' node extent"
proof -
  have "grows (array_metadata s) (array_metadata s')" using assms(1) unfolding evolves_def by (metis grown.simps(2))
  then have "set (array_metadata s (cache_key node)) \<subseteq> set (array_metadata s' (cache_key node))" unfolding grows_def by (metis Un_upper1 set_append)
  then show ?thesis using assms holds_array_evolves unfolding agrees_def by blast
qed

lemma ReadArrayMetadata_holds [ensuring]:
  "ensures (store_ok store) UNIV (\<lambda>_. True) (ReadArrayMetadata store node)
     (\<lambda>r s. r \<in> set (array_metadata s (cache_key node)) \<and> (\<forall>md. r = Inr md \<longrightarrow> holds_array s node md \<and> metadata_ok md))"
proof (rule ensures_everywhere [OF ReadArrayMetadata_ensures])
  fix r and s :: "'a StoreCaches"
  assume s: "store_ok store s" "array_metadata s (cache_key node) \<noteq> [] \<and> last (array_metadata s (cache_key node)) = r"
  then have r: "r \<in> set (array_metadata s (cache_key node))" using last_in_set by blast
  then have "metadata_ok md" if "r = Inr md" for md using s(1) that by (auto simp: store_ok_def array_answer_def)
  then show "r \<in> set (array_metadata s (cache_key node)) \<and> (\<forall>md. r = Inr md \<longrightarrow> holds_array s node md \<and> metadata_ok md)"
    using r s(2) by (simp add: holds_array_def)
qed

lemma extents_from_ensures:
  "ensures (store_ok store) UNIV (\<lambda>_. True) (extents_from store node axes) (\<lambda>d s. d = None \<longrightarrow> (\<forall>(name, extent) \<in> set axes. agrees s name extent))"
proof (induction axes)
  case (Cons axis axes)
  obtain name extent where axis: "axis = (name, extent)" by (cases axis)
  have rest: "ensures (store_ok store) UNIV (\<lambda>s. agrees s name extent) (extents_from store node axes)
      (\<lambda>d s. (d = None \<longrightarrow> (\<forall>(name, extent) \<in> set axes. agrees s name extent)) \<and> agrees s name extent)"
    by (rule ensures_keep [OF Cons.IH]) (rule agrees_evolves)
  have rest: "ensures (store_ok store) UNIV pre (extents_from store node axes) (\<lambda>d s. d = None \<longrightarrow> (\<forall>(name, extent) \<in> set (axis # axes). agrees s name extent))"
    if "\<And>s. pre s \<Longrightarrow> agrees s name extent" for pre
    by (rule ensures_weaken [OF rest]) (use that axis in auto)
  show ?case unfolding axis extents_from.simps
  proof (rule ensures_andthen [OF ReadArrayMetadata_holds])
    fix found
    let ?pre = "\<lambda>s. found \<in> set (array_metadata s (cache_key name)) \<and> (\<forall>md. found = Inr md \<longrightarrow> holds_array s name md \<and> metadata_ok md)"
    let ?post = "\<lambda>d s. d = None \<longrightarrow> (\<forall>(name, extent) \<in> set ((name, extent) # axes). agrees s name extent)"
    show "ensures (store_ok store) UNIV ?pre
       (case found of Inl _ \<Rightarrow> extents_from store node axes
        | Inr md \<Rightarrow>
           if length (md_shape md) \<noteq> 1 \<or> hd (md_shape md) \<noteq> extent
           then give (Some \<lparr>dg_code = invalid_metadata_found,
                           dg_message = ''Image dimension '' @ [CHR 0x27] @ name @ [CHR 0x27] @ '' is not the length of the coordinate of that name'',
                           dg_node_path = node\<rparr>)
           else extents_from store node axes) ?post"
    proof (cases found)
      case (Inl e)
      show ?thesis unfolding Inl sum.case axis [symmetric] by (rule rest) (auto simp: agrees_def)
    next
      case (Inr md)
      show ?thesis unfolding Inr sum.case axis [symmetric]
      proof (intro ensures_if ensures_give rest)
        fix s
        assume "\<not> (length (md_shape md) \<noteq> 1 \<or> hd (md_shape md) \<noteq> extent)"
          "Inr md \<in> set (array_metadata s (cache_key name)) \<and> (\<forall>md'. Inr md = Inr md' \<longrightarrow> holds_array s name md' \<and> metadata_ok md')"
        then show "agrees s name extent" by (cases "md_shape md") (auto simp: agrees_def)
      qed simp
    qed
  qed
qed (auto intro: ensures_give)

definition usable_flag :: "'w StoreCaches \<Rightarrow> ArrayMetadata \<Rightarrow> string \<Rightarrow> bool" where
  "usable_flag s img name \<longleftrightarrow> (\<exists>flag. holds_array s name flag \<and> RequireUsableFlag flag img name = Inr ())"

lemma usable_flag_evolves: "evolves s s' \<Longrightarrow> usable_flag s img name \<Longrightarrow> usable_flag s' img name"
  unfolding usable_flag_def using holds_array_evolves by blast

lemma holds_array_named: "store_ok store s \<Longrightarrow> holds_array s name md \<Longrightarrow> name \<noteq> []"
proof
  assume "store_ok store s" "holds_array s name md" "name = []"
  moreover have "NormalizeNodeName [] = Inl (invalid_node [])" by code_simp
  moreover have "cache_key [] = []" by code_simp
  ultimately show False unfolding store_ok_def holds_array_def array_answer_def by (metis last_in_set sum.distinct(1))
qed

lemma RequireDeclaredFlag_ensures:
  "ensures (store_ok store) UNIV (\<lambda>_. True) (RequireDeclaredFlag store img spelt) (\<lambda>r s. \<forall>name. r = Inr name \<longrightarrow> name \<noteq> [] \<and> usable_flag s img name)"
  unfolding RequireDeclaredFlag_def Let_def
proof (rule ensures_attempt [OF ReadArrayMetadata_holds], rule ensures_give)
  fix flag and s :: "'a StoreCaches"
  assume "store_ok store s" "Inr flag \<in> set (array_metadata s (cache_key (Canonical spelt))) \<and>
    (\<forall>md. Inr flag = Inr md \<longrightarrow> holds_array s (Canonical spelt) md \<and> metadata_ok md)"
  then show "\<forall>name. (case RequireUsableFlag flag img (Canonical spelt) of Inl e \<Rightarrow> Inl e | Inr _ \<Rightarrow> Inr (Canonical spelt)) = Inr name \<longrightarrow>
      name \<noteq> [] \<and> usable_flag s img name"
    using holds_array_named [of store s "Canonical spelt" flag] by (auto simp: usable_flag_def split: sum.splits)
qed simp

definition declares_none :: "'w Store \<Rightarrow> ArrayMetadata \<Rightarrow> string \<Rightarrow> bool" where
  "declares_none store img image_id \<longleftrightarrow>
     AttributeString (md_attributes img) ''flag'' = [] \<and> fst (FlagsOfDataGroups (st_root_attributes store) image_id) = []"

lemma DeclaredFlag_ensures:
  "ensures (store_ok store) UNIV (\<lambda>_. True) (DeclaredFlag store img image_id)
     (\<lambda>r s. \<forall>name. r = Inr name \<longrightarrow> (name = [] \<longleftrightarrow> declares_none store img image_id) \<and> (name \<noteq> [] \<longrightarrow> usable_flag s img name))"
  unfolding DeclaredFlag_def Let_def
  by (intro ensures_if ensures_give ensures_everywhere [OF RequireDeclaredFlag_ensures]) (auto simp: declares_none_def le_Suc_eq not_less)

section \<open>Choosing a flag\<close>

text \<open>What the inventory holds, and that it keeps holding it.\<close>

definition holds_inventory :: "'w StoreCaches \<Rightarrow> NodeEntry list \<Rightarrow> bool" where
  "holds_inventory s es \<longleftrightarrow> inventory s () \<noteq> [] \<and> last (inventory s ()) = Inr es"

lemma holds_inventory_evolves:
  assumes "evolves s s'" and "holds_inventory s es"
  shows "holds_inventory s' es"
proof -
  have "grows (inventory s) (inventory s')" using assms(1) unfolding evolves_def by (metis grown.simps(4))
  then show ?thesis using assms(2) grows_settled [of "inventory s" "inventory s'" "()"]
    by (auto simp: holds_inventory_def settled_def AskAgain_def)
qed

lemma Inventory_holds:
  assumes "store_wf store"
  shows "ensures (store_ok store) UNIV (\<lambda>_. True) (Inventory store) (\<lambda>r s. \<forall>es. r = Inr es \<longrightarrow> holds_inventory s es \<and> entries_ok store es s)"
  by (rule ensures_everywhere [OF Inventory_held [OF assms]]) (auto simp: holds_inventory_def intro: store_ok_answers)

text \<open>Whether the variable of an entry is a flag that fits an image and no data group declares for another.\<close>

definition fits :: "ArrayMetadata \<Rightarrow> string list \<Rightarrow> NodeEntry \<Rightarrow> bool" where
  "fits img others e \<longleftrightarrow> ne_kind e = array \<and> ne_name e \<notin> set others \<and>
     (case ne_array e of Some (Inr md) \<Rightarrow> RequireUsableFlag md img (ne_name e) = Inr () | _ \<Rightarrow> False)"

lemma matching_flags_fit:
  "\<forall>e \<in> set es. ne_kind e = array \<longrightarrow> (\<exists>r. ne_array e = Some r) \<Longrightarrow>
   matching_flags img others es = Some (map ne_name (filter (fits img others) es))"
  by (induction es) (auto simp: matches_image_def fits_def split: sum.splits)

lemma entry_holds_array:
  assumes "canonical (ne_name e)" and "entry_ok e s" and "ne_kind e = array" and "ne_array e = Some (Inr md)"
  shows "holds_array s (ne_name e) md"
proof -
  have "cache_key (ne_name e) = ne_name e" using canonical_NormalizeNodeName [OF assms(1)] by (simp add: cache_key_def)
  then show ?thesis using assms by (auto simp: entry_ok_def holds_array_def)
qed

lemma fits_usable: "entries_ok store es s \<Longrightarrow> e \<in> set es \<Longrightarrow> fits img others e \<Longrightarrow> usable_flag s img (ne_name e)"
  using entry_holds_array [of e s] unfolding fits_def usable_flag_def entries_ok_def by (auto split: option.splits sum.splits)

lemma only_one: "length xs = 1 \<Longrightarrow> xs = [hd xs]"
  by (cases xs) auto

text \<open>The outcome of the choice: a flag the image or its data groups declare; or, when none is declared, the only flag
  of the inventory that fits.\<close>

definition flag_chosen ::
  "'w Store \<Rightarrow> ArrayMetadata \<Rightarrow> string \<Rightarrow> Diagnostic list \<Rightarrow> string result \<times> Diagnostic list \<Rightarrow> 'w StoreCaches \<Rightarrow> bool"
where
  "flag_chosen store img image_id ds answer s \<longleftrightarrow>
     (\<forall>name. fst answer = Inr name \<longrightarrow>
        (name \<noteq> [] \<longrightarrow> usable_flag s img name) \<and>
        (\<not> declares_none store img image_id \<longrightarrow> name \<noteq> [] \<and> snd answer = ds) \<and>
        (declares_none store img image_id \<longrightarrow>
           (\<exists>es. holds_inventory s es \<and> (let fitting = map ne_name (filter (fits img (snd (FlagsOfDataGroups (st_root_attributes store) image_id))) es)
              in (if length fitting = 1 then fitting = [name] else name = []) \<and>
                 (if length fitting \<le> 1 then snd answer = ds
                  else map dg_code (snd answer) = map dg_code ds @ [ambiguous_pixel_mask])))))"

lemma DetermineFlag_ensures:
  assumes "store_wf store"
  shows "ensures (store_ok store) UNIV (\<lambda>_. True) (DetermineFlag store img image_id ds) (flag_chosen store img image_id ds)"
  unfolding DetermineFlag_def
proof (rule ensures_andthen [OF DeclaredFlag_ensures], goal_cases)
  case (1 declared)
  let ?others = "snd (FlagsOfDataGroups (st_root_attributes store) image_id)"
  have found: "ensures (store_ok store) UNIV (\<lambda>s. declares_none store img image_id) (Inventory store)
      (\<lambda>r s. (\<forall>es. r = Inr es \<longrightarrow> holds_inventory s es \<and> entries_ok store es s) \<and> declares_none store img image_id)"
    by (rule ensures_keep [OF Inventory_holds [OF assms]])
  have chosen: "flag_chosen store img image_id ds
      (if length names = 1 then (Inr (hd names), ds)
       else if 1 < length names then (Inr [], ds @ [\<lparr>dg_code = ambiguous_pixel_mask, dg_message = message, dg_node_path = image_id\<rparr>])
       else (Inr [], ds)) s"
    if "declares_none store img image_id" "holds_inventory s es" "entries_ok store es s"
      and names: "names = map ne_name (filter (fits img ?others) es)" for s es names message
  proof -
    have "usable_flag s img (hd names)" if "length names = 1"
      using only_one [OF that] fits_usable [OF \<open>entries_ok store es s\<close>] unfolding names
      by (cases "filter (fits img ?others) es") (auto simp: filter_eq_Cons_iff)
    then show ?thesis using that only_one [of names]
      by (auto simp: flag_chosen_def Let_def intro!: exI [of _ es])
  qed
  have rest: "ensures (store_ok store) UNIV (\<lambda>s. (holds_inventory s es \<and> entries_ok store es s) \<and> declares_none store img image_id)
      (andthen (calculate (matching_flags img ?others es)) (\<lambda>names. give
         (if length names = 1 then (Inr (hd names), ds)
          else if 1 < length names then (Inr [], ds @ [\<lparr>dg_code = ambiguous_pixel_mask, dg_message = message, dg_node_path = image_id\<rparr>])
          else (Inr [], ds)))) (flag_chosen store img image_id ds)" for es message
  proof (rule ensures_andthen [where mid = "\<lambda>names s. names = map ne_name (filter (fits img ?others) es) \<and>
        (holds_inventory s es \<and> entries_ok store es s) \<and> declares_none store img image_id"])
  qed (use matching_flags_fit [OF entries_ok_arrays] chosen in \<open>blast intro!: ensures_calculate ensures_give\<close>)+
  have found: "ensures (store_ok store) UNIV
      (\<lambda>s. \<forall>name. declared = Inr name \<longrightarrow> (name = [] \<longleftrightarrow> declares_none store img image_id) \<and> (name \<noteq> [] \<longrightarrow> usable_flag s img name))
      (Inventory store) (\<lambda>r s. (\<forall>es. r = Inr es \<longrightarrow> holds_inventory s es \<and> entries_ok store es s) \<and> declares_none store img image_id)"
    if "declared = Inr []"
    by (rule ensures_weaken [OF found]) (use that in auto)
  show ?case
  proof (rule ensures_if, goal_cases)
    case 2
    show ?case
    proof (rule ensures_andthen [OF found], goal_cases)
      case (2 inventory)
      show ?case
      proof (cases inventory)
        case (Inr es)
        show ?thesis unfolding Inr sum.case by (rule ensures_weaken [OF rest]) auto
      qed (auto intro: ensures_give simp: flag_chosen_def)
    qed (use 2 in auto)
  qed (auto intro!: ensures_give simp: flag_chosen_def)
qed

section \<open>What an image that qualifies is\<close>

text \<open>Of the metadata of an image this profile opens, and of the coordinates its dimensions name.\<close>

definition openable_image :: "'w Store \<Rightarrow> 'w StoreCaches \<Rightarrow> string \<Rightarrow> ArrayMetadata \<Rightarrow> bool" where
  "openable_image store s node md \<longleftrightarrow>
     \<not> IsFlag md \<and> CarriesPlane md sky \<and> IsRealDataType (md_data_type md) \<and> length (md_dimension_names md) = AxisCount sky \<and>
     (\<forall>(name, extent) \<in> set (zip (md_dimension_names md) (md_shape md)). agrees s name extent) \<and>
     (declares_none store md node \<or> (\<exists>flag. usable_flag s md flag))"

lemma openable_image_evolves: "evolves s s' \<Longrightarrow> openable_image store s node md \<Longrightarrow> openable_image store s' node md"
  unfolding openable_image_def using agrees_evolves usable_flag_evolves by blast

lemma zip_take_min: "zip (take (min (length xs) (length ys)) xs) (take (min (length xs) (length ys)) ys) = zip xs ys"
  by (simp add: take_zip [symmetric])

lemma ExtentDisagreement_ensures:
  "ensures (store_ok store) UNIV (\<lambda>_. True) (ExtentDisagreement store img node)
     (\<lambda>d s. d = None \<longrightarrow> (\<forall>(name, extent) \<in> set (zip (md_dimension_names img) (md_shape img)). agrees s name extent))"
  unfolding ExtentDisagreement_def Let_def zip_take_min by (rule extents_from_ensures)

lemma UnusableDeclaredFlag_ensures:
  "ensures (store_ok store) UNIV (\<lambda>_. True) (UnusableDeclaredFlag store img node)
     (\<lambda>d s. d = None \<longrightarrow> declares_none store img node \<or> (\<exists>flag. usable_flag s img flag))"
  unfolding UnusableDeclaredFlag_def
  by (rule ensures_andthen [OF DeclaredFlag_ensures]) (auto intro!: ensures_give split: sum.split)

text \<open>What the qualification of an array is consistent with.\<close>

definition qualified_ok :: "'w Store \<Rightarrow> 'w StoreCaches \<Rightarrow> string \<Rightarrow> ArrayMetadata \<Rightarrow> NodeQualification \<Rightarrow> bool" where
  "qualified_ok store s node md q \<longleftrightarrow>
     (nq_openable q \<longrightarrow> nq_listed q \<and> nq_diagnostic q = None \<and> openable_image store s node md) \<and>
     (nq_listed q \<longrightarrow> \<not> nq_openable q \<longrightarrow> nq_diagnostic q \<noteq> None) \<and>
     (\<not> nq_listed q \<longrightarrow> nq_diagnostic q = None)"

lemmas qualification_defs = not_listed_def qualification_def refused_def

lemma qualify_array_ensures:
  "ensures (store_ok store) UNIV (\<lambda>_. True) (qualify_array store node md) (\<lambda>q s. qualified_ok store s node md q)"
proof -
  let ?carries = "\<not> IsFlag md \<and> CarriesPlane md sky \<and> IsRealDataType (md_data_type md) \<and> length (md_dimension_names md) = AxisCount sky"
  let ?agree = "\<lambda>s. \<forall>(name, extent) \<in> set (zip (md_dimension_names md) (md_shape md)). agrees s name extent"
  have kept: "?agree s \<Longrightarrow> evolves s s' \<Longrightarrow> ?agree s'" for s s' :: "'a StoreCaches" using agrees_evolves by blast
  have flag: "ensures (store_ok store) UNIV ?agree (UnusableDeclaredFlag store md node)
      (\<lambda>d s. (d = None \<longrightarrow> declares_none store md node \<or> (\<exists>flag. usable_flag s md flag)) \<and> ?agree s)"
    by (rule ensures_keep [OF UnusableDeclaredFlag_ensures]) (rule kept)
  have last_question: "ensures (store_ok store) UNIV ?agree
      (andthen (UnusableDeclaredFlag store md node) (\<lambda>unusable. give (case unusable of
         Some diagnostic \<Rightarrow> refused diagnostic | None \<Rightarrow> \<lparr>nq_listed = True, nq_openable = True, nq_diagnostic = None, nq_malformed = False\<rparr>)))
      (\<lambda>q s. qualified_ok store s node md q)" if ?carries
    by (rule ensures_andthen [OF flag])
      (use that in \<open>auto intro!: ensures_give simp: qualified_ok_def openable_image_def refused_def split: option.split\<close>)
  have both_questions: "ensures (store_ok store) UNIV (\<lambda>_. True)
      (andthen (ExtentDisagreement store md node) (\<lambda>disagreement. case disagreement of
         Some diagnostic \<Rightarrow> give (refused diagnostic)
       | None \<Rightarrow> andthen (UnusableDeclaredFlag store md node) (\<lambda>unusable. give (case unusable of
           Some diagnostic \<Rightarrow> refused diagnostic | None \<Rightarrow> \<lparr>nq_listed = True, nq_openable = True, nq_diagnostic = None, nq_malformed = False\<rparr>))))
      (\<lambda>q s. qualified_ok store s node md q)" if ?carries
  proof (rule ensures_andthen [OF ExtentDisagreement_ensures], goal_cases)
    case (1 disagreement)
    show ?case
    proof (cases disagreement)
      case None
      show ?thesis unfolding None option.case by (rule ensures_weaken [OF last_question [OF that]]) auto
    qed (auto intro!: ensures_give simp: qualified_ok_def refused_def)
  qed
  show ?thesis unfolding qualify_array_def
    by (intro ensures_if both_questions ensures_give) (auto simp: qualified_ok_def qualification_defs)
qed

text \<open>Of an entry: an openable one is an array that parsed, and one only reported is one that did not, which the report names.\<close>

definition entry_qualified :: "'w Store \<Rightarrow> 'w StoreCaches \<Rightarrow> NodeEntry \<Rightarrow> NodeQualification \<Rightarrow> bool" where
  "entry_qualified store s e q \<longleftrightarrow>
     (nq_openable q \<longrightarrow> nq_listed q \<and> nq_diagnostic q = None) \<and>
     (nq_listed q \<longrightarrow> (\<exists>md. ne_kind e = array \<and> ne_array e = Some (Inr md) \<and> (if nq_openable q then openable_image store s (ne_name e) md else nq_diagnostic q \<noteq> None))) \<and>
     (\<not> nq_listed q \<longrightarrow> nq_diagnostic q \<noteq> None \<longrightarrow>
        (if ne_kind e = array then \<exists>reason. ne_array e = Some (Inl reason) else ne_reason e \<noteq> None))"

lemma QualifyNode_ensures:
  "ensures (store_ok store) UNIV (entry_ok e) (QualifyNode store e) (\<lambda>q s. entry_qualified store s e q)"
proof (cases "ne_kind e")
  case group
  then show ?thesis unfolding QualifyNode_def by (auto intro!: ensures_give simp: entry_qualified_def not_listed_def)
next
  case array
  show ?thesis unfolding QualifyNode_def array NodeKind.case
  proof (rule ensures_andthen [where mid = "\<lambda>metadata _. ne_array e = Some metadata"])
    show "ensures (store_ok store) UNIV (entry_ok e) (calculate (ne_array e)) (\<lambda>metadata _. ne_array e = Some metadata)"
      by (rule ensures_calculate) (use array in \<open>auto simp: entry_ok_def\<close>)
    fix metadata
    show "ensures (store_ok store) UNIV (\<lambda>_. ne_array e = Some metadata)
        (case metadata of Inl reason \<Rightarrow> give (qualification False unreadable_array (err_message reason) (ne_name e) True)
         | Inr md \<Rightarrow> qualify_array store (ne_name e) md) (\<lambda>q s. entry_qualified store s e q)"
    proof (cases metadata)
      case (Inl reason)
      then show ?thesis using array by (auto intro!: ensures_give simp: entry_qualified_def qualification_def)
    next
      case (Inr md)
      show ?thesis unfolding Inr sum.case
      proof (rule ensures_given)
        assume "ne_array e = Some (Inr md)"
        then show "ensures (store_ok store) UNIV (\<lambda>_. True) (qualify_array store (ne_name e) md) (\<lambda>q s. entry_qualified store s e q)"
          using array by (intro ensures_weaken [OF qualify_array_ensures]) (auto simp: entry_qualified_def qualified_ok_def)
      qed
    qed
  qed
next
  case unrecognised
  show ?thesis unfolding QualifyNode_def unrecognised NodeKind.case
    by (rule ensures_andthen [OF ensures_calculate [where post = "\<lambda>reason _. ne_reason e = Some reason"]])
      (use unrecognised in \<open>auto intro!: ensures_give simp: entry_ok_def entry_qualified_def qualification_def\<close>)
qed

lemma dropWhile_head: "dropWhile P xs = x # ys \<Longrightarrow> x \<in> set xs"
  by (metis in_set_conv_decomp takeWhile_dropWhile_id)

lemma FindNode_holds:
  assumes "store_wf store"
  shows "ensures (store_ok store) UNIV (\<lambda>_. True) (FindNode store name)
    (\<lambda>r s. \<forall>e. r = Some e \<longrightarrow> ne_name e = name \<and> canonical name \<and> entry_ok e s)"
  unfolding FindNode_def
  by (rule ensures_andthen [OF Inventory_holds [OF assms]])
    (auto intro!: ensures_give simp: entries_ok_def dest: dropWhile_head split: sum.splits list.splits)

definition opens :: "'w Store \<Rightarrow> 'w StoreCaches \<Rightarrow> string \<Rightarrow> bool" where
  "opens store s image_id \<longleftrightarrow> (\<exists>md. holds_array s image_id md \<and> openable_image store s image_id md)"

lemma RequireQualified_ensures:
  assumes "store_wf store"
  shows "ensures (store_ok store) UNIV (\<lambda>_. True) (RequireQualified store image_id) (\<lambda>r s. r = Inr () \<longrightarrow> opens store s image_id)"
proof -
  let ?post = "\<lambda>(r :: unit result) s. r = Inr () \<longrightarrow> opens store s image_id"
  let ?holds = "\<lambda>e s. ne_name e = image_id \<and> canonical image_id \<and> entry_ok e s"
  have qualify: "ensures (store_ok store) UNIV (?holds e) (QualifyNode store e) (\<lambda>q s. entry_qualified store s e q \<and> ?holds e s)" for e
    by (rule ensures_weaken [OF ensures_frame [OF QualifyNode_ensures, where P = "?holds e"]]) (use entry_ok_evolves in auto)
  have answer: "ensures (store_ok store) UNIV (\<lambda>s. entry_qualified store s e q \<and> ?holds e s)
     (if nq_openable q then give (Inr ())
      else if nq_listed q then andthen (calculate (nq_diagnostic q)) (\<lambda>diagnostic.
             give (Inl (mk_error (if nq_malformed q then invalid_metadata else unsupported_data_type) (dg_message diagnostic) image_id)))
      else if nq_diagnostic q \<noteq> None
      then andthen (calculate (if ne_kind e = array then (case ne_array e of Some (Inl e) \<Rightarrow> Some e | _ \<Rightarrow> None) else ne_reason e)) (\<lambda>e. give (Inl e))
      else give (Inl (mk_error not_found ''Image variable was not found'' image_id))) ?post" for e q
  proof (intro ensures_if ensures_give ensures_andthen [OF ensures_calculate [where post = "\<lambda>_ _. True"]], goal_cases)
    case (1 s)
    then show ?case using entry_holds_array [of e s] by (auto simp: entry_qualified_def opens_def)
  qed (auto simp: entry_qualified_def split: if_splits)
  have found: "ensures (store_ok store) UNIV (\<lambda>_. True)
      (andthen (FindNode store image_id) (\<lambda>found. case found of
         None \<Rightarrow> give (Inl (mk_error not_found ''Image variable was not found'' image_id))
       | Some e \<Rightarrow> andthen (QualifyNode store e) (k e))) ?post"
    if "\<And>e q. ensures (store_ok store) UNIV (\<lambda>s. entry_qualified store s e q \<and> ?holds e s) (k e q) ?post" for k
  proof (rule ensures_andthen [OF FindNode_holds [OF assms]], goal_cases)
    case (1 found)
    show ?case
    proof (cases found)
      case (Some e)
      show ?thesis unfolding Some option.case
        by (rule ensures_weaken [OF ensures_andthen [OF qualify that]]) auto
    qed (auto intro: ensures_give)
  qed
  show ?thesis unfolding RequireQualified_def
    by (rule ensures_attempt [OF Inventory_holds [OF assms]], rule ensures_weaken [OF found [OF answer]]) auto
qed

section \<open>The axes of an image\<close>

lemma CoordinateUnit_ensures: "ensures (store_ok store) UNIV (\<lambda>_. True) (CoordinateUnit store c) (\<lambda>_ _. True)"
  unfolding CoordinateUnit_def by (rule ensures_andthen [OF ReadArrayMetadata_holds]) (auto intro: ensures_give)

lemma FindDimensionIndex_some:
  "FindDimensionIndex md name = Some i \<Longrightarrow> i < length (md_dimension_names md) \<and> md_dimension_names md ! i = name"
  unfolding FindDimensionIndex_def find_Some_iff by auto

text \<open>That a descriptor describes the dimension of an image its coordinate names.\<close>

definition describes :: "ArrayMetadata \<Rightarrow> Coordinate \<Rightarrow> AxisDescriptor \<Rightarrow> bool" where
  "describes img c ax \<longleftrightarrow> ax_name ax = co_name c \<and> ax_role ax = co_role c \<and> ax_storage_index ax < length (md_shape img) \<and>
     md_dimension_names img ! ax_storage_index ax = co_name c \<and> ax_length ax = md_shape img ! ax_storage_index ax"

definition sky_coordinates :: "Coordinate list" where
  "sky_coordinates = filter (\<lambda>c. OnPlane c sky) kCoordinates"

lemma andthen_calculate: "andthen (calculate (Some x)) f = f x"
  by (auto simp: andthen_def calculate_def)

lemma axes_from_ensures:
  assumes "metadata_ok img"
  shows "ensures (store_ok store) UNIV (\<lambda>_. True) (axes_from store img cs)
    (\<lambda>axes _. list_all2 (describes img) (filter (\<lambda>c. OnPlane c sky \<and> FindDimensionIndex img (co_name c) \<noteq> None) cs) axes)"
proof (induction cs)
  case (Cons c cs)
  show ?case
  proof (cases "OnPlane c sky \<and> FindDimensionIndex img (co_name c) \<noteq> None")
    case True
    then obtain i where i: "FindDimensionIndex img (co_name c) = Some i" by blast
    have "i < length (md_shape img)" "md_dimension_names img ! i = co_name c"
      using FindDimensionIndex_some [OF i] assms by (auto simp: metadata_ok_def)
    then have described: "describes img c \<lparr>ax_name = co_name c, ax_role = co_role c, ax_length = md_shape img ! i, ax_unit = unit, ax_storage_index = i\<rparr>"
      for unit by (simp add: describes_def)
    have "ensures (store_ok store) UNIV (\<lambda>_. True) (axes_from store img (c # cs))
      (\<lambda>axes _. list_all2 (describes img) (c # filter (\<lambda>c. OnPlane c sky \<and> FindDimensionIndex img (co_name c) \<noteq> None) cs) axes)"
      using True i \<open>i < length (md_shape img)\<close> described
      by (auto simp: andthen_calculate intro!: ensures_andthen [OF CoordinateUnit_ensures] ensures_andthen [OF Cons.IH] ensures_give)
    then show ?thesis using True by simp
  next
    case False
    then show ?thesis using Cons.IH by auto
  qed
qed (auto intro: ensures_give)

lemma DescribeAxes_ensures:
  assumes "metadata_ok img" and "CarriesPlane img sky"
  shows "ensures (store_ok store) UNIV (\<lambda>_. True) (DescribeAxes store img) (\<lambda>axes _. list_all2 (describes img) sky_coordinates axes)"
proof -
  have "filter (\<lambda>c. OnPlane c sky \<and> FindDimensionIndex img (co_name c) \<noteq> None) kCoordinates = sky_coordinates"
    unfolding sky_coordinates_def by (rule filter_cong [OF refl]) (use assms(2) in \<open>auto simp: CarriesPlane_def list_all_iff\<close>)
  then show ?thesis unfolding DescribeAxes_def using axes_from_ensures [OF assms(1), of store kCoordinates] by simp
qed

lemma sky_roles: "map co_role sky_coordinates = [spatial_x, spatial_y, spectral, polarization, time]"
  and sky_names: "map co_name sky_coordinates = [''l'', ''m'', ''frequency'', ''polarization'', ''time'']"
  and sky_count: "AxisCount sky = 5" "length sky_coordinates = 5"
  by code_simp+

lemma described_axes:
  assumes "list_all2 (describes img) cs axes"
  shows "map ax_role axes = map co_role cs" and "map ax_name axes = map co_name cs"
    and "map (\<lambda>ax. md_dimension_names img ! ax_storage_index ax) axes = map co_name cs"
  using assms by (induction rule: list_all2_induct) (auto simp: describes_def)

lemma described_permutation:
  assumes "list_all2 (describes img) sky_coordinates axes" and "length (md_shape img) = 5"
  shows "distinct (map ax_storage_index axes)" and "set (map ax_storage_index axes) = {..<5}"
proof -
  have "distinct (map ((!) (md_dimension_names img)) (map ax_storage_index axes))"
    using described_axes(3) [OF assms(1)] by (simp add: comp_def sky_names)
  then show axes: "distinct (map ax_storage_index axes)" unfolding distinct_map by blast
  have "length axes = 5" using list_all2_lengthD [OF assms(1)] by (simp add: sky_count)
  moreover have "set (map ax_storage_index axes) \<subseteq> {..<5}"
    using assms unfolding list_all2_conv_all_nth by (auto simp: describes_def in_set_conv_nth)
  ultimately show "set (map ax_storage_index axes) = {..<5}"
    using distinct_card [OF axes] by (intro card_subset_eq) auto
qed

lemma read_values_from_ensures:
  assumes "\<forall>c \<in> set cs. OnPlane c sky \<longrightarrow> co_kind c = numeric \<longrightarrow> co_role c \<in> {spatial_x, spatial_y, spectral, time}"
  shows "ensures (store_ok store) UNIV (\<lambda>_. True) (read_values_from store cs vs) (\<lambda>_ _. True)"
  using assms
proof (induction cs arbitrary: vs)
  case (Cons c cs)
  have rest: "ensures (store_ok store) UNIV (\<lambda>_. True) (read_values_from store cs vs) (\<lambda>_ _. True)" for vs using Cons by simp
  have set: "ensures (store_ok store) UNIV (\<lambda>_. True) (andthen (calculate (set_numeric (co_role c) samples vs)) (read_values_from store cs)) (\<lambda>_ _. True)"
    if "OnPlane c sky" "co_kind c \<noteq> labels" for samples
  proof -
    have "co_role c \<in> {spatial_x, spatial_y, spectral, time}" using that Cons.prems by (cases "co_kind c") auto
    then have "\<exists>new. set_numeric (co_role c) samples vs = Some new" by (auto simp: set_numeric_def)
    then show ?thesis using rest by (auto simp: andthen_calculate)
  qed
  show ?case unfolding read_values_from.simps
    by (intro ensures_if ensures_attempt [OF ensures_everywhere [OF ReadStringArray1D_ensures]]
          ensures_attempt [OF ensures_everywhere [OF ReadNumericArray_ensures]]) (use rest set in auto)
qed (auto intro: ensures_give)

lemma ReadCoordinateValues_ensures: "ensures (store_ok store) UNIV (\<lambda>_. True) (ReadCoordinateValues store) (\<lambda>_ _. True)"
  unfolding ReadCoordinateValues_def
  by (rule read_values_from_ensures) (auto simp: kCoordinates_def coordinate_def OnPlane_def)

section \<open>Properties\<close>

text \<open>A store with an image, a flag that fits it and one coordinate.\<close>

definition sky_document :: "string \<Rightarrow> string \<Rightarrow> json" where
  "sky_document data_type kind = JObject
     [(''zarr_format'', JUnsigned 3), (''node_type'', JString ''array''),
      (''shape'', JArray [JUnsigned 1, JUnsigned 4, JUnsigned 2, JUnsigned 10, JUnsigned 8]), (''data_type'', JString data_type),
      (''dimension_names'', JArray [JString ''time'', JString ''frequency'', JString ''polarization'', JString ''l'', JString ''m'']),
      (''chunk_grid'', JObject [(''name'', JString ''regular''),
         (''configuration'', JObject [(''chunk_shape'', JArray [JUnsigned 1, JUnsigned 2, JUnsigned 1, JUnsigned 5, JUnsigned 8])])]),
      (''codecs'', JArray [JObject [(''name'', JString ''bytes'')]]), (''attributes'', JObject [(''type'', JString kind)])]"

definition line_document :: json where
  "line_document = JObject
     [(''zarr_format'', JUnsigned 3), (''node_type'', JString ''array''), (''shape'', JArray [JUnsigned 10]), (''data_type'', JString ''float64''),
      (''dimension_names'', JArray [JString ''l'']),
      (''chunk_grid'', JObject [(''name'', JString ''regular''), (''configuration'', JObject [(''chunk_shape'', JArray [JUnsigned 10])])]),
      (''codecs'', JArray [JObject [(''name'', JString ''bytes'')]]), (''attributes'', JObject [(''units'', JString ''rad'')])]"

definition sky_root :: json where
  "sky_root = JObject
     [(''zarr_format'', JUnsigned 3), (''node_type'', JString ''group''),
      (''consolidated_metadata'', JObject [(''metadata'', JObject
         [(''FLAG'', sky_document ''bool'' ''flag''), (''SKY'', sky_document ''float32'' ''sky''), (''l'', line_document)])])]"

definition sky_parse :: "string \<Rightarrow> thrown + json" where
  "sky_parse bytes = (if bytes = ''root'' then Inr sky_root else Inl (parse_error ''unexpected end of input''))"

definition sky_opened :: "nat Store \<times> nat StoreCaches" where
  "sky_opened = (case OpenStore (Some example_transport) sky_parse example_numbers plain_libs example_files 0 of Some (Inr opened, _) \<Rightarrow> opened)"

definition sky_store :: "nat Store" where
  "sky_store = fst sky_opened"

definition sky_state :: "nat StoreCaches" where
  "sky_state = snd sky_opened"

lemma sky_opens: "OpenStore (Some example_transport) sky_parse example_numbers plain_libs example_files 0 = Some (Inr (sky_store, sky_state), 1)"
proof -
  have "case OpenStore (Some example_transport) sky_parse example_numbers plain_libs example_files 0 of Some (Inr _, w) \<Rightarrow> w = 1 | _ \<Rightarrow> False"
    by code_simp
  then show ?thesis by (auto simp: sky_store_def sky_state_def sky_opened_def split: option.splits prod.splits sum.splits)
qed

definition undescribed :: ImageDescriptor where
  "undescribed = \<lparr>img_id = [], img_role = [], img_data_groups = [], stored_type = unknown, img_axes = [], img_unit = [],
     has_pixel_mask = False, pixel_mask_id = []\<rparr>"

lemma sky_qualifies:
  obtains s1 where "RequireQualified sky_store ''SKY'' sky_state = Some (Inr (), s1)"
proof -
  have "case RequireQualified sky_store ''SKY'' sky_state of Some (Inr _, s1) \<Rightarrow> True | _ \<Rightarrow> False" by code_simp
  then show ?thesis using that by (auto split: option.splits prod.splits sum.splits)
qed

lemma ReadArrayMetadata_held: "holds_array s node md \<Longrightarrow> locked s = [] \<Longrightarrow> ReadArrayMetadata store node s = Some (Inr md, s)"
  by (auto simp: holds_array_def ReadArrayMetadata_def GetOrCompute_def settled_def AskAgain_def)

lemma Inventory_holding: "holds_inventory s es \<Longrightarrow> locked s = [] \<Longrightarrow> Inventory store s = Some (Inr es, s)"
  by (auto simp: holds_inventory_def Inventory_def GetOrCompute_def settled_def AskAgain_def)

lemma holds_array_ok: "store_ok store s \<Longrightarrow> holds_array s node md \<Longrightarrow> metadata_ok md"
  unfolding store_ok_def array_answer_def holds_array_def by (metis last_in_set)

lemma openable_rank: "metadata_ok md \<Longrightarrow> openable_image store s node md \<Longrightarrow> length (md_shape md) = 5"
  by (auto simp: openable_image_def metadata_ok_def sky_count)

lemma describes_agrees:
  assumes "openable_image store s node md" and "metadata_ok md" and "list_all2 (describes md) sky_coordinates axes" and "ax \<in> set axes"
  shows "agrees s (ax_name ax) (ax_length ax)"
proof -
  obtain c where "describes md c ax" using assms(3,4) by (auto simp: list_all2_conv_all_nth in_set_conv_nth)
  then have "(ax_name ax, ax_length ax) \<in> set (zip (md_dimension_names md) (md_shape md))"
    using assms(1,2) openable_rank [OF assms(2,1)] by (auto simp: describes_def set_zip openable_image_def sky_count intro!: exI [of _ "ax_storage_index ax"])
  then show ?thesis using assms(1) by (auto simp: openable_image_def)
qed




lemma sky_flagged:
  obtains s1 img where "DetermineFlag sky_store img ''SKY'' [] sky_state = Some ((Inr ''FLAG'', []), s1)"
proof -
  have "case ParseArrayMetadata (sky_document ''float32'' ''sky'') ''SKY'' of Some (Inr md) \<Rightarrow>
      (case DetermineFlag sky_store md ''SKY'' [] sky_state of Some ((r, ds), s1) \<Rightarrow> r = Inr ''FLAG'' \<and> ds = [] | _ \<Rightarrow> False) | _ \<Rightarrow> False"
    by code_simp
  then show ?thesis using that by (auto split: option.splits prod.splits sum.splits)
qed


end
