(* ===== verification/Image_Listing.thy ===== *)
theory Image_Listing
  imports Image_Variables "HOL-Library.Product_Lexorder"
begin

text \<open>
  What a dataset lists, and whether a store is one at all: \<open>DiscoverImages\<close> and \<open>InspectImages\<close> of
  \<open>src/schema/xradio/image.cc\<close>, the report of \<open>probe_report.cc\<close>, the reading of the coordinate system in \<open>direction.cc\<close>,
  and \<open>ProbeStore\<close> with the refusals of \<open>src/schema/profile.cc\<close>. The arithmetic of doubles, and their reading from text,
  is a parameter: it decides what a direction says and never whether a store is accepted.
\<close>

section \<open>The coordinate system\<close>

record Doubles =
  db_of_json :: "json \<Rightarrow> f64"
  db_degrees :: "f64 \<Rightarrow> f64"
  db_of_string :: "string \<Rightarrow> f64 option"
  db_zero :: f64

definition to_upper :: "char \<Rightarrow> char" where
  "to_upper c = (let n = of_char c :: nat in if 97 \<le> n \<and> n \<le> 122 then char_of (n - 32) else c)"

definition Upper :: "string \<Rightarrow> string" where
  "Upper s = map to_upper s"

definition MemberArray :: "json \<Rightarrow> string \<Rightarrow> json option" where
  "MemberArray v name = (case Member v name of None \<Rightarrow> None | Some member \<Rightarrow> if is_array member then Some member else None)"

record DirectionCoordinate =
  dc_projection :: string
  dc_reference_frame :: string
  dc_equinox :: "f64 option"
  dc_reference_pixel :: "f64 \<times> f64"
  dc_reference_value :: "f64 \<times> f64"
  dc_increment :: "f64 \<times> f64"
  dc_transformation_matrix :: "(f64 \<times> f64) \<times> (f64 \<times> f64)"
  dc_projection_parameters :: "f64 list"
  dc_native_pole_direction :: "f64 \<times> f64"

definition Malformed :: "string \<Rightarrow> Error" where
  "Malformed message = mk_error invalid_metadata message ''/attributes/coordinate_system_info''"

text \<open>Two numbers of an array that is known to hold them; reading them out of it throws where there are none.\<close>

definition two_numbers :: "(json \<Rightarrow> f64) \<Rightarrow> json \<Rightarrow> (f64 \<times> f64) option" where
  "two_numbers number v =
     Option.bind (at_index v 0) (\<lambda>a. Option.bind (at_index v 1) (\<lambda>b. Some (number a, number b)))"

text \<open>\<open>None\<close> is a read that throws, \<open>Some None\<close> the answer false.\<close>

definition ReadAnglePair :: "Doubles \<Rightarrow> json option \<Rightarrow> (f64 \<times> f64) option option" where
  "ReadAnglePair doubles angles =
     (case Option.bind angles (\<lambda>m. Member m ''data'') of
        None \<Rightarrow> Some None
      | Some data \<Rightarrow>
          if \<not> IsNumericVector data 2 then Some None
          else map_option Some (two_numbers (\<lambda>v. db_degrees doubles (db_of_json doubles v)) data))"

definition equinox_of :: "Doubles \<Rightarrow> json \<Rightarrow> f64 option" where
  "equinox_of doubles equinox =
     (case equinox of
        JString s \<Rightarrow> db_of_string doubles (if 1 < length s \<and> hd s \<in> set ''JBjb'' then tl s else s)
      | _ \<Rightarrow> if is_number equinox then Some (db_of_json doubles equinox) else None)"

definition ReadCoordinateSystem :: "Doubles \<Rightarrow> json \<Rightarrow> DirectionCoordinate result option" where
  "ReadCoordinateSystem doubles root_attributes =
     (case MemberObject root_attributes ''coordinate_system_info'' of
        None \<Rightarrow> Some (Inl (Malformed ''XRADIO requires coordinate_system_info metadata''))
      | Some cs_info \<Rightarrow>
          let projection = Upper (AttributeString cs_info ''projection'');
              reference_direction = MemberObject cs_info ''reference_direction''
          in if projection = [] then Some (Inl (Malformed ''coordinate_system_info requires a projection''))
             else Option.bind (ReadAnglePair doubles reference_direction) (\<lambda>read.
               case read of
                 None \<Rightarrow> Some (Inl (Malformed ''coordinate_system_info requires a two-value reference direction''))
               | Some reference_value \<Rightarrow>
                   Option.bind reference_direction (\<lambda>reference.
                   let attributes = MemberObject reference ''attrs'';
                       frame = (case attributes of None \<Rightarrow> [] | Some attrs \<Rightarrow> Upper (AttributeString attrs ''frame''));
                       equinox = Option.bind (Option.bind attributes (\<lambda>attrs. Member attrs ''equinox'')) (equinox_of doubles)
                   in Option.bind (ReadAnglePair doubles (MemberObject cs_info ''native_pole_direction'')) (\<lambda>read.
                     case read of
                       None \<Rightarrow> Some (Inl (Malformed ''coordinate_system_info requires a two-value native pole direction''))
                     | Some native_pole \<Rightarrow>
                         (case Member cs_info ''pixel_coordinate_transformation_matrix'' of
                            None \<Rightarrow> Some (Inl (Malformed ''coordinate_system_info requires a 2x2 pixel transformation matrix''))
                          | Some matrix \<Rightarrow>
                              if \<not> IsNumericMatrix matrix 2 2
                              then Some (Inl (Malformed ''coordinate_system_info requires a 2x2 pixel transformation matrix''))
                              else Option.bind (Option.bind (at_index matrix 0) (two_numbers (db_of_json doubles))) (\<lambda>row0.
                                   Option.bind (Option.bind (at_index matrix 1) (two_numbers (db_of_json doubles))) (\<lambda>row1.
                                     Some (Inr
                                       \<lparr>dc_projection = projection, dc_reference_frame = frame, dc_equinox = equinox,
                                        dc_reference_pixel = (db_zero doubles, db_zero doubles), dc_reference_value = reference_value,
                                        dc_increment = (db_zero doubles, db_zero doubles), dc_transformation_matrix = (row0, row1),
                                        dc_projection_parameters =
                                          (case MemberArray cs_info ''projection_parameters'' of
                                             None \<Rightarrow> [] | Some parameters \<Rightarrow> map (db_of_json doubles) (filter is_number (elements_of parameters))),
                                        dc_native_pole_direction = native_pole\<rparr>))))))))"

section \<open>The report of a probe\<close>

datatype SchemaMatchKind = no_match | schema_match | schema_invalid

record SchemaProbeResult =
  sp_kind :: SchemaMatchKind
  sp_schema_id :: string
  sp_schema_version :: string
  sp_diagnostics :: "Diagnostic list"

definition kXradioImageSchema :: string where
  "kXradioImageSchema = ''xradio.image''"

definition DiagnosticCodeFor :: "ErrorCode \<Rightarrow> DiagnosticCode" where
  "DiagnosticCodeFor code =
     (if code = unsupported_data_type then unsupported_data_type_found
      else if code = ambiguous_schema then ambiguous_schema_found else invalid_metadata_found)"

record ProbeReport =
  pr_profile_name :: string
  pr_diagnostics :: "Diagnostic list"
  pr_error :: "Error option"
  pr_met :: bool

definition new_ProbeReport :: "string \<Rightarrow> ProbeReport" where
  "new_ProbeReport profile_name = \<lparr>pr_profile_name = profile_name, pr_diagnostics = [], pr_error = None, pr_met = True\<rparr>"

definition report_ok :: "ProbeReport \<Rightarrow> bool" where
  "report_ok report \<longleftrightarrow> pr_met report \<and> pr_error report = None"

definition Fail :: "DiagnosticCode \<Rightarrow> string \<Rightarrow> string \<Rightarrow> ProbeReport \<Rightarrow> ProbeReport" where
  "Fail code message node report =
     report\<lparr>pr_diagnostics := pr_diagnostics report @ [\<lparr>dg_code = code, dg_message = message, dg_node_path = node\<rparr>], pr_met := False\<rparr>"

definition RequireArrayMetadata :: "ArrayMetadata result \<Rightarrow> string \<Rightarrow> ProbeReport \<Rightarrow> bool \<times> ProbeReport" where
  "RequireArrayMetadata metadata node report =
     (if \<not> report_ok report then (False, report)
      else case metadata of
             Inr _ \<Rightarrow> (True, report)
           | Inl e \<Rightarrow> (False, Fail (DiagnosticCodeFor (err_code e)) (err_message e) node report))"

definition RequireCoordinate :: "'w Store \<Rightarrow> Coordinate \<Rightarrow> ProbeReport \<Rightarrow> (ProbeReport, 'w) action" where
  "RequireCoordinate store c report =
     (if \<not> report_ok report then give report
      else andthen (ReadNodeMetadata store (co_name c)) (\<lambda>document.
        case document of
          Inl e \<Rightarrow>
            give (if err_code e = not_found then Fail invalid_metadata_found ''Missing required coordinate array'' (co_name c) report
                  else report\<lparr>pr_error := Some e\<rparr>)
        | Inr _ \<Rightarrow>
            andthen (ReadArrayMetadata store (co_name c)) (\<lambda>array_result.
              case RequireArrayMetadata array_result (co_name c) report of
                (False, report) \<Rightarrow> give report
              | (True, report) \<Rightarrow>
                  andthen (calculate (case array_result of Inl _ \<Rightarrow> None | Inr md \<Rightarrow> CheckCoordinate (st_string_libs store) md c)) (\<lambda>checked.
                    give (case checked of
                      Inr _ \<Rightarrow> report
                    | Inl e \<Rightarrow> Fail (DiagnosticCodeFor (err_code e)) (err_message e) (co_name c) report)))))"

definition RequireCoordinateSystem :: "Doubles \<Rightarrow> json \<Rightarrow> ProbeReport \<Rightarrow> ProbeReport option" where
  "RequireCoordinateSystem doubles root_attributes report =
     (if \<not> report_ok report then Some report
      else map_option (\<lambda>read. case read of
             Inr _ \<Rightarrow> report
           | Inl e \<Rightarrow> Fail invalid_metadata_found (err_message e) (err_node_path e) report) (ReadCoordinateSystem doubles root_attributes))"

definition Finish :: "ProbeReport \<Rightarrow> SchemaMatchKind \<Rightarrow> string \<Rightarrow> SchemaProbeResult result" where
  "Finish report kind schema_version =
     (case pr_error report of
        Some e \<Rightarrow> Inl e
      | None \<Rightarrow> Inr \<lparr>sp_kind = kind, sp_schema_id = kXradioImageSchema, sp_schema_version = schema_version, sp_diagnostics = pr_diagnostics report\<rparr>)"

section \<open>Discovering the images\<close>

record ImageEntry =
  ie_id :: string
  ie_openable :: bool
  ie_diagnostics :: "Diagnostic list"
  ie_image_role :: string
  ie_axes :: "AxisDescriptor list"

record ImageDiscovery =
  di_images :: "ImageEntry list"
  di_default_image_id :: "string option"
  di_diagnostics :: "Diagnostic list"

record Discovered =
  fd_discovery :: ImageDiscovery
  fd_first_malformation :: "nat option"
  fd_image_evidence :: bool

record SchemaInspection =
  si_probe :: SchemaProbeResult
  si_discovery :: ImageDiscovery

definition kVersion :: string where
  "kVersion = ''1.2''"

definition kKnownImages :: nat where
  "kKnownImages = 6"

definition KnownImageRank :: "string \<Rightarrow> nat" where
  "KnownImageRank image_id =
     (case List.find (\<lambda>(i, known). known = image_id)
             (zip [0..<kKnownImages] [''SKY'', ''MODEL'', ''RESIDUAL'', ''POINT_SPREAD_FUNCTION'', ''PRIMARY_BEAM'', ''MASK_DECONVOLVE'']) of
        None \<Rightarrow> kKnownImages
      | Some (i, _) \<Rightarrow> i)"

fun RequirePresentCoordinates :: "'w Store \<Rightarrow> Coordinate list \<Rightarrow> ProbeReport \<Rightarrow> (ProbeReport, 'w) action" where
  "RequirePresentCoordinates store [] report = give report"
| "RequirePresentCoordinates store (c # cs) report =
     (if OnPlane c sky then andthen (RequireCoordinate store c report) (RequirePresentCoordinates store cs)
      else RequirePresentCoordinates store cs report)"

definition FindDataGroups :: "json \<Rightarrow> string \<Rightarrow> string list" where
  "FindDataGroups root_attributes image_id =
     (case MemberObject root_attributes ''data_groups'' of
        Some (JObject groups) \<Rightarrow> map fst (filter (\<lambda>(name, g). is_object g \<and> list_ex (\<lambda>v. v = JString image_id) (elements_of g)) groups)
      | _ \<Rightarrow> [])"

definition ImageRoleOf :: "ArrayMetadata \<Rightarrow> string" where
  "ImageRoleOf md =
     (let declared_role = AttributeString (md_attributes md) ''type'';
          role = (if declared_role = ''flag'' then [] else declared_role)
      in if role = [] then AttributeString (md_attributes md) ''image_type'' else role)"

definition note_diagnostic :: "bool \<Rightarrow> Diagnostic \<Rightarrow> Discovered \<Rightarrow> Discovered" where
  "note_diagnostic malformed diagnostic found =
     (let said = di_diagnostics (fd_discovery found)
      in found\<lparr>fd_first_malformation := (if malformed \<and> fd_first_malformation found = None then Some (length said) else fd_first_malformation found),
               fd_discovery := (fd_discovery found)\<lparr>di_diagnostics := said @ [diagnostic]\<rparr>\<rparr>)"

definition note_image :: "ImageEntry \<Rightarrow> Discovered \<Rightarrow> Discovered" where
  "note_image img found = found\<lparr>fd_discovery := (fd_discovery found)\<lparr>di_images := di_images (fd_discovery found) @ [img]\<rparr>\<rparr>"

fun discover_from :: "'w Store \<Rightarrow> NodeEntry list \<Rightarrow> Discovered \<Rightarrow> (Discovered, 'w) action" where
  "discover_from store [] found = give found"
| "discover_from store (entry # entries) found =
     andthen (QualifyNode store entry) (\<lambda>qualified.
       let found1 = (if nq_listed qualified \<or> KnownImageRank (ne_name entry) < kKnownImages then found\<lparr>fd_image_evidence := True\<rparr> else found);
           found2 = (case nq_diagnostic qualified of None \<Rightarrow> found1 | Some d \<Rightarrow> note_diagnostic (nq_malformed qualified) d found1);
           said = (case nq_diagnostic qualified of None \<Rightarrow> [] | Some d \<Rightarrow> [d])
       in if \<not> nq_listed qualified then discover_from store entries found2
          else andthen (calculate (case ne_array entry of Some (Inr md) \<Rightarrow> Some md | _ \<Rightarrow> None)) (\<lambda>md.
               andthen (if nq_openable qualified then DescribeAxes store md else give []) (\<lambda>axes.
                 discover_from store entries
                   (note_image \<lparr>ie_id = ne_name entry, ie_openable = nq_openable qualified, ie_diagnostics = said,
                                ie_image_role = ImageRoleOf md, ie_axes = axes\<rparr> found2))))"

text \<open>The names of an inventory are distinct, so sorting by this total order leaves no choice to the algorithm.\<close>

definition image_order :: "ImageEntry \<Rightarrow> nat \<times> string" where
  "image_order img = (KnownImageRank (ie_id img), ie_id img)"

definition finish_discovery :: "ImageDiscovery \<Rightarrow> ImageDiscovery" where
  "finish_discovery result =
     (let images = sort_key image_order (di_images result)
      in result\<lparr>di_images := images, di_default_image_id := map_option ie_id (List.find ie_openable images)\<rparr>)"

definition nothing_found :: Discovered where
  "nothing_found = \<lparr>fd_discovery = \<lparr>di_images = [], di_default_image_id = None, di_diagnostics = []\<rparr>, fd_first_malformation = None, fd_image_evidence = False\<rparr>"

definition DiscoverImages :: "'w Store \<Rightarrow> (Discovered result, 'w) action" where
  "DiscoverImages store =
     attempt (Inventory store) (\<lambda>entries.
       andthen (discover_from store entries nothing_found) (\<lambda>found.
         give (Inr (found\<lparr>fd_discovery := finish_discovery (fd_discovery found)\<rparr>))))"

section \<open>Inspecting a store\<close>

text \<open>\<open>std::rotate\<close> of the range that ends just past the element \<open>k\<close>, about that element.\<close>

definition rotate_to_front :: "nat \<Rightarrow> 'a list \<Rightarrow> 'a list option" where
  "rotate_to_front k xs = (if k < length xs then Some (xs ! k # take k xs @ drop (Suc k) xs) else None)"

definition finish_inspection :: "ProbeReport \<Rightarrow> ImageDiscovery \<Rightarrow> SchemaMatchKind \<Rightarrow> SchemaInspection result" where
  "finish_inspection report discovery kind =
     (case Finish report kind kVersion of Inl e \<Rightarrow> Inl e | Inr probe \<Rightarrow> Inr \<lparr>si_probe = probe, si_discovery = discovery\<rparr>)"

definition InspectImages :: "Doubles \<Rightarrow> 'w Store \<Rightarrow> (SchemaInspection result, 'w) action" where
  "InspectImages doubles store =
     (let root_attributes = st_root_attributes store
      in attempt (DiscoverImages store) (\<lambda>found.
         andthen (calculate (case (di_default_image_id (fd_discovery found), fd_first_malformation found) of
             (None, Some k) \<Rightarrow> map_option (\<lambda>said. (fd_discovery found)\<lparr>di_diagnostics := said\<rparr>) (rotate_to_front k (di_diagnostics (fd_discovery found)))
           | _ \<Rightarrow> Some (fd_discovery found))) (\<lambda>discovery.
         let report = (new_ProbeReport ''image dataset'')\<lparr>pr_diagnostics := di_diagnostics discovery\<rparr>
         in case di_default_image_id discovery of
              None \<Rightarrow>
                let image_dataset = (fd_image_evidence found \<or> AttributeString root_attributes ''type'' = ''image_dataset'')
                in give (finish_inspection report discovery
                     (if fd_first_malformation found \<noteq> None \<and> image_dataset then schema_invalid else no_match))
            | Some first_image \<Rightarrow>
                andthen (ReadArrayMetadata store first_image) (\<lambda>array_result.
                  case RequireArrayMetadata array_result first_image report of
                    (False, report) \<Rightarrow> give (finish_inspection report discovery (if report_ok report then schema_match else schema_invalid))
                  | (True, report) \<Rightarrow>
                      andthen (RequirePresentCoordinates store kCoordinates report) (\<lambda>report.
                      andthen (calculate (RequireCoordinateSystem doubles root_attributes report)) (\<lambda>report.
                        give (finish_inspection report discovery (if report_ok report then schema_match else schema_invalid))))))))"

section \<open>Probing a store\<close>

datatype ProbeKind = zarr_without_supported_schema | supported_dataset | invalid_dataset

record ProbeResult =
  pb_schema_id :: string
  pb_schema_version :: string
  pb_images :: "ImageEntry list"
  pb_default_image_id :: "string option"
  pb_diagnostics :: "Diagnostic list"
  pb_kind :: ProbeKind

definition RejectionMessage :: "Diagnostic list \<Rightarrow> string \<Rightarrow> string" where
  "RejectionMessage diagnostics fallback = (case diagnostics of [] \<Rightarrow> fallback | d # _ \<Rightarrow> dg_message d)"

definition RequireOpenableDataset :: "ProbeResult \<Rightarrow> string \<Rightarrow> unit result" where
  "RequireOpenableDataset probe location =
     (if pb_kind probe \<noteq> supported_dataset
      then Inl (mk_error (if pb_kind probe = invalid_dataset then invalid_metadata else unsupported_schema)
                 (RejectionMessage (pb_diagnostics probe) ''No built-in schema profile matched the Zarr store'') location)
      else if pb_images probe = [] then Inl (mk_error invalid_metadata ''Supported schema has no image variables'' location)
      else Inr ())"

definition BuiltIn :: "Doubles \<Rightarrow> (string \<times> ('w Store \<Rightarrow> (SchemaInspection result, 'w) action)) list" where
  "BuiltIn doubles = [(kXradioImageSchema, InspectImages doubles)]"

definition ProfileFor :: "Doubles \<Rightarrow> string \<Rightarrow> (string \<times> ('w Store \<Rightarrow> (SchemaInspection result, 'w) action)) result" where
  "ProfileFor doubles schema_id =
     (case List.find (\<lambda>candidate. fst candidate = schema_id) (BuiltIn doubles) of
        None \<Rightarrow> Inl (mk_error unsupported_schema (''No built-in profile exists for schema '' @ schema_id) [])
      | Some entry \<Rightarrow> Inr entry)"

definition Probe :: "(string \<times> ('w Store \<Rightarrow> (SchemaInspection result, 'w) action)) \<Rightarrow> 'w Store \<Rightarrow> (SchemaProbeResult result, 'w) action" where
  "Probe profile store = attempt (snd profile store) (\<lambda>inspection. give (Inr (si_probe inspection)))"

definition Discover :: "(string \<times> ('w Store \<Rightarrow> (SchemaInspection result, 'w) action)) \<Rightarrow> 'w Store \<Rightarrow> (ImageDiscovery result, 'w) action" where
  "Discover profile store = attempt (snd profile store) (\<lambda>inspection. give (Inr (si_discovery inspection)))"

fun ask_profiles ::
  "(string \<times> ('w Store \<Rightarrow> (SchemaInspection result, 'w) action)) list \<Rightarrow> 'w Store \<Rightarrow>
   SchemaInspection list \<times> SchemaProbeResult list \<times> Diagnostic list \<Rightarrow>
   ((SchemaInspection list \<times> SchemaProbeResult list \<times> Diagnostic list) result, 'w) action"
where
  "ask_profiles [] store answers = give (Inr answers)"
| "ask_profiles (entry # entries) store (matches, bad, unmatched) =
     attempt (snd entry store) (\<lambda>inspection.
       let probe = si_probe inspection
       in ask_profiles entries store
            (case sp_kind probe of
               schema_match \<Rightarrow> (matches @ [inspection], bad, unmatched)
             | schema_invalid \<Rightarrow> (matches, bad @ [probe], unmatched)
             | no_match \<Rightarrow> (matches, bad, if unmatched = [] then sp_diagnostics probe else unmatched)))"

definition unprobed :: ProbeResult where
  "unprobed = \<lparr>pb_schema_id = [], pb_schema_version = [], pb_images = [], pb_default_image_id = None, pb_diagnostics = [],
     pb_kind = zarr_without_supported_schema\<rparr>"

definition ProbeStore :: "Doubles \<Rightarrow> 'w Store \<Rightarrow> (ProbeResult result, 'w) action" where
  "ProbeStore doubles store =
     attempt (ask_profiles (BuiltIn doubles) store ([], [], [])) (\<lambda>(matches, bad, unmatched). give (Inr
       (case (matches, bad) of
          (_ # _ # _, _) \<Rightarrow>
            unprobed\<lparr>pb_kind := invalid_dataset,
              pb_diagnostics := [\<lparr>dg_code = ambiguous_schema_found,
                dg_message = ''More than one built-in schema profile matched the Zarr store'', dg_node_path = []\<rparr>]\<rparr>
        | ([found], _) \<Rightarrow>
            \<lparr>pb_schema_id = sp_schema_id (si_probe found), pb_schema_version = sp_schema_version (si_probe found),
             pb_images = di_images (si_discovery found), pb_default_image_id = di_default_image_id (si_discovery found),
             pb_diagnostics = sp_diagnostics (si_probe found), pb_kind = supported_dataset\<rparr>
        | ([], p # _) \<Rightarrow>
            unprobed\<lparr>pb_kind := invalid_dataset, pb_schema_id := sp_schema_id p, pb_schema_version := sp_schema_version p,
              pb_diagnostics := sp_diagnostics p\<rparr>
        | ([], []) \<Rightarrow> unprobed\<lparr>pb_diagnostics := unmatched\<rparr>)))"

section \<open>Asking again\<close>

text \<open>
  A state in which no read of an array's metadata has failed in a way that is asked again. From such a state on, every question
  whose answer rests on array metadata alone is answered the same, and nothing is read to answer it.
\<close>

definition steady :: "'w StoreCaches \<Rightarrow> bool" where
  "steady s \<longleftrightarrow> (\<forall>k. \<forall>r \<in> set (array_metadata s k). \<not> AskAgain r)"

definition repeats :: "'w Store \<Rightarrow> ('a, 'w) action \<Rightarrow> bool" where
  "repeats store act \<longleftrightarrow>
     (\<forall>s r s1. store_ok store s \<longrightarrow> locked s = [] \<longrightarrow> act s = Some (r, s1) \<longrightarrow>
        store_ok store s1 \<and> locked s1 = [] \<and> evolves s s1 \<and>
        (\<forall>s2. steady s1 \<longrightarrow> evolves s1 s2 \<longrightarrow> locked s2 = [] \<longrightarrow> act s2 = Some (r, s2)))"

named_theorems repeating \<open>the calls that repeat\<close>

lemma steady_before: "evolves s s' \<Longrightarrow> steady s' \<Longrightarrow> steady s"
  unfolding evolves_def steady_def grows_def by (metis UnI1 grown.simps(2) grows_def set_append)

lemma repeats_give [repeating]: "repeats store (give x)"
  by (auto simp: repeats_def give_def)

lemma repeats_calculate [repeating]: "repeats store (calculate x)"
  by (auto simp: repeats_def calculate_def split: option.splits)

lemma repeats_if [repeating]: "repeats store a \<Longrightarrow> repeats store b \<Longrightarrow> repeats store (if c then a else b)"
  by simp

lemma repeats_sum [repeating]: "(\<And>x. repeats store (f x)) \<Longrightarrow> (\<And>y. repeats store (g y)) \<Longrightarrow> repeats store (case r of Inl x \<Rightarrow> f x | Inr y \<Rightarrow> g y)"
  by (cases r) auto

lemma repeats_option [repeating]: "repeats store a \<Longrightarrow> (\<And>x. repeats store (f x)) \<Longrightarrow> repeats store (case r of None \<Rightarrow> a | Some x \<Rightarrow> f x)"
  by (cases r) auto

lemma repeats_andthen [repeating]:
  assumes "repeats store a" and "\<And>x. repeats store (f x)"
  shows "repeats store (andthen a f)"
  unfolding repeats_def
proof (intro allI impI)
  fix s r s1
  assume s: "store_ok store s" "locked s = []" "andthen a f s = Some (r, s1)"
  then obtain x sa where run: "a s = Some (x, sa)" "f x sa = Some (r, s1)" by (auto simp: andthen_def split: option.splits prod.splits)
  then have sa: "store_ok store sa" "locked sa = []" "evolves s sa" using assms(1) s unfolding repeats_def by blast+
  then have s1: "store_ok store s1" "locked s1 = []" "evolves sa s1" using assms(2) [of x] run(2) unfolding repeats_def by blast+
  have "andthen a f s2 = Some (r, s2)" if "steady s1" "evolves s1 s2" "locked s2 = []" for s2
  proof -
    have "steady sa" "evolves sa s2" using that(1,2) s1(3) steady_before evolves_trans by blast+
    then have "a s2 = Some (x, s2)" using assms(1) s(1,2) run(1) that(3) unfolding repeats_def by blast
    moreover have "f x s2 = Some (r, s2)" using assms(2) [of x] sa(1,2) run(2) that unfolding repeats_def by blast
    ultimately show ?thesis by (simp add: andthen_def)
  qed
  then show "store_ok store s1 \<and> locked s1 = [] \<and> evolves s s1 \<and> (\<forall>s2. steady s1 \<longrightarrow> evolves s1 s2 \<longrightarrow> locked s2 = [] \<longrightarrow> andthen a f s2 = Some (r, s2))"
    using s1 sa(3) evolves_trans by blast
qed

lemma repeats_attempt [repeating]: "repeats store a \<Longrightarrow> (\<And>x. repeats store (f x)) \<Longrightarrow> repeats store (attempt a f)"
  unfolding attempt_def by (intro repeating)

lemma repeats_ReadArrayMetadata [repeating]: "repeats store (ReadArrayMetadata store node)"
  unfolding repeats_def
proof (intro allI impI)
  fix s r s1
  assume s: "store_ok store s" "locked s = []" "ReadArrayMetadata store node s = Some (r, s1)"
  note s1 = ensures_after [OF ReadArrayMetadata_holds s]
  have "ReadArrayMetadata store node s2 = Some (r, s2)" if "steady s1" "evolves s1 s2" "locked s2 = []" for s2
    unfolding ReadArrayMetadata_def
    by (rule arrays.GetOrCompute_stable [OF s(3) [unfolded ReadArrayMetadata_def] _ that(2)]) (use that s1(4) in \<open>auto simp: steady_def\<close>)
  then show "store_ok store s1 \<and> locked s1 = [] \<and> evolves s s1 \<and>
      (\<forall>s2. steady s1 \<longrightarrow> evolves s1 s2 \<longrightarrow> locked s2 = [] \<longrightarrow> ReadArrayMetadata store node s2 = Some (r, s2))"
    using s1 by blast
qed

lemma repeats_extents [repeating]: "repeats store (extents_from store node axes)"
  by (induction axes rule: extents_from.induct [where ?a0.0 = store and ?a1.0 = node, case_names Nil Cons])
    (simp_all add: repeats_give repeats_andthen repeats_sum repeats_if repeats_ReadArrayMetadata)

lemma repeats_declared [repeating]: "repeats store (DeclaredFlag store img image_id)"
  unfolding DeclaredFlag_def RequireDeclaredFlag_def Let_def by (intro repeating)

lemma repeats_QualifyNode [repeating]: "repeats store (QualifyNode store e)"
proof (cases "ne_kind e")
  case group
  then show ?thesis unfolding QualifyNode_def by (simp add: repeats_give)
next
  case array
  show ?thesis unfolding QualifyNode_def array NodeKind.case qualify_array_def ExtentDisagreement_def UnusableDeclaredFlag_def Let_def
    by (intro repeating)
next
  case unrecognised
  show ?thesis unfolding QualifyNode_def unrecognised NodeKind.case by (intro repeating)
qed

lemma repeats_from:
  assumes "repeats store act" and "store_ok store s" and "locked s = []" and "act s = Some (r, s1)" and "steady s1" and "evolves s1 s2" and "locked s2 = []"
  shows "act s2 = Some (r, s2)"
  using assms unfolding repeats_def by blast

section \<open>What the listing lists\<close>

text \<open>An entry of the listing: what opens has the five axes of an image, and what does not says why.\<close>

definition image_listed :: "'w Store \<Rightarrow> 'w StoreCaches \<Rightarrow> ImageEntry \<Rightarrow> bool" where
  "image_listed store s img \<longleftrightarrow>
     (if ie_openable img
      then opens store s (ie_id img) \<and> map ax_role (ie_axes img) = [spatial_x, spatial_y, spectral, polarization, time] \<and> ie_diagnostics img = []
      else ie_axes img = [] \<and> ie_diagnostics img \<noteq> [])"

lemma image_listed_evolves: "evolves s s' \<Longrightarrow> image_listed store s img \<Longrightarrow> image_listed store s' img"
  using holds_array_evolves openable_image_evolves unfolding image_listed_def opens_def by metis

definition openable_ids :: "ImageEntry list \<Rightarrow> string set" where
  "openable_ids imgs = ie_id ` {img \<in> set imgs. ie_openable img}"

lemma openable_ids_simps [simp]: "openable_ids (imgs @ imgs') = openable_ids imgs \<union> openable_ids imgs'" "openable_ids [] = {}"
  "openable_ids [img] = (if ie_openable img then {ie_id img} else {})"
proof -
  have "{img' \<in> set [img]. ie_openable img'} = (if ie_openable img then {img} else {})" by auto
  then show "openable_ids [img] = (if ie_openable img then {ie_id img} else {})" unfolding openable_ids_def by simp
qed (auto simp: openable_ids_def)

text \<open>Whether a node opens, asked in any state after a steady one, is what the listing said of it.\<close>

definition listing_lasts :: "'w Store \<Rightarrow> NodeEntry list \<Rightarrow> ImageEntry list \<Rightarrow> 'w StoreCaches \<Rightarrow> bool" where
  "listing_lasts store es imgs s \<longleftrightarrow>
     (\<forall>s2. steady s \<longrightarrow> evolves s s2 \<longrightarrow> locked s2 = [] \<longrightarrow>
        (\<forall>e \<in> set es. \<exists>q. QualifyNode store e s2 = Some (q, s2) \<and> (nq_openable q \<longleftrightarrow> ne_name e \<in> openable_ids imgs)))"

definition drawn :: "ImageEntry list \<Rightarrow> NodeEntry list \<Rightarrow> bool" where
  "drawn imgs es \<longleftrightarrow> distinct (map ie_id imgs) \<and> ie_id ` set imgs \<subseteq> ne_name ` set es"

definition malformation_said :: "Discovered \<Rightarrow> bool" where
  "malformation_said found \<longleftrightarrow> (\<forall>k. fd_first_malformation found = Some k \<longrightarrow> k < length (di_diagnostics (fd_discovery found)))"

definition images_of :: "Discovered \<Rightarrow> ImageEntry list" where
  "images_of found = di_images (fd_discovery found)"

lemma noted [simp]:
  "images_of (note_image img found) = images_of found @ [img]" "images_of (note_diagnostic malformed d found) = images_of found"
  "images_of (found\<lparr>fd_image_evidence := b\<rparr>) = images_of found"
  "malformation_said (note_image img found) = malformation_said found"
  "malformation_said (found\<lparr>fd_image_evidence := b\<rparr>) = malformation_said found"
  by (simp_all add: images_of_def note_image_def note_diagnostic_def malformation_said_def Let_def)

lemma malformation_noted [simp]: "malformation_said found \<Longrightarrow> malformation_said (note_diagnostic malformed d found)"
  by (auto simp: malformation_said_def note_diagnostic_def Let_def less_SucI)

lemma ensures_from:
  assumes "ensures ok UNIV pre act post" and "ok s" and "locked s = []" and "pre s"
  obtains r s' where "act s = Some (r, s')" "evolves s s'" "ok s'" "locked s' = []" "post r s'"
proof -
  have "set (locked s) \<inter> UNIV = {}" using assms(3) by simp
  then obtain r s' where "act s = Some (r, s')" "evolves s s'" "ok s'" "post r s'" using assms(1,2,4) unfolding ensures_def by blast
  then show ?thesis using that assms(3) by (auto simp: evolves_def)
qed

text \<open>One entry: what it adds to the listing.\<close>

definition discover_one :: "'w Store \<Rightarrow> NodeEntry \<Rightarrow> Discovered \<Rightarrow> (Discovered, 'w) action" where
  "discover_one store e found = discover_from store [e] found"

lemma andthen_assoc: "andthen (andthen a f) g = andthen a (\<lambda>x. andthen (f x) g)"
  by (auto simp: andthen_def fun_eq_iff split: option.split)

lemma andthen_give: "andthen (give x) f = f x"
  by (simp add: andthen_def give_def fun_eq_iff)

lemma discover_from_step: "discover_from store (e # es) found = andthen (discover_one store e found) (discover_from store es)"
  by (simp add: discover_one_def andthen_assoc andthen_give Let_def if_distrib [where f = "\<lambda>a. andthen a _"] cong: if_cong)

lemma discover_one_ensures:
  assumes s: "store_ok store s" "locked s = []" and e: "entry_ok e s" "canonical (ne_name e)" and found: "malformation_said found"
  obtains found' s' imgs where "discover_one store e found s = Some (found', s')" "evolves s s'" "store_ok store s'" "locked s' = []"
    "images_of found' = images_of found @ imgs" "drawn imgs [e]" "\<forall>img \<in> set imgs. image_listed store s' img"
    "listing_lasts store [e] imgs s'" "malformation_said found'"
proof -
  obtain q sq where q: "QualifyNode store e s = Some (q, sq)" "evolves s sq" "store_ok store sq" "locked sq = []" "entry_qualified store sq e q"
    using ensures_from [OF QualifyNode_ensures s e(1)] .
  have lasts: "listing_lasts store [e] imgs s'" if "evolves sq s'" "nq_openable q \<longleftrightarrow> ne_name e \<in> openable_ids imgs" for imgs s'
    using repeats_from [OF repeats_QualifyNode s q(1)] steady_before [OF that(1)] evolves_trans [OF that(1)] that(2)
    unfolding listing_lasts_def by auto
  define found2 where "found2 = (let found1 = (if nq_listed q \<or> KnownImageRank (ne_name e) < kKnownImages then found\<lparr>fd_image_evidence := True\<rparr> else found)
    in case nq_diagnostic q of None \<Rightarrow> found1 | Some d \<Rightarrow> note_diagnostic (nq_malformed q) d found1)"
  have found2: "images_of found2 = images_of found" "malformation_said found2"
    using found by (auto simp: found2_def Let_def split: option.split)
  show ?thesis
  proof (cases "nq_listed q")
    case False
    then have "discover_one store e found s = Some (found2, sq)"
      using q(1) by (simp add: discover_one_def andthen_def give_def found2_def Let_def)
    then show ?thesis
      by (rule that [OF _ q(2-4), where imgs = "[]"]) (use False q(5) found2 in \<open>auto intro: lasts simp: entry_qualified_def drawn_def\<close>)
  next
    case True
    then obtain md where md: "ne_kind e = array" "ne_array e = Some (Inr md)" "if nq_openable q then openable_image store sq (ne_name e) md else nq_diagnostic q \<noteq> None"
      using q(5) by (auto simp: entry_qualified_def)
    note held = holds_array_evolves [OF q(2) entry_holds_array [OF e(2,1) md(1,2)]]
    have described: "ensures (store_ok store) UNIV (\<lambda>_. True) (if nq_openable q then DescribeAxes store md else give [])
        (\<lambda>axes _. if nq_openable q then list_all2 (describes md) sky_coordinates axes else axes = [])"
      using DescribeAxes_ensures [OF holds_array_ok [OF q(3) held]] md(3) by (auto intro: ensures_give simp: openable_image_def)
    obtain axes s' where axes: "(if nq_openable q then DescribeAxes store md else give []) sq = Some (axes, s')" "evolves sq s'" "store_ok store s'"
      "locked s' = []" "if nq_openable q then list_all2 (describes md) sky_coordinates axes else axes = []"
      using ensures_run [OF described q(3,4)] .
    define img where "img = \<lparr>ie_id = ne_name e, ie_openable = nq_openable q, ie_diagnostics = (case nq_diagnostic q of None \<Rightarrow> [] | Some d \<Rightarrow> [d]),
      ie_image_role = ImageRoleOf md, ie_axes = axes\<rparr>"
    have run: "discover_one store e found s = Some (note_image img found2, s')"
      using q(1) True md(2) axes(1) by (simp add: discover_one_def andthen_def give_def calculate_def found2_def img_def Let_def)
    have "opens store s' (ne_name e)" if "nq_openable q"
      using md(3) that holds_array_evolves [OF axes(2) held] openable_image_evolves [OF axes(2)] by (auto simp: opens_def)
    then have listed: "image_listed store s' img"
      using md(3) axes(5) described_axes(1) [of md sky_coordinates axes] q(5)
      by (auto simp: image_listed_def img_def sky_roles entry_qualified_def)
    show ?thesis
      by (rule that [where imgs = "[img]", OF run evolves_trans [OF q(2) axes(2)] axes(3,4)])
        (use found2 listed in \<open>auto intro!: lasts axes(2) simp: img_def drawn_def split: if_splits\<close>)
  qed
qed

lemma listing_lasts_evolves:
  assumes "evolves s s'" and "listing_lasts store es imgs s"
  shows "listing_lasts store es imgs s'"
  using assms steady_before evolves_trans unfolding listing_lasts_def by blast

lemma openable_ids_listed: "drawn imgs es \<Longrightarrow> openable_ids imgs \<subseteq> ne_name ` set es"
  by (auto simp: openable_ids_def drawn_def)

lemma listing_lasts_Cons:
  assumes "listing_lasts store [e] imgs s" and "listing_lasts store es imgs' s" and "distinct (map ne_name (e # es))"
    and "drawn imgs [e]" and "drawn imgs' es"
  shows "listing_lasts store (e # es) (imgs @ imgs') s"
proof -
  have "openable_ids imgs \<subseteq> {ne_name e}" "openable_ids imgs' \<subseteq> ne_name ` set es" using openable_ids_listed [OF assms(4)] openable_ids_listed [OF assms(5)] by auto
  then have "ne_name e' \<in> openable_ids (imgs @ imgs') \<longleftrightarrow> (if e' = e then ne_name e \<in> openable_ids imgs else ne_name e' \<in> openable_ids imgs')"
    if "e' \<in> set (e # es)" for e' using that assms(3) by (cases "e' = e") (auto, metis imageI singletonD subsetD)
  then show ?thesis using assms(1,2) unfolding listing_lasts_def by (metis list.set_intros(1) set_ConsD)
qed

lemma apart: "A \<subseteq> {x} \<Longrightarrow> B \<subseteq> C \<Longrightarrow> x \<notin> C \<Longrightarrow> A \<inter> B = {}"
  and together: "A \<subseteq> {x} \<Longrightarrow> B \<subseteq> C \<Longrightarrow> A \<union> B \<subseteq> insert x C"
  by blast+

lemma drawn_Cons:
  assumes "drawn imgs [e]" and "drawn imgs' es" and "distinct (map ne_name (e # es))"
  shows "drawn (imgs @ imgs') (e # es)"
proof -
  have ids: "ie_id ` set imgs \<subseteq> {ne_name e}" "ie_id ` set imgs' \<subseteq> ne_name ` set es" "ne_name e \<notin> ne_name ` set es" using assms by (auto simp: drawn_def)
  then have "ie_id ` set imgs \<inter> ie_id ` set imgs' = {}" by (rule apart)
  then have "distinct (map ie_id imgs @ map ie_id imgs')" using assms(1,2) by (simp only: distinct_append drawn_def set_map)
  moreover have "ie_id ` set imgs \<union> ie_id ` set imgs' \<subseteq> insert (ne_name e) (ne_name ` set es)" by (rule together [OF ids(1,2)])
  ultimately show ?thesis by (simp add: drawn_def image_Un)
qed

lemma discover_from_run:
  assumes "store_ok store s" and "locked s = []" and "\<forall>e \<in> set es. canonical (ne_name e) \<and> entry_ok e s" and "distinct (map ne_name es)" and "malformation_said found"
  shows "\<exists>found' s' imgs. discover_from store es found s = Some (found', s') \<and> evolves s s' \<and> store_ok store s' \<and> locked s' = [] \<and>
    images_of found' = images_of found @ imgs \<and> drawn imgs es \<and> (\<forall>img \<in> set imgs. image_listed store s' img) \<and>
    listing_lasts store es imgs s' \<and> malformation_said found'"
  using assms
proof (induction es arbitrary: s found)
  case Nil
  then show ?case by (auto simp: give_def listing_lasts_def drawn_def)
next
  case (Cons e es)
  obtain found1 s1 imgs where one: "discover_one store e found s = Some (found1, s1)" "evolves s s1" "store_ok store s1" "locked s1 = []"
    "images_of found1 = images_of found @ imgs" "drawn imgs [e]" "\<forall>img \<in> set imgs. image_listed store s1 img"
    "listing_lasts store [e] imgs s1" "malformation_said found1"
    using discover_one_ensures [OF Cons.prems(1,2) _ _ Cons.prems(5), of e] Cons.prems(3) by auto
  have "\<forall>e \<in> set es. canonical (ne_name e) \<and> entry_ok e s1" using Cons.prems(3) entry_ok_evolves [OF one(2)] by auto
  then obtain found2 s2 imgs' where rest: "discover_from store es found1 s1 = Some (found2, s2)" "evolves s1 s2" "store_ok store s2" "locked s2 = []"
    "images_of found2 = images_of found1 @ imgs'" "drawn imgs' es" "\<forall>img \<in> set imgs'. image_listed store s2 img"
    "listing_lasts store es imgs' s2" "malformation_said found2"
    using Cons.IH [OF one(3,4) _ _ one(9)] Cons.prems(4) by auto
  have "discover_from store (e # es) found s = Some (found2, s2)" unfolding discover_from_step using one(1) rest(1) by (simp add: andthen_def)
  moreover have "listing_lasts store (e # es) (imgs @ imgs') s2"
    by (rule listing_lasts_Cons [OF listing_lasts_evolves [OF rest(2) one(8)] rest(8) Cons.prems(4) one(6) rest(6)])
  moreover have "drawn (imgs @ imgs') (e # es)" by (rule drawn_Cons [OF one(6) rest(6) Cons.prems(4)])
  moreover have "\<forall>img \<in> set (imgs @ imgs'). image_listed store s2 img" using one(7) rest(7) image_listed_evolves [OF rest(2)] by auto
  ultimately show ?case using one(5) rest(3,4,5,9) evolves_trans [OF one(2) rest(2)] by auto
qed

text \<open>What discovery ends with.\<close>

definition discovery_ok :: "'w Store \<Rightarrow> Discovered \<Rightarrow> 'w StoreCaches \<Rightarrow> bool" where
  "discovery_ok store found s \<longleftrightarrow>
     distinct (map ie_id (images_of found)) \<and> sorted (map image_order (images_of found)) \<and> (\<forall>img \<in> set (images_of found). image_listed store s img) \<and>
     di_default_image_id (fd_discovery found) = map_option ie_id (List.find ie_openable (images_of found)) \<and> malformation_said found \<and>
     (\<exists>es. holds_inventory s es \<and> entries_ok store es s \<and> listing_lasts store es (images_of found) s \<and> openable_ids (images_of found) \<subseteq> ne_name ` set es)"

lemma finish_discovery_simps [simp]:
  "di_images (finish_discovery d) = sort_key image_order (di_images d)" "di_diagnostics (finish_discovery d) = di_diagnostics d"
  "di_default_image_id (finish_discovery d) = map_option ie_id (List.find ie_openable (sort_key image_order (di_images d)))"
  by (simp_all add: finish_discovery_def Let_def)

lemma openable_ids_sort [simp]: "openable_ids (sort_key f imgs) = openable_ids imgs"
  by (simp add: openable_ids_def)

lemma distinct_sort_key: "distinct (map f (sort_key g xs)) = distinct (map f xs)"
  by (metis distinct_map distinct_sort set_sort)

lemma DiscoverImages_ensures:
  assumes "store_wf store"
  shows "ensures (store_ok store) UNIV (\<lambda>_. True) (DiscoverImages store) (\<lambda>r s. \<forall>found. r = Inr found \<longrightarrow> discovery_ok store found s)"
  unfolding DiscoverImages_def
proof (rule ensures_attempt [OF Inventory_holds [OF assms]], goal_cases)
  case (1 es)
  show ?case unfolding ensures_def
  proof (intro allI impI, goal_cases)
    case (1 s)
    then have s: "locked s = []" "holds_inventory s es" "entries_ok store es s" by auto
    then have es: "\<forall>e \<in> set es. canonical (ne_name e) \<and> entry_ok e s" "distinct (map ne_name es)"
      by (auto simp: entries_ok_def strict_sorted_iff)
    obtain found s' where run: "discover_from store es nothing_found s = Some (found, s')" "evolves s s'" "store_ok store s'"
      "drawn (images_of found) es" "\<forall>img \<in> set (images_of found). image_listed store s' img"
      "listing_lasts store es (images_of found) s'" "malformation_said found"
      using discover_from_run [OF 1(1) s(1) es, of nothing_found] by (auto simp: nothing_found_def images_of_def malformation_said_def)
    let ?found = "found\<lparr>fd_discovery := finish_discovery (fd_discovery found)\<rparr>"
    have "images_of ?found = sort_key image_order (images_of found)" by (simp add: images_of_def)
    moreover have "distinct (map ie_id (images_of found))" using run(4) by (simp add: drawn_def)
    moreover have "listing_lasts store es (sort_key image_order (images_of found)) s'" using run(6) by (simp add: listing_lasts_def)
    moreover have "entries_ok store es s'" using run(2) s(3) entries_ok_grows unfolding evolves_def by (metis grown.simps(1,2))
    ultimately have "discovery_ok store ?found s'"
      using run(5,7) holds_inventory_evolves [OF run(2) s(2)] openable_ids_listed [OF run(4)]
      by (auto simp: discovery_ok_def distinct_sort_key malformation_said_def images_of_def intro!: exI [of _ es])
    then show ?case using run(1-3) by (auto simp: andthen_def give_def)
  qed
qed simp

section \<open>The listing and what opens\<close>

lemma RequireQualified_held:
  assumes es: "holds_inventory s es" "entries_ok store es s" and s: "locked s = []"
    and known: "\<forall>e \<in> set es. \<exists>q. QualifyNode store e s = Some (q, s) \<and> (nq_openable q \<longleftrightarrow> ne_name e \<in> ids)" and ids: "ids \<subseteq> ne_name ` set es"
  shows "RequireQualified store image_id s = Some (Inr (), s) \<longleftrightarrow> image_id \<in> ids"
proof -
  have sorted: "sorted_wrt (<) (map ne_name es)" using es(2) by (simp add: entries_ok_def)
  note listing = Inventory_holding [OF es(1) s]
  have found: "FindNode store image_id s = Some (List.find (\<lambda>e. ne_name e = image_id) es, s)"
    using listing lower_bound_finds [OF sorted, of image_id] by (simp add: FindNode_def andthen_def give_def)
  show ?thesis
  proof (cases "List.find (\<lambda>e. ne_name e = image_id) es")
    case None
    then have "image_id \<notin> ids" using ids by (auto simp: find_None_iff)
    then show ?thesis using listing found None by (simp add: RequireQualified_def attempt_def andthen_def give_def)
  next
    case (Some e)
    then have e: "e \<in> set es" "ne_name e = image_id" by (auto simp: find_Some_iff)
    then obtain q where "QualifyNode store e s = Some (q, s)" "nq_openable q \<longleftrightarrow> image_id \<in> ids" using known by blast
    then show ?thesis using listing found Some
      by (auto simp: RequireQualified_def attempt_def andthen_def give_def calculate_def split: option.splits if_splits)
  qed
qed

text \<open>
  Claim C32. A listing and what opens are the same images. Once a store's images have been listed, and no read of array metadata
  failed in a way that is asked again, then after any further calls an image qualifies exactly when the listing offers it
  as openable, and finding that out reads nothing.
\<close>
theorem listing_is_what_opens:
  assumes opened: "OpenStore (Some transport) parse read_values libs files w = Some (Inr (store, s), w')"
    and before: "performs store earlier s = Some (replies, s0)"
    and listed: "DiscoverImages store s0 = Some (Inr found, s1)" and steady: "\<forall>node r. r \<in> set (array_metadata s1 node) \<longrightarrow> \<not> AskAgain r"
    and since: "performs store later s1 = Some (replies', s2)"
  shows "RequireQualified store image_id s2 = Some (Inr (), s2) \<longleftrightarrow>
    (\<exists>img \<in> set (di_images (fd_discovery found)). ie_id img = image_id \<and> ie_openable img)"
proof -
  note s0 = performs_open [OF opened before]
  note s1 = ensures_after [OF DiscoverImages_ensures [OF s0(1)] s0(2,3) listed]
  note s2 = ensures_after [OF performs_ensures [OF s0(1)] s1(2,3) since]
  obtain es where es: "holds_inventory s1 es" "entries_ok store es s1" "listing_lasts store es (images_of found) s1"
    "openable_ids (images_of found) \<subseteq> ne_name ` set es"
    using s1(4) by (auto simp: discovery_ok_def)
  have "entries_ok store es s2" using s2(1) es(2) entries_ok_grows unfolding evolves_def by (metis grown.simps(1,2))
  moreover have "steady s1" using steady by (simp add: steady_def)
  then have "\<forall>e \<in> set es. \<exists>q. QualifyNode store e s2 = Some (q, s2) \<and> (nq_openable q \<longleftrightarrow> ne_name e \<in> openable_ids (images_of found))"
    using es(3) s2(1,3) by (simp add: listing_lasts_def)
  ultimately have "RequireQualified store image_id s2 = Some (Inr (), s2) \<longleftrightarrow> image_id \<in> openable_ids (images_of found)"
    using RequireQualified_held [OF holds_inventory_evolves [OF s2(1) es(1)]] s2(3) es(4) by blast
  then show ?thesis by (auto simp: openable_ids_def images_of_def)
qed

lemma sky_lists: "case DiscoverImages sky_store sky_state of
    Some (Inr found, _) \<Rightarrow> map (\<lambda>img. (ie_id img, ie_openable img)) (di_images (fd_discovery found)) = [(''SKY'', True)] | _ \<Rightarrow> False"
  by code_simp

lemma sky_steady: "case DiscoverImages sky_store sky_state of Some (Inr found, s1) \<Rightarrow> list_all (\<lambda>r. \<not> AskAgain r) (array_metadata s1 node) | _ \<Rightarrow> False"
  by code_simp simp

lemma sky_discovers:
  obtains found s1 where "DiscoverImages sky_store sky_state = Some (Inr found, s1)" and "\<forall>node r. r \<in> set (array_metadata s1 node) \<longrightarrow> \<not> AskAgain r"
    and "\<exists>img \<in> set (di_images (fd_discovery found)). ie_id img = ''SKY'' \<and> ie_openable img"
proof -
  obtain found s1 where run: "DiscoverImages sky_store sky_state = Some (Inr found, s1)"
    and listed: "map (\<lambda>img. (ie_id img, ie_openable img)) (di_images (fd_discovery found)) = [(''SKY'', True)]"
    using sky_lists by (auto split: option.splits prod.splits sum.splits)
  have "(''SKY'', True) \<in> (\<lambda>img. (ie_id img, ie_openable img)) ` set (di_images (fd_discovery found))"
    unfolding set_map [symmetric] listed by simp
  then have "\<exists>img \<in> set (di_images (fd_discovery found)). ie_id img = ''SKY'' \<and> ie_openable img" by auto
  moreover have "\<forall>node r. r \<in> set (array_metadata s1 node) \<longrightarrow> \<not> AskAgain r" using sky_steady run by (simp add: list_all_iff)
  ultimately show ?thesis using that [OF run] by blast
qed

theorem listing_is_what_opens_witness:
  "\<exists>found s1. DiscoverImages sky_store sky_state = Some (Inr found, s1) \<and> RequireQualified sky_store ''SKY'' s1 = Some (Inr (), s1)"
proof -
  obtain found s1 where "DiscoverImages sky_store sky_state = Some (Inr found, s1)" "\<forall>node r. r \<in> set (array_metadata s1 node) \<longrightarrow> \<not> AskAgain r"
    "\<exists>img \<in> set (di_images (fd_discovery found)). ie_id img = ''SKY'' \<and> ie_openable img" by (rule sky_discovers)
  then show ?thesis using listing_is_what_opens [OF sky_opens performs_nothing _ _ performs_nothing, of found s1 "''SKY''"] by blast
qed

section \<open>What a probe accepts\<close>

lemma two_numbers_returns: "IsNumericVector v 2 \<Longrightarrow> \<exists>pair. two_numbers number v = Some pair"
  by (cases v) (auto simp: IsNumericVector_def two_numbers_def)

lemma ReadAnglePair_returns: "\<exists>read. ReadAnglePair doubles angles = Some read \<and> (read \<noteq> None \<longrightarrow> angles \<noteq> None)"
proof (cases "Option.bind angles (\<lambda>m. Member m ''data'')")
  case (Some data)
  then have "angles \<noteq> None" by (auto simp: bind_eq_Some_conv)
  then show ?thesis using Some two_numbers_returns [of data "\<lambda>v. db_degrees doubles (db_of_json doubles v)"] by (auto simp: ReadAnglePair_def)
qed (simp add: ReadAnglePair_def)

lemma IsNumericMatrix_rows:
  assumes "IsNumericMatrix v 2 2"
  obtains row0 row1 pair0 pair1 where "at_index v 0 = Some row0" "two_numbers number row0 = Some pair0" "at_index v 1 = Some row1" "two_numbers number row1 = Some pair1"
proof -
  obtain rows where rows: "v = JArray rows" "length rows = 2" "\<forall>i < 2. IsNumericVector (rows ! i) 2"
    using assms by (cases v) (auto simp: IsNumericMatrix_def list_all_length)
  then have "\<exists>pair. two_numbers number (rows ! i) = Some pair" if "i < 2" for i using that two_numbers_returns by blast
  then obtain pair0 pair1 where "two_numbers number (rows ! 0) = Some pair0" "two_numbers number (rows ! 1) = Some pair1" by (meson one_less_numeral_iff semiring_norm(76) zero_less_numeral)
  then show ?thesis using that rows(1,2) by simp
qed

lemma ReadCoordinateSystem_returns: "\<exists>read. ReadCoordinateSystem doubles root_attributes = Some read"
proof (cases "MemberObject root_attributes ''coordinate_system_info''")
  case (Some cs)
  let ?reference = "MemberObject cs ''reference_direction''"
  obtain read1 where read1: "ReadAnglePair doubles ?reference = Some read1" "read1 \<noteq> None \<longrightarrow> ?reference \<noteq> None"
    using ReadAnglePair_returns by blast
  obtain read2 where read2: "ReadAnglePair doubles (MemberObject cs ''native_pole_direction'') = Some read2" using ReadAnglePair_returns by blast
  show ?thesis
  proof (cases "Member cs ''pixel_coordinate_transformation_matrix''")
    case None
    then show ?thesis using Some read1 read2 by (cases read1; cases read2; cases ?reference) (auto simp: ReadCoordinateSystem_def Let_def)
  next
    case matrix: (Some matrix)
    show ?thesis
    proof (cases "IsNumericMatrix matrix 2 2")
      case True
      obtain row0 row1 pair0 pair1 where rows: "at_index matrix 0 = Some row0" "two_numbers (db_of_json doubles) row0 = Some pair0"
        "at_index matrix 1 = Some row1" "two_numbers (db_of_json doubles) row1 = Some pair1" using IsNumericMatrix_rows [OF True] .
      show ?thesis using Some read1 read2 matrix True rows
        by (cases read1; cases read2; cases ?reference) (auto simp: ReadCoordinateSystem_def Let_def)
    next
      case False
      then show ?thesis using Some read1 read2 matrix
        by (cases read1; cases read2; cases ?reference) (auto simp: ReadCoordinateSystem_def Let_def)
    qed
  qed
qed (simp add: ReadCoordinateSystem_def)

lemma CheckCoordinate_returns: "\<exists>r. CheckCoordinate libs md c = Some r"
  using IsFixedLengthUtf32_returns [of md] by (auto simp: CheckCoordinate_def defined_iff)

definition coordinate_ok :: "'w Store \<Rightarrow> 'w StoreCaches \<Rightarrow> Coordinate \<Rightarrow> bool" where
  "coordinate_ok store s c \<longleftrightarrow> (\<exists>md. holds_array s (co_name c) md \<and> CheckCoordinate (st_string_libs store) md c = Some (Inr ()))"

lemma coordinate_ok_evolves: "evolves s s' \<Longrightarrow> coordinate_ok store s c \<Longrightarrow> coordinate_ok store s' c"
  unfolding coordinate_ok_def using holds_array_evolves by blast

lemma report_failed [simp]: "\<not> report_ok (Fail code message node report)" "\<not> report_ok (report\<lparr>pr_error := Some e\<rparr>)"
  by (simp_all add: report_ok_def Fail_def)

lemma RequireArrayMetadata_true: "RequireArrayMetadata metadata node report = (True, report') \<Longrightarrow> report' = report \<and> (\<exists>md. metadata = Inr md)"
  by (auto simp: RequireArrayMetadata_def split: if_splits sum.splits)

lemma RequireArrayMetadata_false: "RequireArrayMetadata metadata node report = (False, report') \<Longrightarrow> \<not> report_ok report'"
  by (auto simp: RequireArrayMetadata_def split: if_splits sum.splits)

lemma RequireCoordinate_ensures:
  "ensures (store_ok store) UNIV (\<lambda>_. True) (RequireCoordinate store c report) (\<lambda>report' s. report_ok report' \<longrightarrow> coordinate_ok store s c)"
proof (cases "report_ok report")
  case True
  have checked: "ensures (store_ok store) UNIV
      (\<lambda>s. r \<in> set (array_metadata s (cache_key (co_name c))) \<and> (\<forall>md. r = Inr md \<longrightarrow> holds_array s (co_name c) md \<and> metadata_ok md))
      (case RequireArrayMetadata r (co_name c) report of
         (False, report) \<Rightarrow> give report
       | (True, report) \<Rightarrow>
           andthen (calculate (case r of Inl _ \<Rightarrow> None | Inr md \<Rightarrow> CheckCoordinate (st_string_libs store) md c)) (\<lambda>checked.
             give (case checked of Inr _ \<Rightarrow> report | Inl e \<Rightarrow> Fail (DiagnosticCodeFor (err_code e)) (err_message e) (co_name c) report)))
      (\<lambda>report' s. report_ok report' \<longrightarrow> coordinate_ok store s c)" for r
  proof (cases r)
    case (Inl e)
    then show ?thesis using True by (auto simp: RequireArrayMetadata_def intro: ensures_give)
  next
    case (Inr md)
    obtain checked where checked: "CheckCoordinate (st_string_libs store) md c = Some checked" using CheckCoordinate_returns by blast
    have "ensures (store_ok store) UNIV (\<lambda>s. holds_array s (co_name c) md)
        (give (case checked of Inr _ \<Rightarrow> report | Inl e \<Rightarrow> Fail (DiagnosticCodeFor (err_code e)) (err_message e) (co_name c) report))
        (\<lambda>report' s. report_ok report' \<longrightarrow> coordinate_ok store s c)"
      by (rule ensures_give) (use checked in \<open>auto simp: coordinate_ok_def split: sum.splits\<close>)
    then show ?thesis unfolding Inr using True checked by (auto simp: RequireArrayMetadata_def andthen_calculate elim: ensures_weaken)
  qed
  show ?thesis unfolding RequireCoordinate_def using True
    by (auto intro!: ensures_andthen [OF ensures_everywhere [OF ReadNodeMetadata_ensures, where post' = "\<lambda>_ _. True"]]
        ensures_give ensures_andthen [OF ReadArrayMetadata_holds] checked split: sum.split)
qed (auto simp: RequireCoordinate_def intro: ensures_give)

lemma RequireCoordinate_latches:
  assumes "RequireCoordinate store c report s = Some (report', s')" and "report_ok report'"
  shows "report_ok report"
  using assms by (cases "report_ok report") (auto simp: RequireCoordinate_def give_def)

lemma RequirePresentCoordinates_latches:
  assumes "RequirePresentCoordinates store cs report s = Some (report', s')" and "report_ok report'"
  shows "report_ok report"
  using assms
  by (induction cs arbitrary: report s) (auto simp: give_def andthen_def split: if_splits option.splits prod.splits dest: RequireCoordinate_latches)

lemma RequirePresentCoordinates_ensures:
  "ensures (store_ok store) UNIV (\<lambda>_. True) (RequirePresentCoordinates store cs report)
     (\<lambda>report' s. report_ok report' \<longrightarrow> (\<forall>c \<in> set cs. OnPlane c sky \<longrightarrow> coordinate_ok store s c))"
proof (induction cs arbitrary: report)
  case (Cons c cs)
  show ?case
  proof (cases "OnPlane c sky")
    case True
    have "ensures (store_ok store) UNIV (\<lambda>s. report_ok report1 \<longrightarrow> coordinate_ok store s c) (RequirePresentCoordinates store cs report1)
        (\<lambda>report' s. report_ok report' \<longrightarrow> (\<forall>c \<in> set (c # cs). OnPlane c sky \<longrightarrow> coordinate_ok store s c))" for report1
      unfolding ensures_def
    proof (intro allI impI, goal_cases)
      case (1 s)
      then obtain report' s' where "RequirePresentCoordinates store cs report1 s = Some (report', s')" "evolves s s'" "store_ok store s'"
        "report_ok report' \<longrightarrow> (\<forall>c \<in> set cs. OnPlane c sky \<longrightarrow> coordinate_ok store s' c)"
        using Cons.IH [of report1] unfolding ensures_def by blast
      moreover from this have "report_ok report' \<longrightarrow> coordinate_ok store s' c" using 1(3) RequirePresentCoordinates_latches coordinate_ok_evolves by blast
      ultimately show ?case by auto
    qed
    then show ?thesis using True by (auto intro: ensures_andthen [OF RequireCoordinate_ensures])
  qed (use Cons.IH in auto)
qed (auto intro: ensures_give)

text \<open>A report that a requirement was not met says which.\<close>

definition report_says :: "ProbeReport \<Rightarrow> bool" where
  "report_says report \<longleftrightarrow> (\<not> pr_met report \<longrightarrow> pr_diagnostics report \<noteq> [])"

lemma report_says_simps [simp]: "report_says (Fail code message node report)" "report_says (report\<lparr>pr_error := e\<rparr>) = report_says report"
  by (simp_all add: report_says_def Fail_def)

lemma RequireArrayMetadata_says: "RequireArrayMetadata metadata node report = (b, report') \<Longrightarrow> report_says report \<Longrightarrow> report_says report'"
  by (auto simp: RequireArrayMetadata_def split: if_splits sum.splits)

lemma RequireCoordinate_says: "RequireCoordinate store c report s = Some (report', s') \<Longrightarrow> report_says report \<Longrightarrow> report_says report'"
  by (auto simp: RequireCoordinate_def andthen_def give_def calculate_def dest: RequireArrayMetadata_says
      split: if_splits option.splits prod.splits sum.splits bool.splits)

lemma RequirePresentCoordinates_says:
  "RequirePresentCoordinates store cs report s = Some (report', s') \<Longrightarrow> report_says report \<Longrightarrow> report_says report'"
  by (induction cs arbitrary: report s)
    (auto simp: give_def andthen_def split: if_splits option.splits prod.splits dest: RequireCoordinate_says)

lemma ensures_also:
  assumes "ensures ok tables pre act post" and "\<And>s r s'. act s = Some (r, s') \<Longrightarrow> P r"
  shows "ensures ok tables pre act (\<lambda>r s. post r s \<and> P r)"
  using assms unfolding ensures_def by blast

definition listing_ok :: "'w Store \<Rightarrow> ImageDiscovery \<Rightarrow> 'w StoreCaches \<Rightarrow> bool" where
  "listing_ok store d s \<longleftrightarrow> distinct (map ie_id (di_images d)) \<and> sorted (map image_order (di_images d)) \<and>
     (\<forall>img \<in> set (di_images d). image_listed store s img) \<and> di_default_image_id d = map_option ie_id (List.find ie_openable (di_images d))"

lemma listing_ok_evolves: "evolves s s' \<Longrightarrow> listing_ok store d s \<Longrightarrow> listing_ok store d s'"
  unfolding listing_ok_def using image_listed_evolves by blast

definition inspection_ok :: "Doubles \<Rightarrow> 'w Store \<Rightarrow> SchemaInspection \<Rightarrow> 'w StoreCaches \<Rightarrow> bool" where
  "inspection_ok doubles store inspection s \<longleftrightarrow>
     (sp_kind (si_probe inspection) = schema_match \<longrightarrow>
        listing_ok store (si_discovery inspection) s \<and> di_default_image_id (si_discovery inspection) \<noteq> None \<and>
        (\<forall>c \<in> set kCoordinates. OnPlane c sky \<longrightarrow> coordinate_ok store s c) \<and>
        (\<exists>direction. ReadCoordinateSystem doubles (st_root_attributes store) = Some (Inr direction))) \<and>
     (sp_kind (si_probe inspection) = schema_invalid \<longrightarrow> sp_diagnostics (si_probe inspection) \<noteq> [])"

lemma finish_inspection_iff:
  "finish_inspection report discovery kind = Inr inspection \<longleftrightarrow> pr_error report = None \<and>
     inspection = \<lparr>si_probe = \<lparr>sp_kind = kind, sp_schema_id = kXradioImageSchema, sp_schema_version = kVersion, sp_diagnostics = pr_diagnostics report\<rparr>,
                   si_discovery = discovery\<rparr>"
  by (auto simp: finish_inspection_def Finish_def split: option.split)

lemma said_first:
  assumes "malformation_said found"
  obtains discovery where
    "(case (di_default_image_id (fd_discovery found), fd_first_malformation found) of
        (None, Some k) \<Rightarrow> map_option (\<lambda>said. (fd_discovery found)\<lparr>di_diagnostics := said\<rparr>) (rotate_to_front k (di_diagnostics (fd_discovery found)))
      | _ \<Rightarrow> Some (fd_discovery found)) = Some discovery"
    "di_images discovery = images_of found" "di_default_image_id discovery = di_default_image_id (fd_discovery found)"
    "di_default_image_id discovery = None \<Longrightarrow> fd_first_malformation found \<noteq> None \<Longrightarrow> di_diagnostics discovery \<noteq> []"
  using assms by (cases "di_default_image_id (fd_discovery found)"; cases "fd_first_malformation found")
    (auto simp: malformation_said_def rotate_to_front_def images_of_def)

lemma coordinates_inspected:
  fixes store :: "'w Store"
  assumes "report_says report" and "di_default_image_id discovery \<noteq> None"
  shows "ensures (store_ok store) UNIV (listing_ok store discovery)
     (andthen (RequirePresentCoordinates store kCoordinates report) (\<lambda>report.
      andthen (calculate (RequireCoordinateSystem doubles (st_root_attributes store) report)) (\<lambda>report.
        give (finish_inspection report discovery (if report_ok report then schema_match else schema_invalid)))))
     (\<lambda>r s. \<forall>inspection. r = Inr inspection \<longrightarrow> inspection_ok doubles store inspection s)"
proof -
  have present: "ensures (store_ok store) UNIV (listing_ok store discovery) (RequirePresentCoordinates store kCoordinates report)
      (\<lambda>report' s. ((report_ok report' \<longrightarrow> (\<forall>c \<in> set kCoordinates. OnPlane c sky \<longrightarrow> coordinate_ok store s c)) \<and> listing_ok store discovery s) \<and> report_says report')"
    using assms(1) by (intro ensures_also ensures_keep [OF RequirePresentCoordinates_ensures]) (auto intro: listing_ok_evolves RequirePresentCoordinates_says)
  obtain read where read: "ReadCoordinateSystem doubles (st_root_attributes store) = Some read" using ReadCoordinateSystem_returns by blast
  have system: "\<exists>report2. RequireCoordinateSystem doubles (st_root_attributes store) report1 = Some report2 \<and>
      (report_ok report2 \<longrightarrow> report_ok report1 \<and> isl read = False) \<and> (report_says report1 \<longrightarrow> report_says report2)" for report1
    using read by (auto simp: RequireCoordinateSystem_def split: sum.split)
  show ?thesis
  proof (rule ensures_andthen [OF present], goal_cases)
    case (1 report1)
    obtain report2 where report2: "RequireCoordinateSystem doubles (st_root_attributes store) report1 = Some report2"
      "report_ok report2 \<longrightarrow> report_ok report1 \<and> isl read = False" "report_says report1 \<longrightarrow> report_says report2" using system by blast
    show ?case unfolding report2(1) andthen_calculate
      by (rule ensures_give) (use report2 read assms(2) in \<open>auto simp: finish_inspection_iff inspection_ok_def report_ok_def report_says_def split: if_splits; cases read; auto\<close>)
  qed
qed

lemma image_inspected:
  fixes store :: "'w Store"
  assumes report: "report_says report" and default: "di_default_image_id discovery \<noteq> None"
  shows "ensures (store_ok store) UNIV (listing_ok store discovery)
     (andthen (ReadArrayMetadata store first_image) (\<lambda>array_result.
        case RequireArrayMetadata array_result first_image report of
          (False, report) \<Rightarrow> give (finish_inspection report discovery (if report_ok report then schema_match else schema_invalid))
        | (True, report) \<Rightarrow>
            andthen (RequirePresentCoordinates store kCoordinates report) (\<lambda>report.
            andthen (calculate (RequireCoordinateSystem doubles (st_root_attributes store) report)) (\<lambda>report.
              give (finish_inspection report discovery (if report_ok report then schema_match else schema_invalid))))))
     (\<lambda>r s. \<forall>inspection. r = Inr inspection \<longrightarrow> inspection_ok doubles store inspection s)"
proof -
  have read: "ensures (store_ok store) UNIV (listing_ok store discovery) (ReadArrayMetadata store first_image) (\<lambda>_. listing_ok store discovery)"
    by (rule ensures_weaken [OF ensures_keep [OF ReadArrayMetadata_holds, where P = "listing_ok store discovery"]]) (auto intro: listing_ok_evolves)
  show ?thesis
  proof (rule ensures_andthen [OF read], goal_cases)
    case (1 array_result)
    obtain b report' where required: "RequireArrayMetadata array_result first_image report = (b, report')" by fastforce
    note says = RequireArrayMetadata_says [OF required report]
    show ?case
    proof (cases b rule: bool.exhaust [case_names True False])
      case True
      show ?thesis unfolding required True prod.case bool.case by (rule coordinates_inspected [OF says default])
    next
      case False
      have "\<not> report_ok report'" using RequireArrayMetadata_false required False by blast
      then show ?thesis unfolding required False prod.case bool.case
        by (intro ensures_give) (use says in \<open>auto simp: finish_inspection_iff inspection_ok_def report_ok_def report_says_def\<close>)
    qed
  qed
qed

lemma InspectImages_ensures:
  assumes "store_wf store"
  shows "ensures (store_ok store) UNIV (\<lambda>_. True) (InspectImages doubles store) (\<lambda>r s. \<forall>inspection. r = Inr inspection \<longrightarrow> inspection_ok doubles store inspection s)"
  unfolding InspectImages_def Let_def
proof (rule ensures_attempt [OF DiscoverImages_ensures [OF assms]], goal_cases)
  case (1 found)
  show ?case
  proof (cases "malformation_said found")
    case True
    obtain discovery where discovery: "(case (di_default_image_id (fd_discovery found), fd_first_malformation found) of
        (None, Some k) \<Rightarrow> map_option (\<lambda>said. (fd_discovery found)\<lparr>di_diagnostics := said\<rparr>) (rotate_to_front k (di_diagnostics (fd_discovery found)))
      | _ \<Rightarrow> Some (fd_discovery found)) = Some discovery"
      "di_images discovery = images_of found" "di_default_image_id discovery = di_default_image_id (fd_discovery found)"
      "di_default_image_id discovery = None \<Longrightarrow> fd_first_malformation found \<noteq> None \<Longrightarrow> di_diagnostics discovery \<noteq> []"
      using said_first [OF True] by metis
    have says: "report_says ((new_ProbeReport ''image dataset'')\<lparr>pr_diagnostics := di_diagnostics discovery\<rparr>)"
      by (simp add: report_says_def new_ProbeReport_def)
    have listed: "listing_ok store discovery s" if "discovery_ok store found s" for s
      using that discovery(2,3) by (simp add: discovery_ok_def listing_ok_def)
    show ?thesis
    proof (cases "di_default_image_id discovery")
      case None
      show ?thesis unfolding discovery(1) andthen_calculate None option.case
        by (rule ensures_give) (use discovery(4) [OF None] in \<open>auto simp: finish_inspection_iff inspection_ok_def\<close>)
    next
      case (Some first_image)
      have default: "di_default_image_id discovery \<noteq> None" using Some by simp
      show ?thesis unfolding discovery(1) andthen_calculate Some option.case
        by (rule ensures_weaken [OF image_inspected [OF says default]]) (auto intro: listed)
    qed
  next
    case False
    then show ?thesis by (auto simp: ensures_def discovery_ok_def)
  qed
qed simp

text \<open>What \<open>ProbeStore\<close> answers.\<close>

definition probe_ok :: "Doubles \<Rightarrow> 'w Store \<Rightarrow> ProbeResult \<Rightarrow> 'w StoreCaches \<Rightarrow> bool" where
  "probe_ok doubles store probe s \<longleftrightarrow>
     (if pb_kind probe = supported_dataset
      then \<exists>d. listing_ok store d s \<and> di_images d = pb_images probe \<and> di_default_image_id d = pb_default_image_id probe \<and> di_default_image_id d \<noteq> None \<and>
           (\<forall>c \<in> set kCoordinates. OnPlane c sky \<longrightarrow> coordinate_ok store s c) \<and>
           (\<exists>direction. ReadCoordinateSystem doubles (st_root_attributes store) = Some (Inr direction))
      else pb_images probe = [] \<and> pb_default_image_id probe = None \<and> (pb_kind probe = invalid_dataset \<longrightarrow> pb_diagnostics probe \<noteq> []))"

lemma ProbeStore_ensures:
  assumes "store_wf store"
  shows "ensures (store_ok store) UNIV (\<lambda>_. True) (ProbeStore doubles store) (\<lambda>r s. \<forall>probe. r = Inr probe \<longrightarrow> probe_ok doubles store probe s)"
  unfolding ProbeStore_def BuiltIn_def ask_profiles.simps Let_def snd_conv
proof (rule ensures_attempt [where mid = "\<lambda>r s. \<forall>matches bad unmatched. r = Inr (matches, bad, unmatched) \<longrightarrow>
    (matches = [] \<and> (\<forall>p \<in> set bad. sp_diagnostics p \<noteq> [])) \<or>
    (\<exists>inspection. matches = [inspection] \<and> sp_kind (si_probe inspection) = schema_match \<and> inspection_ok doubles store inspection s)"], goal_cases)
  case 1
  show ?case
    by (rule ensures_attempt [OF InspectImages_ensures [OF assms]], rule ensures_give)
      (auto simp: inspection_ok_def split: SchemaMatchKind.splits)
next
  case (2 answers)
  obtain matches bad unmatched where answers: "answers = (matches, bad, unmatched)" by (cases answers)
  show ?case unfolding answers prod.case
    by (rule ensures_give) (auto simp: probe_ok_def unprobed_def inspection_ok_def neq_Nil_conv split: list.split)
qed simp

lemma find_first: "List.find P xs = Some x \<Longrightarrow> sorted (map f xs) \<Longrightarrow> x \<in> set xs \<and> P x \<and> (\<forall>y \<in> set xs. P y \<longrightarrow> f x \<le> f y)"
  by (induction xs) (auto split: if_splits)

text \<open>
  Claim C33. Probing a store always returns, and a dataset it supports is one that can be opened: its images are listed once each,
  the images XRADIO names first and then by name; the default image is the first that opens; what opens has the five axes of an
  image, and what does not says why; every coordinate of the sky plane is held by the store and well formed; and the coordinate
  system reads. A store that is refused lists nothing, and one refused as broken says what is wrong with it. Requiring a dataset that opens
  succeeds exactly on the supported ones, and names the first thing said about one refused as broken.
\<close>
theorem ProbeStore_supports_what_opens:
  assumes opened: "OpenStore (Some transport) parse read_values libs files w = Some (Inr (store, s), w')"
    and before: "performs store earlier s = Some (replies, s0)"
  shows "\<exists>r s1. ProbeStore doubles store s0 = Some (r, s1) \<and> (\<forall>probe. r = Inr probe \<longrightarrow>
    (RequireOpenableDataset probe location = Inr () \<longleftrightarrow> pb_kind probe = supported_dataset) \<and>
    (if pb_kind probe = supported_dataset
     then distinct (map ie_id (pb_images probe)) \<and> sorted (map image_order (pb_images probe)) \<and>
       (\<exists>first \<in> set (pb_images probe). ie_openable first \<and> pb_default_image_id probe = Some (ie_id first) \<and>
          (\<forall>img \<in> set (pb_images probe). ie_openable img \<longrightarrow> image_order first \<le> image_order img)) \<and>
       (\<forall>img \<in> set (pb_images probe).
          if ie_openable img then map ax_role (ie_axes img) = [spatial_x, spatial_y, spectral, polarization, time] \<and> ie_diagnostics img = []
          else ie_axes img = [] \<and> ie_diagnostics img \<noteq> []) \<and>
       (\<forall>c \<in> set kCoordinates. OnPlane c sky \<longrightarrow>
          (\<exists>md. ReadArrayMetadata store (co_name c) s1 = Some (Inr md, s1) \<and> CheckCoordinate (st_string_libs store) md c = Some (Inr ()))) \<and>
       (\<exists>direction. ReadCoordinateSystem doubles (st_root_attributes store) = Some (Inr direction))
     else pb_images probe = [] \<and> pb_default_image_id probe = None \<and>
       (pb_kind probe = invalid_dataset \<longrightarrow>
          RequireOpenableDataset probe location = Inl (mk_error invalid_metadata (dg_message (hd (pb_diagnostics probe))) location))))"
proof -
  note s0 = performs_open [OF opened before]
  obtain r s1 where s1: "ProbeStore doubles store s0 = Some (r, s1)" "locked s1 = []" "\<forall>probe. r = Inr probe \<longrightarrow> probe_ok doubles store probe s1"
    using ensures_run [OF ProbeStore_ensures [OF s0(1)] s0(2,3)] by metis
  have accepted: "distinct (map ie_id (pb_images probe)) \<and> sorted (map image_order (pb_images probe)) \<and>
       (\<exists>first \<in> set (pb_images probe). ie_openable first \<and> pb_default_image_id probe = Some (ie_id first) \<and>
          (\<forall>img \<in> set (pb_images probe). ie_openable img \<longrightarrow> image_order first \<le> image_order img)) \<and>
       (\<forall>img \<in> set (pb_images probe). image_listed store s1 img) \<and> (\<forall>c \<in> set kCoordinates. OnPlane c sky \<longrightarrow> coordinate_ok store s1 c) \<and>
       (\<exists>direction. ReadCoordinateSystem doubles (st_root_attributes store) = Some (Inr direction))"
    if probe: "probe_ok doubles store probe s1" "pb_kind probe = supported_dataset" for probe
  proof -
    obtain d where d: "listing_ok store d s1" "di_images d = pb_images probe" "di_default_image_id d = pb_default_image_id probe" "di_default_image_id d \<noteq> None"
      using probe unfolding probe_ok_def by metis
    then obtain first where first: "List.find ie_openable (pb_images probe) = Some first" "pb_default_image_id probe = Some (ie_id first)"
      by (auto simp: listing_ok_def)
    have order: "sorted (map image_order (pb_images probe))" using d(1,2) by (simp add: listing_ok_def)
    show ?thesis using find_first [OF first(1) order] first(2) order d probe unfolding listing_ok_def probe_ok_def by metis
  qed
  have images: "pb_images probe \<noteq> []" if "probe_ok doubles store probe s1" "pb_kind probe = supported_dataset" for probe
    using accepted [OF that] by fastforce
  have checked: "\<exists>md. ReadArrayMetadata store (co_name c) s1 = Some (Inr md, s1) \<and> CheckCoordinate (st_string_libs store) md c = Some (Inr ())"
    if "coordinate_ok store s1 c" for c
    using that ReadArrayMetadata_held s1(2) unfolding coordinate_ok_def by blast
  have refused: "pb_images probe = []" "pb_default_image_id probe = None"
    "pb_kind probe = invalid_dataset \<Longrightarrow> RequireOpenableDataset probe location = Inl (mk_error invalid_metadata (dg_message (hd (pb_diagnostics probe))) location)"
    if "probe_ok doubles store probe s1" "pb_kind probe \<noteq> supported_dataset" for probe
    using that by (auto simp: probe_ok_def RequireOpenableDataset_def RejectionMessage_def split: list.split)
  show ?thesis
  proof (intro exI conjI allI impI, rule s1(1), goal_cases)
    case (1 probe)
    then have ok: "probe_ok doubles store probe s1" using s1(3) by simp
    then show ?case using images [OF ok] by (auto simp: RequireOpenableDataset_def)
  next
    case (2 probe)
    then have ok: "probe_ok doubles store probe s1" using s1(3) by simp
    show ?case
    proof (cases "pb_kind probe = supported_dataset")
      case True
      show ?thesis using accepted [OF ok True] checked True unfolding image_listed_def by simp
    qed (use refused [OF ok] in auto)
  qed
qed

text \<open>A store with an image and all of its coordinates.\<close>

definition coordinate_document :: "string \<Rightarrow> nat \<Rightarrow> json" where
  "coordinate_document name extent = JObject
     [(''zarr_format'', JUnsigned 3), (''node_type'', JString ''array''), (''shape'', JArray [JUnsigned extent]),
      (''data_type'', if name = ''polarization'' then JObject [(''name'', JString ''fixed_length_utf32''), (''configuration'', JObject [(''length_bytes'', JUnsigned 4)])]
                      else JString ''float64''),
      (''dimension_names'', JArray [JString name]), (''fill_value'', if name = ''polarization'' then JString [] else JUnsigned 0),
      (''chunk_grid'', JObject [(''name'', JString ''regular''), (''configuration'', JObject [(''chunk_shape'', JArray [JUnsigned extent])])]),
      (''chunk_key_encoding'', JObject [(''name'', JString ''default''), (''configuration'', JObject [(''separator'', JString ''/'')])]),
      (''codecs'', JArray [JObject [(''name'', JString ''bytes''), (''configuration'', JObject [(''endian'', JString ''little'')])]]), (''attributes'', JObject [])]"

definition pair_measure :: json where
  "pair_measure = JObject [(''data'', JArray [JUnsigned 0, JUnsigned 1])]"

definition dataset_root :: json where
  "dataset_root = JObject
     [(''zarr_format'', JUnsigned 3), (''node_type'', JString ''group''),
      (''attributes'', JObject [(''coordinate_system_info'', JObject
         [(''projection'', JString ''SIN''), (''reference_direction'', pair_measure), (''native_pole_direction'', pair_measure),
          (''pixel_coordinate_transformation_matrix'', JArray [JArray [JUnsigned 1, JUnsigned 0], JArray [JUnsigned 0, JUnsigned 1]])])]),
      (''consolidated_metadata'', JObject [(''metadata'', JObject
         [(''SKY'', sky_document ''float32'' ''sky''), (''frequency'', coordinate_document ''frequency'' 4), (''l'', coordinate_document ''l'' 10),
          (''m'', coordinate_document ''m'' 8), (''polarization'', coordinate_document ''polarization'' 2), (''time'', coordinate_document ''time'' 1)])])]"

definition dataset_parse :: "string \<Rightarrow> thrown + json" where
  "dataset_parse bytes = (if bytes = ''root'' then Inr dataset_root else Inl (parse_error ''unexpected end of input''))"

definition dataset_opened :: "nat Store \<times> nat StoreCaches" where
  "dataset_opened = (case OpenStore (Some example_transport) dataset_parse example_numbers plain_libs example_files 0 of Some (Inr opened, _) \<Rightarrow> opened)"

lemma dataset_opens:
  "OpenStore (Some example_transport) dataset_parse example_numbers plain_libs example_files 0 = Some (Inr (fst dataset_opened, snd dataset_opened), 1)"
proof -
  have "case OpenStore (Some example_transport) dataset_parse example_numbers plain_libs example_files 0 of Some (Inr _, w) \<Rightarrow> w = 1 | _ \<Rightarrow> False"
    by code_simp
  then show ?thesis by (auto simp: dataset_opened_def split: option.splits prod.splits sum.splits)
qed

definition example_doubles :: Doubles where
  "example_doubles = \<lparr>db_of_json = (\<lambda>v. case v of JUnsigned n \<Rightarrow> of_nat n | _ \<Rightarrow> 0), db_degrees = (\<lambda>x. x), db_of_string = (\<lambda>_. None), db_zero = 0\<rparr>"

lemma dataset_supported:
  "case ProbeStore example_doubles (fst dataset_opened) (snd dataset_opened) of Some (Inr probe, _) \<Rightarrow> pb_kind probe = supported_dataset | _ \<Rightarrow> False"
  by code_simp

theorem ProbeStore_supports_what_opens_witness:
  "\<exists>probe first s1. ProbeStore example_doubles (fst dataset_opened) (snd dataset_opened) = Some (Inr probe, s1) \<and>
     RequireOpenableDataset probe ''/data'' = Inr () \<and> first \<in> set (pb_images probe) \<and> ie_openable first \<and> pb_default_image_id probe = Some (ie_id first)"
proof -
  obtain probe s1 where "ProbeStore example_doubles (fst dataset_opened) (snd dataset_opened) = Some (Inr probe, s1)" "pb_kind probe = supported_dataset"
    using dataset_supported by (auto split: option.splits prod.splits sum.splits)
  then show ?thesis using ProbeStore_supports_what_opens [OF dataset_opens performs_nothing, of example_doubles "''/data''"] by auto
qed

end
