(* ===== verification/Read_Ahead.thy ===== *)
theory Read_Ahead
  imports Pixel_Selection "HOL-Library.AList"
begin

text \<open>
  \<open>src/read_ahead.cc\<close>: decoding the next run of chunks of each animated image while the frames of this one play. A run
  is the box of chunks a read decodes. The policy is the locked part of \<open>ReadingAhead::Served\<close>; around it are the
  thread that serves frames, the worker that decodes, and the threads that cancel, whose steps interleave in any
  order. What an image answers for its planes (\<open>RunSource\<close>) is a record of its answers; what a decode does is left
  open: it may return or throw.
\<close>

section \<open>Runs\<close>

record Run =
  run_first :: "u64 list"
  run_last :: "u64 list"

definition ChunksAlong :: "u64 \<Rightarrow> u64 \<Rightarrow> u64" where
  "ChunksAlong len chunk = (if chunk = 0 then 1 else max 1 (sub64 (add64 len chunk) 1 div chunk))"

text \<open>The last element of a range; a stride of zero steps by one.\<close>

definition last_of :: "Range \<Rightarrow> u64" where
  "last_of rng = add64 (rg_start rng) (if rg_count rng = 0 then 0 else mul64 (sub64 (rg_count rng) 1) (max 1 (rg_stride rng)))"

definition RunOf :: "ChunkGeometry \<Rightarrow> ReadRequest \<Rightarrow> Run" where
  "RunOf geometry request =
     \<lparr>run_first = map (\<lambda>axis. let chunk = extent_at geometry axis in if chunk = 0 then 0 else rg_start (request ! axis) div chunk)
                    [0..<length request],
      run_last = map (\<lambda>axis. let chunk = extent_at geometry axis in if chunk = 0 then 0 else last_of (request ! axis) div chunk)
                   [0..<length request]\<rparr>"

definition run_range :: "ImageDescriptor \<Rightarrow> ChunkGeometry \<Rightarrow> Run \<Rightarrow> nat \<Rightarrow> Range" where
  "run_range descriptor geometry run axis =
     (let len = ax_length (img_axes descriptor ! axis);
          chunk = extent_at geometry axis;
          first = (if chunk = 0 then 0 else min len (mul64 (run_first run ! axis) chunk));
          end' = (if chunk = 0 then len else min len (mul64 (add64 (run_last run ! axis) 1) chunk))
      in \<lparr>rg_start = first, rg_count = sub64 end' first, rg_stride = 1\<rparr>)"

definition RunRequest :: "ImageDescriptor \<Rightarrow> ChunkGeometry \<Rightarrow> ReadRequest \<Rightarrow> ReadRequest" where
  "RunRequest descriptor geometry plane =
     map (\<lambda>axis. if axis < length (img_axes descriptor) then run_range descriptor geometry (RunOf geometry plane) axis else plane ! axis)
       [0..<length plane]"

definition PlaneRunBytes :: "ImageDescriptor \<Rightarrow> ChunkGeometry \<Rightarrow> ChunkGeometry \<Rightarrow> bool \<Rightarrow> u64" where
  "PlaneRunBytes descriptor geometry flag_geometry apply_mask =
     (case (AxisIndex (img_axes descriptor) spatial_x, AxisIndex (img_axes descriptor) spatial_y) of
        (Some x, Some y) \<Rightarrow>
          let len = (\<lambda>axis. ax_length (img_axes descriptor ! axis));
              chunks = mul64 (ChunksAlong (len x) (extent_at geometry x)) (ChunksAlong (len y) (extent_at geometry y));
              pixels = mul64 chunks (DecodedChunkBytes descriptor geometry);
              flag = (if chunk_shape flag_geometry = [] then geometry else flag_geometry);
              flag_chunks = foldl (\<lambda>chunks axis. mul64 chunks
                  (if axis = x \<or> axis = y then ChunksAlong (len axis) (extent_at flag axis)
                   else FlagChunksAcross (len axis) (extent_at geometry axis) (extent_at flag axis)))
                1 [0..<length (img_axes descriptor)]
          in if \<not> apply_mask then pixels else add64 pixels (mul64 flag_chunks (ChunkElements flag))
      | _ \<Rightarrow> 0)"

section \<open>What reading ahead is for\<close>

record CacheShare =
  cs_identity :: nat
  cs_bytes :: u64

record RunSource =
  src_RunOf :: "ReadRequest \<Rightarrow> Run"
  src_PlaneRunBytes :: u64
  src_Cache :: CacheShare
  src_Name :: string

text \<open>The answers of an image read with its options.\<close>

definition ImageRuns :: "ImageDescriptor \<Rightarrow> ChunkGeometry \<Rightarrow> ChunkGeometry \<Rightarrow> 'w ReadOptions \<Rightarrow> CacheShare \<Rightarrow> RunSource" where
  "ImageRuns descriptor geometry flag_geometry options cache =
     \<lparr>src_RunOf = RunOf geometry,
      src_PlaneRunBytes = PlaneRunBytes descriptor geometry flag_geometry (AppliesPixelMask options descriptor),
      src_Cache = cache, src_Name = img_id descriptor\<rparr>"

record AnimatedPlane =
  ap_image :: nat
  ap_request :: ReadRequest

record ReadAheadStats =
  prefetches :: nat
  caught_up :: nat
  stopped :: bool
  under_way :: bool

definition Size :: "u64 \<Rightarrow> string" where
  "Size bytes = (if bytes < 2 ^ 20 then to_string bytes @ '' bytes'' else to_string (bytes div 2 ^ 20) @ '' MiB'')"

record Demand =
  dm_needed :: u64
  dm_holds :: u64
  dm_images :: string

definition add_demand :: "RunSource \<Rightarrow> Demand option \<Rightarrow> Demand" where
  "add_demand source d =
     (let d = (case d of None \<Rightarrow> \<lparr>dm_needed = 0, dm_holds = 0, dm_images = []\<rparr> | Some d \<Rightarrow> d)
      in \<lparr>dm_needed = add64 (dm_needed d) (mul64 2 (src_PlaneRunBytes source)), dm_holds = cs_bytes (src_Cache source),
          dm_images = dm_images d @ (if dm_images d = [] then [] else '', '') @ src_Name source\<rparr>)"

definition no_plane :: "string \<Rightarrow> string \<Rightarrow> Error" where
  "no_plane named node = mk_error invalid_argument (''Reading ahead needs a plane of every image, and '' @ named @ '' has none'') node"

fun demands :: "RunSource option list \<Rightarrow> (nat \<times> Demand) list \<Rightarrow> (nat \<times> Demand) list result" where
  "demands [] caches = Inr caches"
| "demands (None # sources) caches = Inl (no_plane ''one image'' [])"
| "demands (Some source # sources) caches =
     (if src_PlaneRunBytes source = 0 then Inl (no_plane (src_Name source) (src_Name source))
      else let key = cs_identity (src_Cache source)
           in demands sources (AList.update key (add_demand source (map_of caches key)) caches))"

definition no_room :: "Demand \<Rightarrow> Error" where
  "no_room d =
     mk_error buffer_too_small
       (''Reading ahead needs room for two runs of chunks of each image in the cache it reads through: '' @ dm_images d @
        '' need '' @ Size (dm_needed d) @ '' and their cache holds '' @ Size (dm_holds d)) []"

text \<open>The sources a reading ahead is made of. The map of demands is walked in the order of its keys.\<close>

definition For :: "RunSource option list \<Rightarrow> RunSource list result" where
  "For sources =
     (if sources = [] then Inl (mk_error invalid_argument ''Reading ahead needs an image to read ahead of'' [])
      else case demands sources [] of
             Inl e \<Rightarrow> Inl e
           | Inr caches \<Rightarrow>
               (case List.find (\<lambda>key. dm_holds (the (map_of caches key)) < dm_needed (the (map_of caches key))) (sort (map fst caches)) of
                  Some key \<Rightarrow> Inl (no_room (the (map_of caches key)))
                | None \<Rightarrow> Inr (map the sources)))"

section \<open>The policy\<close>

definition kUpcomingFrames :: nat where "kUpcomingFrames = 64"

type_synonym work = "(RunSource \<times> ReadRequest) list"

record ReadingAhead =
  ra_sources :: "RunSource list"
  ra_cancelled :: bool
  ra_under_way :: bool
  ra_started :: nat
  ra_finished :: nat
  ra_prefetching :: "(nat \<times> Run) list"
  ra_counted_catch :: bool
  ra_requested :: "(nat \<times> Run) list"
  ra_stats :: ReadAheadStats

definition ReadingAhead_init :: "RunSource list \<Rightarrow> ReadingAhead" where
  "ReadingAhead_init sources =
     \<lparr>ra_sources = sources, ra_cancelled = False, ra_under_way = False, ra_started = 0, ra_finished = 0, ra_prefetching = [],
      ra_counted_catch = False, ra_requested = [], ra_stats = \<lparr>prefetches = 0, caught_up = 0, stopped = False, under_way = False\<rparr>\<rparr>"

definition stop :: "ReadingAhead \<Rightarrow> ReadingAhead" where
  "stop ra = ra\<lparr>ra_stats := (ra_stats ra)\<lparr>stopped := True\<rparr>\<rparr>"

text \<open>Whether a shown plane is in a run being prefetched, and counting the first such.\<close>

definition catches :: "ReadingAhead \<Rightarrow> AnimatedPlane \<Rightarrow> bool" where
  "catches ra plane \<longleftrightarrow>
     (case map_of (ra_prefetching ra) (ap_image plane) of
        None \<Rightarrow> False
      | Some run \<Rightarrow> ap_image plane < length (ra_sources ra) \<and> src_RunOf (ra_sources ra ! ap_image plane) (ap_request plane) = run)"

definition overlapped :: "nat \<Rightarrow> ReadingAhead \<Rightarrow> bool" where
  "overlapped began ra \<longleftrightarrow> ra_prefetching ra \<noteq> [] \<and> ra_started ra \<le> began \<and> (ra_under_way ra \<or> began < ra_finished ra)"

definition note_frame :: "nat \<Rightarrow> bool \<Rightarrow> AnimatedPlane list \<Rightarrow> ReadingAhead \<Rightarrow> ReadingAhead" where
  "note_frame began late shown ra =
     (let shared = overlapped began ra;
          ra = (if late \<and> shared then stop ra else ra)
      in if shared \<and> \<not> ra_counted_catch ra \<and> list_ex (catches ra) shown
         then ra\<lparr>ra_stats := (ra_stats ra)\<lparr>caught_up := (caught_up (ra_stats ra) + 1) mod 2 ^ 32\<rparr>, ra_counted_catch := True\<rparr>
         else ra)"

text \<open>The first plane of an image among the frames to come that is in another run than the one shown.\<close>

fun next_run :: "RunSource \<Rightarrow> nat \<Rightarrow> Run \<Rightarrow> AnimatedPlane list list \<Rightarrow> (ReadRequest \<times> Run) option" where
  "next_run source img run_now [] = None"
| "next_run source img run_now (planes # frames) =
     (case List.find (\<lambda>candidate. ap_image candidate = img) planes of
        None \<Rightarrow> next_run source img run_now frames
      | Some plane \<Rightarrow>
          let run = src_RunOf source (ap_request plane)
          in if run = run_now then next_run source img run_now frames else Some (ap_request plane, run))"

fun plan_runs ::
  "RunSource list \<Rightarrow> AnimatedPlane list list \<Rightarrow> AnimatedPlane list \<Rightarrow> (nat \<times> Run) list \<Rightarrow> (nat \<times> Run) list \<Rightarrow> work \<Rightarrow>
   (nat \<times> Run) list \<times> (nat \<times> Run) list \<times> work"
where
  "plan_runs sources frames [] requested runs work = (requested, runs, work)"
| "plan_runs sources frames (now # shown) requested runs work =
     (if length sources \<le> ap_image now \<or> map_of runs (ap_image now) \<noteq> None
      then plan_runs sources frames shown requested runs work
      else
        let source = sources ! ap_image now
        in case next_run source (ap_image now) (src_RunOf source (ap_request now)) frames of
             None \<Rightarrow> plan_runs sources frames shown requested runs work
           | Some (request, run) \<Rightarrow>
               if map_of requested (ap_image now) = Some run then plan_runs sources frames shown requested runs work
               else plan_runs sources frames shown (AList.update (ap_image now) run requested) (AList.update (ap_image now) run runs)
                      (work @ [(source, request)]))"

definition Served_locked ::
  "nat \<Rightarrow> bool \<Rightarrow> AnimatedPlane list \<Rightarrow> AnimatedPlane list list \<Rightarrow> nat \<Rightarrow> ReadingAhead \<Rightarrow> ReadingAhead \<times> work option"
where
  "Served_locked began late shown upcoming now ra =
     (let ra = note_frame began late shown ra
      in if stopped (ra_stats ra) \<or> ra_cancelled ra \<or> ra_under_way ra then (ra, None)
         else
           let (requested, runs, work) = plan_runs (ra_sources ra) (take kUpcomingFrames upcoming) shown (ra_requested ra) [] []
           in if work = [] then (ra\<lparr>ra_requested := requested\<rparr>, None)
              else (ra\<lparr>ra_requested := requested, ra_under_way := True, ra_started := now, ra_prefetching := runs, ra_counted_catch := False,
                       ra_stats := (ra_stats ra)\<lparr>prefetches := (prefetches (ra_stats ra) + length work) mod 2 ^ 32\<rparr>\<rparr>, Some work))"

text \<open>The end of a prefetch, or of one that could not be started.\<close>

definition finish :: "bool \<Rightarrow> nat \<Rightarrow> ReadingAhead \<Rightarrow> ReadingAhead" where
  "finish failed now ra = (let ra = ra\<lparr>ra_under_way := False, ra_finished := now\<rparr> in if failed then stop ra else ra)"

definition Stats :: "ReadingAhead \<Rightarrow> ReadAheadStats" where
  "Stats ra = (ra_stats ra)\<lparr>under_way := ra_under_way ra\<rparr>"

section \<open>The threads\<close>

text \<open>
  Where the worker is: not there; about to look at what is left of its work; inside a decode; about to say that it is
  done; or returned and not joined. Where the thread that serves frames is: between calls; in \<open>Served\<close> about to join
  the last worker, or to start the next; or in the destructor, about to set the flag, to mark it stopped, to join, or through.
\<close>

datatype worker = Absent | Looping work | Decoding work | Closing bool | Returned

datatype server = Ready | Joining work | Starting work | Leaving | LeavingFlagged | LeavingJoin | Gone

record reading =
  shared :: ReadingAhead
  worker :: worker
  server :: server
  cancelling :: nat
  clock :: nat

definition reading_init :: "RunSource list \<Rightarrow> reading" where
  "reading_init sources = \<lparr>shared = ReadingAhead_init sources, worker = Absent, server = Ready, cancelling = 0, clock = 0\<rparr>"

text \<open>\<open>cancelling\<close> counts the threads that have set the flag of \<open>Cancel\<close> and not yet taken the lock.\<close>

inductive ra_step :: "reading \<Rightarrow> reading \<Rightarrow> bool" where
  serve_nothing: "server s = Ready \<Longrightarrow> clock s \<le> now \<Longrightarrow> Served_locked began late shown upcoming now (shared s) = (ra, None) \<Longrightarrow>
    ra_step s (s\<lparr>shared := ra, clock := now\<rparr>)"
| serve_start: "server s = Ready \<Longrightarrow> clock s \<le> now \<Longrightarrow> Served_locked began late shown upcoming now (shared s) = (ra, Some work) \<Longrightarrow>
    ra_step s (s\<lparr>shared := ra, clock := now, server := Joining work\<rparr>)"
| join_none: "server s = Joining work \<Longrightarrow> worker s = Absent \<Longrightarrow> ra_step s (s\<lparr>server := Starting work\<rparr>)"
| join: "server s = Joining work \<Longrightarrow> worker s = Returned \<Longrightarrow> ra_step s (s\<lparr>server := Starting work, worker := Absent\<rparr>)"
| start: "server s = Starting work \<Longrightarrow> ra_step s (s\<lparr>server := Ready, worker := Looping work\<rparr>)"
| start_fails: "server s = Starting work \<Longrightarrow> clock s \<le> now \<Longrightarrow>
    ra_step s (s\<lparr>server := Ready, shared := finish True now (shared s), clock := now\<rparr>)"
| decode: "worker s = Looping (item # work) \<Longrightarrow> \<not> ra_cancelled (shared s) \<Longrightarrow> ra_step s (s\<lparr>worker := Decoding work\<rparr>)"
| break: "worker s = Looping work \<Longrightarrow> work = [] \<or> ra_cancelled (shared s) \<Longrightarrow> ra_step s (s\<lparr>worker := Closing False\<rparr>)"
| decoded: "worker s = Decoding work \<Longrightarrow> ra_step s (s\<lparr>worker := Looping work\<rparr>)"
| decode_throws: "worker s = Decoding work \<Longrightarrow> ra_step s (s\<lparr>worker := Closing True\<rparr>)"
| close: "worker s = Closing failed \<Longrightarrow> clock s \<le> now \<Longrightarrow>
    ra_step s (s\<lparr>worker := Returned, shared := finish failed now (shared s), clock := now\<rparr>)"
| cancel: "server s \<noteq> Gone \<Longrightarrow> ra_step s (s\<lparr>shared := (shared s)\<lparr>ra_cancelled := True\<rparr>, cancelling := Suc (cancelling s)\<rparr>)"
| cancel_stops: "0 < cancelling s \<Longrightarrow> ra_step s (s\<lparr>shared := stop (shared s), cancelling := cancelling s - 1\<rparr>)"
| leave: "server s = Ready \<Longrightarrow> ra_step s (s\<lparr>server := Leaving\<rparr>)"
| leave_flags: "server s = Leaving \<Longrightarrow> ra_step s (s\<lparr>server := LeavingFlagged, shared := (shared s)\<lparr>ra_cancelled := True\<rparr>\<rparr>)"
| leave_stops: "server s = LeavingFlagged \<Longrightarrow> ra_step s (s\<lparr>server := LeavingJoin, shared := stop (shared s)\<rparr>)"
| leave_joins: "server s = LeavingJoin \<Longrightarrow> worker s = Returned \<Longrightarrow> ra_step s (s\<lparr>server := Gone, worker := Absent\<rparr>)"
| leave_joins_none: "server s = LeavingJoin \<Longrightarrow> worker s = Absent \<Longrightarrow> ra_step s (s\<lparr>server := Gone\<rparr>)"

definition reachable :: "RunSource list \<Rightarrow> reading \<Rightarrow> bool" where
  "reachable sources s \<longleftrightarrow> ra_step\<^sup>*\<^sup>* (reading_init sources) s"

section \<open>One prefetch at a time\<close>

fun active :: "worker \<Rightarrow> bool" where
  "active Absent = False" | "active Returned = False" | "active _ = True"

fun launching :: "server \<Rightarrow> bool" where
  "launching (Joining _) = True" | "launching (Starting _) = True" | "launching _ = False"

text \<open>The bookkeeping of the shared state, and what the destructor has done by the time it joins.\<close>

definition reading_ok :: "reading \<Rightarrow> bool" where
  "reading_ok s \<longleftrightarrow>
     ra_under_way (shared s) = (active (worker s) \<or> launching (server s)) \<and> \<not> (active (worker s) \<and> launching (server s)) \<and>
     ((\<exists>work. server s = Starting work) \<longrightarrow> worker s = Absent) \<and>
     (server s \<in> {LeavingFlagged, LeavingJoin, Gone} \<longrightarrow> ra_cancelled (shared s)) \<and>
     (server s \<in> {LeavingJoin, Gone} \<longrightarrow> stopped (ra_stats (shared s))) \<and> (server s = Gone \<longrightarrow> worker s = Absent)"

lemma stop_simps [simp]: "ra_under_way (stop ra) = ra_under_way ra" "ra_cancelled (stop ra) = ra_cancelled ra" "stopped (ra_stats (stop ra))"
  "prefetches (ra_stats (stop ra)) = prefetches (ra_stats ra)" "ra_sources (stop ra) = ra_sources ra" "ra_requested (stop ra) = ra_requested ra"
  by (simp_all add: stop_def)

lemma finish_simps [simp]: "\<not> ra_under_way (finish failed now ra)" "ra_cancelled (finish failed now ra) = ra_cancelled ra"
  "stopped (ra_stats (finish failed now ra)) = (failed \<or> stopped (ra_stats ra))"
  "prefetches (ra_stats (finish failed now ra)) = prefetches (ra_stats ra)"
  by (simp_all add: finish_def Let_def)

lemma note_frame_simps [simp]: "ra_under_way (note_frame began late shown ra) = ra_under_way ra"
  "ra_cancelled (note_frame began late shown ra) = ra_cancelled ra"
  "stopped (ra_stats (note_frame began late shown ra)) = (late \<and> overlapped began ra \<or> stopped (ra_stats ra))"
  "prefetches (ra_stats (note_frame began late shown ra)) = prefetches (ra_stats ra)"
  "ra_sources (note_frame began late shown ra) = ra_sources ra" "ra_requested (note_frame began late shown ra) = ra_requested ra"
  by (simp_all add: note_frame_def Let_def)

lemma Served_nothing:
  assumes "Served_locked began late shown upcoming now ra = (ra', None)"
  shows "ra_under_way ra' = ra_under_way ra" and "ra_cancelled ra' = ra_cancelled ra" and "prefetches (ra_stats ra') = prefetches (ra_stats ra)"
    and "stopped (ra_stats ra') = (late \<and> overlapped began ra \<or> stopped (ra_stats ra))"
  using assms by (auto simp: Served_locked_def Let_def split: if_splits prod.splits)

lemma Served_something:
  assumes "Served_locked began late shown upcoming now ra = (ra', Some work)"
  shows "\<not> ra_under_way ra" and "\<not> ra_cancelled ra" and "\<not> stopped (ra_stats ra)" and "\<not> (late \<and> overlapped began ra)"
    and "ra_under_way ra'" and "\<not> ra_cancelled ra'" and "work \<noteq> []"
  using assms by (auto simp: Served_locked_def Let_def split: if_splits prod.splits)

lemma reading_ok_init: "reading_ok (reading_init sources)"
  by (simp add: reading_ok_def reading_init_def ReadingAhead_init_def)

lemma reading_ok_step: "ra_step s s' \<Longrightarrow> reading_ok s \<Longrightarrow> reading_ok s'"
proof (induction rule: ra_step.induct)
  case (serve_nothing s now began late shown upcoming ra)
  then show ?case using Served_nothing [OF serve_nothing(3)] by (simp add: reading_ok_def)
next
  case (serve_start s now began late shown upcoming ra work)
  then show ?case using Served_something [OF serve_start(3)] by (simp add: reading_ok_def)
qed (auto simp: reading_ok_def)

lemma reachable_ok: "reachable sources s \<Longrightarrow> reading_ok s"
  unfolding reachable_def by (induction rule: rtranclp_induct) (auto intro: reading_ok_init reading_ok_step)

section \<open>Stopping\<close>

lemma stopped_step:
  assumes "ra_step s s'" and "stopped (ra_stats (shared s))"
  shows "stopped (ra_stats (shared s')) \<and> prefetches (ra_stats (shared s')) = prefetches (ra_stats (shared s))"
  using assms
proof (induction rule: ra_step.induct)
  case (serve_nothing s now began late shown upcoming ra)
  then show ?case using Served_nothing [OF serve_nothing(3)] by simp
next
  case (serve_start s now began late shown upcoming ra work)
  then show ?case using Served_something(3) [OF serve_start(3)] by simp
qed auto

fun decoding :: "worker \<Rightarrow> bool" where
  "decoding (Decoding _) = True" | "decoding _ = False"

lemma cancelled_step:
  assumes "ra_step s s'" and "ra_cancelled (shared s)"
  shows "ra_cancelled (shared s') \<and> (decoding (worker s') \<longrightarrow> worker s' = worker s)"
  using assms
proof (induction rule: ra_step.induct)
  case (serve_nothing s now began late shown upcoming ra)
  then show ?case using Served_nothing [OF serve_nothing(3)] by simp
next
  case (serve_start s now began late shown upcoming ra work)
  then show ?case using Served_something(2) [OF serve_start(3)] by simp
qed auto

section \<open>Leaving\<close>

text \<open>The steps a worker has left to take, however its decodes end.\<close>

fun left :: "worker \<Rightarrow> nat" where
  "left Absent = 0" | "left Returned = 0" | "left (Closing _) = 1"
| "left (Looping work) = 2 * length work + 2" | "left (Decoding work) = 2 * length work + 3"

lemma worker_takes_step:
  assumes "active (worker s)"
  shows "\<exists>s'. ra_step s s' \<and> server s' = server s \<and> left (worker s') < left (worker s) \<and> worker s' \<noteq> Absent"
proof (cases "worker s")
  case (Looping work)
  show ?thesis
  proof (cases "work = [] \<or> ra_cancelled (shared s)")
    case True
    then show ?thesis using ra_step.break [OF Looping] Looping by fastforce
  next
    case False
    then obtain item rest where "work = item # rest" by (cases work) auto
    then show ?thesis using ra_step.decode [of s item rest] Looping False by fastforce
  qed
next
  case (Decoding work)
  then show ?thesis using ra_step.decoded [OF Decoding] by fastforce
next
  case (Closing failed)
  then show ?thesis using ra_step.close [OF Closing order_refl] by fastforce
qed (use assms in auto)

lemma leaving_finishes: "server s = LeavingJoin \<Longrightarrow> \<exists>n s'. n \<le> left (worker s) + 1 \<and> (ra_step ^^ n) s s' \<and> server s' = Gone \<and> worker s' = Absent"
proof (induction "left (worker s)" arbitrary: s rule: less_induct)
  case less
  show ?case
  proof (cases "active (worker s)")
    case True
    then obtain s1 where s1: "ra_step s s1" "server s1 = LeavingJoin" "left (worker s1) < left (worker s)" using worker_takes_step less.prems by metis
    then obtain n s' where "n \<le> left (worker s1) + 1" "(ra_step ^^ n) s1 s'" "server s' = Gone \<and> worker s' = Absent" using less.hyps by blast
    then have "Suc n \<le> left (worker s) + 1" "(ra_step ^^ Suc n) s s'" "server s' = Gone \<and> worker s' = Absent"
      using s1(1,3) relpowp_Suc_I2 [of ra_step s s1 n s'] by auto
    then show ?thesis by blast
  next
    case False
    have one: "(ra_step ^^ 1) s t \<and> 1 \<le> left (worker s) + 1" if "ra_step s t" for t unfolding relpowp_1 using that by simp
    show ?thesis
    proof (cases "worker s = Absent")
      case True
      then have "ra_step s (s\<lparr>server := Gone\<rparr>)" using less.prems by (intro leave_joins_none)
      then show ?thesis using one [of "s\<lparr>server := Gone\<rparr>"] True by (intro exI [of _ 1] exI [of _ "s\<lparr>server := Gone\<rparr>"]) simp
    next
      case nonempty: False
      then have "worker s = Returned" using False by (cases "worker s") auto
      then have "ra_step s (s\<lparr>server := Gone, worker := Absent\<rparr>)" using less.prems by (intro leave_joins)
      then show ?thesis using one [of "s\<lparr>server := Gone, worker := Absent\<rparr>"]
        by (intro exI [of _ 1] exI [of _ "s\<lparr>server := Gone, worker := Absent\<rparr>"]) simp
    qed
  qed
qed

section \<open>What a frame starts\<close>

text \<open>
  The first plane of an image, among the ones the frames to come show of it, that is in another run than the one given;
  and the run a shown plane asks for: that of this plane, unless it is the one last asked for.
\<close>

definition upcoming_run :: "RunSource \<Rightarrow> nat \<Rightarrow> Run \<Rightarrow> AnimatedPlane list list \<Rightarrow> (ReadRequest \<times> Run) option" where
  "upcoming_run source i run_now frames =
     map_option (\<lambda>plane. (ap_request plane, src_RunOf source (ap_request plane)))
       (List.find (\<lambda>plane. src_RunOf source (ap_request plane) \<noteq> run_now) (List.map_filter (List.find (\<lambda>plane. ap_image plane = i)) frames))"

lemma next_run_finds: "next_run source i run_now frames = upcoming_run source i run_now frames"
  by (induction frames) (auto simp: upcoming_run_def map_filter_simps Let_def split: option.splits)

definition wanted :: "RunSource list \<Rightarrow> AnimatedPlane list list \<Rightarrow> (nat \<times> Run) list \<Rightarrow> AnimatedPlane \<Rightarrow> (ReadRequest \<times> Run) option" where
  "wanted sources frames requested now =
     (if length sources \<le> ap_image now then None
      else case upcoming_run (sources ! ap_image now) (ap_image now) (src_RunOf (sources ! ap_image now) (ap_request now)) frames of
             None \<Rightarrow> None
           | Some (request, run) \<Rightarrow> if map_of requested (ap_image now) = Some run then None else Some (request, run))"

fun first_wanted :: "RunSource list \<Rightarrow> AnimatedPlane list list \<Rightarrow> (nat \<times> Run) list \<Rightarrow> nat \<Rightarrow> AnimatedPlane list \<Rightarrow> (ReadRequest \<times> Run) option" where
  "first_wanted sources frames requested i [] = None"
| "first_wanted sources frames requested i (now # shown) =
     (if ap_image now = i \<and> wanted sources frames requested now \<noteq> None then wanted sources frames requested now
      else first_wanted sources frames requested i shown)"

lemma update_new: "map_of al k = None \<Longrightarrow> AList.update k v al = al @ [(k, v)]"
  by (induction al) (auto split: if_splits)

lemma wanted_cong: "map_of requested (ap_image now) = map_of requested' (ap_image now) \<Longrightarrow> wanted sources frames requested now = wanted sources frames requested' now"
  by (auto simp: wanted_def split: option.split)

lemma plan_runs_step:
  "plan_runs sources frames (now # shown) requested runs work =
     (if map_of runs (ap_image now) \<noteq> None then plan_runs sources frames shown requested runs work
      else case wanted sources frames requested now of
             None \<Rightarrow> plan_runs sources frames shown requested runs work
           | Some (request, run) \<Rightarrow>
               plan_runs sources frames shown (AList.update (ap_image now) run requested) (runs @ [(ap_image now, run)])
                 (work @ [(sources ! ap_image now, request)]))"
  by (simp add: wanted_def next_run_finds Let_def update_new split: option.split)

declare plan_runs.simps(2) [simp del]

lemma first_wanted_cong:
  "map_of requested i = map_of requested' i \<Longrightarrow> first_wanted sources frames requested i shown = first_wanted sources frames requested' i shown"
  by (induction shown) (auto simp: wanted_cong [of requested _ requested'])

lemma plan_runs_spec:
  assumes "plan_runs sources frames shown requested runs work = (requested', runs', work')" and "distinct (map fst runs)"
  shows "\<exists>new. runs' = runs @ map (\<lambda>(i, request, run). (i, run)) new \<and> work' = work @ map (\<lambda>(i, request, run). (sources ! i, request)) new \<and>
    distinct (map fst runs') \<and> map_of requested' = map_of requested ++ map_of (map (\<lambda>(i, request, run). (i, run)) new) \<and>
    (\<forall>i. map_of new i = (if map_of runs i \<noteq> None then None else first_wanted sources frames requested i shown))"
  using assms
proof (induction shown arbitrary: requested runs work)
  case Nil
  then show ?case by (intro exI [of _ "[]"]) auto
next
  case (Cons now shown)
  show ?case
  proof (cases "map_of runs (ap_image now) = None \<and> wanted sources frames requested now \<noteq> None")
    case False
    then have "plan_runs sources frames shown requested runs work = (requested', runs', work')"
      using Cons.prems(1) by (auto simp: plan_runs_step split: option.splits if_splits)
    from Cons.IH [OF this Cons.prems(2)] show ?thesis using False by (elim exE, intro exI) auto
  next
    case True
    then obtain request run where want: "wanted sources frames requested now = Some (request, run)" by auto
    let ?i = "ap_image now"
    let ?runs = "runs @ [(?i, run)]" and ?requested = "AList.update ?i run requested"
    have rest: "plan_runs sources frames shown ?requested ?runs (work @ [(sources ! ?i, request)]) = (requested', runs', work')"
      using Cons.prems(1) True want by (simp add: plan_runs_step)
    have "distinct (map fst ?runs)" using Cons.prems(2) True by (auto simp: map_of_eq_None_iff)
    from Cons.IH [OF rest this] obtain new where new: "runs' = ?runs @ map (\<lambda>(i, request, run). (i, run)) new"
      "work' = (work @ [(sources ! ?i, request)]) @ map (\<lambda>(i, request, run). (sources ! i, request)) new"
      "distinct (map fst runs')" "map_of requested' = map_of ?requested ++ map_of (map (\<lambda>(i, request, run). (i, run)) new)"
      "\<forall>i. map_of new i = (if map_of ?runs i \<noteq> None then None else first_wanted sources frames ?requested i shown)" by blast
    have "?i \<notin> fst ` set new" using new(5) by (auto simp: map_of_eq_None_iff [symmetric])
    then have "map_of (map (\<lambda>(i, request, run). (i, run)) new) ?i = None" by (force simp: map_of_eq_None_iff)
    then have asked: "map_of requested' = map_of requested ++ map_of (map (\<lambda>(i, request, run). (i, run)) ((?i, request, run) # new))"
      using new(4) by (intro ext) (auto simp: update_conv' map_add_def split: option.splits)
    have "map_of ((?i, request, run) # new) i = (if map_of runs i \<noteq> None then None else first_wanted sources frames requested i (now # shown))" for i
      using new(5) True want first_wanted_cong [of ?requested i requested] by (auto simp: update_conv' map_add_def split: option.splits)
    then show ?thesis using new(1,2,3) asked
      by (intro exI [of _ "(?i, request, run) # new"] conjI) (simp_all only: list.map append_assoc append.simps prod.case simp_thms)
  qed
qed

section \<open>The read that covers a run\<close>

text \<open>Chunk extents below half the range, so that the end of a chunk an axis reaches into can be counted.\<close>

definition geometry_small :: "ChunkGeometry \<Rightarrow> bool" where
  "geometry_small geometry \<longleftrightarrow> (\<forall>chunk \<in> set (chunk_shape geometry). chunk \<le> max_extent)"

lemma last_of_fits:
  assumes fits: "range_fits rng len" and len: "len < max_extent"
  shows "last_of rng = range_at rng (rg_count rng - 1)"
proof -
  have small: "range_at rng (rg_count rng - 1) < max_extent" using fits len by (simp add: range_fits_def)
  have "(rg_count rng - 1) * 1 \<le> (rg_count rng - 1) * rg_stride rng" using fits by (intro mult_le_mono2) (simp add: range_fits_def)
  then have "rg_count rng < two64" using small unfolding range_at_def by linarith
  then show ?thesis using fits small by (simp add: last_of_def range_fits_def range_at_def sub64_exact mul64_exact add64_exact max_def)
qed

lemma run_range_covers:
  assumes fits: "range_fits rng len" and len: "len < max_extent" and chunk: "0 < chunk" "chunk \<le> max_extent"
  defines "first \<equiv> min len (mul64 (rg_start rng div chunk) chunk)"
    and "stop' \<equiv> min len (mul64 (add64 (last_of rng div chunk) 1) chunk)"
  shows "first = rg_start rng div chunk * chunk" and "first < stop'" and "stop' \<le> len"
    and "stop' = min len ((last_of rng div chunk + 1) * chunk)" and "(stop' - 1) div chunk = last_of rng div chunk"
    and "sub64 stop' first = stop' - first"
proof -
  have last: "last_of rng < len" "rg_start rng \<le> last_of rng"
    using fits last_of_fits [OF fits len] by (simp_all add: range_fits_def range_at_def)
  have starts: "rg_start rng div chunk * chunk \<le> rg_start rng" by simp
  show first: "first = rg_start rng div chunk * chunk"
    unfolding first_def using starts last len by (subst mul64_exact) linarith+
  have turn: "last_of rng div chunk * chunk + chunk < two64" using last len chunk(2) div_times_less_eq_dividend [of "last_of rng" chunk] by linarith
  have "last_of rng div chunk \<le> last_of rng" by simp
  then have "add64 (last_of rng div chunk) 1 = last_of rng div chunk + 1" using last len by (intro add64_exact) linarith
  then show stop: "stop' = min len ((last_of rng div chunk + 1) * chunk)"
    using turn by (simp add: stop'_def mul64_exact algebra_simps)
  have past: "last_of rng < (last_of rng div chunk + 1) * chunk" using chunk(1) by (simp add: dividend_less_div_times)
  show order: "first < stop'" using first stop starts last past by linarith
  show "stop' \<le> len" by (simp add: stop)
  then show "sub64 stop' first = stop' - first" using order len by (intro sub64_exact) linarith+
  have "last_of rng \<le> stop' - 1" "stop' - 1 < (last_of rng div chunk + 1) * chunk" using stop last past chunk(1) by linarith+
  then have "last_of rng div chunk \<le> (stop' - 1) div chunk" "(stop' - 1) div chunk < last_of rng div chunk + 1"
    using chunk(1) by (simp_all add: div_le_mono less_mult_imp_div_less)
  then show "(stop' - 1) div chunk = last_of rng div chunk" by simp
qed

text \<open>An axis of the read that covers a run.\<close>

definition covers_axis :: "nat \<Rightarrow> u64 \<Rightarrow> Range \<Rightarrow> Range \<Rightarrow> bool" where
  "covers_axis len chunk rng wide \<longleftrightarrow> range_fits wide len \<and> rg_stride wide = 1 \<and>
     (if chunk = 0 then rg_start wide = 0 \<and> rg_count wide = len
      else (\<forall>k < len. k \<in> {rg_start wide..<rg_start wide + rg_count wide} \<longleftrightarrow> k div chunk \<in> {rg_start rng div chunk..last_of rng div chunk}))"

lemma run_range_axis:
  assumes d: "descriptor_ok d" and g: "geometry_small geometry" and n: "length plane = length (img_axes d)" and axis: "axis < length plane"
    and fits: "range_fits (plane ! axis) (ax_length (img_axes d ! axis))"
  defines "wide \<equiv> run_range d geometry (RunOf geometry plane) axis"
  shows "covers_axis (ax_length (img_axes d ! axis)) (extent_at geometry axis) (plane ! axis) wide"
    and "0 < extent_at geometry axis \<Longrightarrow> rg_start wide div extent_at geometry axis = rg_start (plane ! axis) div extent_at geometry axis \<and>
      last_of wide div extent_at geometry axis = last_of (plane ! axis) div extent_at geometry axis"
proof -
  let ?len = "ax_length (img_axes d ! axis)" and ?chunk = "extent_at geometry axis" and ?r = "plane ! axis"
  have len: "?len < max_extent" using d n axis by (simp add: descriptor_ok_def)
  have chunk: "?chunk \<le> max_extent" using g by (simp add: geometry_small_def extent_at_def)
  have positive: "0 < ?len" using fits by (auto simp: range_fits_def)
  have runs: "run_first (RunOf geometry plane) ! axis = (if ?chunk = 0 then 0 else rg_start ?r div ?chunk)"
    "run_last (RunOf geometry plane) ! axis = (if ?chunk = 0 then 0 else last_of ?r div ?chunk)"
    using axis by (simp_all add: RunOf_def Let_def)
  let ?first = "rg_start ?r div ?chunk * ?chunk" and ?stop = "min ?len ((last_of ?r div ?chunk + 1) * ?chunk)"
  have wide: "wide = \<lparr>rg_start = ?first, rg_count = ?stop - ?first, rg_stride = 1\<rparr> \<and> ?first < ?stop \<and> (?stop - 1) div ?chunk = last_of ?r div ?chunk"
    if "0 < ?chunk"
  proof -
    note c = run_range_covers [OF fits len that chunk]
    have "?chunk \<noteq> 0" using that by simp
    then have "wide = \<lparr>rg_start = ?first, rg_count = ?stop - ?first, rg_stride = 1\<rparr>"
      unfolding wide_def run_range_def Let_def runs by (simp only: if_False c(6)) (simp only: c(1,4))
    then show ?thesis using c(2,5) unfolding c(1,4) by blast
  qed
  show covers: "covers_axis ?len ?chunk ?r wide"
  proof (cases "?chunk = 0")
    case True
    then show ?thesis using len positive
      by (simp add: wide_def run_range_def Let_def covers_axis_def range_fits_def range_at_def sub64_exact)
  next
    case False
    have "k \<in> {?first..<?stop} \<longleftrightarrow> k div ?chunk \<in> {rg_start ?r div ?chunk..last_of ?r div ?chunk}" if "k < ?len" for k
    proof -
      have "?first \<le> k \<longleftrightarrow> rg_start ?r div ?chunk \<le> k div ?chunk" using False by (simp add: less_eq_div_iff_mult_less_eq)
      moreover have "k < (last_of ?r div ?chunk + 1) * ?chunk \<longleftrightarrow> k div ?chunk < last_of ?r div ?chunk + 1" using False by (simp add: div_less_iff_less_mult)
      ultimately show ?thesis using that by auto
    qed
    then show ?thesis using wide False by (auto simp: covers_axis_def range_fits_def range_at_def)
  qed
  assume pos: "0 < ?chunk"
  have "last_of wide = rg_start wide + (rg_count wide - 1)"
    using last_of_fits [of wide ?len] covers len by (simp add: covers_axis_def range_at_def)
  then have "last_of wide = ?stop - 1" using wide [OF pos] by simp
  then show "rg_start wide div ?chunk = rg_start ?r div ?chunk \<and> last_of wide div ?chunk = last_of ?r div ?chunk"
    using wide [OF pos] pos by simp
qed

section \<open>What reading ahead needs\<close>

text \<open>Two runs of every image that reads through a cache, counted without wrapping.\<close>

definition needed :: "RunSource list \<Rightarrow> nat \<Rightarrow> nat" where
  "needed sources key = sum_list (map (\<lambda>s. 2 * src_PlaneRunBytes s) (filter (\<lambda>s. cs_identity (src_Cache s) = key) sources))"

fun demand_of :: "nat \<Rightarrow> RunSource list \<Rightarrow> Demand option \<Rightarrow> Demand option" where
  "demand_of key [] d = d"
| "demand_of key (s # sources) d = demand_of key sources (if cs_identity (src_Cache s) = key then Some (add_demand s d) else d)"

lemma demands_iff:
  "demands sources caches = Inr caches' \<longleftrightarrow>
   (\<exists>srcs. sources = map Some srcs \<and> (\<forall>s \<in> set srcs. 0 < src_PlaneRunBytes s) \<and>
      caches' = foldl (\<lambda>caches s. let key = cs_identity (src_Cache s) in AList.update key (add_demand s (map_of caches key)) caches) caches srcs)"
proof (induction sources caches rule: demands.induct)
  case (3 source sources caches)
  show ?case
  proof (cases "src_PlaneRunBytes source = 0")
    case False
    show ?thesis
    proof
      assume "demands (Some source # sources) caches = Inr caches'"
      then obtain srcs where "sources = map Some srcs" "\<forall>s \<in> set srcs. 0 < src_PlaneRunBytes s"
        "caches' = foldl (\<lambda>caches s. let key = cs_identity (src_Cache s) in AList.update key (add_demand s (map_of caches key)) caches)
          (AList.update (cs_identity (src_Cache source)) (add_demand source (map_of caches (cs_identity (src_Cache source)))) caches) srcs"
        using 3 [OF False refl] False by (auto simp: Let_def)
      then show "\<exists>srcs. Some source # sources = map Some srcs \<and> (\<forall>s \<in> set srcs. 0 < src_PlaneRunBytes s) \<and>
          caches' = foldl (\<lambda>caches s. let key = cs_identity (src_Cache s) in AList.update key (add_demand s (map_of caches key)) caches) caches srcs"
        using False by (intro exI [of _ "source # srcs"]) (simp add: Let_def)
    next
      assume "\<exists>srcs. Some source # sources = map Some srcs \<and> (\<forall>s \<in> set srcs. 0 < src_PlaneRunBytes s) \<and>
          caches' = foldl (\<lambda>caches s. let key = cs_identity (src_Cache s) in AList.update key (add_demand s (map_of caches key)) caches) caches srcs"
      then show "demands (Some source # sources) caches = Inr caches'" using 3 [OF False refl] False by (auto simp: Let_def Cons_eq_map_conv)
    qed
  qed (auto simp: Cons_eq_map_conv)
qed (auto simp: Cons_eq_map_conv)

lemma gathered:
  "map_of (foldl (\<lambda>caches s. let key = cs_identity (src_Cache s) in AList.update key (add_demand s (map_of caches key)) caches) caches srcs) key =
     demand_of key srcs (map_of caches key)"
  by (induction srcs arbitrary: caches) (simp_all add: Let_def update_conv')

lemma demand_counts:
  "(case demand_of key srcs d of None \<Rightarrow> 0 | Some d' \<Rightarrow> dm_needed d') mod two64 = ((case d of None \<Rightarrow> 0 | Some d' \<Rightarrow> dm_needed d') + needed srcs key) mod two64"
proof (induction srcs arbitrary: d)
  case (Cons s srcs)
  show ?case
  proof (cases "cs_identity (src_Cache s) = key")
    case True
    have "dm_needed (add_demand s d) mod two64 = ((case d of None \<Rightarrow> 0 | Some d' \<Rightarrow> dm_needed d') + 2 * src_PlaneRunBytes s) mod two64"
      by (cases d) (simp_all add: add_demand_def Let_def add64_def mul64_def mod_simps)
    then show ?thesis using True Cons.IH [of "Some (add_demand s d)"] by (simp add: needed_def mod_add_left_eq [of "dm_needed (add_demand s d)", symmetric])
        (simp add: mod_simps add.assoc)
  qed (use Cons in \<open>simp add: needed_def\<close>)
qed (simp add: needed_def)

lemma demand_exists: "(demand_of key srcs d \<noteq> None) = (d \<noteq> None \<or> (\<exists>s \<in> set srcs. cs_identity (src_Cache s) = key))"
  by (induction srcs arbitrary: d) auto

lemma demand_fields:
  "demand_of key srcs d = Some d' \<Longrightarrow> \<forall>d0. d = Some d0 \<longrightarrow> dm_needed d0 < two64 \<and> (\<exists>s \<in> S. cs_identity (src_Cache s) = key \<and> dm_holds d0 = cs_bytes (src_Cache s)) \<Longrightarrow>
   set srcs \<subseteq> S \<Longrightarrow> dm_needed d' < two64 \<and> (\<exists>s \<in> S. cs_identity (src_Cache s) = key \<and> dm_holds d' = cs_bytes (src_Cache s))"
proof (induction srcs arbitrary: d)
  case (Cons s srcs)
  show ?case
  proof (rule Cons.IH)
    show "demand_of key srcs (if cs_identity (src_Cache s) = key then Some (add_demand s d) else d) = Some d'" using Cons.prems(1) by simp
    show "set srcs \<subseteq> S" using Cons.prems(3) by simp
    show "\<forall>d0. (if cs_identity (src_Cache s) = key then Some (add_demand s d) else d) = Some d0 \<longrightarrow>
        dm_needed d0 < two64 \<and> (\<exists>s \<in> S. cs_identity (src_Cache s) = key \<and> dm_holds d0 = cs_bytes (src_Cache s))"
      using Cons.prems(2,3) by (auto simp: add_demand_def Let_def)
  qed
qed auto

text \<open>Images reading through one cache say the same of it.\<close>

definition caches_agree :: "RunSource list \<Rightarrow> bool" where
  "caches_agree srcs \<longleftrightarrow> (\<forall>s \<in> set srcs. \<forall>t \<in> set srcs. cs_identity (src_Cache s) = cs_identity (src_Cache t) \<longrightarrow> cs_bytes (src_Cache s) = cs_bytes (src_Cache t))"

lemma demand_exact:
  assumes "s \<in> set srcs" and "caches_agree srcs" and "needed srcs (cs_identity (src_Cache s)) < two64"
  obtains d where "demand_of (cs_identity (src_Cache s)) srcs None = Some d" "dm_needed d = needed srcs (cs_identity (src_Cache s))"
    "dm_holds d = cs_bytes (src_Cache s)"
proof -
  let ?key = "cs_identity (src_Cache s)"
  obtain d where d: "demand_of ?key srcs None = Some d" using demand_exists [of ?key srcs None] assms(1) by auto
  have less: "dm_needed d < two64" and "\<exists>t \<in> set srcs. cs_identity (src_Cache t) = ?key \<and> dm_holds d = cs_bytes (src_Cache t)"
    using demand_fields [OF d, of "set srcs"] by auto
  then obtain t where t: "t \<in> set srcs" "cs_identity (src_Cache t) = ?key" "dm_holds d = cs_bytes (src_Cache t)" by blast
  have "dm_needed d mod two64 = needed srcs ?key mod two64" using demand_counts [of ?key srcs None] d by simp
  then have "dm_needed d = needed srcs ?key" using less assms(3) by simp
  moreover have "dm_holds d = cs_bytes (src_Cache s)" using assms(1,2) t unfolding caches_agree_def by metis
  ultimately show ?thesis using that d by blast
qed

section \<open>Properties\<close>

text \<open>
  Reading ahead is given exactly when there are images, each has a plane whose run can be counted, and every
  cache holds two runs of every image that reads through it; this for images that agree about a cache they share, and
  needs that stay in 64 bits.
\<close>

theorem For_accepts_exactly:
  assumes "\<forall>s. Some s \<in> set sources \<longrightarrow> needed (map the sources) (cs_identity (src_Cache s)) < two64" and "caches_agree (map the sources)"
  shows "For sources = Inr srcs \<longleftrightarrow> sources = map Some srcs \<and> srcs \<noteq> [] \<and> (\<forall>s \<in> set srcs. 0 < src_PlaneRunBytes s) \<and>
    (\<forall>s \<in> set srcs. needed srcs (cs_identity (src_Cache s)) \<le> cs_bytes (src_Cache s))"
proof (cases "\<exists>xs. sources = map Some xs \<and> (\<forall>s \<in> set xs. 0 < src_PlaneRunBytes s)")
  case True
  then obtain xs where xs: "sources = map Some xs" "\<forall>s \<in> set xs. 0 < src_PlaneRunBytes s" by blast
  then obtain caches where caches: "demands sources [] = Inr caches" using demands_iff by blast
  then obtain ys where "map Some xs = map Some ys" and built: "caches = foldl (\<lambda>caches s.
      let key = cs_identity (src_Cache s) in AList.update key (add_demand s (map_of caches key)) caches) [] ys"
    unfolding demands_iff xs(1) by blast
  then have "ys = xs" by (simp add: inj_map_eq_map)
  have found: "map_of caches key = demand_of key xs None" for key
    unfolding built gathered \<open>ys = xs\<close> by simp
  have unwrapped: "map the sources = xs" using xs(1) by simp
  have "List.find (\<lambda>key. dm_holds (the (map_of caches key)) < dm_needed (the (map_of caches key))) (sort (map fst caches)) = None \<longleftrightarrow>
      (\<forall>key \<in> fst ` set caches. \<not> dm_holds (the (map_of caches key)) < dm_needed (the (map_of caches key)))"
    by (auto simp: find_None_iff)
  also have "fst ` set caches = (\<lambda>s. cs_identity (src_Cache s)) ` set xs"
  proof -
    have "key \<in> fst ` set caches \<longleftrightarrow> map_of caches key \<noteq> None" for key by (simp add: map_of_eq_None_iff)
    then have "key \<in> fst ` set caches \<longleftrightarrow> (\<exists>s \<in> set xs. cs_identity (src_Cache s) = key)" for key
      unfolding found demand_exists by simp
    then show ?thesis unfolding set_eq_iff image_iff [of _ "\<lambda>s. cs_identity (src_Cache s)"] by metis
  qed
  also have "(\<forall>key \<in> (\<lambda>s. cs_identity (src_Cache s)) ` set xs. \<not> dm_holds (the (map_of caches key)) < dm_needed (the (map_of caches key))) \<longleftrightarrow>
      (\<forall>s \<in> set xs. needed xs (cs_identity (src_Cache s)) \<le> cs_bytes (src_Cache s))"
  proof -
    have "(\<not> dm_holds (the (map_of caches (cs_identity (src_Cache s)))) < dm_needed (the (map_of caches (cs_identity (src_Cache s))))) \<longleftrightarrow>
        needed xs (cs_identity (src_Cache s)) \<le> cs_bytes (src_Cache s)" if s: "s \<in> set xs" for s
    proof -
      obtain d where "demand_of (cs_identity (src_Cache s)) xs None = Some d" "dm_needed d = needed xs (cs_identity (src_Cache s))"
        "dm_holds d = cs_bytes (src_Cache s)" by (rule demand_exact [OF s]) (use assms xs(1) unwrapped s in auto)
      then show ?thesis using found by auto
    qed
    then show ?thesis by auto
  qed
  finally have fits: "List.find (\<lambda>key. dm_holds (the (map_of caches key)) < dm_needed (the (map_of caches key))) (sort (map fst caches)) = None \<longleftrightarrow>
      (\<forall>s \<in> set xs. needed xs (cs_identity (src_Cache s)) \<le> cs_bytes (src_Cache s))" .
  have "For sources = Inr srcs \<longleftrightarrow> xs \<noteq> [] \<and> srcs = xs \<and> (\<forall>s \<in> set xs. needed xs (cs_identity (src_Cache s)) \<le> cs_bytes (src_Cache s))"
    using caches fits unwrapped xs(1) by (auto simp: For_def split: option.splits)
  then show ?thesis using xs by (auto simp: inj_map_eq_map)
next
  case False
  then have "demands sources [] \<noteq> Inr caches" for caches using demands_iff by blast
  then have "For sources \<noteq> Inr srcs" by (auto simp: For_def split: sum.splits)
  then show ?thesis using False by blast
qed

definition small_geometry :: ChunkGeometry where
  "small_geometry = \<lparr>fastest_spatial_axis = spatial_x, chunk_shape = [4, 4, 2], shard_shape = [], grid_shape = [2, 2, 4], sharded = False, compressor = []\<rparr>"

definition small_source :: RunSource where
  "small_source = \<lparr>src_RunOf = RunOf small_geometry,
     src_PlaneRunBytes = 1024, src_Cache = \<lparr>cs_identity = 0, cs_bytes = 4096\<rparr>, src_Name = ''SKY''\<rparr>"

definition small_image :: ImageDescriptor where
  "small_image = example_image\<lparr>img_axes :=
     map (\<lambda>(i, role, n). (img_axes example_image ! 0)\<lparr>ax_role := role, ax_length := n, ax_storage_index := i\<rparr>)
       [(0, spatial_x, 6), (1, spatial_y, 7), (2, spectral, 8)]\<rparr>"

definition channel_plane :: "nat \<Rightarrow> ReadRequest" where
  "channel_plane channel = [\<lparr>rg_start = 0, rg_count = 6, rg_stride = 1\<rparr>, \<lparr>rg_start = 0, rg_count = 7, rg_stride = 1\<rparr>, \<lparr>rg_start = channel, rg_count = 1, rg_stride = 1\<rparr>]"

definition small_plane :: "nat \<Rightarrow> AnimatedPlane" where
  "small_plane channel = \<lparr>ap_image = 0, ap_request = channel_plane channel\<rparr>"

lemma all_less_three: "(\<forall>i < Suc (Suc (Suc 0)). P i) \<longleftrightarrow> P 0 \<and> P 1 \<and> P 2"
  by (auto simp: less_Suc_eq numeral_2_eq_2)

lemma small_served:
  obtains ra work where "Served_locked 0 False [small_plane 0] [[small_plane 1], [small_plane 2]] 1 (ReadingAhead_init [small_source]) = (ra, Some work)"
    and "map snd work = [channel_plane 2]"
proof -
  have "case snd (Served_locked 0 False [small_plane 0] [[small_plane 1], [small_plane 2]] 1 (ReadingAhead_init [small_source])) of
      Some work \<Rightarrow> map snd work = [channel_plane 2] | None \<Rightarrow> False" by code_simp
  then obtain work where "snd (Served_locked 0 False [small_plane 0] [[small_plane 1], [small_plane 2]] 1 (ReadingAhead_init [small_source])) = Some work"
    "map snd work = [channel_plane 2]" by (auto split: option.splits)
  then show ?thesis using that [OF prod_eqI] by (metis fst_conv snd_conv)
qed

lemma small_starts:
  obtains s work where "reachable [small_source] s" and "server s = Joining work"
proof -
  obtain ra work where served: "Served_locked 0 False [small_plane 0] [[small_plane 1], [small_plane 2]] 1 (ReadingAhead_init [small_source]) = (ra, Some work)"
    by (rule small_served)
  have "ra_step (reading_init [small_source]) ((reading_init [small_source])\<lparr>shared := ra, clock := 1, server := Joining work\<rparr>)"
    by (rule serve_start [of _ 1, OF _ _ _]) (use served in \<open>simp_all add: reading_init_def\<close>)
  then have "reachable [small_source] ((reading_init [small_source])\<lparr>shared := ra, clock := 1, server := Joining work\<rparr>)"
    unfolding reachable_def by (rule r_into_rtranclp)
  then show ?thesis by (rule that) simp
qed

theorem For_accepts_exactly_witness:
  "For [Some small_source, Some small_source] = Inr [small_source, small_source] \<and> needed [small_source, small_source] 0 = 4096"
proof -
  have "needed [small_source, small_source] 0 = 4096" by (simp add: needed_def small_source_def)
  moreover have "caches_agree [small_source, small_source]" by (simp add: caches_agree_def)
  ultimately show ?thesis
    using For_accepts_exactly [of "[Some small_source, Some small_source]" "[small_source, small_source]"]
    by (simp add: small_source_def)
qed

text \<open>Needs that leave 64 bits wrap, and are then met by a cache that holds nothing.\<close>

lemma For_need_wraps: "For [Some (small_source\<lparr>src_PlaneRunBytes := 2 ^ 63, src_Cache := \<lparr>cs_identity = 0, cs_bytes = 0\<rparr>\<rparr>)] =
    Inr [small_source\<lparr>src_PlaneRunBytes := 2 ^ 63, src_Cache := \<lparr>cs_identity = 0, cs_bytes = 0\<rparr>\<rparr>]"
  by (simp add: For_def Let_def add_demand_def mul64_def add64_def small_source_def)

text \<open>
  The read a prefetch asks for covers the run of its plane and nothing else: it is a valid request of stride
  one, along every chunked axis it takes exactly the indices whose chunks lie between the first and the last chunk the
  plane touches, along any other the whole axis, and it is in the same run.
\<close>

theorem RunRequest_covers_run:
  assumes "descriptor_ok d" and "geometry_small geometry" and "length plane = length (img_axes d)"
    and "\<forall>axis < length plane. range_fits (plane ! axis) (ax_length (img_axes d ! axis))"
  shows "RunOf geometry (RunRequest d geometry plane) = RunOf geometry plane \<and>
    (\<forall>axis < length plane. covers_axis (ax_length (img_axes d ! axis)) (extent_at geometry axis) (plane ! axis) (RunRequest d geometry plane ! axis))"
proof -
  note axis = run_range_axis [OF assms(1,2,3)]
  have "map f [0..<length plane] = map g [0..<length plane]" if "\<forall>axis < length plane. f axis = g axis" for f g :: "nat \<Rightarrow> nat" using that by simp
  then have "RunOf geometry (RunRequest d geometry plane) = RunOf geometry plane"
    using axis(2) assms(3,4) by (simp add: RunOf_def RunRequest_def Let_def)
  then show ?thesis using axis(1) assms(3,4) by (simp add: RunRequest_def)
qed

theorem RunRequest_covers_run_witness:
  "RunRequest small_image small_geometry (channel_plane 3) =
     [\<lparr>rg_start = 0, rg_count = 6, rg_stride = 1\<rparr>, \<lparr>rg_start = 0, rg_count = 7, rg_stride = 1\<rparr>, \<lparr>rg_start = 2, rg_count = 2, rg_stride = 1\<rparr>] \<and>
   RunOf small_geometry (RunRequest small_image small_geometry (channel_plane 3)) = RunOf small_geometry (channel_plane 3)"
proof
  show "RunRequest small_image small_geometry (channel_plane 3) =
      [\<lparr>rg_start = 0, rg_count = 6, rg_stride = 1\<rparr>, \<lparr>rg_start = 0, rg_count = 7, rg_stride = 1\<rparr>, \<lparr>rg_start = 2, rg_count = 2, rg_stride = 1\<rparr>]"
    by code_simp
  have "descriptor_ok small_image" by (auto simp: descriptor_ok_def small_image_def)
  moreover have "geometry_small small_geometry" by (simp add: geometry_small_def small_geometry_def)
  moreover have "\<forall>axis < length (channel_plane 3). range_fits (channel_plane 3 ! axis) (ax_length (img_axes small_image ! axis))"
    by (simp add: channel_plane_def small_image_def all_less_three range_fits_def range_at_def)
  ultimately show "RunOf small_geometry (RunRequest small_image small_geometry (channel_plane 3)) = RunOf small_geometry (channel_plane 3)"
    using RunRequest_covers_run [of small_image small_geometry "channel_plane 3"] by (simp add: channel_plane_def small_image_def)
qed

text \<open>
  Claim C36. One prefetch is under way at a time: in every state the threads can reach, a prefetch is marked under way
  exactly while \<open>Served\<close> is starting it or its worker has not yet said that it is done, never both; and when \<open>Served\<close>
  joins the last worker that worker has said so, and so \<open>Served\<close> waits for no decode.
\<close>

theorem read_ahead_one_at_a_time:
  assumes "reachable sources s"
  shows "ra_under_way (shared s) = (active (worker s) \<or> launching (server s)) \<and> \<not> (active (worker s) \<and> launching (server s)) \<and>
    (\<forall>work. server s = Joining work \<longrightarrow> (\<exists>s'. ra_step s s' \<and> server s' = Starting work \<and> worker s' = Absent))"
proof -
  have ok: "reading_ok s" by (rule reachable_ok [OF assms])
  have "\<exists>s'. ra_step s s' \<and> server s' = Starting work \<and> worker s' = Absent" if joining: "server s = Joining work" for work
  proof (cases "worker s")
    case Absent
    then show ?thesis using ra_step.join_none [OF joining] by fastforce
  next
    case Returned
    then show ?thesis using ra_step.join [OF joining] by fastforce
  qed (use ok joining in \<open>auto simp: reading_ok_def\<close>)
  then show ?thesis using ok by (simp add: reading_ok_def)
qed

theorem read_ahead_one_at_a_time_witness:
  "\<exists>s work. reachable [small_source] s \<and> server s = Joining work \<and> ra_under_way (shared s) \<and> (\<exists>s'. ra_step s s' \<and> server s' = Starting work)"
proof -
  obtain s work where "reachable [small_source] s" "server s = Joining work" by (rule small_starts)
  then show ?thesis using read_ahead_one_at_a_time [of "[small_source]" s] by auto
qed

text \<open>
  Claim C37. Reading ahead that has stopped does not start again: whatever steps the threads take afterwards, no further
  prefetch is counted; once it is cancelled no further decode is begun, and only the one under way, if any, may go on;
  and a reading ahead that is gone has left no worker behind.
\<close>

theorem read_ahead_stays_stopped:
  assumes "reachable sources s" and steps: "ra_step\<^sup>*\<^sup>* s s'"
  shows "(stopped (ra_stats (shared s)) \<longrightarrow> stopped (ra_stats (shared s')) \<and> prefetches (ra_stats (shared s')) = prefetches (ra_stats (shared s))) \<and>
    (ra_cancelled (shared s) \<longrightarrow> ra_cancelled (shared s') \<and> (decoding (worker s') \<longrightarrow> worker s' = worker s)) \<and>
    (server s' = Gone \<longrightarrow> worker s' = Absent \<and> stopped (ra_stats (shared s')))"
proof (intro conjI)
  show "stopped (ra_stats (shared s)) \<longrightarrow> stopped (ra_stats (shared s')) \<and> prefetches (ra_stats (shared s')) = prefetches (ra_stats (shared s))"
    using steps by (induction rule: rtranclp_induct) (use stopped_step in force)+
  show "ra_cancelled (shared s) \<longrightarrow> ra_cancelled (shared s') \<and> (decoding (worker s') \<longrightarrow> worker s' = worker s)"
    using steps by (induction rule: rtranclp_induct) (use cancelled_step in force)+
  have "reachable sources s'" using assms unfolding reachable_def by simp
  then show "server s' = Gone \<longrightarrow> worker s' = Absent \<and> stopped (ra_stats (shared s'))"
    using reachable_ok by (auto simp: reading_ok_def)
qed

theorem read_ahead_stays_stopped_witness:
  "\<exists>s s'. reachable [small_source] s \<and> ra_step\<^sup>*\<^sup>* s s' \<and> s \<noteq> s' \<and> ra_cancelled (shared s') \<and> stopped (ra_stats (shared s')) \<and>
     prefetches (ra_stats (shared s')) = 0"
proof -
  let ?s0 = "reading_init [small_source]"
  let ?s1 = "?s0\<lparr>shared := (shared ?s0)\<lparr>ra_cancelled := True\<rparr>, cancelling := 1\<rparr>"
  let ?s2 = "?s1\<lparr>shared := stop (shared ?s1), cancelling := 0\<rparr>"
  have "ra_step ?s0 ?s1" using ra_step.cancel [of ?s0] by (simp add: reading_init_def)
  moreover have "ra_step ?s1 ?s2" using ra_step.cancel_stops [of ?s1] by simp
  ultimately have s2: "reachable [small_source] ?s2" unfolding reachable_def by simp
  have step: "ra_step\<^sup>*\<^sup>* ?s2 (?s2\<lparr>server := Leaving\<rparr>)" using ra_step.leave [of ?s2] by (simp add: reading_init_def)
  have "stopped (ra_stats (shared ?s2))" "prefetches (ra_stats (shared ?s2)) = 0" "ra_cancelled (shared ?s2)" "server ?s2 = Ready"
    by (simp_all add: reading_init_def ReadingAhead_init_def)
  then show ?thesis using read_ahead_stays_stopped [OF s2 step] s2 step
    by (intro exI [of _ ?s2] exI [of _ "?s2\<lparr>server := Leaving\<rparr>"]) (simp add: reading_init_def)
qed



text \<open>Reads of one run need not decode the same chunks: a strided one may skip some between the first and the last.\<close>

lemma same_run_other_chunks:
  fixes geometry :: ChunkGeometry
  assumes "chunk_shape geometry = [2]"
  shows "RunOf geometry [mk_range 0 2 4] = RunOf geometry [mk_range 0 5 1]"
    and "(\<lambda>k. range_at (mk_range 0 2 4) k div 2) ` {..<2} \<noteq> (\<lambda>k. range_at (mk_range 0 5 1) k div 2) ` {..<5}"
proof -
  show "RunOf geometry [mk_range 0 2 4] = RunOf geometry [mk_range 0 5 1]"
    using assms by (simp add: RunOf_def extent_at_def last_of_def mk_range_def Let_def add64_def mul64_def sub64_def)
  have "(1 :: nat) \<in> (\<lambda>k. range_at (mk_range 0 5 1) k div 2) ` {..<5}"
    by (rule image_eqI [of _ _ 2]) (simp_all add: range_at_def mk_range_def)
  moreover have "(1 :: nat) \<notin> (\<lambda>k. range_at (mk_range 0 2 4) k div 2) ` {..<2}" by (auto simp: range_at_def mk_range_def)
  ultimately show "(\<lambda>k. range_at (mk_range 0 2 4) k div 2) ` {..<2} \<noteq> (\<lambda>k. range_at (mk_range 0 5 1) k div 2) ` {..<5}" by metis
qed

end
