(* ===== verification/Prefetched_Runs.thy ===== *)
theory Prefetched_Runs
  imports Read_Ahead Pieces
begin

text \<open>
  Reading ahead and reading in pieces together: a prefetch asks for the run of a plane (\<open>RunRequest\<close>) and decodes it by
  reading one element of every chunk of it (\<open>OneElementPerChunk\<close>, which \<open>PrefetchChunks\<close> reads).
\<close>

lemma RunOf_nth:
  "i < length req \<Longrightarrow> 0 < extent_at geometry i \<Longrightarrow> run_first (RunOf geometry req) ! i = rg_start (req ! i) div extent_at geometry i \<and>
   run_last (RunOf geometry req) ! i = last_of (req ! i) div extent_at geometry i"
  by (simp add: RunOf_def Let_def)

lemma coords_member: "c \<in> set (request_coords req) \<longleftrightarrow> length c = length req \<and> (\<forall>i < length req. \<exists>k < rg_count (req ! i). c ! i = range_at (req ! i) k)"
  unfolding request_coords_grid set_grid list_all2_conv_all_nth by (fastforce simp: range_list_def)

text \<open>
  Claim C39. A prefetch leaves a frame of its run nothing to decode: for an image chunked along every axis, the read it asks
  for is accepted, and every chunk that any request of the run touches -- whatever its planes and strides -- is one the
  prefetch decodes, by reading one element of each.
\<close>

theorem prefetch_decodes_run:
  assumes d: "descriptor_ok d" and g: "geometry_small geometry" and chunked: "\<forall>i < length plane. 0 < extent_at geometry i"
    and plane: "length plane = length (img_axes d)" "\<forall>i < length plane. range_fits (plane ! i) (ax_length (img_axes d ! i))"
    and countable: "prod_list (map rg_count (RunRequest d geometry plane)) < two64"
    and shown: "request_ok d next_plane" and run: "RunOf geometry next_plane = RunOf geometry plane"
  shows "BuildSelection d (RunRequest d geometry plane) logical = Inr (selection_of d (RunRequest d geometry plane) logical) \<and>
    chunk_of geometry ` set (request_coords next_plane) \<subseteq>
      set (map (chunk_of geometry) (request_coords (OneElementPerChunk geometry (RunRequest d geometry plane))))"
proof -
  let ?wide = "RunRequest d geometry plane"
  have n: "length next_plane = length plane" "length ?wide = length plane" using shown plane(1) by (simp_all add: request_ok_def RunRequest_def)
  have covers: "covers_axis (ax_length (img_axes d ! i)) (extent_at geometry i) (plane ! i) (?wide ! i)" if "i < length plane" for i
    using run_range_axis(1) [OF d g plane(1) that] plane that by (simp add: RunRequest_def)
  then have ok: "request_ok d ?wide" using n(2) plane(1) countable by (simp add: request_ok_def covers_axis_def)
  have "c \<in> set (request_coords ?wide)" if c: "c \<in> set (request_coords next_plane)" for c
    unfolding coords_member
  proof (intro conjI allI impI)
    show "length c = length ?wide" using c n by (simp add: coords_member)
    fix i assume "i < length ?wide"
    then have i: "i < length plane" "i < length next_plane" using n by simp_all
    let ?len = "ax_length (img_axes d ! i)" and ?chunk = "extent_at geometry i"
    have fits: "range_fits (next_plane ! i) ?len" "?len < max_extent" using shown d i plane(1) by (simp_all add: request_ok_def descriptor_ok_def)
    obtain k where k: "k < rg_count (next_plane ! i)" "c ! i = range_at (next_plane ! i) k" using c i by (auto simp: coords_member)
    have "k * rg_stride (next_plane ! i) \<le> (rg_count (next_plane ! i) - 1) * rg_stride (next_plane ! i)" using k(1) by (intro mult_le_mono1) simp
    then have last: "c ! i \<le> last_of (next_plane ! i)" "rg_start (next_plane ! i) \<le> c ! i"
      unfolding k(2) last_of_fits [OF fits] by (simp_all add: range_at_def)
    moreover have "last_of (next_plane ! i) < ?len" unfolding last_of_fits [OF fits] using fits(1) by (simp add: range_fits_def)
    ultimately have inside: "c ! i < ?len" by linarith
    have "rg_start (next_plane ! i) div ?chunk = rg_start (plane ! i) div ?chunk" "last_of (next_plane ! i) div ?chunk = last_of (plane ! i) div ?chunk"
      using RunOf_nth [of i next_plane geometry] RunOf_nth [of i plane geometry] run i chunked by auto
    then have "c ! i div ?chunk \<in> {rg_start (plane ! i) div ?chunk..last_of (plane ! i) div ?chunk}" using last by (metis atLeastAtMost_iff div_le_mono)
    then have "c ! i \<in> {rg_start (?wide ! i)..<rg_start (?wide ! i) + rg_count (?wide ! i)}" "rg_stride (?wide ! i) = 1"
      using covers [OF i(1)] inside chunked i(1) by (auto simp: covers_axis_def split: if_splits)
    then show "\<exists>k < rg_count (?wide ! i). c ! i = range_at (?wide ! i) k"
      by (intro exI [of _ "c ! i - rg_start (?wide ! i)"]) (auto simp: range_at_def)
  qed
  then have "chunk_of geometry ` set (request_coords next_plane) \<subseteq> chunk_of geometry ` set (request_coords ?wide)" by blast
  moreover have "BuildSelection d ?wide logical = Inr (selection_of d ?wide logical)" using BuildSelection_Inr_iff [OF d, of ?wide logical] ok by auto
  ultimately show ?thesis using OneElementPerChunk_samples_chunks [OF d ok, of geometry] chunked n(2) by auto
qed

theorem prefetch_decodes_run_witness:
  "chunk_of small_geometry ` set (request_coords (channel_plane 2)) \<subseteq>
     set (map (chunk_of small_geometry) (request_coords (OneElementPerChunk small_geometry (RunRequest small_image small_geometry (channel_plane 3)))))"
proof -
  have "descriptor_ok small_image" by (auto simp: descriptor_ok_def small_image_def)
  moreover have "geometry_small small_geometry" by (simp add: geometry_small_def small_geometry_def)
  moreover have "\<forall>axis < length (channel_plane 3). 0 < extent_at small_geometry axis \<and> range_fits (channel_plane 3 ! axis) (ax_length (img_axes small_image ! axis))"
    by (simp add: channel_plane_def small_image_def small_geometry_def extent_at_def all_less_three range_fits_def range_at_def)
  moreover have "request_ok small_image (channel_plane 2)"
    by (simp add: request_ok_def channel_plane_def small_image_def all_less_three range_fits_def range_at_def)
  moreover have "prod_list (map rg_count (RunRequest small_image small_geometry (channel_plane 3))) < two64" by code_simp
  moreover have "RunOf small_geometry (channel_plane 2) = RunOf small_geometry (channel_plane 3)" by code_simp
  ultimately show ?thesis
    using prefetch_decodes_run [of small_image small_geometry "channel_plane 3" "channel_plane 2"] by (simp add: channel_plane_def small_image_def)
qed

end
