(* ===== verification/Spec2Isabelle.thy ===== *)
theory Spec2Isabelle
  imports Pixel_Reader Pass Work_Pool Image_Listing Prefetched_Runs
begin

text \<open>
  A verification development of carta-zarr, a read-only C++17 library for XRADIO images stored as Zarr v3.

  \<^bold>\<open>The program.\<close> From the bottom up: a transport gives the bytes of the nodes of a store; the store reads the Zarr
  hierarchy and its array metadata through tables that remember what was read; a schema profile describes the images by
  the role of their axes; reads and reductions walk the chunks an image is stored in, through TensorStore; and reading
  ahead decodes the next chunks of an animation while its frames play. Everything fallible returns a result.

  \<^bold>\<open>How it is modelled.\<close> A class or struct is a record, an enum a datatype, a function a function of the same name, a
  loop a recursion. A 64-bit unsigned integer is a natural number below \<^verbatim>\<open>2^64\<close>, and its arithmetic wraps: \<open>add64\<close>,
  \<open>sub64\<close>, \<open>mul64\<close>. Results are \<open>Error + 'a\<close>; an exception, or a loop that does not end, is \<open>None\<close>, and that it does
  not happen is proved, not assumed. Callbacks and libraries outside the repository act on a world of type \<open>'w\<close>. Loops
  whose counter the caller controls are partial functions; no fuel is used.

  \<^item> \<open>Prelude\<close>, \<open>Types\<close>: 64-bit arithmetic, blocks, lists of indices; \<open>include/carta-zarr/error.h\<close>, \<open>descriptor.h\<close>,
    \<open>read.h\<close>, \<open>src/zarr/data_type.h\<close>, \<open>src/axis_map.h\<close>.
  \<^item> \<open>Chunk_Blocks\<close>: \<open>src/chunk_blocks.h\<close>, \<open>src/pixel_mask.h\<close>. Blocks end on chunk boundaries, the counts of chunks
    touched and sampled are the sizes of the sets they stand for.
  \<^item> \<open>Pixel_Selection\<close>: \<open>src/zarr/pixel_selection.cc\<close>. Which requests are accepted, and which stored elements they name.
  \<^item> \<open>Pieces\<close>, \<open>Pixel_Reader\<close>: \<open>src/read/pieces.cc\<close>, \<open>src/read/pieces_read.cc\<close>, \<open>src/zarr/pixel_reader.cc\<close>,
    \<open>src/store_pixel_source.h\<close>. The pieces of a plan tile the request and share no chunk; a read in pieces delivers the
    request; the contract of a pixel source is a locale, and the adapter over TensorStore keeps it.
  \<^item> \<open>Array_Metadata\<close>: \<open>src/zarr/array_metadata.cc\<close>, \<open>src/schema/chunk_geometry.h\<close>. Parsing never throws, and what it
    accepts has a layout and a geometry.
  \<^item> \<open>Node_Names\<close>, \<open>String_Array\<close>, \<open>Numeric_Array\<close>, \<open>Store\<close>: \<open>src/store.cc\<close>, \<open>src/memo.h\<close>,
    \<open>src/zarr/string_array.cc\<close>, \<open>src/zarr/numeric_array.cc\<close>, \<open>src/dataset_size.cc\<close>. Canonical names; labels written in
    any supported encoding are read back; a table is a locale, interpreted on each of the six of a store; any sequence
    of calls returns, answers do not change, and what is read agrees with what was described.
  \<^item> \<open>Image_Variables\<close>, \<open>Image_Listing\<close>: \<open>src/schema/xradio/coordinates.cc\<close>, \<open>flag.cc\<close>, \<open>qualification.cc\<close>,
    \<open>probe_report.cc\<close>, \<open>direction.cc\<close>, the listing of \<open>image.cc\<close>, and \<open>src/schema/profile.cc\<close>. An image that qualifies has the five
    axes a pixel selection needs; the flag chosen fits; what a listing offers is what opens; a supported dataset opens.
  \<^item> \<open>Counting_Sort\<close>, \<open>Region_Runs\<close>, \<open>Placed_Region\<close>, \<open>Occupancy\<close>, \<open>Occupied_Footprints\<close>:
    \<open>src/reduce/region_runs.cc\<close>, \<open>src/reduce/occupancy.cc\<close>. Runs equal the edges of a raster; the index names the regions
    touching a chunk; footprints partition the occupied chunks.
  \<^item> \<open>Pass_Plan\<close>, \<open>Pass\<close>: \<open>src/reduce/pass.h\<close>, \<open>pass_plan.h\<close>, \<open>pass_read.cc\<close>, \<open>plane_selection.h\<close>. A pass reads every
    sampled pixel once, its blocks tile the selection, its progress reaches one exactly at the end.
  \<^item> \<open>Work_Pool\<close>: \<open>src/work_pool.cc\<close>, \<open>src/reduce/task_split.h\<close>, as a step relation over every interleaving: no task
    runs twice, a call returns, the first exception is handed over.
  \<^item> \<open>Read_Ahead\<close>, \<open>Prefetched_Runs\<close>: \<open>src/read_ahead.cc\<close>, the policy as a function and its threads as a step relation:
    one prefetch at a time, nothing started after a stop, and a prefetched run is decoded.

  \<^bold>\<open>Not modelled.\<close> Histograms, statistics and the spectral reduction accumulate in IEEE floating point, for which the
  library theories used here have no model; pixels are opaque values, and masking them with NaN is. Of the schema profile, the
  description of one image, which fits linear axes in floating point, its beams and its observation: the arithmetic of doubles
  is a parameter where the coordinate system is read. The filesystem transport, TensorStore,
  the JSON parser and the decompressors, whose documented behaviour appears as parameters with named hypotheses; the
  entry points of \<open>src/carta_zarr.cc\<close> beyond what reading ahead asks of an image; and the benchmark. Allocation failure
  is not modelled.
\<close>

end
